(* ===== verification/Prelude.thy ===== *)
theory Prelude
  imports Main "HOL-Library.Word"
begin

text \<open>
  Shared vocabulary of the development: names for the fixed-width integer types of the C++
  code, the list operations that stand for writes into a byte buffer, the little-endian and
  big-endian byte codecs that several translation units repeat, and the generic facts about
  words and lists that the component theories use through the collections
  \<open>word_nat\<close> (words read as natural numbers) and \<open>buffer\<close> (reads after writes).
\<close>

unbundle bit_operations_syntax

named_theorems word_nat \<open>reading words as natural numbers\<close>
named_theorems buffer \<open>reads from concatenated and updated buffers\<close>

type_synonym u8 = "8 word"
type_synonym u16 = "16 word"
type_synonym u32 = "32 word"
type_synonym u64 = "64 word"
type_synonym bytes = "u8 list"

section \<open>Buffers\<close>

text \<open>\<open>memcpy (dst + off, src, size)\<close> for a destination that is large enough.\<close>

definition put_at :: "'a list \<Rightarrow> nat \<Rightarrow> 'a list \<Rightarrow> 'a list" where
  "put_at xs off ys = take off xs @ ys @ drop (off + length ys) xs"

lemma length_put_at [simp]:
  "off + length ys \<le> length xs \<Longrightarrow> length (put_at xs off ys) = length xs"
  by (simp add: put_at_def)

lemma put_at_Nil [simp]: "put_at xs off [] = xs"
  by (simp add: put_at_def)

lemma nth_put_at [buffer]:
  assumes "off + length ys \<le> length xs"
  shows "put_at xs off ys ! i =
    (if i < off then xs ! i else if i < off + length ys then ys ! (i - off) else xs ! i)"
  using assms by (auto simp: put_at_def nth_append)

lemma put_at_append [buffer]:
  "length pre = off \<Longrightarrow> length old = length ys \<Longrightarrow> put_at (pre @ old @ post) off ys = pre @ ys @ post"
  by (simp add: put_at_def)

text \<open>The sub-range \<open>[from, until)\<close> of a buffer.\<close>

definition slice_of :: "'a list \<Rightarrow> nat \<Rightarrow> nat \<Rightarrow> 'a list" where
  "slice_of xs from until = take (until - from) (drop from xs)"

lemma length_slice_of [simp]:
  "until \<le> length xs \<Longrightarrow> length (slice_of xs from until) = until - from"
  by (simp add: slice_of_def)

lemma slice_of_append [buffer]:
  "length pre = from \<Longrightarrow> until = from + length mid \<Longrightarrow> slice_of (pre @ mid @ post) from until = mid"
  by (simp add: slice_of_def)

section \<open>Little-endian 32-bit codec\<close>

definition rd_u32 :: "bytes \<Rightarrow> nat \<Rightarrow> u32" where
  "rd_u32 d p =
     ucast (d ! p) OR push_bit 8 (ucast (d ! (p + 1))) OR
     push_bit 16 (ucast (d ! (p + 2))) OR push_bit 24 (ucast (d ! (p + 3)))"

definition le32 :: "u32 \<Rightarrow> bytes" where
  "le32 v = [ucast v, ucast (drop_bit 8 v), ucast (drop_bit 16 v), ucast (drop_bit 24 v)]"

definition wr_u32 :: "bytes \<Rightarrow> nat \<Rightarrow> u32 \<Rightarrow> bytes" where
  "wr_u32 d p v = put_at d p (le32 v)"

lemma length_le32 [simp]: "length (le32 v) = 4"
  by (simp add: le32_def)

lemma less_numeral_cases:
  "n < 32 \<Longrightarrow> n < 8 \<or> (8 \<le> n \<and> n < 16) \<or> (16 \<le> n \<and> n < 24) \<or> (24 \<le> n \<and> n < (32::nat))"
  by linarith

lemma le32_reassemble:
  fixes v :: u32
  shows "ucast (ucast v :: u8) OR push_bit 8 (ucast (ucast (drop_bit 8 v) :: u8)) OR
    push_bit 16 (ucast (ucast (drop_bit 16 v) :: u8)) OR
    push_bit 24 (ucast (ucast (drop_bit 24 v) :: u8)) = v" (is "?lhs = v")
proof (rule bit_word_eqI)
  fix n :: nat
  assume "n < LENGTH(32)"
  then have "n < 32" by simp
  from less_numeral_cases [OF this]
  show "bit ?lhs n = bit v n"
    by (elim disjE conjE) (auto simp: bit_simps)
qed

lemma rd_u32_le32 [buffer]:
  "length pre = p \<Longrightarrow> rd_u32 (pre @ le32 v @ post) p = v"
  by (simp add: rd_u32_def le32_def nth_append le32_reassemble)

section \<open>Words as natural numbers\<close>

lemma unat_of_nat_small [word_nat]:
  "n < 2 ^ LENGTH('a) \<Longrightarrow> unat (of_nat n :: 'a::len word) = n"
  by (simp add: unat_of_nat take_bit_nat_eq_self)

lemma push_bit_one_of_nat [word_nat]: "push_bit n (1 :: 'a::len word) = of_nat (2 ^ n)"
  by (simp add: push_bit_eq_mult)

lemma push_bit_of_nat_word [word_nat]: "push_bit n (of_nat m :: 'a::len word) = of_nat (m * 2 ^ n)"
  by (simp add: push_bit_eq_mult)

lemma ucast_of_nat_u32_u64 [word_nat]: "n < 2 ^ 32 \<Longrightarrow> ucast (of_nat n :: u32) = (of_nat n :: u64)"
  by (simp add: unsigned_of_nat take_bit_nat_eq_self)

lemma ucast_of_nat_u64_u32 [word_nat]: "n < 2 ^ 64 \<Longrightarrow> ucast (of_nat n :: u64) = (of_nat n :: u32)"
  by (simp add: unsigned_of_nat take_bit_nat_eq_self)

lemma div_of_nat_word [word_nat]:
  "a < 2 ^ LENGTH('a) \<Longrightarrow> b < 2 ^ LENGTH('a) \<Longrightarrow> (of_nat a :: 'a::len word) div of_nat b = of_nat (a div b)"
  by (simp add: word_arith_nat_div unat_of_nat_small)

lemma mod_of_nat_word [word_nat]:
  "a < 2 ^ LENGTH('a) \<Longrightarrow> b < 2 ^ LENGTH('a) \<Longrightarrow> (of_nat a :: 'a::len word) mod of_nat b = of_nat (a mod b)"
  by (simp add: word_arith_nat_mod unat_of_nat_small)

lemma drop_bit_of_nat_word [word_nat]:
  assumes "a < 2 ^ LENGTH('a)"
  shows "drop_bit n (of_nat a :: 'a::len word) = of_nat (a div 2 ^ n)"
proof -
  have "unat (drop_bit n (of_nat a :: 'a word)) = a div 2 ^ n"
    unfolding unat_drop_bit_eq unat_of_nat_small [OF assms] by (rule drop_bit_eq_div)
  then have "of_nat (unat (drop_bit n (of_nat a :: 'a word))) = (of_nat (a div 2 ^ n) :: 'a word)"
    by (rule arg_cong)
  then show ?thesis by (simp only: of_nat_unat ucast_id)
qed

lemma diff_of_nat_word [word_nat]: "b \<le> a \<Longrightarrow> (of_nat a :: 'a::len word) - of_nat b = of_nat (a - b)"
  by (simp add: of_nat_diff)

lemma less_of_nat_word [word_nat]:
  "a < 2 ^ LENGTH('a) \<Longrightarrow> b < 2 ^ LENGTH('a) \<Longrightarrow> (of_nat a :: 'a::len word) < of_nat b \<longleftrightarrow> a < b"
  by (simp add: word_less_nat_alt unat_of_nat_small)

lemma le_of_nat_word [word_nat]:
  "a < 2 ^ LENGTH('a) \<Longrightarrow> b < 2 ^ LENGTH('a) \<Longrightarrow> (of_nat a :: 'a::len word) \<le> of_nat b \<longleftrightarrow> a \<le> b"
  by (simp add: word_le_nat_alt unat_of_nat_small)

lemma unat_drop_bit_div [word_nat]: "unat (drop_bit n w) = unat w div 2 ^ n"
  unfolding unat_drop_bit_eq by (rule drop_bit_eq_div)

lemma unat_ucast_u64_u32 [word_nat]:
  fixes w :: u64
  shows "unat w < 2 ^ 32 \<Longrightarrow> unat (ucast w :: u32) = unat w"
  by (simp add: unsigned_ucast_eq take_bit_nat_eq_self)

lemma of_nat_pred_power:
  "(of_nat a + 2 ^ n - 1 :: 'a::len word) = of_nat (a + 2 ^ n - 1)"
proof -
  have "1 \<le> a + (2::nat) ^ n" by (simp add: Suc_leI)
  then show ?thesis by (simp only: of_nat_diff of_nat_add of_nat_power of_nat_numeral of_nat_1)
qed

section \<open>Row-major indices\<close>

lemma idx2_less: "y < B \<Longrightarrow> x < D \<Longrightarrow> y * D + x < B * (D :: nat)"
proof -
  assume a: "y < B" "x < D"
  then have "y * D + x < (y + 1) * D" by simp
  also have "\<dots> \<le> B * D" using a by (intro mult_le_mono1) simp
  finally show ?thesis .
qed

lemma idx3_less: "c < A \<Longrightarrow> y < B \<Longrightarrow> x < D \<Longrightarrow> (c * B + y) * D + x < A * B * (D :: nat)"
  by (intro idx2_less)

lemma idx2_inj: "x < D \<Longrightarrow> x' < D \<Longrightarrow> y * D + x = y' * D + x' \<longleftrightarrow> y = y' \<and> x = (x' :: nat)"
proof
  assume a: "x < D" "x' < D" "y * D + x = y' * D + x'"
  have "y = y'" using arg_cong[OF a(3), of "\<lambda>n. n div D"] a(1,2) by simp
  with a(3) show "y = y' \<and> x = x'" by simp
qed simp

lemma idx3_inj:
  "y < B \<Longrightarrow> y' < B \<Longrightarrow> x < D \<Longrightarrow> x' < D \<Longrightarrow>
     (c * B + y) * D + x = (c' * B + y') * D + x' \<longleftrightarrow> c = c' \<and> y = y' \<and> x = (x' :: nat)"
  by (auto simp: idx2_inj)

lemma idx2_decode: "j < B * (D :: nat) \<Longrightarrow> \<exists>y < B. \<exists>x < D. j = y * D + x"
proof -
  assume j: "j < B * D"
  then have "0 < D" by (cases D) auto
  have "j = j div D * D + j mod D" by simp
  moreover have "j div D < B" using j \<open>0 < D\<close> by (simp add: less_mult_imp_div_less)
  ultimately show ?thesis using \<open>0 < D\<close> by (metis mod_less_divisor)
qed

lemma idx3_decode: "j < A * B * (D :: nat) \<Longrightarrow> \<exists>c < A. \<exists>y < B. \<exists>x < D. j = (c * B + y) * D + x"
  using idx2_decode[of j "A * B" D] idx2_decode[of _ A B] by metis

lemma idx2_div: "x < D \<Longrightarrow> (y * D + x) div D = (y :: nat)"
  and idx2_mod: "x < D \<Longrightarrow> (y * D + x) mod D = (x :: nat)"
  by simp_all

lemma bit_odd_unat: "bit w n \<longleftrightarrow> odd (unat w div 2 ^ n)"
proof -
  have "bit w n \<longleftrightarrow> bit (unat w) n" by (simp add: bit_unsigned_iff)
  then show ?thesis by (simp add: bit_iff_odd)
qed

end
