(* ===== verification/Status.thy ===== *)
theory Status
  imports Prelude
begin

text \<open>
  The status codes and the diagnostic chain of the core: \<open>core/include/rkvc/status.hpp\<close>,
  \<open>core/src/status.cpp\<close>, \<open>core/include/rkvc/result.hpp\<close>, \<open>core/include/rkvc/diag.hpp\<close> and
  \<open>core/src/diag.cpp\<close>. A \<open>Result<T>\<close> of the code is a value of \<open>'a result\<close>: \<open>Inl\<close> carries
  the status together with the reason the code adds to the caller's \<open>Diag\<close> (the empty
  string where it adds none), \<open>Inr\<close> the value.
\<close>

section \<open>Status codes\<close>

datatype status =
    Ok | Nomem | Invalid | NotFound | Io | Hw | Eof | Again | Format | Negotiate
  | Permission | Canceled | Unsupported | Internal | Model_err | License | Integrity

primrec status_code :: "status \<Rightarrow> int" where
  "status_code Ok = 0"
| "status_code Nomem = -1"
| "status_code Invalid = -2"
| "status_code NotFound = -3"
| "status_code Io = -4"
| "status_code Hw = -5"
| "status_code Eof = -6"
| "status_code Again = -7"
| "status_code Format = -8"
| "status_code Negotiate = -9"
| "status_code Permission = -10"
| "status_code Canceled = -11"
| "status_code Unsupported = -12"
| "status_code Internal = -13"
| "status_code Model_err = -14"
| "status_code License = -15"
| "status_code Integrity = -16"

definition is_ok :: "status \<Rightarrow> bool" where
  "is_ok s \<longleftrightarrow> s = Ok"

definition is_flow :: "status \<Rightarrow> bool" where
  "is_flow s \<longleftrightarrow> s = Again \<or> s = Eof"

primrec status_string :: "status \<Rightarrow> string" where
  "status_string Ok = ''ok''"
| "status_string Nomem = ''no memory''"
| "status_string Invalid = ''invalid argument''"
| "status_string NotFound = ''not found''"
| "status_string Io = ''i/o error''"
| "status_string Hw = ''hardware error''"
| "status_string Eof = ''end of stream''"
| "status_string Again = ''try again''"
| "status_string Format = ''format mismatch''"
| "status_string Negotiate = ''negotiation failed''"
| "status_string Permission = ''permission denied''"
| "status_string Canceled = ''canceled''"
| "status_string Unsupported = ''unsupported''"
| "status_string Internal = ''internal error''"
| "status_string Model_err = ''model error''"
| "status_string License = ''license error''"
| "status_string Integrity = ''integrity error''"

lemma status_code_inj: "status_code s = status_code t \<longleftrightarrow> s = t"
  by (cases s; cases t) simp_all

section \<open>Results\<close>

type_synonym 'a result = "(status \<times> string) + 'a"

text \<open>\<open>Result<T>::failure\<close> and the accessor \<open>Result<T>::status\<close>.\<close>

abbreviation reject :: "status \<Rightarrow> string \<Rightarrow> 'a result" where
  "reject s why \<equiv> Inl (s, why)"

definition result_status :: "'a result \<Rightarrow> status" where
  "result_status r = (case r of Inl (s, _) \<Rightarrow> s | Inr _ \<Rightarrow> Ok)"

definition result_ok :: "'a result \<Rightarrow> bool" where
  "result_ok r = (case r of Inl _ \<Rightarrow> False | Inr _ \<Rightarrow> True)"

lemma result_status_simps [simp]:
  "result_status (Inl (s, w)) = s" "result_status (Inr x) = Ok"
  by (simp_all add: result_status_def)

lemma result_ok_simps [simp]:
  "\<not> result_ok (Inl e)" "result_ok (Inr x)"
  by (simp_all add: result_ok_def)

section \<open>Diagnostics\<close>

record diag_entry =
  stage :: string
  subject :: string
  reason :: string

type_synonym diag = "diag_entry list"

definition diag_add :: "diag \<Rightarrow> string \<Rightarrow> string \<Rightarrow> string \<Rightarrow> diag" where
  "diag_add d st su re = d @ [\<lparr>stage = st, subject = su, reason = re\<rparr>]"

primrec diag_format :: "diag \<Rightarrow> string" where
  "diag_format [] = []"
| "diag_format (e # es) =
     stage e @ ''('' @ subject e @ ''): '' @ reason e @ [CHR 0x0A] @ diag_format es"

lemma diag_format_append: "diag_format (d @ e) = diag_format d @ diag_format e"
  by (induction d) simp_all

end
