(* ===== verification/Rans.thy ===== *)
theory Rans
  imports Status "HOL-Library.Monad_Syntax"
begin

text \<open>
  The rANS entropy coder of \<open>codecs/mlvc/src/rans.cpp\<close>: the coder tables built by
  \<open>RansCoder::create\<close>, the back-to-front streaming encoder and the decoder, in both variants
  (32-bit state with byte units, 64-bit state with 32-bit units).

  Machine integers are words of their width; \<open>int32_t\<close> values are integers (the code's signed
  arithmetic is undefined on overflow, and the properties restrict the values so that none
  happens); sizes and buffer positions are natural numbers. A loop whose termination depends on
  the tables is a \<open>partial_function\<close>: \<open>None\<close> says that it does not return.
\<close>

unbundle bit_operations_syntax

section \<open>Data\<close>

datatype rans_variant = RansByte | Rans64

record enc_sym =
  x_max_hi :: u32
  freq_rcp_shift :: nat
  freq_rcp :: u32
  freq_rcp_hi :: u32
  freq_cmpl :: u32
  bias :: u32

record rans_dist =
  value_offset :: int
  bypass_sentinel :: int
  enc_sym_offset :: nat
  dec_cdf_offset :: nat

record rans_coder =
  variant :: rans_variant
  symbol_bits :: nat
  bypass_bits :: nat
  bypass_max :: u32
  dists :: "rans_dist list"
  enc_syms :: "enc_sym list"
  cdf_table :: "u32 list"

definition kByteLower :: u32 where
  "kByteLower = push_bit 23 1"

definition k64Lower :: u64 where
  "k64Lower = push_bit 31 1"

definition kByteMaxScale :: nat where
  "kByteMaxScale = 30"

section \<open>Reciprocal tables\<close>

text \<open>The 128-bit product branch of \<open>mul64hi\<close>, and the branch for compilers without it.\<close>

definition mul64hi :: "u64 \<Rightarrow> u64 \<Rightarrow> u64" where
  "mul64hi a b = ucast (drop_bit 64 (ucast a * ucast b :: 128 word))"

definition mul64hi_portable :: "u64 \<Rightarrow> u64 \<Rightarrow> u64" where
  "mul64hi_portable a b =
     (let a_lo = ucast (ucast a :: u32) :: u64; a_hi = drop_bit 32 a;
          b_lo = ucast (ucast b :: u32) :: u64; b_hi = drop_bit 32 b;
          lo = a_lo * b_lo;
          mid = a_hi * b_lo + a_lo * b_hi + drop_bit 32 lo
      in a_hi * b_hi + drop_bit 32 mid)"

text \<open>
  \<open>while (freq > (1u << shift)) ++shift\<close>. A shift by 32 or more is undefined in C++; the
  frequencies of \<open>create\<close> are below \<open>2 ^ 31\<close>, so that the bound on \<open>shift\<close> is never what ends
  the loop (lemma \<open>rcp_shift_exit\<close>).
\<close>

function rcp_shift :: "u32 \<Rightarrow> nat \<Rightarrow> nat" where
  "rcp_shift freq shift =
     (if shift < 32 \<and> push_bit shift 1 < freq then rcp_shift freq (Suc shift) else shift)"
  by pat_completeness auto
termination
  by (relation "measure (\<lambda>(freq, shift). 32 - shift)") auto

declare rcp_shift.simps [simp del]

definition enc_sym_init_byte :: "u32 \<Rightarrow> u32 \<Rightarrow> nat \<Rightarrow> enc_sym" where
  "enc_sym_init_byte start freq scale_bits =
     (let scale = push_bit scale_bits 1;
          x_max = push_bit (31 - scale_bits) freq;
          cmpl = scale - freq
      in if 1 < freq
         then let shift = rcp_shift freq 1;
                  nom = push_bit (shift + 32 - 1) 1 + ucast (freq - 1) :: u64
              in \<lparr>x_max_hi = x_max, freq_rcp_shift = shift - 1 + 32,
                  freq_rcp = ucast (nom div ucast freq), freq_rcp_hi = 0,
                  freq_cmpl = cmpl, bias = start\<rparr>
         else \<lparr>x_max_hi = x_max, freq_rcp_shift = 32, freq_rcp = 0xFFFFFFFF,
               freq_rcp_hi = 0, freq_cmpl = cmpl, bias = start + scale - 1\<rparr>)"

definition enc_sym_init_64 :: "u32 \<Rightarrow> u32 \<Rightarrow> nat \<Rightarrow> enc_sym" where
  "enc_sym_init_64 start freq scale_bits =
     (let scale = push_bit scale_bits 1;
          x_max = push_bit (31 - scale_bits) freq;
          cmpl = scale - freq
      in if 1 < freq
         then let shift = rcp_shift freq 1;
                  x1 = push_bit (shift + 31) 1 :: u64;
                  t1 = x1 div ucast freq;
                  x0 = ucast (freq - 1) + push_bit 32 (x1 mod ucast freq);
                  t0 = x0 div ucast freq;
                  rcp = t0 + push_bit 32 t1
              in \<lparr>x_max_hi = x_max, freq_rcp_shift = shift - 1,
                  freq_rcp = ucast rcp, freq_rcp_hi = ucast (drop_bit 32 rcp),
                  freq_cmpl = cmpl, bias = start\<rparr>
         else \<lparr>x_max_hi = x_max, freq_rcp_shift = 0, freq_rcp = 0xFFFFFFFF,
               freq_rcp_hi = 0xFFFFFFFF, freq_cmpl = cmpl, bias = start + scale - 1\<rparr>)"

definition enc_sym_init :: "rans_variant \<Rightarrow> u32 \<Rightarrow> u32 \<Rightarrow> nat \<Rightarrow> enc_sym" where
  "enc_sym_init v start freq scale_bits =
     (case v of RansByte \<Rightarrow> enc_sym_init_byte start freq scale_bits
      | Rans64 \<Rightarrow> enc_sym_init_64 start freq scale_bits)"

section \<open>\<open>RansCoder::create\<close>\<close>

text \<open>The loop over \<open>lengths\<close>: one distribution each, \<open>cursor\<close> running through the table.\<close>

fun create_dists :: "nat \<Rightarrow> nat \<Rightarrow> int list \<Rightarrow> int list \<Rightarrow> (rans_dist list \<times> nat) result" where
  "create_dists table_size cursor (len # lens) (off # offs) =
     (if len \<le> 1 \<or> table_size - cursor < nat len then reject Format ''bad dist length''
      else case create_dists table_size (cursor + nat len) lens offs of
             Inl e \<Rightarrow> Inl e
           | Inr (ds, cur) \<Rightarrow>
               Inr (\<lparr>value_offset = off, bypass_sentinel = len - 1,
                     enc_sym_offset = cursor, dec_cdf_offset = 0\<rparr> # ds, cur))"
| "create_dists table_size cursor _ _ = Inr ([], cursor)"

text \<open>\<open>freq > 0 && freq <= static_cast<int32_t>(max_freq - start)\<close>.\<close>

definition freq_ok :: "u32 \<Rightarrow> int \<Rightarrow> int \<Rightarrow> bool" where
  "freq_ok max_freq start freq \<longleftrightarrow> 0 < freq \<and> freq \<le> sint (max_freq - word_of_int start)"

fun dist_syms :: "rans_variant \<Rightarrow> nat \<Rightarrow> u32 \<Rightarrow> int \<Rightarrow> int list \<Rightarrow> enc_sym list result" where
  "dist_syms v bits max_freq start [] = Inr []"
| "dist_syms v bits max_freq start (freq # freqs) =
     (if \<not> freq_ok max_freq start freq then reject Format ''bad freq''
      else case dist_syms v bits max_freq (start + freq) freqs of
             Inl e \<Rightarrow> Inl e
           | Inr ss \<Rightarrow> Inr (enc_sym_init v (word_of_int start) (word_of_int freq) bits # ss))"

fun all_syms :: "rans_variant \<Rightarrow> nat \<Rightarrow> u32 \<Rightarrow> int list \<Rightarrow> rans_dist list \<Rightarrow> enc_sym list result" where
  "all_syms v bits max_freq table [] = Inr []"
| "all_syms v bits max_freq table (d # ds) =
     (let n = nat (bypass_sentinel d + 1)
      in case dist_syms v bits max_freq 0 (take n table) of
           Inl e \<Rightarrow> Inl e
         | Inr ss \<Rightarrow>
             (case all_syms v bits max_freq (drop n table) ds of
                Inl e \<Rightarrow> Inl e
              | Inr rest \<Rightarrow> Inr (ss @ rest)))"

fun dist_cdf :: "u32 \<Rightarrow> int \<Rightarrow> int list \<Rightarrow> u32 list result" where
  "dist_cdf max_freq start [] = Inr [word_of_int start]"
| "dist_cdf max_freq start (freq # freqs) =
     (if \<not> freq_ok max_freq start freq then reject Format ''bad freq''
      else case dist_cdf max_freq (start + freq) freqs of
             Inl e \<Rightarrow> Inl e
           | Inr cs \<Rightarrow> Inr (word_of_int start # cs))"

text \<open>
  The second loop over the distributions: \<open>d\<close> counts them, \<open>tbl\<close> runs through the table, and a
  distribution of \<open>n\<close> frequencies owns the \<open>n + 1\<close> entries at \<open>tbl + d\<close>.
\<close>

fun all_cdf :: "u32 \<Rightarrow> nat \<Rightarrow> nat \<Rightarrow> int list \<Rightarrow> rans_dist list \<Rightarrow> (rans_dist list \<times> u32 list) result" where
  "all_cdf max_freq d tbl table [] = Inr ([], [])"
| "all_cdf max_freq d tbl table (desc # ds) =
     (let n = nat (bypass_sentinel desc + 1)
      in case dist_cdf max_freq 0 (take n table) of
           Inl e \<Rightarrow> Inl e
         | Inr cs \<Rightarrow>
             (case all_cdf max_freq (Suc d) (tbl + n) (drop n table) ds of
                Inl e \<Rightarrow> Inl e
              | Inr (ds', rest) \<Rightarrow>
                  Inr (desc\<lparr>dec_cdf_offset := tbl + d\<rparr> # ds', cs @ rest)))"

definition rans_create :: "rans_variant \<Rightarrow> int list \<Rightarrow> int list \<Rightarrow> int list \<Rightarrow> int \<Rightarrow> int \<Rightarrow> rans_coder result" where
  "rans_create v lengths offsets table sym_bits byp_bits =
     (let max_scale = (if v = RansByte then int kByteMaxScale else 31)
      in if lengths = [] \<or> length lengths \<noteq> length offsets \<or> table = []
         then reject Invalid ''bad pmf spans''
         else if sym_bits < 2 \<or> sym_bits > max_scale \<or> byp_bits < 2 \<or> byp_bits > max_scale
         then reject Invalid ''bad scale bits''
         else case create_dists (length table) 0 lengths offsets of
           Inl e \<Rightarrow> Inl e
         | Inr (ds, cursor) \<Rightarrow>
             if cursor \<noteq> length table then reject Format ''table size mismatch''
             else let max_freq = push_bit (nat sym_bits) 1
               in case all_syms v (nat sym_bits) max_freq table ds of
                    Inl e \<Rightarrow> Inl e
                  | Inr syms \<Rightarrow>
                      (case all_cdf max_freq 0 0 table ds of
                         Inl e \<Rightarrow> Inl e
                       | Inr (ds', cdf) \<Rightarrow>
                           Inr \<lparr>variant = v, symbol_bits = nat sym_bits,
                                bypass_bits = nat byp_bits,
                                bypass_max = push_bit (nat byp_bits) 1 - 1,
                                dists = ds', enc_syms = syms, cdf_table = cdf\<rparr>))"

section \<open>The encoder\<close>

text \<open>
  The bytes already produced are \<open>[e_ptr, length e_buf)\<close>: the encoder writes downwards.
\<close>

record rans_encoder =
  e_variant :: rans_variant
  e_state :: u64
  e_buf :: bytes
  e_ptr :: nat
  e_flushed :: bool
  e_oom :: bool

definition initial_state :: "rans_variant \<Rightarrow> u64" where
  "initial_state v = (case v of RansByte \<Rightarrow> ucast kByteLower | Rans64 \<Rightarrow> k64Lower)"

definition new_encoder :: "rans_variant \<Rightarrow> nat \<Rightarrow> rans_encoder" where
  "new_encoder v initial_capacity =
     (let cap = (if initial_capacity < 512 then 512 else initial_capacity)
      in \<lparr>e_variant = v, e_state = initial_state v, e_buf = replicate cap 0, e_ptr = cap,
          e_flushed = False, e_oom = False\<rparr>)"

text \<open>\<open>grow\<close>: sizes are \<open>size_t\<close>, so doubling wraps modulo \<open>2 ^ 64\<close>.\<close>

definition grow :: "rans_encoder \<Rightarrow> bool \<times> rans_encoder" where
  "grow e =
     (if e_oom e \<or> e_buf e = [] then (False, e)
      else let cap = length (e_buf e);
               ncap0 = (cap * 2) mod 2 ^ 64;
               cap1 = (cap + 65536) mod 2 ^ 64;
               ncap = (if ncap0 < cap1 then cap1 else ncap0)
           in if ncap \<le> cap then (False, e\<lparr>e_oom := True\<rparr>)
              else let content = cap - e_ptr e
                   in (True, e\<lparr>e_buf := put_at (replicate ncap 0) (ncap - content) (drop (e_ptr e) (e_buf e)),
                              e_ptr := ncap - content\<rparr>))"

definition write_byte :: "rans_encoder \<Rightarrow> u8 \<Rightarrow> rans_encoder" where
  "write_byte e v =
     (if e_oom e \<or> e_buf e = [] then e
      else let (ok, e') = (if e_ptr e = 0 then grow e else (True, e))
           in if \<not> ok \<or> e_ptr e' = 0 then e'
              else e'\<lparr>e_ptr := e_ptr e' - 1, e_buf := (e_buf e')[e_ptr e' - 1 := v]\<rparr>)"

definition write_unit32 :: "rans_encoder \<Rightarrow> u32 \<Rightarrow> rans_encoder" where
  "write_unit32 e v =
     (if e_oom e \<or> e_buf e = [] then e
      else let (ok, e') = (if e_ptr e < 4 then grow e else (True, e))
           in if \<not> ok \<or> e_ptr e' < 4 then e'
              else e'\<lparr>e_ptr := e_ptr e' - 4, e_buf := put_at (e_buf e') (e_ptr e' - 4) (le32 v)\<rparr>)"

text \<open>\<open>while (x >= x_max) { write_byte(x); x >>= 8; }\<close>: with \<open>x_max = 0\<close> it does not return.\<close>

partial_function (option) renorm_byte_loop :: "u32 \<Rightarrow> u32 \<Rightarrow> rans_encoder \<Rightarrow> (u32 \<times> rans_encoder) option" where
  "renorm_byte_loop x_max x e =
     (if x \<ge> x_max then renorm_byte_loop x_max (drop_bit 8 x) (write_byte e (ucast x))
      else Some (x, e))"

declare renorm_byte_loop.simps [code]

definition renorm_byte :: "rans_encoder \<Rightarrow> u32 \<Rightarrow> rans_encoder option" where
  "renorm_byte e x_max =
     do { (x, e') \<leftarrow> renorm_byte_loop x_max (ucast (e_state e)) e;
          Some (e'\<lparr>e_state := ucast x\<rparr>) }"

definition renorm_64 :: "rans_encoder \<Rightarrow> u64 \<Rightarrow> rans_encoder" where
  "renorm_64 e x_max =
     (let x = e_state e
      in if x \<ge> x_max then (write_unit32 e (ucast x))\<lparr>e_state := drop_bit 32 x\<rparr> else e)"

definition put_sym_byte :: "rans_encoder \<Rightarrow> enc_sym \<Rightarrow> rans_encoder option" where
  "put_sym_byte e s =
     do { e' \<leftarrow> renorm_byte e (x_max_hi s);
          let x = (ucast (e_state e') :: u32);
          let q = (ucast (drop_bit (freq_rcp_shift s) (ucast x * ucast (freq_rcp s) :: u64)) :: u32);
          Some (e'\<lparr>e_state := ucast (x + (q * freq_cmpl s + bias s))\<rparr>) }"

definition put_sym_64 :: "rans_encoder \<Rightarrow> enc_sym \<Rightarrow> rans_encoder option" where
  "put_sym_64 e s =
     (let e' = renorm_64 e (push_bit 32 (ucast (x_max_hi s)));
          x = e_state e';
          rcp = push_bit 32 (ucast (freq_rcp_hi s)) OR ucast (freq_rcp s);
          q = drop_bit (freq_rcp_shift s) (mul64hi x rcp)
      in Some (e'\<lparr>e_state := x + (q * ucast (freq_cmpl s) + ucast (bias s))\<rparr>))"

definition put_raw :: "rans_encoder \<Rightarrow> u32 \<Rightarrow> u32 \<Rightarrow> nat \<Rightarrow> rans_encoder option" where
  "put_raw e start freq scale_bits =
     (case e_variant e of
        RansByte \<Rightarrow>
          do { e' \<leftarrow> renorm_byte e (push_bit (31 - scale_bits) freq);
               let x = (ucast (e_state e') :: u32);
               Some (e'\<lparr>e_state := ucast (push_bit scale_bits (x div freq) + start + x mod freq)\<rparr>) }
      | Rans64 \<Rightarrow>
          (let e' = renorm_64 e (push_bit (63 - scale_bits) (ucast freq));
               x = e_state e'
           in Some (e'\<lparr>e_state := push_bit scale_bits (x div ucast freq) + ucast start + x mod ucast freq\<rparr>)))"

text \<open>\<open>RansEncoder::bypass\<close>: the digits of \<open>v\<close>, lowest first, are collected in \<open>buf\<close>.\<close>

partial_function (option) bypass_digits :: "u32 \<Rightarrow> nat \<Rightarrow> u32 \<Rightarrow> u32 list option" where
  "bypass_digits b_max bits v =
     (if v \<noteq> 0
      then do { ds \<leftarrow> bypass_digits b_max bits (drop_bit bits v); Some ((v AND b_max) # ds) }
      else Some [])"

declare bypass_digits.simps [code]

partial_function (option) bypass_count :: "u32 \<Rightarrow> u32 \<Rightarrow> nat \<Rightarrow> (u32 \<times> nat) option" where
  "bypass_count b_max count prefix =
     (if count \<ge> b_max then bypass_count b_max (count - b_max) (Suc prefix)
      else Some (count, prefix))"

declare bypass_count.simps [code]

fun put_raw_list :: "rans_encoder \<Rightarrow> u32 list \<Rightarrow> nat \<Rightarrow> rans_encoder option" where
  "put_raw_list e [] bits = Some e"
| "put_raw_list e (v # vs) bits = do { e' \<leftarrow> put_raw e v 1 bits; put_raw_list e' vs bits }"

definition enc_bypass :: "rans_encoder \<Rightarrow> rans_coder \<Rightarrow> u32 \<Rightarrow> rans_encoder option" where
  "enc_bypass e c v =
     do { buf \<leftarrow> bypass_digits (bypass_max c) (bypass_bits c) v;
          e1 \<leftarrow> put_raw_list e (rev buf) (bypass_bits c);
          (count, prefix) \<leftarrow> bypass_count (bypass_max c) (of_nat (length buf)) 0;
          e2 \<leftarrow> put_raw e1 count 1 (bypass_bits c);
          put_raw_list e2 (replicate prefix (bypass_max c)) (bypass_bits c) }"

text \<open>The value mapped to the bypass code of an out-of-table value.\<close>

definition bypass_code :: "int \<Rightarrow> int \<Rightarrow> u32" where
  "bypass_code sentinel value =
     (if value < 0 then 2 * word_of_int (- value) - 1 else 2 * word_of_int (value - sentinel))"

definition pick_dist :: "rans_coder \<Rightarrow> int \<Rightarrow> rans_dist" where
  "pick_dist c index =
     dists c ! (if nat index \<ge> length (dists c) then length (dists c) - 1 else nat index)"

definition encode_value :: "rans_coder \<Rightarrow> int \<Rightarrow> int \<Rightarrow> rans_encoder \<Rightarrow> rans_encoder option" where
  "encode_value c index v e =
     (let desc = pick_dist c index;
          value = v + value_offset desc;
          escape = (value < 0 \<or> value \<ge> bypass_sentinel desc);
          sym_value = (if escape then bypass_sentinel desc else value);
          sym = enc_sym_offset desc + nat sym_value
      in do { e' \<leftarrow> (if escape then enc_bypass e c (bypass_code (bypass_sentinel desc) value) else Some e);
              (case e_variant e' of
                 RansByte \<Rightarrow> put_sym_byte e' (enc_syms c ! sym)
               | Rans64 \<Rightarrow> put_sym_64 e' (enc_syms c ! sym)) })"

text \<open>The loop \<open>for (k = values.size(); k > 0; --k)\<close>, on the reversed pairs.\<close>

fun encode_loop :: "rans_coder \<Rightarrow> (int \<times> int) list \<Rightarrow> rans_encoder \<Rightarrow> (status \<times> rans_encoder) option" where
  "encode_loop c [] e = Some (Ok, e)"
| "encode_loop c ((index, v) # rest) e =
     (if index < 0 then encode_loop c rest e
      else do { e' \<leftarrow> encode_value c index v e;
                if e_oom e' then Some (Nomem, e') else encode_loop c rest e' })"

definition rans_enc_encode :: "rans_encoder \<Rightarrow> rans_coder \<Rightarrow> int list \<Rightarrow> int list \<Rightarrow> (status \<times> rans_encoder) option" where
  "rans_enc_encode e c indices values =
     (if length indices \<noteq> length values then Some (Invalid, e)
      else if dists c = [] \<or> enc_syms c = [] then Some (Invalid, e)
      else if e_flushed e \<or> e_oom e \<or> e_buf e = [] then Some (Invalid, e)
      else encode_loop c (rev (zip indices values)) e)"

definition rans_enc_flush :: "rans_encoder \<Rightarrow> (status \<times> bytes) \<times> rans_encoder" where
  "rans_enc_flush e =
     (if e_flushed e \<or> e_oom e \<or> e_buf e = [] then ((Invalid, []), e)
      else let e' = (case e_variant e of
                 RansByte \<Rightarrow>
                   (let x = ucast (e_state e) :: u32
                    in write_byte (write_byte (write_byte (write_byte e
                         (ucast (drop_bit 24 x))) (ucast (drop_bit 16 x))) (ucast (drop_bit 8 x))) (ucast x))
               | Rans64 \<Rightarrow>
                   (let x = e_state e
                    in write_unit32 (write_unit32 e (ucast (drop_bit 32 x))) (ucast x)))
           in if e_oom e' then ((Nomem, []), e')
              else ((Ok, drop (e_ptr e') (e_buf e')), e'\<lparr>e_flushed := True\<rparr>))"

definition rans_enc_reset :: "rans_encoder \<Rightarrow> rans_encoder" where
  "rans_enc_reset e =
     e\<lparr>e_ptr := length (e_buf e), e_flushed := False, e_state := initial_state (e_variant e)\<rparr>"

definition rans_encode :: "rans_coder \<Rightarrow> int list \<Rightarrow> int list \<Rightarrow> bytes result option" where
  "rans_encode c indices values =
     do { (st, e) \<leftarrow> rans_enc_encode (new_encoder (variant c) 65536) c indices values;
          Some (if st \<noteq> Ok then reject st ''encode failed''
                else case rans_enc_flush e of
                       ((st', out), _) \<Rightarrow> if st' \<noteq> Ok then reject st' ''flush failed'' else Inr out) }"

section \<open>The decoder\<close>

record rans_decoder =
  d_variant :: rans_variant
  d_state :: u64
  d_data :: bytes
  d_pos :: nat
  d_opened :: bool

definition new_decoder :: "rans_variant \<Rightarrow> rans_decoder" where
  "new_decoder v = \<lparr>d_variant = v, d_state = 0, d_data = [], d_pos = 0, d_opened = False\<rparr>"

text \<open>
  The readers answer \<open>false\<close> on a short stream and leave what they read before consumed: the
  value is then \<open>None\<close> (or the flag \<open>False\<close>), beside the decoder as it was left.
\<close>

definition read_byte :: "rans_decoder \<Rightarrow> u8 option \<times> rans_decoder" where
  "read_byte d =
     (if d_pos d \<ge> length (d_data d) then (None, d)
      else (Some (d_data d ! d_pos d), d\<lparr>d_pos := d_pos d + 1\<rparr>))"

definition read_unit32 :: "rans_decoder \<Rightarrow> u32 option \<times> rans_decoder" where
  "read_unit32 d =
     (if length (d_data d) - d_pos d < 4 then (None, d)
      else (Some (rd_u32 (d_data d) (d_pos d)), d\<lparr>d_pos := d_pos d + 4\<rparr>))"

fun init_bytes :: "nat list \<Rightarrow> u32 \<Rightarrow> rans_decoder \<Rightarrow> u32 option \<times> rans_decoder" where
  "init_bytes [] x d = (Some x, d)"
| "init_bytes (i # is) x d =
     (case read_byte d of
        (None, d') \<Rightarrow> (None, d')
      | (Some u, d') \<Rightarrow> init_bytes is (x + push_bit (i * 8) (ucast u)) d')"

fun init_units :: "nat list \<Rightarrow> u64 \<Rightarrow> rans_decoder \<Rightarrow> u64 option \<times> rans_decoder" where
  "init_units [] x d = (Some x, d)"
| "init_units (i # is) x d =
     (case read_unit32 d of
        (None, d') \<Rightarrow> (None, d')
      | (Some u, d') \<Rightarrow> init_units is (x + push_bit (i * 32) (ucast u)) d')"

definition init_state :: "rans_decoder \<Rightarrow> bool \<times> rans_decoder" where
  "init_state d =
     (case d_variant d of
        RansByte \<Rightarrow>
          (case init_bytes [0, 1, 2, 3] 0 d of
             (None, d') \<Rightarrow> (False, d')
           | (Some x, d') \<Rightarrow>
               if x < kByteLower then (False, d') else (True, d'\<lparr>d_state := ucast x\<rparr>))
      | Rans64 \<Rightarrow>
          (case init_units [0, 1] 0 d of
             (None, d') \<Rightarrow> (False, d')
           | (Some x, d') \<Rightarrow>
               if x < k64Lower then (False, d') else (True, d'\<lparr>d_state := x\<rparr>)))"

definition rans_dec_open :: "rans_decoder \<Rightarrow> bytes \<Rightarrow> status \<times> rans_decoder" where
  "rans_dec_open d data =
     (let unit = (case d_variant d of RansByte \<Rightarrow> 1 | Rans64 \<Rightarrow> 4)
      in if length data mod unit \<noteq> 0 then (Format, d)
         else case init_state (d\<lparr>d_data := data, d_pos := 0, d_opened := False\<rparr>) of
                (False, d') \<Rightarrow> (Format, d')
              | (True, d') \<Rightarrow> (Ok, d'\<lparr>d_opened := True\<rparr>))"

definition get_bits :: "rans_decoder \<Rightarrow> nat \<Rightarrow> u32" where
  "get_bits d scale_bits = ucast (d_state d) AND (push_bit scale_bits 1 - 1)"

text \<open>\<open>while (x < kByteLower) { read_byte; x = (x << 8) + u; }\<close>.\<close>

function refill_byte :: "u32 \<Rightarrow> rans_decoder \<Rightarrow> u32 option \<times> rans_decoder" where
  "refill_byte x d =
     (if x < kByteLower
      then (case read_byte d of
              (None, d') \<Rightarrow> (None, d')
            | (Some u, d') \<Rightarrow> refill_byte (push_bit 8 x + ucast u) d')
      else (Some x, d))"
  by pat_completeness auto
termination
  by (relation "measure (\<lambda>(x, d). length (d_data d) - d_pos d)")
    (auto simp: read_byte_def split: if_splits)

declare refill_byte.simps [simp del]

definition advance :: "rans_decoder \<Rightarrow> u32 \<Rightarrow> u32 \<Rightarrow> nat \<Rightarrow> bool \<times> rans_decoder" where
  "advance d start freq scale_bits =
     (let scale = push_bit scale_bits 1 :: u32
      in case d_variant d of
        RansByte \<Rightarrow>
          (let x = ucast (d_state d) :: u32;
               value = x AND (scale - 1)
           in case refill_byte (freq * drop_bit scale_bits x + value - start) d of
                (None, d') \<Rightarrow> (False, d')
              | (Some x', d') \<Rightarrow> (True, d'\<lparr>d_state := ucast x'\<rparr>))
      | Rans64 \<Rightarrow>
          (let x = d_state d;
               value = ucast (x AND ucast (scale - 1)) :: u32;
               x' = ucast freq * drop_bit scale_bits x + ucast value - ucast start
           in if x' < k64Lower
              then (case read_unit32 d of
                      (None, d') \<Rightarrow> (False, d')
                    | (Some u, d') \<Rightarrow> (True, d'\<lparr>d_state := push_bit 32 x' + ucast u\<rparr>))
              else (True, d\<lparr>d_state := x'\<rparr>)))"

text \<open>
  \<open>RansDecoder::bypass\<close>. The outer option is termination of the prefix loop (which needs
  \<open>bypass_max > 0\<close>), the inner one the boolean result.
\<close>

partial_function (option) bypass_prefix ::
    "rans_coder \<Rightarrow> u32 \<Rightarrow> u32 \<Rightarrow> u32 \<Rightarrow> rans_decoder \<Rightarrow> (u32 option \<times> rans_decoder) option" where
  "bypass_prefix c max_digits value count d =
     (if value = bypass_max c
      then let value' = get_bits d (bypass_bits c)
           in (case advance d value' 1 (bypass_bits c) of
                 (ok, d') \<Rightarrow>
                   if \<not> ok then Some (None, d')
                   else if count + value' > max_digits then Some (None, d')
                   else bypass_prefix c max_digits value' (count + value') d')
      else Some (Some count, d))"

declare bypass_prefix.simps [code]

text \<open>
  The digit loop \<open>for (shift = 0; shift < total_bits; shift += bits)\<close> runs \<open>count\<close> times, since
  \<open>total_bits = count * bits\<close> and \<open>bits > 0\<close>.
\<close>

fun bypass_assemble :: "nat \<Rightarrow> nat \<Rightarrow> nat \<Rightarrow> u32 \<Rightarrow> rans_decoder \<Rightarrow> u32 option \<times> rans_decoder" where
  "bypass_assemble bits 0 shift encoded d = (Some encoded, d)"
| "bypass_assemble bits (Suc n) shift encoded d =
     (let value = get_bits d bits
      in case advance d value 1 bits of
           (False, d') \<Rightarrow> (None, d')
         | (True, d') \<Rightarrow> bypass_assemble bits n (shift + bits) (encoded OR push_bit shift value) d')"

definition dec_bypass :: "rans_decoder \<Rightarrow> rans_coder \<Rightarrow> (u32 option \<times> rans_decoder) option" where
  "dec_bypass d c =
     (let value = get_bits d (bypass_bits c);
          max_digits = 32 div of_nat (bypass_bits c)
      in case advance d value 1 (bypass_bits c) of
           (False, d1) \<Rightarrow> Some (None, d1)
         | (True, d1) \<Rightarrow>
             if value > max_digits then Some (None, d1)
             else do { r \<leftarrow> bypass_prefix c max_digits value value d1;
                       Some (case r of
                               (None, d2) \<Rightarrow> (None, d2)
                             | (Some count, d2) \<Rightarrow>
                                 bypass_assemble (bypass_bits c) (unat count) 0 0 d2) })"

text \<open>The binary search \<open>while (lo < hi)\<close> in one distribution's segment of the table.\<close>

function cdf_search :: "u32 list \<Rightarrow> nat \<Rightarrow> u32 \<Rightarrow> int \<Rightarrow> int \<Rightarrow> int" where
  "cdf_search cdf base cum lo hi =
     (if lo < hi
      then let mid = lo + (hi - lo) div 2
           in if cdf ! (base + nat (mid + 1)) \<le> cum then cdf_search cdf base cum (mid + 1) hi
              else cdf_search cdf base cum lo mid
      else lo)"
  by pat_completeness auto
termination
  by (relation "measure (\<lambda>(cdf, base, cum, lo, hi). nat (hi - lo))") auto

declare cdf_search.simps [simp del]

definition unmap_bypass :: "int \<Rightarrow> u32 \<Rightarrow> int" where
  "unmap_bypass sentinel bv =
     (if bv AND 1 \<noteq> 0 then - uint (drop_bit 1 bv) - 1 else uint (drop_bit 1 bv) + sentinel)"

text \<open>One turn of the decode loop with \<open>index \<ge> 0\<close>; a \<open>None\<close> value is the \<open>Format\<close> exit.\<close>

definition decode_value :: "rans_coder \<Rightarrow> int \<Rightarrow> rans_decoder \<Rightarrow> (int option \<times> rans_decoder) option" where
  "decode_value c index d =
     (let desc = pick_dist c index;
          cum = get_bits d (symbol_bits c);
          base = dec_cdf_offset desc;
          symbol = cdf_search (cdf_table c) base cum 0 (bypass_sentinel desc + 1)
      in if symbol > bypass_sentinel desc then Some (None, d)
         else let start = cdf_table c ! (base + nat symbol);
                  freq = cdf_table c ! (base + nat symbol + 1) - cdf_table c ! (base + nat symbol)
              in case advance d start freq (symbol_bits c) of
                   (False, d1) \<Rightarrow> Some (None, d1)
                 | (True, d1) \<Rightarrow>
                     if symbol = bypass_sentinel desc
                     then do { r \<leftarrow> dec_bypass d1 c;
                               Some (case r of
                                       (None, d2) \<Rightarrow> (None, d2)
                                     | (Some bv, d2) \<Rightarrow>
                                         (Some (unmap_bypass (bypass_sentinel desc) bv - value_offset desc), d2)) }
                     else Some (Some (symbol - value_offset desc), d1))"

text \<open>
  The loop over \<open>values\<close> returns the values written before it stopped; the caller's span keeps
  its old contents after them.
\<close>

fun decode_loop :: "rans_coder \<Rightarrow> int list \<Rightarrow> rans_decoder \<Rightarrow> (status \<times> int list \<times> rans_decoder) option" where
  "decode_loop c [] d = Some (Ok, [], d)"
| "decode_loop c (index # rest) d =
     (if index < 0
      then do { (st, vs, d') \<leftarrow> decode_loop c rest d; Some (st, 0 # vs, d') }
      else do { r \<leftarrow> decode_value c index d;
                (case r of
                   (None, d1) \<Rightarrow> Some (Format, [], d1)
                 | (Some v, d1) \<Rightarrow>
                     do { (st, vs, d') \<leftarrow> decode_loop c rest d1; Some (st, v # vs, d') }) })"

definition rans_dec_decode :: "rans_decoder \<Rightarrow> rans_coder \<Rightarrow> int list \<Rightarrow> int list \<Rightarrow> (status \<times> int list \<times> rans_decoder) option" where
  "rans_dec_decode d c values indices =
     (if length values \<noteq> length indices then Some (Invalid, values, d)
      else if \<not> d_opened d \<or> dists c = [] \<or> cdf_table c = [] then Some (Invalid, values, d)
      else do { (st, vs, d') \<leftarrow> decode_loop c indices d;
                Some (st, vs @ drop (length vs) values, d') })"

definition check_eof :: "rans_decoder \<Rightarrow> bool" where
  "check_eof d \<longleftrightarrow>
     d_opened d \<and> d_pos d = length (d_data d) \<and>
     (case d_variant d of
        RansByte \<Rightarrow> (ucast (d_state d) :: u32) = kByteLower
      | Rans64 \<Rightarrow> d_state d = k64Lower)"

definition rans_decode :: "rans_coder \<Rightarrow> int list \<Rightarrow> int list \<Rightarrow> bytes \<Rightarrow> (status \<times> int list) option" where
  "rans_decode c values indices data =
     (case rans_dec_open (new_decoder (variant c)) data of
        (st, d) \<Rightarrow>
          if st \<noteq> Ok then Some (st, values)
          else do { (st', vs, d') \<leftarrow> rans_dec_decode d c values indices;
                    Some (if st' \<noteq> Ok then st' else if check_eof d' then Ok else Format, vs) })"

end
