(* ===== verification/Ans_Core.thy ===== *)
theory Ans_Core
  imports Prelude
begin

text \<open>
  The arithmetic that a range-ANS coder promises, independent of words, tables and buffers: a
  state is a natural number and the bytes already emitted (in the order the decoder reads
  them), a symbol is a triple (start, frequency, scale bits). The locale \<open>ans_code\<close> is the
  contract between a symbol coder and its clients: decoding a symbol undoes encoding it. It is
  interpreted for the byte-wise coder (state in \<open>[2^23, 2^31)\<close>) and for the coder with 32-bit
  units (state in \<open>[2^31, 2^63)\<close>) of \<open>codecs/mlvc/src/rans.cpp\<close>.
\<close>

type_synonym ans_sym = "nat \<times> nat \<times> nat"
type_synonym ans_state = "nat \<times> bytes"

definition wf_sym :: "nat \<Rightarrow> ans_sym \<Rightarrow> bool" where
  "wf_sym max_bits t =
     (case t of (start, freq, bits) \<Rightarrow> 0 < freq \<and> start + freq \<le> 2 ^ bits \<and> bits \<le> max_bits)"

section \<open>The contract\<close>

locale ans_code =
  fixes put :: "ans_sym \<Rightarrow> 'st \<Rightarrow> 'st"
    and get :: "nat \<Rightarrow> 'st \<Rightarrow> nat"
    and adv :: "ans_sym \<Rightarrow> 'st \<Rightarrow> 'st option"
    and ok :: "'st \<Rightarrow> bool"
    and max_bits :: nat
  assumes put_ok: "ok s \<Longrightarrow> wf_sym max_bits t \<Longrightarrow> ok (put t s)"
    and get_put: "ok s \<Longrightarrow> wf_sym max_bits (start, freq, bits) \<Longrightarrow>
      start \<le> get bits (put (start, freq, bits) s) \<and> get bits (put (start, freq, bits) s) < start + freq"
    and adv_put: "ok s \<Longrightarrow> wf_sym max_bits t \<Longrightarrow> adv t (put t s) = Some s"
begin

lemma put_all_ok: "ok s \<Longrightarrow> list_all (wf_sym max_bits) ts \<Longrightarrow> ok (foldr put ts s)"
  by (induction ts) (auto intro: put_ok)

lemma get_put_all:
  "ok s \<Longrightarrow> list_all (wf_sym max_bits) ((start, freq, bits) # ts) \<Longrightarrow>
    start \<le> get bits (foldr put ((start, freq, bits) # ts) s) \<and>
    get bits (foldr put ((start, freq, bits) # ts) s) < start + freq"
  using get_put [OF put_all_ok] by simp

lemma get_put_unit:
  "ok s \<Longrightarrow> list_all (wf_sym max_bits) ((v, 1, bits) # ts) \<Longrightarrow>
    get bits (foldr put ((v, 1, bits) # ts) s) = v"
  using get_put_all [of s v 1 bits ts] by simp

lemma adv_put_all:
  "ok s \<Longrightarrow> list_all (wf_sym max_bits) (t # ts) \<Longrightarrow> adv t (foldr put (t # ts) s) = Some (foldr put ts s)"
  using adv_put [OF put_all_ok] by simp

end

section \<open>The symbol step\<close>

definition ans_in :: "ans_sym \<Rightarrow> nat \<Rightarrow> nat" where
  "ans_in t x = (case t of (start, freq, bits) \<Rightarrow> (x div freq) * 2 ^ bits + start + x mod freq)"

definition ans_out :: "ans_sym \<Rightarrow> nat \<Rightarrow> nat" where
  "ans_out t x = (case t of (start, freq, bits) \<Rightarrow> freq * (x div 2 ^ bits) + x mod 2 ^ bits - start)"

lemma ans_in_slot:
  assumes "wf_sym m (start, freq, bits)"
  shows "ans_in (start, freq, bits) x mod 2 ^ bits = start + x mod freq"
    and "ans_in (start, freq, bits) x div 2 ^ bits = x div freq"
proof -
  from assms have "0 < freq" "start + freq \<le> 2 ^ bits" by (simp_all add: wf_sym_def)
  moreover from \<open>0 < freq\<close> have "x mod freq < freq" by simp
  ultimately have lt: "start + x mod freq < 2 ^ bits" by linarith
  then show "ans_in (start, freq, bits) x mod 2 ^ bits = start + x mod freq"
    by (simp add: ans_in_def add.assoc)
  from lt show "ans_in (start, freq, bits) x div 2 ^ bits = x div freq"
    by (simp add: ans_in_def add.assoc)
qed

lemma ans_out_in: "wf_sym m t \<Longrightarrow> ans_out t (ans_in t x) = x"
  by (cases t) (simp add: ans_out_def ans_in_slot)

lemma ans_in_less:
  assumes "wf_sym m (start, freq, bits)" "x < freq * 2 ^ k"
  shows "ans_in (start, freq, bits) x < 2 ^ (k + bits)"
proof -
  from assms have "x div freq < 2 ^ k" by (simp add: less_mult_imp_div_less mult.commute)
  then have "ans_in (start, freq, bits) x div 2 ^ bits < 2 ^ k"
    using assms(1) by (simp add: ans_in_slot)
  then show ?thesis by (simp add: div_less_iff_less_mult power_add)
qed

lemma ans_in_ge:
  assumes "wf_sym m (start, freq, bits)" "freq * 2 ^ k \<le> x"
  shows "2 ^ (k + bits) \<le> ans_in (start, freq, bits) x"
proof -
  from assms have "0 < freq" by (simp add: wf_sym_def)
  with assms have "2 ^ k \<le> x div freq" by (simp add: less_eq_div_iff_mult_less_eq mult.commute)
  then have "2 ^ k * 2 ^ bits \<le> (x div freq) * 2 ^ bits" by (rule mult_le_mono1)
  then show ?thesis unfolding ans_in_def power_add prod.case by linarith
qed

section \<open>Byte-wise renormalisation\<close>

function byte_renorm :: "nat \<Rightarrow> nat \<Rightarrow> bytes \<Rightarrow> ans_state" where
  "byte_renorm x_max x out =
     (if 0 < x_max \<and> x_max \<le> x then byte_renorm x_max (x div 256) (of_nat x # out) else (x, out))"
  by pat_completeness auto
termination
  by (relation "measure (\<lambda>(x_max, x, out). x)") auto

declare byte_renorm.simps [simp del]

function byte_fill :: "nat \<Rightarrow> bytes \<Rightarrow> ans_state option" where
  "byte_fill x inp =
     (if x < 2 ^ 23
      then (case inp of [] \<Rightarrow> None | b # rest \<Rightarrow> byte_fill (x * 256 + unat b) rest)
      else Some (x, inp))"
  by pat_completeness auto
termination
  by (relation "measure (\<lambda>(x, inp). length inp)") auto

declare byte_fill.simps [simp del]

definition byte_put :: "ans_sym \<Rightarrow> ans_state \<Rightarrow> ans_state" where
  "byte_put t s =
     (case t of (start, freq, bits) \<Rightarrow>
       (case byte_renorm (freq * 2 ^ (31 - bits)) (fst s) (snd s) of (y, out) \<Rightarrow> (ans_in t y, out)))"

definition byte_adv :: "ans_sym \<Rightarrow> ans_state \<Rightarrow> ans_state option" where
  "byte_adv t s = byte_fill (ans_out t (fst s)) (snd s)"

definition byte_ok :: "ans_state \<Rightarrow> bool" where
  "byte_ok s \<longleftrightarrow> 2 ^ 23 \<le> fst s \<and> fst s < 2 ^ 31"

definition ans_get :: "nat \<Rightarrow> ans_state \<Rightarrow> nat" where
  "ans_get bits s = fst s mod 2 ^ bits"

lemma byte_fill_renorm:
  "x < 2 ^ 31 \<Longrightarrow> byte_renorm x_max x out = (y, out') \<Longrightarrow> byte_fill y out' = byte_fill x out"
proof (induction x_max x out rule: byte_renorm.induct)
  case (1 x_max x out)
  show ?case
  proof (cases "0 < x_max \<and> x_max \<le> x")
    case True
    have b: "x div 256 * 256 + unat (of_nat x :: u8) = x"
      by (simp add: unat_of_nat take_bit_eq_mod)
    from True 1 have "byte_fill y out' = byte_fill (x div 256) (of_nat x # out)"
      by (simp add: byte_renorm.simps [of x_max x out])
    also from "1.prems" b have "\<dots> = byte_fill x out"
      by (simp add: byte_fill.simps [of "x div 256"])
    finally show ?thesis .
  next
    case False
    with 1 show ?thesis by (simp add: byte_renorm.simps [of x_max x out])
  qed
qed

lemma byte_renorm_bounds:
  "byte_renorm (low * 256) x out = (y, out') \<Longrightarrow> 0 < low \<Longrightarrow> low \<le> x \<Longrightarrow> low \<le> y \<and> y < low * 256"
proof (induction "low * 256" x out rule: byte_renorm.induct)
  case (1 x out)
  then show ?case
    by (cases "low * 256 \<le> x") (auto simp: byte_renorm.simps [of "low * 256" x out])
qed

lemma byte_put_split:
  assumes "byte_ok s" "wf_sym 23 (start, freq, bits)"
  obtains y out where "byte_put (start, freq, bits) s = (ans_in (start, freq, bits) y, out)"
    "freq * 2 ^ (23 - bits) \<le> y" "y < freq * 2 ^ (31 - bits)" "byte_fill y out = Some s"
proof -
  obtain y out where r: "byte_renorm (freq * 2 ^ (31 - bits)) (fst s) (snd s) = (y, out)"
    by (cases "byte_renorm (freq * 2 ^ (31 - bits)) (fst s) (snd s)")
  from assms(2) have b: "bits \<le> 23" and f: "0 < freq" "freq \<le> 2 ^ bits"
    by (simp_all add: wf_sym_def)
  from b have e: "freq * 2 ^ (31 - bits) = freq * 2 ^ (23 - bits) * (256::nat)"
    using power_add [of "2::nat" "23 - bits" 8] by simp
  from b have "(2::nat) ^ bits * 2 ^ (23 - bits) = 2 ^ 23" by (simp flip: power_add)
  then have "freq * 2 ^ (23 - bits) \<le> (2::nat) ^ 23" using f(2) by (metis mult_le_mono1)
  with assms(1) have low: "freq * 2 ^ (23 - bits) \<le> fst s" by (simp add: byte_ok_def)
  have "byte_fill y out = byte_fill (fst s) (snd s)"
    using byte_fill_renorm [OF _ r] assms(1) by (simp add: byte_ok_def)
  then have "byte_fill y out = Some s"
    using assms(1) by (simp add: byte_fill.simps [of "fst s"] byte_ok_def)
  with r byte_renorm_bounds [of "freq * 2 ^ (23 - bits)" "fst s" "snd s" y out] f(1) low
  show thesis by (intro that [of y out]) (auto simp: byte_put_def e)
qed

interpretation byte_code: ans_code byte_put ans_get byte_adv byte_ok 23
proof unfold_locales
  fix s :: ans_state and t
  assume ok: "byte_ok s" and wf: "wf_sym 23 t"
  obtain start freq bits where t: "t = (start, freq, bits)" by (cases t)
  from byte_put_split [OF ok wf [unfolded t]] obtain y out where
    p: "byte_put t s = (ans_in t y, out)" and lo: "freq * 2 ^ (23 - bits) \<le> y"
    and hi: "y < freq * 2 ^ (31 - bits)" and fill: "byte_fill y out = Some s"
    unfolding t by blast
  from wf have "bits \<le> 23" by (simp add: t wf_sym_def)
  with ans_in_ge [OF wf [unfolded t] lo] ans_in_less [OF wf [unfolded t] hi]
  show "byte_ok (byte_put t s)" using p by (simp add: byte_ok_def t)
  show "byte_adv t (byte_put t s) = Some s"
    by (simp add: p byte_adv_def ans_out_in [OF wf] fill)
next
  fix s :: ans_state and start freq bits
  assume ok: "byte_ok s" and wf: "wf_sym 23 (start, freq, bits)"
  from byte_put_split [OF ok wf] obtain y out where
    p: "byte_put (start, freq, bits) s = (ans_in (start, freq, bits) y, out)" by blast
  from wf have "0 < freq" by (simp add: wf_sym_def)
  then show "start \<le> ans_get bits (byte_put (start, freq, bits) s) \<and>
    ans_get bits (byte_put (start, freq, bits) s) < start + freq"
    by (simp add: p ans_get_def ans_in_slot [OF wf])
qed

section \<open>Renormalisation by 32-bit units\<close>

definition unit_put :: "ans_sym \<Rightarrow> ans_state \<Rightarrow> ans_state" where
  "unit_put t s =
     (case t of (start, freq, bits) \<Rightarrow>
       if freq * 2 ^ (63 - bits) \<le> fst s
       then (ans_in t (fst s div 2 ^ 32), le32 (of_nat (fst s)) @ snd s)
       else (ans_in t (fst s), snd s))"

definition unit_fill :: "nat \<Rightarrow> bytes \<Rightarrow> ans_state option" where
  "unit_fill x inp =
     (if x < 2 ^ 31
      then if length inp < 4 then None else Some (x * 2 ^ 32 + unat (rd_u32 inp 0), drop 4 inp)
      else Some (x, inp))"

definition unit_adv :: "ans_sym \<Rightarrow> ans_state \<Rightarrow> ans_state option" where
  "unit_adv t s = unit_fill (ans_out t (fst s)) (snd s)"

definition unit_ok :: "ans_state \<Rightarrow> bool" where
  "unit_ok s \<longleftrightarrow> 2 ^ 31 \<le> fst s \<and> fst s < 2 ^ 63"

lemma unit_put_split:
  assumes "unit_ok s" "wf_sym 31 (start, freq, bits)"
  obtains y out where "unit_put (start, freq, bits) s = (ans_in (start, freq, bits) y, out)"
    "freq * 2 ^ (31 - bits) \<le> y" "y < freq * 2 ^ (63 - bits)" "unit_fill y out = Some s"
proof -
  from assms(2) have b: "bits \<le> 31" and f: "0 < freq" "freq \<le> 2 ^ bits"
    by (simp_all add: wf_sym_def)
  from b have e: "freq * 2 ^ (63 - bits) = freq * 2 ^ (31 - bits) * (2::nat) ^ 32"
    using power_add [of "2::nat" "31 - bits" 32] by simp
  from b have "(2::nat) ^ bits * 2 ^ (31 - bits) = 2 ^ 31" by (simp flip: power_add)
  then have l: "freq * 2 ^ (31 - bits) \<le> (2::nat) ^ 31" using f(2) by (metis mult_le_mono1)
  from assms(1) have x: "2 ^ 31 \<le> fst s" "fst s < 2 ^ 63" by (simp_all add: unit_ok_def)
  show thesis
  proof (cases "freq * 2 ^ (63 - bits) \<le> fst s")
    case True
    have r: "rd_u32 (le32 (of_nat (fst s)) @ snd s) 0 = of_nat (fst s)"
      using rd_u32_le32 [of "[]" 0] by simp
    have "fst s div 2 ^ 32 * 2 ^ 32 + unat (of_nat (fst s) :: u32) = fst s"
      by (simp add: unat_of_nat take_bit_eq_mod)
    moreover from x have d: "fst s div 2 ^ 32 < 2 ^ 31" by (simp add: div_less_iff_less_mult)
    ultimately have fill: "unit_fill (fst s div 2 ^ 32) (le32 (of_nat (fst s)) @ snd s) = Some s"
      by (simp add: unit_fill_def r)
    from True have lo: "freq * 2 ^ (31 - bits) \<le> fst s div 2 ^ 32"
      unfolding e by (simp add: less_eq_div_iff_mult_less_eq)
    from f b have "(1::nat) \<le> freq * 2 ^ (31 - bits)" by simp
    then have "(2::nat) ^ 32 \<le> freq * 2 ^ (63 - bits)" unfolding e by simp
    with d have hi: "fst s div 2 ^ 32 < freq * 2 ^ (63 - bits)" by simp
    show thesis
      by (rule that [OF _ lo hi fill]) (use True in \<open>simp add: unit_put_def\<close>)
  next
    case False
    with x l show thesis
      by (intro that [of "fst s" "snd s"]) (auto simp: unit_put_def unit_fill_def)
  qed
qed

interpretation unit_code: ans_code unit_put ans_get unit_adv unit_ok 31
proof unfold_locales
  fix s :: ans_state and t
  assume ok: "unit_ok s" and wf: "wf_sym 31 t"
  obtain start freq bits where t: "t = (start, freq, bits)" by (cases t)
  from unit_put_split [OF ok wf [unfolded t]] obtain y out where
    p: "unit_put t s = (ans_in t y, out)" and lo: "freq * 2 ^ (31 - bits) \<le> y"
    and hi: "y < freq * 2 ^ (63 - bits)" and fill: "unit_fill y out = Some s"
    unfolding t by blast
  from wf have "bits \<le> 31" by (simp add: t wf_sym_def)
  with ans_in_ge [OF wf [unfolded t] lo] ans_in_less [OF wf [unfolded t] hi]
  show "unit_ok (unit_put t s)" using p by (simp add: unit_ok_def t)
  show "unit_adv t (unit_put t s) = Some s"
    by (simp add: p unit_adv_def ans_out_in [OF wf] fill)
next
  fix s :: ans_state and start freq bits
  assume ok: "unit_ok s" and wf: "wf_sym 31 (start, freq, bits)"
  from unit_put_split [OF ok wf] obtain y out where
    p: "unit_put (start, freq, bits) s = (ans_in (start, freq, bits) y, out)" by blast
  from wf have "0 < freq" by (simp add: wf_sym_def)
  then show "start \<le> ans_get bits (unit_put (start, freq, bits) s) \<and>
    ans_get bits (unit_put (start, freq, bits) s) < start + freq"
    by (simp add: p ans_get_def ans_in_slot [OF wf])
qed

end
