(* ===== verification/Rans_Tables.thy ===== *)
theory Rans_Tables
  imports Rans Ans_Core
begin

text \<open>
  The reciprocal tables of the encoder: the multiply-and-shift of \<open>put_sym_byte\<close> and
  \<open>put_sym_64\<close> computes the division of the abstract coder, for every start, frequency and
  scale that \<open>create\<close> accepts.
\<close>

unbundle bit_operations_syntax

section \<open>The shift of the reciprocal\<close>

lemma rcp_shift_bounds:
  "1 \<le> k \<Longrightarrow> k \<le> 31 \<Longrightarrow> f \<le> 2 ^ 31 \<Longrightarrow> 2 ^ (k - 1) < f \<Longrightarrow> s = rcp_shift (of_nat f) k \<Longrightarrow>
    1 \<le> s \<and> s \<le> 31 \<and> 2 ^ (s - 1) < f \<and> f \<le> 2 ^ s"
proof (induction "of_nat f :: u32" k arbitrary: s rule: rcp_shift.induct)
  case (1 k)
  have f32: "f < 2 ^ LENGTH(32)" using "1.prems"(3) by simp
  have "(2::nat) ^ k \<le> 2 ^ 31" using "1.prems"(2) by (intro power_increasing) auto
  then have k32: "2 ^ k < (2::nat) ^ LENGTH(32)" by simp
  have c: "push_bit k (1 :: u32) < of_nat f \<longleftrightarrow> 2 ^ k < f"
    by (simp only: push_bit_one_of_nat less_of_nat_word [OF k32 f32])
  show ?case
  proof (cases "2 ^ k < f")
    case True
    then have "k \<noteq> 31" using "1.prems"(3) by auto
    with True "1.prems" c show ?thesis
      using "1.hyps" [of s] by (simp add: rcp_shift.simps [of _ k])
  next
    case False
    with "1.prems" c show ?thesis by (simp add: rcp_shift.simps [of _ k])
  qed
qed

text \<open>The bound of \<open>rcp_shift\<close> is never what ends its loop.\<close>

lemma rcp_shift_exit:
  "1 < f \<Longrightarrow> f \<le> 2 ^ 31 \<Longrightarrow>
    1 \<le> rcp_shift (of_nat f) 1 \<and> rcp_shift (of_nat f) 1 \<le> 31 \<and>
    2 ^ (rcp_shift (of_nat f) 1 - 1) < f \<and> f \<le> 2 ^ rcp_shift (of_nat f) 1"
  using rcp_shift_bounds [of 1 f] by simp

section \<open>Division by a rounded-up reciprocal\<close>

definition rcp_of :: "nat \<Rightarrow> nat \<Rightarrow> nat" where
  "rcp_of n f = (2 ^ n + (f - 1)) div f"

lemma rcp_of_excess:
  assumes "0 < f"
  shows "2 ^ n \<le> rcp_of n f * f" and "rcp_of n f * f < 2 ^ n + f"
proof -
  have "rcp_of n f * f + (2 ^ n + (f - 1)) mod f = 2 ^ n + (f - 1)"
    by (simp add: rcp_of_def)
  moreover have "(2 ^ n + (f - 1)) mod f < f" using assms by simp
  ultimately show "2 ^ n \<le> rcp_of n f * f" "rcp_of n f * f < 2 ^ n + f" by linarith+
qed

lemma rcp_of_div:
  assumes f: "0 < f" "f \<le> 2 ^ s" and x: "x < 2 ^ m"
  shows "(x * rcp_of (s + m) f) div 2 ^ (s + m) = x div f"
proof -
  let ?N = "(2::nat) ^ (s + m)" and ?M = "rcp_of (s + m) f" and ?q = "x div f"
  obtain e where e: "?M * f = ?N + e" "e < f"
    using rcp_of_excess [OF f(1), of "s + m"] by (metis add_less_cancel_left le_add_diff_inverse)
  have "x * e < 2 ^ m * 2 ^ s" using f(2) e(2) x by (intro mult_strict_mono) auto
  then have xe: "x * e < ?N" by (simp add: power_add mult.commute)
  have xM: "x * ?M * f = x * ?N + x * e" by (simp only: e(1) mult.assoc distrib_left)
  have q: "?q * f \<le> x" "x < (?q + 1) * f" using f(1)
    by (simp_all add: dividend_less_div_times)
  have "?q * ?N * f = ?q * f * ?N" by simp
  also have "\<dots> \<le> x * ?N" by (rule mult_le_mono1 [OF q(1)])
  also have "\<dots> \<le> x * ?M * f" using xM by simp
  finally have lo: "?q * ?N \<le> x * ?M" using f(1) by (metis mult_le_cancel2)
  have "x * ?M * f < (x + 1) * ?N" using xM xe by simp
  also have "\<dots> \<le> (?q + 1) * f * ?N" using q(2) by (intro mult_le_mono1) linarith
  also have "\<dots> = (?q + 1) * ?N * f" by (simp only: ac_simps)
  finally have hi: "x * ?M < (?q + 1) * ?N" by (metis mult_less_cancel2)
  from lo hi show ?thesis by (intro div_nat_eqI) (simp_all add: mult.commute)
qed

lemma rcp_of_less:
  assumes "2 ^ (s - 1) < f" "f \<le> 2 ^ s" "1 \<le> s" "s \<le> m + 1"
  shows "rcp_of (s + m) f < 2 ^ (m + 1)"
proof (rule ccontr)
  assume "\<not> ?thesis"
  then have "2 ^ (m + 1) * (2 ^ (s - 1) + 1) \<le> rcp_of (s + m) f * f"
    using assms(1) by (intro mult_le_mono) auto
  moreover have "(2::nat) ^ (m + 1) * 2 ^ (s - 1) = 2 ^ (s + m)"
    using assms(3) by (simp only: power_add [symmetric]) (simp add: add.commute)
  moreover have "(2::nat) ^ s \<le> 2 ^ (m + 1)" using assms(4) by (intro power_increasing) auto
  moreover have "rcp_of (s + m) f * f < 2 ^ (s + m) + f"
    using rcp_of_excess(2) [of f "s + m"] assms(1) by linarith
  ultimately show False using assms(2) by (simp add: algebra_simps)
qed

section \<open>One symbol, byte variant\<close>

lemma ans_in_complement:
  assumes "wf_sym m (start, freq, bits)"
  shows "y + (y div freq * (2 ^ bits - freq) + start) = ans_in (start, freq, bits) y"
proof -
  from assms have le: "freq \<le> 2 ^ bits" by (simp add: wf_sym_def)
  have "y div freq * (2 ^ bits - freq) + y div freq * freq = y div freq * 2 ^ bits"
    using le by (simp flip: distrib_left)
  moreover have "y = y div freq * freq + y mod freq" by simp
  ultimately show ?thesis unfolding ans_in_def prod.case by linarith
qed

lemma ans_in_complement_one:
  assumes "wf_sym m (start, 1, bits)" "1 \<le> y"
  shows "y + ((y - 1) * (2 ^ bits - 1) + (start + 2 ^ bits - 1)) = ans_in (start, 1, bits) y"
proof -
  obtain y' where "y = Suc y'" using assms(2) by (cases y) auto
  moreover obtain p where "(2::nat) ^ bits = Suc p" by (cases "(2::nat) ^ bits") auto
  ultimately show ?thesis by (simp add: ans_in_def)
qed

lemma byte_quotient:
  assumes f: "1 < f" "f \<le> 2 ^ 31" and y: "y < 2 ^ 31"
  defines "s \<equiv> rcp_shift (of_nat f) 1"
  shows "drop_bit (s - 1 + 32)
      (ucast (of_nat y :: u32) *
       ucast (ucast ((push_bit (s + 32 - 1) 1 + ucast (of_nat f - 1 :: u32) :: u64) div ucast (of_nat f :: u32)) :: u32))
    = (of_nat (y div f) :: u64)"
proof -
  have sb: "1 \<le> s" "s \<le> 31" "2 ^ (s - 1) < f" "f \<le> 2 ^ s"
    using rcp_shift_exit [OF f] by (simp_all add: s_def)
  let ?M = "rcp_of (s + 31) f"
  have M: "?M < 2 ^ 32" using rcp_of_less [OF sb(3,4,1), of 31] sb(2) by simp
  have e: "s + 32 - 1 = s + 31" "s - 1 + 32 = s + 31" using sb(1) by simp_all
  have "(2::nat) ^ (s + 31) \<le> 2 ^ 62" using sb(2) by (intro power_increasing) auto
  then have lt: "2 ^ (s + 31) + (f - 1) < (2::nat) ^ 64" "f < 2 ^ 64" "f < 2 ^ 32"
    using f(2) by simp_all
  have f1: "of_nat f - 1 = (of_nat (f - 1) :: u32)" using f(1) by (simp add: of_nat_diff)
  have "(push_bit (s + 32 - 1) 1 + ucast (of_nat f - 1 :: u32) :: u64) = of_nat (2 ^ (s + 31) + (f - 1))"
    unfolding e(1) f1 push_bit_one_of_nat of_nat_add
    using lt(3) by (subst ucast_of_nat_u32_u64) auto
  moreover have "ucast (of_nat f :: u32) = (of_nat f :: u64)"
    using lt by (simp add: ucast_of_nat_u32_u64)
  ultimately have q: "(push_bit (s + 32 - 1) 1 + ucast (of_nat f - 1 :: u32) :: u64) div ucast (of_nat f :: u32)
      = of_nat ?M"
    using lt by (simp only: rcp_of_def) (rule div_of_nat_word; simp)
  have "y * ?M < 2 ^ 31 * 2 ^ 32" using y M by (intro mult_strict_mono) auto
  then have yM: "y * ?M < 2 ^ LENGTH(64)" by simp
  have "ucast (of_nat y :: u32) * ucast (ucast (of_nat ?M :: u64) :: u32) = (of_nat (y * ?M) :: u64)"
    using y M by (simp add: ucast_of_nat_u32_u64 ucast_of_nat_u64_u32)
  then show ?thesis
    unfolding q e(2) using rcp_of_div [of f s y 31] f sb y
    by (simp only: drop_bit_of_nat_word [OF yM])
qed

lemma enc_sym_byte_step:
  assumes wf: "wf_sym 30 (start, freq, bits)" and y: "1 \<le> y" "y < 2 ^ 31"
  defines "es \<equiv> enc_sym_init_byte (of_nat start) (of_nat freq) bits"
  shows "of_nat y + (ucast (drop_bit (freq_rcp_shift es)
      (ucast (of_nat y :: u32) * ucast (freq_rcp es) :: u64)) * freq_cmpl es + bias es)
    = (of_nat (ans_in (start, freq, bits) y) :: u32)"
proof -
  from wf have b: "bits \<le> 30" and f: "0 < freq" "freq \<le> 2 ^ bits" by (simp_all add: wf_sym_def)
  have "(2::nat) ^ bits \<le> 2 ^ 30" using b by (intro power_increasing) auto
  with f(2) have f30: "freq \<le> 2 ^ 30" by linarith
  then have f32: "freq < 2 ^ LENGTH(32)" by simp
  have one: "(1 :: u32) < of_nat freq \<longleftrightarrow> 1 < freq"
    using less_of_nat_word [OF _ f32, of 1] by simp
  have cm: "push_bit bits 1 - of_nat freq = (of_nat (2 ^ bits - freq) :: u32)"
    using f(2) by (simp only: push_bit_one_of_nat diff_of_nat_word)
  show ?thesis
  proof (cases "1 < freq")
    case True
    have "ucast (drop_bit (freq_rcp_shift es) (ucast (of_nat y :: u32) * ucast (freq_rcp es) :: u64))
        = (of_nat (y div freq) :: u32)"
    proof -
      have o: "((1 :: u32) < of_nat freq) = True" using one True by simp
      have "drop_bit (freq_rcp_shift es) (ucast (of_nat y :: u32) * ucast (freq_rcp es) :: u64) = of_nat (y div freq)"
        unfolding es_def enc_sym_init_byte_def Let_def o if_True enc_sym.simps
        using f30 by (intro byte_quotient [OF True _ y(2)]) simp
      moreover have "y div freq < 2 ^ 64" by (rule order_le_less_trans [OF div_le_dividend]) (use y(2) in simp)
      ultimately show ?thesis by (simp only: ucast_of_nat_u64_u32)
    qed
    moreover have "freq_cmpl es = of_nat (2 ^ bits - freq)" "bias es = of_nat start"
      using True one cm by (simp_all add: es_def enc_sym_init_byte_def Let_def)
    ultimately show ?thesis by (simp only: of_nat_add [symmetric] of_nat_mult [symmetric] ans_in_complement [OF wf])
  next
    case False
    with f have f1: "freq = 1" by simp
    have "y * (2 ^ 32 - 1) < 2 ^ 31 * 2 ^ 32" using y by (intro mult_strict_mono) auto
    then have m: "y * (2 ^ 32 - 1) < 2 ^ LENGTH(64)" by simp
    have "y * (2 ^ 32 - 1) = (y - 1) * 2 ^ 32 + (2 ^ 32 - y)" using y by (simp add: algebra_simps)
    then have d: "y * (2 ^ 32 - 1) div 2 ^ 32 = y - 1" using y by simp
    have p: "ucast (of_nat y :: u32) * ucast (freq_rcp es) = (of_nat (y * (2 ^ 32 - 1)) :: u64)"
      using y one f1 by (simp add: es_def enc_sym_init_byte_def Let_def ucast_of_nat_u32_u64)
    have sh: "freq_rcp_shift es = 32"
      using one f1 by (simp add: es_def enc_sym_init_byte_def Let_def)
    have "y - 1 < 2 ^ 64" using y by simp
    then have "ucast (drop_bit (freq_rcp_shift es) (ucast (of_nat y :: u32) * ucast (freq_rcp es) :: u64))
        = (of_nat (y - 1) :: u32)"
      unfolding p sh drop_bit_of_nat_word [OF m] d by (rule ucast_of_nat_u64_u32)
    moreover have "freq_cmpl es = of_nat (2 ^ bits - 1)"
      using cm one f1 by (simp add: es_def enc_sym_init_byte_def Let_def)
    moreover have "bias es = of_nat (start + 2 ^ bits - 1)"
      using one f1 of_nat_pred_power [of start bits, where 'a = 32]
      by (simp add: es_def enc_sym_init_byte_def Let_def push_bit_one_of_nat del: of_nat_diff)
    ultimately show ?thesis
      using ans_in_complement_one [OF _ y(1)] wf f1
      by (simp only: of_nat_add [symmetric] of_nat_mult [symmetric])
  qed
qed

lemma enc_sym_byte_max:
  "x_max_hi (enc_sym_init_byte (of_nat start) (of_nat freq) bits) = of_nat (freq * 2 ^ (31 - bits))"
  by (simp add: enc_sym_init_byte_def Let_def push_bit_of_nat_word)

section \<open>One symbol, variant with 32-bit units\<close>

lemma rejoin_halves:
  fixes r :: u64
  shows "push_bit 32 (ucast (ucast (drop_bit 32 r) :: u32)) OR ucast (ucast r :: u32) = r"
    (is "?lhs = r")
proof (rule bit_word_eqI)
  fix n :: nat
  assume "n < LENGTH(64)"
  then show "bit ?lhs n = bit r n"
    by (cases "n < 32") (auto simp: bit_simps)
qed

lemma mul64hi_of_nat:
  assumes "a < 2 ^ 64" "b < 2 ^ 64"
  shows "mul64hi (of_nat a) (of_nat b) = of_nat (a * b div 2 ^ 64)"
proof -
  have "a * b < 2 ^ 64 * 2 ^ 64" using assms by (intro mult_strict_mono) auto
  then have ab: "a * b < 2 ^ LENGTH(128)" by simp
  have u: "ucast (of_nat a :: u64) * ucast (of_nat b :: u64) = (of_nat (a * b) :: 128 word)"
    using assms by (simp add: unsigned_of_nat take_bit_nat_eq_self)
  have "a * b div 2 ^ 64 < 2 ^ 64" using \<open>a * b < 2 ^ 64 * 2 ^ 64\<close> by (simp add: div_less_iff_less_mult)
  then show ?thesis
    unfolding mul64hi_def u drop_bit_of_nat_word [OF ab]
    by (simp add: unsigned_of_nat take_bit_nat_eq_self)
qed

lemma rcp_of_long_division:
  assumes "0 < f"
  shows "rcp_of (s + 63) f = (2 ^ (s + 31) mod f * 2 ^ 32 + (f - 1)) div f + 2 ^ (s + 31) div f * 2 ^ 32"
proof -
  let ?A = "(2::nat) ^ (s + 31)"
  have "(2::nat) ^ (s + 63) = ?A * 2 ^ 32" by (simp only: power_add [symmetric]) simp
  also have "\<dots> = (?A div f * f + ?A mod f) * 2 ^ 32" by simp
  finally have e: "(2::nat) ^ (s + 63) + (f - 1) = (?A mod f * 2 ^ 32 + (f - 1)) + f * (?A div f * 2 ^ 32)"
    by (simp only: distrib_left distrib_right ac_simps)
  have nz: "f \<noteq> 0" using assms by simp
  show ?thesis unfolding rcp_of_def e div_mult_self2 [OF nz] by (rule add.commute)
qed

lemma unit_reciprocal:
  assumes f: "1 < f" "f \<le> 2 ^ 31"
  defines "s \<equiv> rcp_shift (of_nat f) 1"
  shows "(ucast (of_nat f - 1 :: u32) + push_bit 32 (push_bit (s + 31) 1 mod ucast (of_nat f :: u32))) div
      ucast (of_nat f :: u32) + push_bit 32 (push_bit (s + 31) 1 div ucast (of_nat f :: u32))
    = (of_nat (rcp_of (s + 63) f) :: u64)"
proof -
  have sb: "s \<le> 31" using rcp_shift_exit [OF f] by (simp add: s_def)
  have "(2::nat) ^ (s + 31) \<le> 2 ^ 62" using sb by (intro power_increasing) auto
  then have A: "2 ^ (s + 31) < (2::nat) ^ LENGTH(64)" by simp
  have fs: "f < 2 ^ LENGTH(64)" "f < 2 ^ 32" using f(2) by simp_all
  have f1: "of_nat f - 1 = (of_nat (f - 1) :: u32)" using f(1) by (simp add: of_nat_diff)
  have "2 ^ (s + 31) mod f < f" using f(1) by simp
  then have "2 ^ (s + 31) mod f \<le> 2 ^ 31" using f(2) by linarith
  then have "2 ^ (s + 31) mod f * 2 ^ 32 + (f - 1) \<le> 2 ^ 31 * 2 ^ 32 + 2 ^ 31"
    using f(2) by (intro add_mono mult_le_mono1) linarith+
  then have n: "f - 1 + 2 ^ (s + 31) mod f * 2 ^ 32 < 2 ^ LENGTH(64)" by simp
  have uf: "ucast (of_nat f :: u32) = (of_nat f :: u64)" "ucast (of_nat (f - 1) :: u32) = (of_nat (f - 1) :: u64)"
    using fs(2) by (simp_all add: ucast_of_nat_u32_u64)
  show ?thesis
    unfolding f1 uf push_bit_one_of_nat div_of_nat_word [OF A fs(1)] mod_of_nat_word [OF A fs(1)]
      push_bit_of_nat_word of_nat_add [symmetric] div_of_nat_word [OF n fs(1)]
    using f(1) by (simp only: rcp_of_long_division add.commute)
qed

lemma enc_sym_unit_step:
  assumes wf: "wf_sym 31 (start, freq, bits)" and y: "1 \<le> y" "y < 2 ^ 63"
  defines "es \<equiv> enc_sym_init_64 (of_nat start) (of_nat freq) bits"
  shows "of_nat y + (drop_bit (freq_rcp_shift es)
      (mul64hi (of_nat y) (push_bit 32 (ucast (freq_rcp_hi es)) OR ucast (freq_rcp es))) * ucast (freq_cmpl es)
      + ucast (bias es))
    = (of_nat (ans_in (start, freq, bits) y) :: u64)"
proof -
  from wf have b: "bits \<le> 31" and f: "0 < freq" "freq \<le> 2 ^ bits" "start + freq \<le> 2 ^ bits"
    by (simp_all add: wf_sym_def)
  have p31: "(2::nat) ^ bits \<le> 2 ^ 31" using b by (intro power_increasing) auto
  with f have f31: "freq \<le> 2 ^ 31" "start < 2 ^ 31" by linarith+
  then have f32: "freq < 2 ^ LENGTH(32)" by simp
  have one: "(1 :: u32) < of_nat freq \<longleftrightarrow> 1 < freq"
    using less_of_nat_word [OF _ f32, of 1] by simp
  have cm: "push_bit bits 1 - of_nat freq = (of_nat (2 ^ bits - freq) :: u32)"
    using f(2) by (simp only: push_bit_one_of_nat diff_of_nat_word)
  have cl: "2 ^ bits - freq < 2 ^ 32" using p31 by simp
  show ?thesis
  proof (cases "1 < freq")
    case True
    have o: "((1 :: u32) < of_nat freq) = True" using one True by simp
    let ?s = "rcp_shift (of_nat freq) 1"
    have sb: "1 \<le> ?s" "?s \<le> 31" "2 ^ (?s - 1) < freq" "freq \<le> 2 ^ ?s"
      using rcp_shift_exit [OF True f31(1)] by auto
    let ?M = "rcp_of (?s + 63) freq"
    have M: "?M < 2 ^ 64" using rcp_of_less [OF sb(3,4,1), of 63] sb(2) by simp
    have r: "push_bit 32 (ucast (freq_rcp_hi es)) OR ucast (freq_rcp es) = (of_nat ?M :: u64)"
      unfolding es_def enc_sym_init_64_def Let_def o if_True enc_sym.simps unit_reciprocal [OF True f31(1)]
      by (rule rejoin_halves)
    have sh: "freq_rcp_shift es = ?s - 1" "freq_cmpl es = of_nat (2 ^ bits - freq)" "bias es = of_nat start"
      unfolding es_def enc_sym_init_64_def Let_def o if_True cm by simp_all
    have "y * ?M < 2 ^ 63 * 2 ^ 64" using y M by (intro mult_strict_mono) auto
    then have l: "y * ?M div 2 ^ 64 < 2 ^ LENGTH(64)" by (simp add: div_less_iff_less_mult)
    have "y * ?M div 2 ^ 64 div 2 ^ (?s - 1) = y * ?M div 2 ^ (64 + (?s - 1))"
      by (simp only: power_add div_mult2_eq)
    also have "64 + (?s - 1) = ?s + 63" using sb(1) by simp
    finally have "y * ?M div 2 ^ 64 div 2 ^ (?s - 1) = y div freq"
      using rcp_of_div [OF f(1) sb(4) y(2)] by simp
    moreover have y64: "y < 2 ^ 64" using y(2) by simp
    ultimately have q: "drop_bit (?s - 1) (mul64hi (of_nat y) (of_nat ?M)) = of_nat (y div freq)"
      unfolding mul64hi_of_nat [OF y64 M] drop_bit_of_nat_word [OF l] by simp
    have uc: "ucast (of_nat (2 ^ bits - freq) :: u32) = (of_nat (2 ^ bits - freq) :: u64)"
      "ucast (of_nat start :: u32) = (of_nat start :: u64)"
      using cl f31(2) by (simp_all add: ucast_of_nat_u32_u64)
    show ?thesis unfolding r sh q uc
      by (simp only: of_nat_add [symmetric] of_nat_mult [symmetric] ans_in_complement [OF wf])
  next
    case False
    with f have f1: "freq = 1" by simp
    have "y * (2 ^ 64 - 1) = (y - 1) * 2 ^ 64 + (2 ^ 64 - y)" using y by (simp add: algebra_simps)
    then have d: "y * (2 ^ 64 - 1) div 2 ^ 64 = y - 1" using y by simp
    have "mul64hi (of_nat y) (of_nat (2 ^ 64 - 1)) = of_nat (y - 1)"
      using y(2) by (subst mul64hi_of_nat) (simp_all only: d, simp_all)
    moreover have "push_bit 32 (ucast (freq_rcp_hi es)) OR ucast (freq_rcp es) = (of_nat (2 ^ 64 - 1) :: u64)"
      using one f1 by (simp add: es_def enc_sym_init_64_def Let_def)
    moreover have "freq_rcp_shift es = 0" "freq_cmpl es = of_nat (2 ^ bits - 1)"
      "bias es = of_nat (start + 2 ^ bits - 1)"
      using one f1 cm of_nat_pred_power [of start bits, where 'a = 32]
      by (simp_all add: es_def enc_sym_init_64_def Let_def push_bit_one_of_nat)
    moreover have "ucast (of_nat (2 ^ bits - 1) :: u32) = (of_nat (2 ^ bits - 1) :: u64)"
      "ucast (of_nat (start + 2 ^ bits - 1) :: u32) = (of_nat (start + 2 ^ bits - 1) :: u64)"
      using p31 f31 by (intro ucast_of_nat_u32_u64; simp)+
    ultimately show ?thesis
      using ans_in_complement_one [OF _ y(1)] wf f1
      by (simp only: drop_bit_0 id_apply of_nat_add [symmetric] of_nat_mult [symmetric])
  qed
qed

lemma enc_sym_unit_max:
  "x_max_hi (enc_sym_init_64 (of_nat start) (of_nat freq) bits) = of_nat (freq * 2 ^ (31 - bits))"
  by (simp add: enc_sym_init_64_def Let_def push_bit_of_nat_word)

end
