(* ===== verification/Rans_Encoder.thy ===== *)
theory Rans_Encoder
  imports Rans_Tables
begin

text \<open>
  The encoder of \<open>codecs/mlvc/src/rans.cpp\<close> refines the abstract coder of \<open>Ans_Core\<close>: its state
  word and the bytes above its write pointer are an abstract state, and putting a symbol, by the
  reciprocal tables or by \<open>put_raw\<close>, is the abstract step, however often the buffer grows.
\<close>

unbundle bit_operations_syntax

section \<open>Both variants as one abstract coder\<close>

definition aput :: "rans_variant \<Rightarrow> ans_sym \<Rightarrow> ans_state \<Rightarrow> ans_state" where
  "aput v = (case v of RansByte \<Rightarrow> byte_put | Rans64 \<Rightarrow> unit_put)"

definition aadv :: "rans_variant \<Rightarrow> ans_sym \<Rightarrow> ans_state \<Rightarrow> ans_state option" where
  "aadv v = (case v of RansByte \<Rightarrow> byte_adv | Rans64 \<Rightarrow> unit_adv)"

definition aok :: "rans_variant \<Rightarrow> ans_state \<Rightarrow> bool" where
  "aok v = (case v of RansByte \<Rightarrow> byte_ok | Rans64 \<Rightarrow> unit_ok)"

definition amax :: "rans_variant \<Rightarrow> nat" where
  "amax v = (case v of RansByte \<Rightarrow> 23 | Rans64 \<Rightarrow> 31)"

lemmas variant_defs = aput_def aadv_def aok_def amax_def

interpretation rans_code: ans_code "aput v" ans_get "aadv v" "aok v" "amax v" for v
proof (cases v)
  case RansByte
  then show "ans_code (aput v) ans_get (aadv v) (aok v) (amax v)"
    using byte_code.ans_code_axioms by (simp add: variant_defs)
next
  case Rans64
  then show "ans_code (aput v) ans_get (aadv v) (aok v) (amax v)"
    using unit_code.ans_code_axioms by (simp add: variant_defs)
qed

lemma wf_sym_mono: "wf_sym m t \<Longrightarrow> m \<le> n \<Longrightarrow> wf_sym n t"
  by (auto simp: wf_sym_def)

lemma wf_sym_less:
  assumes "wf_sym m (start, freq, bits)" "bits \<le> k"
  shows "0 < freq" "freq \<le> 2 ^ bits" "start + freq \<le> 2 ^ k" "freq \<le> 2 ^ k" "freq * 2 ^ (n - bits) \<le> 2 ^ (bits + (n - bits))"
proof -
  from assms show "0 < freq" and f: "freq \<le> 2 ^ bits" by (simp_all add: wf_sym_def)
  have "(2::nat) ^ bits \<le> 2 ^ k" using assms(2) by (intro power_increasing) auto
  moreover from assms have "start + freq \<le> 2 ^ bits" by (simp add: wf_sym_def)
  ultimately show "start + freq \<le> 2 ^ k" "freq \<le> 2 ^ k" by linarith+
  show "freq * 2 ^ (n - bits) \<le> 2 ^ (bits + (n - bits))"
    using f unfolding power_add by (rule mult_le_mono1)
qed

section \<open>The growing buffer\<close>

definition content :: "rans_encoder \<Rightarrow> bytes" where
  "content e = drop (e_ptr e) (e_buf e)"

definition enc_inv :: "rans_variant \<Rightarrow> rans_encoder \<Rightarrow> bool" where
  "enc_inv v e \<longleftrightarrow>
     e_variant e = v \<and> \<not> e_flushed e \<and> \<not> e_oom e \<and> e_buf e \<noteq> [] \<and> e_ptr e \<le> length (e_buf e) \<and>
     length (e_buf e) \<le> 2 * length (content e) + 65544"

lemma enc_inv_new: "cap \<le> 65536 \<Longrightarrow> enc_inv v (new_encoder v cap)"
  by (auto simp: enc_inv_def new_encoder_def Let_def content_def)

lemma content_new: "content (new_encoder v cap) = []"
  by (simp add: content_def new_encoder_def Let_def)

lemma grow_spec:
  assumes inv: "enc_inv v e" and len: "length (content e) < 2 ^ 60" and ptr: "e_ptr e < 4"
  obtains e' where "grow e = (True, e')" "enc_inv v e'" "content e' = content e"
    "e_state e' = e_state e" "4 \<le> e_ptr e'"
proof -
  let ?cap = "length (e_buf e)" and ?c = "content e"
  from inv have i: "\<not> e_oom e" "e_buf e \<noteq> []" "e_ptr e \<le> ?cap" "?cap \<le> 2 * length ?c + 65544"
    by (simp_all add: enc_inv_def)
  define ncap where "ncap = (if ?cap * 2 < ?cap + 65536 then ?cap + 65536 else ?cap * 2)"
  have c: "length ?c = ?cap - e_ptr e" by (simp add: content_def)
  have small: "?cap * 2 < 2 ^ 64" "?cap + 65536 < 2 ^ 64" using i(4) len by simp_all
  have n: "?cap < ncap" "ncap \<le> 2 * length ?c + 65544" "?cap + 65536 \<le> ncap"
    using c ptr i(3) by (auto simp: ncap_def)
  define e' where "e' = e\<lparr>e_buf := put_at (replicate ncap 0) (ncap - length ?c) ?c, e_ptr := ncap - length ?c\<rparr>"
  have lc: "length ?c \<le> ncap" using c n(1) by simp
  have g: "grow e = (True, e')"
    using i(1,2) small n(1)
    by (simp add: grow_def Let_def e'_def ncap_def c content_def)
  have d: "content e' = ?c" using lc by (simp add: content_def e'_def put_at_def)
  have l: "length (e_buf e') = ncap" using lc by (simp add: e'_def)
  have "e_buf e' \<noteq> []" using l n(1) by auto
  then have inv': "enc_inv v e'" using inv n lc l d
    by (simp add: enc_inv_def) (simp add: e'_def)
  have p: "4 \<le> e_ptr e'" using c n by (simp add: e'_def)
  show thesis by (rule that [OF g inv' d _ p]) (simp add: e'_def)
qed

lemma write_byte_spec:
  assumes inv: "enc_inv v e" and len: "length (content e) < 2 ^ 60"
  shows "enc_inv v (write_byte e b) \<and> content (write_byte e b) = b # content e \<and>
    e_state (write_byte e b) = e_state e"
proof -
  have put: "enc_inv v (d\<lparr>e_ptr := e_ptr d - 1, e_buf := (e_buf d)[e_ptr d - 1 := b]\<rparr>) \<and>
      content (d\<lparr>e_ptr := e_ptr d - 1, e_buf := (e_buf d)[e_ptr d - 1 := b]\<rparr>) = b # content d"
    if "enc_inv v d" "0 < e_ptr d" for d
  proof -
    have lt: "e_ptr d - 1 < length (e_buf d)" "Suc (e_ptr d - 1) = e_ptr d"
      using that by (auto simp: enc_inv_def)
    have "content (d\<lparr>e_ptr := e_ptr d - 1, e_buf := (e_buf d)[e_ptr d - 1 := b]\<rparr>) = b # content d"
      using lt by (simp add: content_def upd_conv_take_nth_drop)
    with that show ?thesis by (auto simp: enc_inv_def)
  qed
  have live: "\<not> e_oom e" "e_buf e \<noteq> []" using inv by (simp_all add: enc_inv_def)
  show ?thesis
  proof (cases "e_ptr e = 0")
    case True
    obtain e' where g: "grow e = (True, e')" "enc_inv v e'" "content e' = content e"
        "e_state e' = e_state e" "4 \<le> e_ptr e'"
      by (rule grow_spec [OF inv len]) (use True in auto)
    then show ?thesis using live True put [of e'] by (simp add: write_byte_def)
  next
    case False
    then show ?thesis using live put [of e] inv by (simp add: write_byte_def)
  qed
qed

lemma write_unit32_spec:
  assumes inv: "enc_inv v e" and len: "length (content e) < 2 ^ 60"
  shows "enc_inv v (write_unit32 e u) \<and> content (write_unit32 e u) = le32 u @ content e \<and>
    e_state (write_unit32 e u) = e_state e"
proof -
  have put: "enc_inv v (d\<lparr>e_ptr := e_ptr d - 4, e_buf := put_at (e_buf d) (e_ptr d - 4) (le32 u)\<rparr>) \<and>
      content (d\<lparr>e_ptr := e_ptr d - 4, e_buf := put_at (e_buf d) (e_ptr d - 4) (le32 u)\<rparr>) = le32 u @ content d"
    if "enc_inv v d" "4 \<le> e_ptr d" for d
  proof -
    have lt: "e_ptr d - 4 + length (le32 u) \<le> length (e_buf d)" "e_ptr d - 4 + 4 = e_ptr d"
      using that by (auto simp: enc_inv_def)
    have "content (d\<lparr>e_ptr := e_ptr d - 4, e_buf := put_at (e_buf d) (e_ptr d - 4) (le32 u)\<rparr>) = le32 u @ content d"
      using lt by (simp add: content_def put_at_def)
    moreover have "put_at (e_buf d) (e_ptr d - 4) (le32 u) \<noteq> []"
      using lt by (simp add: put_at_def le32_def)
    ultimately show ?thesis using that lt by (auto simp: enc_inv_def)
  qed
  have live: "\<not> e_oom e" "e_buf e \<noteq> []" using inv by (simp_all add: enc_inv_def)
  show ?thesis
  proof (cases "e_ptr e < 4")
    case True
    obtain e' where g: "grow e = (True, e')" "enc_inv v e'" "content e' = content e"
        "e_state e' = e_state e" "4 \<le> e_ptr e'"
      by (rule grow_spec [OF inv len True])
    then show ?thesis using live True put [of e'] by (simp add: write_unit32_def)
  next
    case False
    then show ?thesis using live put [of e] inv by (simp add: write_unit32_def)
  qed
qed

section \<open>One abstract step\<close>

definition enc_rel :: "rans_variant \<Rightarrow> rans_encoder \<Rightarrow> ans_state \<Rightarrow> bool" where
  "enc_rel v e s \<longleftrightarrow> enc_inv v e \<and> aok v s \<and> unat (e_state e) = fst s \<and> content e = snd s"

lemma enc_inv_state [simp]: "enc_inv v (e\<lparr>e_state := x\<rparr>) = enc_inv v e"
  by (simp add: enc_inv_def content_def)

lemma content_state [simp]: "content (e\<lparr>e_state := x\<rparr>) = content e"
  by (simp add: content_def)

lemma renorm_loop_refines:
  "enc_inv v e \<Longrightarrow> length (content e) + unat x < 2 ^ 60 \<Longrightarrow> 0 < x_max \<Longrightarrow>
    \<exists>x' e'. renorm_byte_loop x_max x e = Some (x', e') \<and> enc_inv v e' \<and>
      byte_renorm (unat x_max) (unat x) (content e) = (unat x', content e')"
proof (induction "unat x" arbitrary: x e rule: less_induct)
  case less
  show ?case
  proof (cases "x_max \<le> x")
    case True
    let ?e = "write_byte e (ucast x)" and ?x = "drop_bit 8 x"
    have pos: "0 < unat x_max" "unat x_max \<le> unat x"
      using less.prems(3) True by (simp_all add: word_less_nat_alt word_le_nat_alt)
    have x: "unat ?x = unat x div 256" using unat_drop_bit_div [of 8 x] by simp
    have w: "enc_inv v ?e" "content ?e = ucast x # content e"
      using write_byte_spec [OF less.prems(1)] less.prems(2) by simp_all
    have lt: "unat ?x < unat x" "Suc (unat ?x) \<le> unat x" using pos by (simp_all add: x)
    have "length (content ?e) + unat ?x < 2 ^ 60" using less.prems(2) lt(2) by (simp add: w(2))
    from less.hyps [OF lt(1) w(1) this less.prems(3)] obtain x' e' where
      "renorm_byte_loop x_max ?x ?e = Some (x', e')" "enc_inv v e'"
      "byte_renorm (unat x_max) (unat ?x) (content ?e) = (unat x', content e')" by blast
    then show ?thesis using True pos
      by (simp add: renorm_byte_loop.simps [of x_max x] byte_renorm.simps [of "unat x_max" "unat x"] x w(2))
  next
    case False
    then have "\<not> unat x_max \<le> unat x" by (simp add: word_le_nat_alt)
    then show ?thesis using False less.prems
      by (simp add: renorm_byte_loop.simps [of x_max x] byte_renorm.simps [of "unat x_max" "unat x"])
  qed
qed

lemma renorm_byte_refines:
  assumes "enc_rel RansByte e s" "length (snd s) < 2 ^ 59" "0 < n" "n < 2 ^ 32"
    "byte_renorm n (fst s) (snd s) = (y, out)"
  obtains e' where "renorm_byte e (of_nat n) = Some e'" "enc_inv RansByte e'" "content e' = out"
    "e_state e' = of_nat y"
proof -
  from assms(1) have r: "enc_inv RansByte e" "unat (e_state e) = fst s" "content e = snd s" "fst s < 2 ^ 31"
    by (simp_all add: enc_rel_def aok_def byte_ok_def)
  have u: "unat (ucast (e_state e) :: u32) = fst s"
    using r(2,4) by (simp add: unat_ucast_u64_u32)
  have n: "unat (of_nat n :: u32) = n" using assms(4) by (simp add: unat_of_nat_small)
  then have "0 < (of_nat n :: u32)" using assms(3) by (simp add: word_less_nat_alt)
  with renorm_loop_refines [OF r(1), of "ucast (e_state e)" "of_nat n"] obtain x' e' where
    l: "renorm_byte_loop (of_nat n) (ucast (e_state e)) e = Some (x', e')" "enc_inv RansByte e'"
      "byte_renorm n (fst s) (snd s) = (unat x', content e')"
    using assms(2) r(3,4) unfolding u n by fastforce
  have x: "unat x' = y" "content e' = out" using l(3) assms(5) by simp_all
  have "ucast x' = (of_nat y :: u64)" unfolding x(1) [symmetric] by simp
  with l x show thesis
    by (intro that [of "e'\<lparr>e_state := ucast x'\<rparr>"]) (simp_all add: renorm_byte_def)
qed

lemma renorm_64_refines:
  assumes "enc_rel Rans64 e s" "length (snd s) < 2 ^ 59" "n \<le> 2 ^ 63"
  shows "enc_inv Rans64 (renorm_64 e (of_nat n)) \<and>
    content (renorm_64 e (of_nat n)) = (if n \<le> fst s then le32 (of_nat (fst s)) @ snd s else snd s) \<and>
    e_state (renorm_64 e (of_nat n)) = of_nat (if n \<le> fst s then fst s div 2 ^ 32 else fst s)"
proof -
  from assms(1) have r: "enc_inv Rans64 e" "unat (e_state e) = fst s" "content e = snd s" "fst s < 2 ^ 63"
    by (simp_all add: enc_rel_def aok_def unit_ok_def)
  have es: "e_state e = of_nat (fst s)" unfolding r(2) [symmetric] by simp
  have f: "fst s < 2 ^ LENGTH(64)" "n < 2 ^ LENGTH(64)" using r(4) assms(3) by simp_all
  have c: "(of_nat n :: u64) \<le> e_state e \<longleftrightarrow> n \<le> fst s"
    unfolding es using f by (simp only: le_of_nat_word)
  have u: "(ucast (e_state e) :: u32) = of_nat (fst s)"
    unfolding es using f(1) by (intro ucast_of_nat_u64_u32) simp
  have d: "drop_bit 32 (e_state e) = (of_nat (fst s div 2 ^ 32) :: u64)"
    unfolding es by (rule drop_bit_of_nat_word [OF f(1)])
  have w: "enc_inv Rans64 (write_unit32 e (of_nat (fst s)))"
      "content (write_unit32 e (of_nat (fst s))) = le32 (of_nat (fst s)) @ snd s"
    using write_unit32_spec [OF r(1), of "of_nat (fst s)"] assms(2) r(3) by simp_all
  have e: "renorm_64 e (of_nat n) =
      (if n \<le> fst s then (write_unit32 e (of_nat (fst s)))\<lparr>e_state := of_nat (fst s div 2 ^ 32)\<rparr> else e)"
    unfolding renorm_64_def Let_def c u d by (rule refl)
  show ?thesis
    by (cases "n \<le> fst s") (simp_all add: e w r(1,3) es)
qed

section \<open>Putting symbols\<close>

lemma enc_rel_byteI:
  assumes ok: "aok RansByte s" and wf: "wf_sym 23 (start, freq, bits)"
    and r: "byte_renorm (freq * 2 ^ (31 - bits)) (fst s) (snd s) = (y, out)"
    and e: "enc_inv RansByte e" "content e = out" "e_state e = ucast (of_nat (ans_in (start, freq, bits) y) :: u32)"
  shows "enc_rel RansByte e (aput RansByte (start, freq, bits) s)"
proof -
  have p: "aput RansByte (start, freq, bits) s = (ans_in (start, freq, bits) y, out)"
    using r by (simp add: variant_defs byte_put_def)
  have ok': "aok RansByte (ans_in (start, freq, bits) y, out)"
    using rans_code.put_ok [OF ok, of "(start, freq, bits)"] wf by (simp add: p amax_def)
  then have "ans_in (start, freq, bits) y < 2 ^ 32" by (simp add: variant_defs byte_ok_def)
  then have "unat (e_state e) = ans_in (start, freq, bits) y"
    unfolding e(3) by (simp add: ucast_of_nat_u32_u64 unat_of_nat_small)
  with e ok' show ?thesis by (simp add: p enc_rel_def)
qed

lemma byte_renorm_range:
  assumes "aok RansByte s" "wf_sym 23 (start, freq, bits)"
    "byte_renorm (freq * 2 ^ (31 - bits)) (fst s) (snd s) = (y, out)"
  shows "1 \<le> y" "y < freq * 2 ^ (31 - bits)" "freq * 2 ^ (31 - bits) \<le> 2 ^ 31" "freq < 2 ^ 32"
    "0 < freq * 2 ^ (31 - bits)" "freq * 2 ^ (31 - bits) < 2 ^ 32"
proof -
  have ok: "byte_ok s" using assms(1) by (simp add: variant_defs)
  have b: "bits \<le> 23" "0 < freq" using assms(2) by (simp_all add: wf_sym_def)
  from byte_put_split [OF ok assms(2)] obtain y' out' where
    p: "byte_put (start, freq, bits) s = (ans_in (start, freq, bits) y', out')"
      "freq * 2 ^ (23 - bits) \<le> y'" "y' < freq * 2 ^ (31 - bits)" by blast
  have "ans_in (start, freq, bits) y' = ans_in (start, freq, bits) y"
    using p(1) assms(3) by (simp add: byte_put_def)
  then have "y' = y" by (metis ans_out_in [OF assms(2)])
  moreover have "1 \<le> freq * 2 ^ (23 - bits)" using b(2) by simp
  ultimately show "1 \<le> y" "y < freq * 2 ^ (31 - bits)" using p by linarith+
  have "bits + (31 - bits) = 31" using b(1) by simp
  then show "freq * 2 ^ (31 - bits) \<le> 2 ^ 31"
    using wf_sym_less(5) [OF assms(2) b(1), of 31] by simp
  then show "freq * 2 ^ (31 - bits) < 2 ^ 32" by (rule order_le_less_trans) simp
  show "0 < freq * 2 ^ (31 - bits)" using b(2) by simp
  show "freq < 2 ^ 32" using wf_sym_less(4) [OF assms(2) b(1)] by simp
qed

lemma put_sym_byte_refines:
  assumes rel: "enc_rel RansByte e s" and len: "length (snd s) < 2 ^ 59" and wf: "wf_sym 23 (start, freq, bits)"
  shows "\<exists>e'. put_sym_byte e (enc_sym_init_byte (of_nat start) (of_nat freq) bits) = Some e' \<and>
    enc_rel RansByte e' (aput RansByte (start, freq, bits) s)"
proof -
  let ?n = "freq * 2 ^ (31 - bits)" and ?es = "enc_sym_init_byte (of_nat start) (of_nat freq) bits"
  have ok: "aok RansByte s" using rel by (simp add: enc_rel_def)
  obtain y out where r: "byte_renorm ?n (fst s) (snd s) = (y, out)" by force
  note y = byte_renorm_range [OF ok wf r]
  note n = y(5,6)
  obtain e' where e': "renorm_byte e (of_nat ?n) = Some e'" "enc_inv RansByte e'" "content e' = out"
      "e_state e' = of_nat y"
    by (rule renorm_byte_refines [OF rel len n r])
  have y32: "1 \<le> y" "y < 2 ^ 31" using y by linarith+
  have x: "(ucast (e_state e') :: u32) = of_nat y"
    unfolding e'(4) using y32 by (intro ucast_of_nat_u64_u32) simp
  have "put_sym_byte e ?es = Some (e'\<lparr>e_state := ucast (of_nat (ans_in (start, freq, bits) y) :: u32)\<rparr>)"
    unfolding put_sym_byte_def enc_sym_byte_max e'(1) Option.bind_eq_Some_conv
    using enc_sym_byte_step [OF wf_sym_mono [OF wf] y32] by (simp add: x Let_def)
  then show ?thesis using enc_rel_byteI [OF ok wf r, of "e'\<lparr>e_state := _\<rparr>"] e'(2,3) by auto
qed

lemma unit_step:
  assumes rel: "enc_rel Rans64 e s" and len: "length (snd s) < 2 ^ 59" and wf: "wf_sym 31 (start, freq, bits)"
  obtains y e' where "renorm_64 e (of_nat (freq * 2 ^ (63 - bits))) = e'" "e_state e' = of_nat y"
    "1 \<le> y" "y < 2 ^ 63"
    "enc_rel Rans64 (e'\<lparr>e_state := of_nat (ans_in (start, freq, bits) y)\<rparr>) (aput Rans64 (start, freq, bits) s)"
proof -
  let ?n = "freq * 2 ^ (63 - bits)" and ?t = "(start, freq, bits)"
  have ok: "aok Rans64 s" using rel by (simp add: enc_rel_def)
  then have ok': "unit_ok s" by (simp add: variant_defs)
  have b: "bits \<le> 31" "0 < freq" using wf by (simp_all add: wf_sym_def)
  have "bits + (63 - bits) = 63" using b(1) by simp
  then have n: "?n \<le> 2 ^ 63" using wf_sym_less(5) [OF wf b(1), of 63] by simp
  from unit_put_split [OF ok' wf] obtain y out where
    p: "unit_put ?t s = (ans_in ?t y, out)" "freq * 2 ^ (31 - bits) \<le> y" "y < ?n" by blast
  have "unit_put ?t s = (ans_in ?t (if ?n \<le> fst s then fst s div 2 ^ 32 else fst s),
      if ?n \<le> fst s then le32 (of_nat (fst s)) @ snd s else snd s)"
    by (simp add: unit_put_def)
  with p(1) have i: "ans_in ?t (if ?n \<le> fst s then fst s div 2 ^ 32 else fst s) = ans_in ?t y"
    and out: "(if ?n \<le> fst s then le32 (of_nat (fst s)) @ snd s else snd s) = out"
    by (simp_all only: prod.inject)
  from arg_cong [OF i, of "ans_out ?t"] have y: "(if ?n \<le> fst s then fst s div 2 ^ 32 else fst s) = y"
    by (simp only: ans_out_in [OF wf])
  let ?e = "renorm_64 e (of_nat ?n)"
  have e: "enc_inv Rans64 ?e" "content ?e = out" "e_state ?e = of_nat y"
    using renorm_64_refines [OF rel len n] unfolding y out by blast+
  have "aok Rans64 (ans_in ?t y, out)"
    using rans_code.put_ok [OF ok, of ?t] wf p(1) by (simp add: variant_defs)
  moreover from this have "ans_in ?t y < 2 ^ 64" by (simp add: variant_defs unit_ok_def)
  then have "unat (of_nat (ans_in ?t y) :: u64) = ans_in ?t y" by (simp add: unat_of_nat_small)
  ultimately have rel': "enc_rel Rans64 (?e\<lparr>e_state := of_nat (ans_in ?t y)\<rparr>) (aput Rans64 ?t s)"
    using e p(1) by (simp add: enc_rel_def) (simp add: variant_defs)
  have "1 \<le> freq * 2 ^ (31 - bits)" using b(2) by simp
  with p n have "1 \<le> y" "y < 2 ^ 63" by linarith+
  from that [OF refl e(3) this rel'] show thesis .
qed

lemma put_sym_64_refines:
  assumes rel: "enc_rel Rans64 e s" and len: "length (snd s) < 2 ^ 59" and wf: "wf_sym 31 (start, freq, bits)"
  shows "\<exists>e'. put_sym_64 e (enc_sym_init_64 (of_nat start) (of_nat freq) bits) = Some e' \<and>
    enc_rel Rans64 e' (aput Rans64 (start, freq, bits) s)"
proof -
  obtain y e' where e: "renorm_64 e (of_nat (freq * 2 ^ (63 - bits))) = e'" "e_state e' = of_nat y"
    "1 \<le> y" "y < 2 ^ 63"
    "enc_rel Rans64 (e'\<lparr>e_state := of_nat (ans_in (start, freq, bits) y)\<rparr>) (aput Rans64 (start, freq, bits) s)"
    by (rule unit_step [OF rel len wf])
  have b: "bits \<le> 31" using wf by (simp add: wf_sym_def)
  then have "bits + (31 - bits) = 31" by simp
  then have n: "freq * 2 ^ (31 - bits) < 2 ^ 32" using wf_sym_less(5) [OF wf b, of 31] by simp
  have "31 - bits + 32 = 63 - bits" using b by simp
  then have eq: "freq * 2 ^ (31 - bits) * 2 ^ 32 = freq * 2 ^ (63 - bits)"
    by (simp only: mult.assoc power_add [symmetric])
  have x: "push_bit 32 (ucast (of_nat (freq * 2 ^ (31 - bits)) :: u32)) = (of_nat (freq * 2 ^ (63 - bits)) :: u64)"
    unfolding ucast_of_nat_u32_u64 [OF n] push_bit_of_nat_word eq by (rule refl)
  have "put_sym_64 e (enc_sym_init_64 (of_nat start) (of_nat freq) bits) =
      Some (e'\<lparr>e_state := of_nat (ans_in (start, freq, bits) y)\<rparr>)"
    unfolding put_sym_64_def enc_sym_unit_max x e(1) Let_def e(2)
    using enc_sym_unit_step [OF wf e(3,4)] by simp
  with e(5) show ?thesis by blast
qed

lemma put_raw_refines:
  assumes rel: "enc_rel v e s" and len: "length (snd s) < 2 ^ 59" and wf: "wf_sym (amax v) (start, freq, bits)"
  shows "\<exists>e'. put_raw e (of_nat start) (of_nat freq) bits = Some e' \<and>
    enc_rel v e' (aput v (start, freq, bits) s)"
proof (cases v)
  case RansByte
  have rel': "enc_rel RansByte e s" and wf': "wf_sym 23 (start, freq, bits)"
    using rel wf RansByte by (simp_all add: amax_def)
  let ?n = "freq * 2 ^ (31 - bits)"
  have ok: "aok RansByte s" using rel' by (simp add: enc_rel_def)
  obtain y out where r: "byte_renorm ?n (fst s) (snd s) = (y, out)" by force
  note y = byte_renorm_range [OF ok wf' r]
  note n = y(5,6)
  obtain e' where e': "renorm_byte e (of_nat ?n) = Some e'" "enc_inv RansByte e'" "content e' = out"
      "e_state e' = of_nat y"
    by (rule renorm_byte_refines [OF rel' len n r])
  have "y < 2 ^ 64" "y < 2 ^ LENGTH(32)" using y by simp_all
  then have x: "(ucast (e_state e') :: u32) = of_nat y"
    unfolding e'(4) by (intro ucast_of_nat_u64_u32)
  have f: "freq < 2 ^ LENGTH(32)" using y(4) by simp
  have ev: "e_variant e = RansByte" using rel' by (simp add: enc_rel_def enc_inv_def)
  have "put_raw e (of_nat start) (of_nat freq) bits =
      Some (e'\<lparr>e_state := ucast (of_nat (ans_in (start, freq, bits) y) :: u32)\<rparr>)"
    using e'(1) \<open>y < 2 ^ LENGTH(32)\<close> f
    by (simp add: put_raw_def ev push_bit_of_nat_word x Let_def div_of_nat_word mod_of_nat_word
        ans_in_def del: of_nat_mult of_nat_add)
      (simp add: ac_simps)
  then show ?thesis using enc_rel_byteI [OF ok wf' r, of "e'\<lparr>e_state := _\<rparr>"] e'(2,3) RansByte by auto
next
  case Rans64
  have rel': "enc_rel Rans64 e s" and wf': "wf_sym 31 (start, freq, bits)"
    using rel wf Rans64 by (simp_all add: amax_def)
  obtain y e' where e: "renorm_64 e (of_nat (freq * 2 ^ (63 - bits))) = e'" "e_state e' = of_nat y"
    "1 \<le> y" "y < 2 ^ 63"
    "enc_rel Rans64 (e'\<lparr>e_state := of_nat (ans_in (start, freq, bits) y)\<rparr>) (aput Rans64 (start, freq, bits) s)"
    by (rule unit_step [OF rel' len wf'])
  have "bits \<le> 31" using wf' by (simp add: wf_sym_def)
  note l = wf_sym_less [OF wf' this]
  have u: "ucast (of_nat freq :: u32) = (of_nat freq :: u64)" "ucast (of_nat start :: u32) = (of_nat start :: u64)"
    using l(1,3,4) by (auto intro!: ucast_of_nat_u32_u64)
  have f: "y < 2 ^ LENGTH(64)" "freq < 2 ^ LENGTH(64)" using l(4) e(4) by simp_all
  have ev: "e_variant e = Rans64" using rel' by (simp add: enc_rel_def enc_inv_def)
  have "put_raw e (of_nat start) (of_nat freq) bits =
      Some (e'\<lparr>e_state := of_nat (ans_in (start, freq, bits) y)\<rparr>)"
    unfolding put_raw_def ev rans_variant.case u push_bit_of_nat_word e(1) Let_def e(2)
      div_of_nat_word [OF f] mod_of_nat_word [OF f] ans_in_def prod.case of_nat_add by (rule refl)
  with e(5) Rans64 show ?thesis by blast
qed

lemma put_sym_refines:
  assumes rel: "enc_rel v e s" and len: "length (snd s) < 2 ^ 59" and wf: "wf_sym (amax v) (start, freq, bits)"
    and sym: "es = enc_sym_init v (of_nat start) (of_nat freq) bits"
  shows "\<exists>e'. (case e_variant e of RansByte \<Rightarrow> put_sym_byte e es | Rans64 \<Rightarrow> put_sym_64 e es) = Some e' \<and>
    enc_rel v e' (aput v (start, freq, bits) s)"
proof -
  have "e_variant e = v" using rel by (simp add: enc_rel_def enc_inv_def)
  then show ?thesis using assms
    by (cases v) (simp_all add: enc_sym_init_def put_sym_byte_refines put_sym_64_refines amax_def)
qed

text \<open>A symbol adds at most four bytes to the stream.\<close>

lemma byte_renorm_length:
  "x < 256 ^ k \<Longrightarrow> 0 < x_max \<Longrightarrow> length (snd (byte_renorm x_max x out)) \<le> length out + k"
proof (induction k arbitrary: x out)
  case 0
  then show ?case by (simp add: byte_renorm.simps [of x_max 0])
next
  case (Suc k)
  then show ?case
    using Suc.IH [of "x div 256" "of_nat x # out"]
    by (auto simp: byte_renorm.simps [of x_max x] less_mult_imp_div_less mult.commute)
qed

lemma aput_length:
  assumes "aok v s" "wf_sym (amax v) t"
  shows "length (snd (aput v t s)) \<le> length (snd s) + 4"
proof -
  obtain start freq bits where t: "t = (start, freq, bits)" by (cases t)
  show ?thesis
  proof (cases v)
    case RansByte
    with assms have "fst s < 256 ^ 4" "0 < freq * 2 ^ (31 - bits)"
      by (simp_all add: variant_defs byte_ok_def wf_sym_def t)
    from byte_renorm_length [OF this, of "snd s"] RansByte show ?thesis
      by (cases "byte_renorm (freq * 2 ^ (31 - bits)) (fst s) (snd s)") (simp add: variant_defs byte_put_def t)
  next
    case Rans64
    then show ?thesis by (simp add: variant_defs unit_put_def t split: prod.splits)
  qed
qed

end
