(* ===== verification/Rans_Decoder.thy ===== *)
theory Rans_Decoder
  imports Rans_Encoder
begin

text \<open>
  The decoder of \<open>codecs/mlvc/src/rans.cpp\<close> refines the abstract coder: its state word and
  the unread rest of its data are an abstract state, \<open>get_bits\<close> is the abstract lookup, and
  \<open>advance\<close> with the right symbol is the abstract advance.
\<close>

unbundle bit_operations_syntax

definition rest :: "rans_decoder \<Rightarrow> bytes" where
  "rest d = drop (d_pos d) (d_data d)"

definition dec_rel :: "rans_variant \<Rightarrow> rans_decoder \<Rightarrow> ans_state \<Rightarrow> bool" where
  "dec_rel v d s \<longleftrightarrow>
     d_variant d = v \<and> d_opened d \<and> d_pos d \<le> length (d_data d) \<and> aok v s \<and>
     unat (d_state d) = fst s \<and> rest d = snd s"

lemma mask_of_push_bit: "push_bit n (1 :: 'a::len word) - 1 = mask n"
  by (simp add: mask_eq_decr_exp push_bit_eq_mult)

lemma and_mask_of_nat_word:
  assumes "a < 2 ^ LENGTH('a)"
  shows "(of_nat a :: 'a::len word) AND mask n = of_nat (a mod 2 ^ n)"
proof -
  have "unat (take_bit n (of_nat a :: 'a word)) = a mod 2 ^ n"
    unfolding unsigned_take_bit_eq unat_of_nat_small [OF assms] by (rule take_bit_eq_mod)
  then have "of_nat (unat (take_bit n (of_nat a :: 'a word))) = (of_nat (a mod 2 ^ n) :: 'a word)"
    by (rule arg_cong)
  then show ?thesis by (simp only: of_nat_unat ucast_id take_bit_eq_mask)
qed

lemma aok_less: "aok v s \<Longrightarrow> fst s < 2 ^ 63"
  by (cases v) (simp_all add: variant_defs byte_ok_def unit_ok_def)

lemma dec_rel_state:
  assumes "dec_rel v d s"
  shows "d_state d = of_nat (fst s)" "fst s < 2 ^ LENGTH(64)"
proof -
  have "unat (d_state d) = fst s" using assms by (simp add: dec_rel_def)
  then show "d_state d = of_nat (fst s)" by (metis of_nat_unat ucast_id)
  show "fst s < 2 ^ LENGTH(64)" using assms aok_less [of v s] by (simp add: dec_rel_def)
qed

lemma get_bits_refines:
  assumes "dec_rel v d s" "bits \<le> 31"
  shows "get_bits d bits = of_nat (ans_get bits s)"
proof -
  note st = dec_rel_state [OF assms(1)]
  have "(ucast (d_state d) :: u32) = of_nat (fst s)"
    unfolding st(1) using st(2) by (intro ucast_of_nat_u64_u32) simp
  then have "get_bits d bits = take_bit bits (of_nat (fst s))"
    by (simp only: get_bits_def mask_of_push_bit take_bit_eq_mask)
  also have "\<dots> = of_nat (unat (take_bit bits (of_nat (fst s) :: u32)))"
    by (simp only: of_nat_unat ucast_id)
  finally have g: "get_bits d bits = of_nat (unat (take_bit bits (of_nat (fst s) :: u32)))" .
  have "(2::nat) ^ bits dvd 2 ^ 32" using assms(2) by (intro le_imp_power_dvd) simp
  then have "unat (take_bit bits (of_nat (fst s) :: u32)) = fst s mod 2 ^ bits"
    unfolding unsigned_take_bit_eq unsigned_of_nat take_bit_take_bit
    using assms(2) by (simp add: take_bit_eq_mod mod_mod_cancel)
  then show ?thesis unfolding g ans_get_def by simp
qed

lemma refill_byte_refines:
  "byte_fill m (rest d) = Some (m', out) \<Longrightarrow> m < 2 ^ 31 \<Longrightarrow> d_pos d \<le> length (d_data d) \<Longrightarrow>
    \<exists>p. refill_byte (of_nat m) d = (Some (of_nat m'), d\<lparr>d_pos := p\<rparr>) \<and> p \<le> length (d_data d) \<and>
      drop p (d_data d) = out"
proof (induction m "rest d" arbitrary: d rule: byte_fill.induct)
  case (1 m)
  have m32: "m < 2 ^ LENGTH(32)" using "1.prems"(2) by simp
  have low: "of_nat m < kByteLower \<longleftrightarrow> m < 2 ^ 23"
    unfolding kByteLower_def push_bit_one_of_nat using m32 by (intro less_of_nat_word) simp_all
  show ?case
  proof (cases "m < 2 ^ 23")
    case True
    with "1.prems"(1) obtain b bs where r: "rest d = b # bs"
      by (auto simp: byte_fill.simps [of m] split: list.splits)
    then have lt: "d_pos d < length (d_data d)" and b: "d_data d ! d_pos d = b"
      by (auto simp: rest_def) (metis drop_all list.distinct(1) not_le, metis nth_via_drop)
    let ?d = "d\<lparr>d_pos := d_pos d + 1\<rparr>"
    have bs: "bs = rest ?d" using r by (simp add: rest_def drop_Suc flip: tl_drop)
    have rd: "read_byte d = (Some b, ?d)" using lt b by (simp add: read_byte_def)
    have x: "push_bit 8 (of_nat m) + ucast b = (of_nat (m * 256 + unat b) :: u32)"
      by (simp add: push_bit_of_nat_word)
    have "unat b < 256" using unsigned_less [of b] by simp
    then have "m * 256 + unat b < 2 ^ 31" using True by simp
    with "1.hyps" [OF True r [unfolded bs]] "1.prems" True r bs lt obtain p where
      "refill_byte (of_nat (m * 256 + unat b)) ?d = (Some (of_nat m'), ?d\<lparr>d_pos := p\<rparr>)"
      "p \<le> length (d_data d)" "drop p (d_data d) = out"
      by (auto simp: byte_fill.simps [of m])
    then show ?thesis
      using True low by (intro exI [of _ p]) (simp add: refill_byte.simps [of "of_nat m"] rd x del: of_nat_add of_nat_mult)
  next
    case False
    with "1.prems" low show ?thesis
      by (intro exI [of _ "d_pos d"]) (auto simp: refill_byte.simps [of "of_nat m'"] byte_fill.simps [of m] rest_def)
  qed
qed

lemma ans_out_le:
  assumes "wf_sym m (start, freq, bits)"
  shows "ans_out (start, freq, bits) x \<le> x"
proof -
  have "freq * (x div 2 ^ bits) \<le> 2 ^ bits * (x div 2 ^ bits)"
    using assms by (intro mult_le_mono1) (simp add: wf_sym_def)
  then have "freq * (x div 2 ^ bits) + x mod 2 ^ bits \<le> x"
    by (metis add_le_mono1 mult_div_mod_eq)
  then show ?thesis by (simp add: ans_out_def)
qed

lemma advance_byte_refines:
  assumes rel: "dec_rel RansByte d s" and wf: "wf_sym 23 (start, freq, bits)"
    and adv: "aadv RansByte (start, freq, bits) s = Some s'" and ok: "aok RansByte s'"
    and st: "start \<le> ans_get bits s"
  shows "\<exists>d'. advance d (of_nat start) (of_nat freq) bits = (True, d') \<and> dec_rel RansByte d' s'"
proof -
  let ?x = "fst s" and ?m = "ans_out (start, freq, bits) (fst s)"
  have dr: "d_variant d = RansByte" "d_opened d" "d_pos d \<le> length (d_data d)" "rest d = snd s"
    using rel by (simp_all add: dec_rel_def)
  have x: "?x < 2 ^ 31" using rel by (simp add: dec_rel_def variant_defs byte_ok_def)
  then have x32: "?x < 2 ^ LENGTH(32)" by simp
  have u: "(ucast (d_state d) :: u32) = of_nat ?x"
    unfolding dec_rel_state(1) [OF rel] using x by (intro ucast_of_nat_u64_u32) simp
  have "start \<le> freq * (?x div 2 ^ bits) + ?x mod 2 ^ bits"
    using st by (simp add: ans_get_def)
  then have "of_nat freq * drop_bit bits (of_nat ?x) + (of_nat ?x AND (push_bit bits 1 - 1)) - of_nat start
      = (of_nat ?m :: u32)"
    unfolding mask_of_push_bit and_mask_of_nat_word [OF x32] drop_bit_of_nat_word [OF x32]
    by (simp add: ans_out_def of_nat_diff)
  moreover have "byte_fill ?m (rest d) = Some (fst s', snd s')"
    using adv by (simp add: variant_defs byte_adv_def dr)
  moreover have "?m < 2 ^ 31" using ans_out_le [OF wf, of ?x] x by linarith
  ultimately obtain p where r: "refill_byte (of_nat freq * drop_bit bits (of_nat ?x)
        + (of_nat ?x AND (push_bit bits 1 - 1)) - of_nat start) d = (Some (of_nat (fst s')), d\<lparr>d_pos := p\<rparr>)"
      "p \<le> length (d_data d)" "drop p (d_data d) = snd s'"
    using refill_byte_refines [of ?m d "fst s'" "snd s'"] dr(3) by auto
  have s': "fst s' < 2 ^ 32" using ok by (simp add: variant_defs byte_ok_def)
  then have "unat (ucast (of_nat (fst s') :: u32) :: u64) = fst s'"
    by (simp add: ucast_of_nat_u32_u64 unat_of_nat_small)
  with r ok dr show ?thesis
    by (simp add: advance_def Let_def u dec_rel_def rest_def)
qed

lemma advance_unit_refines:
  assumes rel: "dec_rel Rans64 d s" and wf: "wf_sym 31 (start, freq, bits)"
    and adv: "aadv Rans64 (start, freq, bits) s = Some s'" and ok: "aok Rans64 s'"
    and st: "start \<le> ans_get bits s"
  shows "\<exists>d'. advance d (of_nat start) (of_nat freq) bits = (True, d') \<and> dec_rel Rans64 d' s'"
proof -
  let ?x = "fst s" and ?m = "ans_out (start, freq, bits) (fst s)"
  have dr: "d_variant d = Rans64" "d_opened d" "d_pos d \<le> length (d_data d)" "rest d = snd s"
    using rel by (simp_all add: dec_rel_def)
  note x = dec_rel_state [OF rel]
  have b: "bits \<le> 31" using wf by (simp add: wf_sym_def)
  note l = wf_sym_less [OF wf b]
  have uc: "ucast (of_nat freq :: u32) = (of_nat freq :: u64)" "ucast (of_nat start :: u32) = (of_nat start :: u64)"
    using l(1,3,4) by (auto intro!: ucast_of_nat_u32_u64)
  have "bits < 32" using b by simp
  then have mk: "ucast (mask bits :: u32) = (mask bits :: u64)"
    by (intro bit_word_eqI) (auto simp: bit_simps)
  have "(2::nat) ^ bits \<le> 2 ^ 31" using b by (intro power_increasing) auto
  moreover have "?x mod 2 ^ bits < 2 ^ bits" by simp
  ultimately have "?x mod 2 ^ bits < 2 ^ 31" by (rule order_less_le_trans [rotated])
  then have v32: "?x mod 2 ^ bits < 2 ^ 32" "?x mod 2 ^ bits < 2 ^ 64" by simp_all
  have v: "ucast (ucast (of_nat ?x AND ucast (push_bit bits 1 - 1 :: u32) :: u64) :: u32) = (of_nat (?x mod 2 ^ bits) :: u64)"
    unfolding mask_of_push_bit mk and_mask_of_nat_word [OF x(2)] ucast_of_nat_u64_u32 [OF v32(2)]
      ucast_of_nat_u32_u64 [OF v32(1)] by (rule refl)
  have "start \<le> freq * (?x div 2 ^ bits) + ?x mod 2 ^ bits"
    using st by (simp add: ans_get_def)
  then have m: "of_nat freq * of_nat (?x div 2 ^ bits) + of_nat (?x mod 2 ^ bits) - of_nat start = (of_nat ?m :: u64)"
    by (simp add: ans_out_def of_nat_diff)
  have "?m < 2 ^ LENGTH(64)" using ans_out_le [OF wf, of ?x] x(2) by linarith
  then have low: "of_nat ?m < k64Lower \<longleftrightarrow> ?m < 2 ^ 31"
    unfolding k64Lower_def push_bit_one_of_nat by (intro less_of_nat_word) simp_all
  have fill: "unit_fill ?m (rest d) = Some s'"
    using adv by (simp add: variant_defs unit_adv_def dr)
  have s': "fst s' < 2 ^ LENGTH(64)" using aok_less [OF ok] by simp
  have a: "advance d (of_nat start) (of_nat freq) bits =
      (if of_nat ?m < k64Lower
       then (case read_unit32 d of (None, d') \<Rightarrow> (False, d')
             | (Some u, d') \<Rightarrow> (True, d'\<lparr>d_state := push_bit 32 (of_nat ?m) + ucast u\<rparr>))
       else (True, d\<lparr>d_state := of_nat ?m\<rparr>))"
    unfolding advance_def Let_def dr(1) rans_variant.case x(1) v uc drop_bit_of_nat_word [OF x(2)] m by (rule refl)
  show ?thesis
  proof (cases "?m < 2 ^ 31")
    case True
    with fill have r4: "4 \<le> length (rest d)" "s' = (?m * 2 ^ 32 + unat (rd_u32 (rest d) 0), drop 4 (rest d))"
      by (auto simp: unit_fill_def split: if_splits)
    have "rd_u32 (d_data d) (d_pos d) = rd_u32 (rest d) 0"
      using r4(1) by (simp add: rd_u32_def rest_def)
    with r4(1) have ru: "read_unit32 d = (Some (rd_u32 (rest d) 0), d\<lparr>d_pos := d_pos d + 4\<rparr>)"
      by (simp add: read_unit32_def rest_def)
    have "push_bit 32 (of_nat ?m) + ucast (rd_u32 (rest d) 0) = (of_nat (fst s') :: u64)"
      by (simp add: r4(2) push_bit_of_nat_word)
    with True low have "advance d (of_nat start) (of_nat freq) bits =
        (True, d\<lparr>d_pos := d_pos d + 4, d_state := of_nat (fst s')\<rparr>)"
      unfolding a ru by simp
    moreover have "dec_rel Rans64 (d\<lparr>d_pos := d_pos d + 4, d_state := of_nat (fst s')\<rparr>) s'"
      using ok dr(1-3) r4(1) unat_of_nat_small [OF s'] arg_cong [OF r4(2), of snd]
      by (simp add: dec_rel_def rest_def add.commute)
    ultimately show ?thesis by blast
  next
    case False
    with fill have "s' = (?m, rest d)" by (simp add: unit_fill_def)
    with False low have "advance d (of_nat start) (of_nat freq) bits = (True, d\<lparr>d_state := of_nat (fst s')\<rparr>)"
      unfolding a by simp
    moreover have "dec_rel Rans64 (d\<lparr>d_state := of_nat (fst s')\<rparr>) s'"
      using ok dr unat_of_nat_small [OF s'] \<open>s' = (?m, rest d)\<close>
      by (simp add: dec_rel_def rest_def)
    ultimately show ?thesis by blast
  qed
qed

lemma advance_refines:
  assumes "dec_rel v d s" "wf_sym (amax v) (start, freq, bits)" "aadv v (start, freq, bits) s = Some s'"
    "aok v s'" "start \<le> ans_get bits s"
  shows "\<exists>d'. advance d (of_nat start) (of_nat freq) bits = (True, d') \<and> dec_rel v d' s'"
  using assms advance_byte_refines [of d s] advance_unit_refines [of d s]
  by (cases v) (simp_all add: amax_def)

end
