(* ===== verification/Rans_Create.thy ===== *)
theory Rans_Create
  imports Rans_Encoder
begin

text \<open>
  What \<open>RansCoder::create\<close> establishes: every distribution of a coder owns a row of positive
  frequencies whose sum is at most the scale, an encoder symbol for each of them and the
  cumulative table that the decoder searches (\<open>coder_ok\<close>).
\<close>

unbundle bit_operations_syntax

section \<open>Rows of frequencies\<close>

definition cum :: "int list \<Rightarrow> nat \<Rightarrow> nat" where
  "cum r k = nat (sum_list (take k r))"

definition row_ok :: "nat \<Rightarrow> int list \<Rightarrow> bool" where
  "row_ok bits r \<longleftrightarrow> (\<forall>t \<in> set r. 0 < t) \<and> sum_list r \<le> 2 ^ bits"

definition dist_ok :: "rans_coder \<Rightarrow> rans_dist \<Rightarrow> bool" where
  "dist_ok c d \<longleftrightarrow>
     (\<exists>r. 1 \<le> bypass_sentinel d \<and> length r = nat (bypass_sentinel d + 1) \<and> row_ok (symbol_bits c) r \<and>
        (\<forall>k < length r. enc_syms c ! (enc_sym_offset d + k) =
           enc_sym_init (variant c) (of_nat (cum r k)) (of_nat (nat (r ! k))) (symbol_bits c)) \<and>
        (\<forall>k \<le> length r. cdf_table c ! (dec_cdf_offset d + k) = of_nat (cum r k)))"

definition coder_ok :: "rans_coder \<Rightarrow> bool" where
  "coder_ok c \<longleftrightarrow>
     2 \<le> symbol_bits c \<and> symbol_bits c \<le> 30 \<and> 2 \<le> bypass_bits c \<and> bypass_bits c \<le> 31 \<and>
     bypass_max c = push_bit (bypass_bits c) 1 - 1 \<and>
     dists c \<noteq> [] \<and> enc_syms c \<noteq> [] \<and> cdf_table c \<noteq> [] \<and> (\<forall>d \<in> set (dists c). dist_ok c d)"

lemma row_sum_nonneg: "(\<forall>t \<in> set r. 0 < t) \<Longrightarrow> 0 \<le> sum_list (r :: int list)"
  by (intro sum_list_nonneg) auto

lemma take_sum_nonneg: "(\<forall>t \<in> set r. 0 < t) \<Longrightarrow> 0 \<le> sum_list (take k (r :: int list))"
  using row_sum_nonneg [of "take k r"] set_take_subset [of k r] by blast

lemma cum_0 [simp]: "cum r 0 = 0"
  by (simp add: cum_def)

lemma cum_Suc:
  assumes "row_ok bits r" "k < length r"
  shows "cum r (Suc k) = cum r k + nat (r ! k)"
proof -
  have "0 < r ! k" "0 \<le> sum_list (take k r)"
    using assms take_sum_nonneg [of r k] by (auto simp: row_ok_def)
  then show ?thesis using assms(2) by (simp add: cum_def take_Suc_conv_app_nth nat_add_distrib)
qed

lemma cum_mono:
  assumes r: "row_ok bits r"
  shows "j \<le> k \<Longrightarrow> k \<le> length r \<Longrightarrow> cum r j \<le> cum r k"
proof (induction k)
  case (Suc k)
  then show ?case using cum_Suc [OF r, of k] by (cases "j = Suc k") auto
qed simp

lemma cum_total:
  assumes "row_ok bits r"
  shows "cum r (length r) \<le> 2 ^ bits"
  using assms by (simp add: cum_def row_ok_def nat_le_iff)

lemma row_sym_wf:
  assumes r: "row_ok bits r" and k: "k < length r" and b: "bits \<le> m"
  shows "wf_sym m (cum r k, nat (r ! k), bits)"
proof -
  have "cum r (Suc k) \<le> cum r (length r)" using k by (intro cum_mono [OF r]) auto
  then have "cum r k + nat (r ! k) \<le> 2 ^ bits"
    using cum_Suc [OF r k] cum_total [OF r] by linarith
  moreover have "0 < nat (r ! k)" using r k by (auto simp: row_ok_def)
  ultimately show ?thesis using b by (simp add: wf_sym_def)
qed

section \<open>The frequency test\<close>

lemma sint_of_int_small:
  assumes "0 \<le> k" "k < 2 ^ 31"
  shows "sint (word_of_int k :: u32) = k"
  using assms by (simp add: signed_of_int signed_take_bit_int_eq_self)

lemma freq_ok_iff:
  assumes "bits \<le> 30" "0 \<le> start" "start \<le> 2 ^ bits"
  shows "freq_ok (push_bit bits 1) start freq \<longleftrightarrow> 0 < freq \<and> start + freq \<le> 2 ^ bits"
proof -
  have "(2::int) ^ bits \<le> 2 ^ 30" using assms(1) by (intro power_increasing) auto
  then have "2 ^ bits - start < 2 ^ 31" "0 \<le> 2 ^ bits - start" using assms by simp_all
  then have "sint (word_of_int (2 ^ bits - start) :: u32) = 2 ^ bits - start"
    by (intro sint_of_int_small)
  moreover have "push_bit bits 1 - word_of_int start = (word_of_int (2 ^ bits - start) :: u32)"
    by (simp add: push_bit_eq_mult)
  ultimately show ?thesis by (auto simp: freq_ok_def)
qed

lemma freq_ok_31: "\<not> freq_ok (push_bit 31 1) 0 freq"
proof -
  have "sint (push_bit 31 1 - word_of_int 0 :: u32) = - (2 ^ 31)" by code_simp
  then show ?thesis by (simp add: freq_ok_def)
qed

section \<open>The two passes over the table\<close>

definition row_syms :: "rans_variant \<Rightarrow> nat \<Rightarrow> enc_sym list \<Rightarrow> nat \<Rightarrow> int list \<Rightarrow> bool" where
  "row_syms v bits ss off r \<longleftrightarrow>
     (\<forall>k < length r. ss ! (off + k) = enc_sym_init v (of_nat (cum r k)) (of_nat (nat (r ! k))) bits)"

definition row_cdf :: "u32 list \<Rightarrow> nat \<Rightarrow> int list \<Rightarrow> bool" where
  "row_cdf cs off r \<longleftrightarrow> (\<forall>k \<le> length r. cs ! (off + k) = of_nat (cum r k))"

lemma dist_syms_spec:
  "dist_syms v bits (push_bit bits 1) start r = Inr ss \<Longrightarrow> bits \<le> 30 \<Longrightarrow> 0 \<le> start \<Longrightarrow> start \<le> 2 ^ bits \<Longrightarrow>
    length ss = length r \<and> (\<forall>t \<in> set r. 0 < t) \<and> start + sum_list r \<le> 2 ^ bits \<and>
    (\<forall>k < length r. ss ! k = enc_sym_init v (word_of_int (start + sum_list (take k r))) (word_of_int (r ! k)) bits)"
proof (induction r arbitrary: start ss)
  case (Cons t r)
  from Cons.prems have t: "0 < t" "start + t \<le> 2 ^ bits"
    using freq_ok_iff [of bits start t] by (auto split: if_splits)
  from Cons.prems obtain ss' where ss': "dist_syms v bits (push_bit bits 1) (start + t) r = Inr ss'"
    "ss = enc_sym_init v (word_of_int start) (word_of_int t) bits # ss'"
    by (auto split: if_splits sum.splits)
  note IH = Cons.IH [OF ss'(1) Cons.prems(2)]
  from IH t Cons.prems(3) have I: "length ss' = length r" "\<forall>t \<in> set r. 0 < t" "start + t + sum_list r \<le> 2 ^ bits"
    "\<forall>k < length r. ss' ! k = enc_sym_init v (word_of_int (start + t + sum_list (take k r))) (word_of_int (r ! k)) bits"
    by auto
  have "ss ! k = enc_sym_init v (word_of_int (start + sum_list (take k (t # r)))) (word_of_int ((t # r) ! k)) bits"
    if "k < length (t # r)" for k
    using that I(4) ss'(2) by (cases k) (simp_all only: nth_Cons_0 nth_Cons_Suc take_0 take_Suc_Cons
      sum_list.Nil sum_list.Cons add_0_right length_Cons Suc_less_eq add.assoc)
  with I t ss'(2) show ?case by auto
qed simp

lemma dist_cdf_spec:
  "dist_cdf mf start r = Inr cs \<Longrightarrow>
    length cs = Suc (length r) \<and> (\<forall>k \<le> length r. cs ! k = word_of_int (start + sum_list (take k r)))"
proof (induction r arbitrary: start cs)
  case (Cons t r)
  from Cons.prems obtain cs' where cs': "dist_cdf mf (start + t) r = Inr cs'" "cs = word_of_int start # cs'"
    by (auto split: if_splits sum.splits)
  note I = Cons.IH [OF cs'(1)]
  have "cs ! k = word_of_int (start + sum_list (take k (t # r)))" if "k \<le> length (t # r)" for k
    using that I cs'(2) by (cases k) (simp_all only: nth_Cons_0 nth_Cons_Suc take_0 take_Suc_Cons
      sum_list.Nil sum_list.Cons add_0_right length_Cons Suc_le_mono add.assoc)
  with I cs'(2) show ?case by simp
qed simp

lemma word_of_cum:
  assumes "\<forall>t \<in> set r. 0 < t"
  shows "word_of_int (sum_list (take k r)) = (of_nat (cum r k) :: u32)"
  using take_sum_nonneg [OF assms, of k] by (simp add: cum_def)

lemma dist_syms_row:
  assumes "dist_syms v bits (push_bit bits 1) 0 r = Inr ss" "bits \<le> 30"
  shows "length ss = length r" "row_ok bits r" "length pre = off \<Longrightarrow> row_syms v bits (pre @ ss @ post) off r"
proof -
  note S = dist_syms_spec [OF assms(1,2)]
  show "length ss = length r" "row_ok bits r" using S by (simp_all add: row_ok_def)
  have pos: "\<forall>t \<in> set r. 0 < t" using S by simp
  have "word_of_int (r ! k) = (of_nat (nat (r ! k)) :: u32)" if "k < length r" for k
    using pos that by (auto simp: of_nat_nat less_imp_le dest!: nth_mem)
  then show "row_syms v bits (pre @ ss @ post) off r" if "length pre = off"
    using S that word_of_cum [OF pos] by (simp add: row_syms_def nth_append)
qed

lemma dist_cdf_row:
  assumes "dist_cdf mf 0 r = Inr cs" "row_ok bits r" "length pre = off"
  shows "length cs = Suc (length r)" "row_cdf (pre @ cs @ post) off r"
proof -
  note S = dist_cdf_spec [OF assms(1)]
  show "length cs = Suc (length r)" using S by simp
  have "\<forall>t \<in> set r. 0 < t" using assms(2) by (simp add: row_ok_def)
  then show "row_cdf (pre @ cs @ post) off r"
    using S assms(3) word_of_cum by (simp add: row_cdf_def nth_append less_Suc_eq_le)
qed

section \<open>The whole table\<close>

fun rows :: "int list \<Rightarrow> rans_dist list \<Rightarrow> int list list" where
  "rows table [] = []"
| "rows table (d # ds) =
     take (nat (bypass_sentinel d + 1)) table # rows (drop (nat (bypass_sentinel d + 1)) table) ds"

fun contig :: "nat \<Rightarrow> nat \<Rightarrow> rans_dist list \<Rightarrow> bool" where
  "contig n cursor [] = (cursor \<le> n)"
| "contig n cursor (d # ds) =
     (enc_sym_offset d = cursor \<and> 1 \<le> bypass_sentinel d \<and>
      contig n (cursor + nat (bypass_sentinel d + 1)) ds)"

lemma contig_le: "contig n cursor ds \<Longrightarrow> cursor \<le> n"
  by (induction n cursor ds rule: contig.induct) auto

lemma create_dists_contig:
  "create_dists n cursor lens offs = Inr (ds, cur) \<Longrightarrow> cursor \<le> n \<Longrightarrow> length lens = length offs \<Longrightarrow>
    contig n cursor ds \<and> length ds = length lens"
proof (induction n cursor lens offs arbitrary: ds rule: create_dists.induct)
  case (1 n cursor len lens off offs)
  from "1.prems"(1) obtain ds' where ds':
    "\<not> (len \<le> 1 \<or> n - cursor < nat len)" "create_dists n (cursor + nat len) lens offs = Inr (ds', cur)"
    "ds = \<lparr>value_offset = off, bypass_sentinel = len - 1, enc_sym_offset = cursor, dec_cdf_offset = 0\<rparr> # ds'"
    by (auto split: if_splits sum.splits)
  with "1.IH" [OF ds'(1,2)] "1.prems" show ?case by auto
qed auto

definition dist_row :: "rans_variant \<Rightarrow> nat \<Rightarrow> enc_sym list \<Rightarrow> rans_dist \<Rightarrow> int list \<Rightarrow> bool" where
  "dist_row v bits ss d r \<longleftrightarrow>
     1 \<le> bypass_sentinel d \<and> length r = nat (bypass_sentinel d + 1) \<and> row_ok bits r \<and>
     row_syms v bits ss (enc_sym_offset d) r"

lemma all_syms_spec:
  "all_syms v bits (push_bit bits 1) table ds = Inr ss \<Longrightarrow> bits \<le> 30 \<Longrightarrow> contig n cursor ds \<Longrightarrow>
    length table = n - cursor \<Longrightarrow> length pre = cursor \<Longrightarrow>
    list_all2 (dist_row v bits (pre @ ss)) ds (rows table ds)"
proof (induction ds arbitrary: table ss cursor pre)
  case (Cons d ds)
  let ?n = "nat (bypass_sentinel d + 1)"
  from Cons.prems(1) obtain s1 s2 where s: "dist_syms v bits (push_bit bits 1) 0 (take ?n table) = Inr s1"
    "all_syms v bits (push_bit bits 1) (drop ?n table) ds = Inr s2" "ss = s1 @ s2"
    by (auto simp: Let_def split: sum.splits)
  from Cons.prems(3) have d: "enc_sym_offset d = cursor" "1 \<le> bypass_sentinel d" "contig n (cursor + ?n) ds"
    by simp_all
  from contig_le [OF d(3)] Cons.prems(4) have n: "length (take ?n table) = ?n" by simp
  note R = dist_syms_row [OF s(1) Cons.prems(2)]
  have "dist_row v bits (pre @ ss) d (take ?n table)"
    using d n R(2) R(3) [of pre "enc_sym_offset d" s2] Cons.prems(5) by (simp add: dist_row_def s(3))
  moreover have "list_all2 (dist_row v bits ((pre @ s1) @ s2)) ds (rows (drop ?n table) ds)"
    by (rule Cons.IH [OF s(2) Cons.prems(2) d(3)]) (use Cons.prems R(1) n in auto)
  ultimately show ?case by (simp add: s(3))
qed simp

definition cdf_row :: "u32 list \<Rightarrow> rans_dist \<Rightarrow> rans_dist \<times> int list \<Rightarrow> bool" where
  "cdf_row cs d' p \<longleftrightarrow>
     (\<exists>off. d' = (fst p)\<lparr>dec_cdf_offset := off\<rparr> \<and> row_cdf cs off (snd p))"

lemma all_cdf_spec:
  "all_cdf mf k tbl table ds = Inr (ds', cs) \<Longrightarrow> length pre = tbl + k \<Longrightarrow>
    list_all2 (dist_row v bits ss) ds (rows table ds) \<Longrightarrow>
    list_all2 (cdf_row (pre @ cs)) ds' (zip ds (rows table ds))"
proof (induction ds arbitrary: k tbl table ds' cs pre)
  case (Cons d ds)
  let ?n = "nat (bypass_sentinel d + 1)"
  from Cons.prems(1) obtain c1 c2 ds2 where c: "dist_cdf mf 0 (take ?n table) = Inr c1"
    "all_cdf mf (Suc k) (tbl + ?n) (drop ?n table) ds = Inr (ds2, c2)"
    "ds' = d\<lparr>dec_cdf_offset := tbl + k\<rparr> # ds2" "cs = c1 @ c2"
    by (auto simp: Let_def split: sum.splits)
  from Cons.prems(3) have d: "length (take ?n table) = ?n" "row_ok bits (take ?n table)"
    "list_all2 (dist_row v bits ss) ds (rows (drop ?n table) ds)"
    by (simp_all add: dist_row_def [of v bits ss d])
  note R = dist_cdf_row(1) [OF c(1) d(2) Cons.prems(2)] dist_cdf_row(2) [OF c(1) d(2) Cons.prems(2), of c2]
  have "cdf_row (pre @ cs) (d\<lparr>dec_cdf_offset := tbl + k\<rparr>) (d, take ?n table)"
    using R(2) by (auto simp: cdf_row_def c(4))
  moreover have "list_all2 (cdf_row ((pre @ c1) @ c2)) ds2 (zip ds (rows (drop ?n table) ds))"
    by (rule Cons.IH [OF c(2) _ d(3)]) (use Cons.prems(2) R(1) d(1) in auto)
  ultimately show ?case by (simp add: c(3,4))
qed simp

lemma all_cdf_length:
  "all_cdf mf k tbl table ds = Inr (ds', cs) \<Longrightarrow> ds \<noteq> [] \<Longrightarrow> ds' \<noteq> [] \<and> cs \<noteq> []"
proof (cases ds)
  case (Cons d ds0)
  assume "all_cdf mf k tbl table ds = Inr (ds', cs)"
  then show ?thesis using dist_cdf_spec
    by (fastforce simp: Cons Let_def split: sum.splits)
qed simp

lemma all_syms_nonempty:
  assumes "all_syms v bits (push_bit bits 1) table ds = Inr ss" "bits \<le> 30" "contig (length table) 0 ds" "ds \<noteq> []"
  shows "ss \<noteq> []"
proof -
  obtain d ds0 where ds: "ds = d # ds0" using assms(4) by (cases ds) auto
  let ?n = "nat (bypass_sentinel d + 1)"
  from assms(1) obtain s1 s2 where s: "dist_syms v bits (push_bit bits 1) 0 (take ?n table) = Inr s1" "ss = s1 @ s2"
    by (auto simp: ds Let_def split: sum.splits)
  have "?n \<le> length table" "1 \<le> ?n" using assms(3) contig_le [of "length table" ?n ds0] by (auto simp: ds)
  have "length s1 = ?n" using dist_syms_row(1) [OF s(1) assms(2)] \<open>?n \<le> length table\<close> by simp
  with \<open>1 \<le> ?n\<close> have "s1 \<noteq> []" by (metis list.size(3) not_one_le_zero)
  with s(2) show ?thesis by simp
qed

section \<open>\<open>create\<close>\<close>

lemma first_freq_31:
  assumes "all_syms v 31 (push_bit 31 1) table ds = Inr ss" "contig (length table) 0 ds" "ds \<noteq> []"
  shows False
proof -
  obtain d ds0 where ds: "ds = d # ds0" using assms(3) by (cases ds) auto
  let ?n = "nat (bypass_sentinel d + 1)"
  have "?n \<le> length table" "1 \<le> ?n" using assms(2) contig_le [of "length table" ?n ds0] by (auto simp: ds)
  then obtain t r where "take ?n table = t # r"
    by (cases "take ?n table") auto
  with assms(1) freq_ok_31 [of t] show False by (simp add: ds Let_def)
qed

lemma rans_create_ok:
  assumes create: "rans_create v lengths offsets table sym_bits byp_bits = Inr c"
  shows "coder_ok c \<and> variant c = v \<and> symbol_bits c = nat sym_bits \<and> bypass_bits c = nat byp_bits"
proof -
  let ?b = "nat sym_bits" and ?n = "length table"
  have pre: "lengths \<noteq> []" "length lengths = length offsets" "2 \<le> sym_bits" "sym_bits \<le> 31"
    "2 \<le> byp_bits" "byp_bits \<le> 31"
    using create by (auto simp: rans_create_def Let_def kByteMaxScale_def split: if_splits)
  from create obtain ds where ds: "create_dists ?n 0 lengths offsets = Inr (ds, ?n)"
    by (auto simp: rans_create_def Let_def split: if_splits sum.splits)
  from create ds obtain ss where ss: "all_syms v ?b (push_bit ?b 1) table ds = Inr ss"
    by (auto simp: rans_create_def Let_def split: if_splits sum.splits)
  from create ds ss obtain ds' cs where cs: "all_cdf (push_bit ?b 1) 0 0 table ds = Inr (ds', cs)"
    by (auto simp: rans_create_def Let_def split: if_splits sum.splits)
  from create ds ss cs have c: "c = \<lparr>variant = v, symbol_bits = ?b, bypass_bits = nat byp_bits,
      bypass_max = push_bit (nat byp_bits) 1 - 1, dists = ds', enc_syms = ss, cdf_table = cs\<rparr>"
    by (auto simp: rans_create_def Let_def split: if_splits sum.splits)
  from create_dists_contig [OF ds _ pre(2)] pre(1) have ct: "contig ?n 0 ds" "ds \<noteq> []" by auto
  have "?b \<noteq> 31" using first_freq_31 [OF _ ct] ss by auto
  with pre have b: "?b \<le> 30" by linarith
  have rows: "list_all2 (dist_row v ?b ss) ds (rows table ds)"
    using all_syms_spec [OF ss b ct(1), of "[]"] by simp
  have cdf: "list_all2 (cdf_row cs) ds' (zip ds (rows table ds))"
    using all_cdf_spec [OF cs, of "[]", OF _ rows] by simp
  have "dist_ok c d'" if "d' \<in> set ds'" for d'
  proof -
    from that obtain i where i: "i < length ds'" "d' = ds' ! i" by (auto simp: in_set_conv_nth)
    have len: "length ds' = length ds" "length (rows table ds) = length ds"
      using list_all2_lengthD [OF cdf] list_all2_lengthD [OF rows] by simp_all
    have "dist_row v ?b ss (ds ! i) (rows table ds ! i)" using rows i len by (simp add: list_all2_conv_all_nth)
    moreover have "cdf_row cs d' (ds ! i, rows table ds ! i)" using cdf i len by (simp add: list_all2_conv_all_nth)
    ultimately show ?thesis
      by (auto simp: dist_ok_def dist_row_def cdf_row_def row_syms_def row_cdf_def c intro!: exI [of _ "rows table ds ! i"])
  qed
  moreover have "ds' \<noteq> []" "cs \<noteq> []" "ss \<noteq> []"
    using all_cdf_length [OF cs ct(2)] all_syms_nonempty [OF ss b ct] by simp_all
  ultimately show ?thesis using pre b by (simp add: coder_ok_def c nat_le_iff le_nat_iff)
qed

end
