(* ===== verification/Rans_Bypass.thy ===== *)
theory Rans_Bypass
  imports Rans_Decoder Rans_Create
begin

text \<open>
  The escape codes of \<open>codecs/mlvc/src/rans.cpp\<close>: a value outside the table is written as its
  number of digits, in a unary code of base \<open>2 ^ bypass_bits - 1\<close>, followed by the digits in
  base \<open>2 ^ bypass_bits\<close>, all of them as equiprobable symbols. \<open>RansDecoder::bypass\<close> reads back
  the code that \<open>RansEncoder::bypass\<close> wrote.
\<close>

unbundle bit_operations_syntax

section \<open>Digits\<close>

lemma one_less_pow2: "0 < b \<Longrightarrow> (1::nat) < 2 ^ b"
  by (rule one_less_power) simp_all

lemma div_power_less: "0 < n \<Longrightarrow> 0 < b \<Longrightarrow> n div 2 ^ b < (n::nat)"
  by (intro div_less_dividend one_less_pow2)

function digits :: "nat \<Rightarrow> nat \<Rightarrow> nat list" where
  "digits b n = (if n = 0 \<or> b = 0 then [] else n mod 2 ^ b # digits b (n div 2 ^ b))"
  by pat_completeness auto
termination
  by (relation "measure snd") (auto simp: div_power_less)

declare digits.simps [simp del]

definition undigits :: "nat \<Rightarrow> nat list \<Rightarrow> nat" where
  "undigits b ds = foldr (\<lambda>d acc. d + 2 ^ b * acc) ds 0"

lemma undigits_simps [simp]:
  "undigits b [] = 0" "undigits b (d # ds) = d + 2 ^ b * undigits b ds"
  by (simp_all add: undigits_def)

lemma undigits_digits: "0 < b \<Longrightarrow> undigits b (digits b n) = n"
proof (induction b n rule: digits.induct)
  case (1 b n)
  then show ?case by (cases "n = 0") (simp_all add: digits.simps [of b n] digits.simps [of b 0])
qed

lemma digits_less: "d \<in> set (digits b n) \<Longrightarrow> d < 2 ^ b"
proof (induction b n rule: digits.induct)
  case (1 b n)
  then show ?case by (cases "n = 0 \<or> b = 0") (auto simp: digits.simps [of b n])
qed

lemma digits_length: "n < 2 ^ (b * k) \<Longrightarrow> length (digits b n) \<le> k"
proof (induction k arbitrary: n)
  case 0
  then show ?case by (simp add: digits.simps [of b 0])
next
  case (Suc k)
  then have "n div 2 ^ b < 2 ^ (b * k)"
    by (simp add: div_less_iff_less_mult power_add mult.commute)
  with Suc.IH show ?case by (simp add: digits.simps [of b n])
qed

lemma bypass_digits_refines:
  "1 \<le> b \<Longrightarrow> bypass_digits (push_bit b 1 - 1) b v = Some (map of_nat (digits b (unat v)))"
proof (induction "unat v" arbitrary: v rule: less_induct)
  case less
  show ?case
  proof (cases "v = 0")
    case True
    then show ?thesis by (simp add: bypass_digits.simps [of _ b 0] digits.simps [of b 0])
  next
    case False
    then have pos: "0 < unat v" by (simp add: unat_gt_0)
    have dv: "unat (drop_bit b v) = unat v div 2 ^ b" by (rule unat_drop_bit_div)
    have "(1::nat) < 2 ^ b" using less.prems by (intro one_less_pow2) simp
    with pos have lt: "unat (drop_bit b v) < unat v" unfolding dv by (intro div_less_dividend)
    have "v AND (push_bit b 1 - 1) = of_nat (unat v mod 2 ^ b)"
      unfolding mask_of_push_bit
      using and_mask_of_nat_word [of "unat v" b, where 'a = 32] unsigned_less [of v, where 'a = nat]
      by simp
    moreover have "0 < b" using less.prems by simp
    ultimately show ?thesis using less.hyps [OF lt less.prems] False pos
      by (simp add: bypass_digits.simps [of _ b v] digits.simps [of b "unat v"] dv)
  qed
qed

lemma bypass_count_refines:
  "0 < B \<Longrightarrow> B < 2 ^ 32 \<Longrightarrow> n < 2 ^ 32 \<Longrightarrow>
    bypass_count (of_nat B) (of_nat n) p = Some (of_nat (n mod B), p + n div B)"
proof (induction n arbitrary: p rule: less_induct)
  case (less n)
  have c: "(of_nat B :: u32) \<le> of_nat n \<longleftrightarrow> B \<le> n"
    using less.prems by (intro le_of_nat_word) simp_all
  show ?case
  proof (cases "B \<le> n")
    case True
    with less.prems have "bypass_count (of_nat B) (of_nat (n - B)) (Suc p) =
        Some (of_nat ((n - B) mod B), Suc p + (n - B) div B)"
      by (intro less.IH) simp_all
    moreover have "n mod B = (n - B) mod B" "n div B = Suc ((n - B) div B)"
      using True less.prems(1) by (simp_all add: le_mod_geq le_div_geq)
    ultimately show ?thesis using True c
      by (simp add: bypass_count.simps [of _ "of_nat n"] of_nat_diff)
  next
    case False
    then show ?thesis using c by (simp add: bypass_count.simps [of _ "of_nat n"])
  qed
qed

section \<open>The encoder's side\<close>

definition raw :: "nat \<Rightarrow> nat list \<Rightarrow> ans_sym list" where
  "raw bits xs = map (\<lambda>x. (x, 1, bits)) xs"

lemma raw_simps [simp]:
  "raw bits [] = []" "raw bits (x # xs) = (x, 1, bits) # raw bits xs"
  "raw bits (xs @ ys) = raw bits xs @ raw bits ys" "length (raw bits xs) = length xs"
  by (simp_all add: raw_def)

definition bypass_syms :: "nat \<Rightarrow> nat \<Rightarrow> nat list" where
  "bypass_syms b n =
     (let ds = digits b n; B = 2 ^ b - 1
      in replicate (length ds div B) B @ [length ds mod B] @ ds)"

lemma raw_wf:
  "\<forall>x \<in> set xs. x < 2 ^ bits \<Longrightarrow> bits \<le> m \<Longrightarrow> list_all (wf_sym m) (raw bits xs)"
  by (auto simp: raw_def list_all_iff wf_sym_def Suc_le_eq)

lemma bypass_syms_less:
  assumes "1 \<le> b" "x \<in> set (bypass_syms b n)"
  shows "x < 2 ^ b"
proof -
  have "(1::nat) < 2 ^ b" using assms(1) by (intro one_less_pow2) simp
  then have B: "0 < (2::nat) ^ b - 1" by simp
  then have "length (digits b n) mod (2 ^ b - 1) < 2 ^ b - 1" by (rule mod_less_divisor)
  then have "length (digits b n) mod (2 ^ b - 1) < 2 ^ b" by linarith
  with assms(2) B digits_less [of x b n] show ?thesis
    by (auto simp: bypass_syms_def Let_def)
qed

lemma bypass_syms_wf: "1 \<le> b \<Longrightarrow> b \<le> m \<Longrightarrow> list_all (wf_sym m) (raw b (bypass_syms b n))"
  by (rule raw_wf) (blast intro: bypass_syms_less)+

lemma bypass_syms_length:
  "length (bypass_syms b n) \<le> 2 * length (digits b n) + 1"
  by (simp add: bypass_syms_def Let_def)

lemma put_raw_list_refines:
  "enc_rel v e s \<Longrightarrow> list_all (wf_sym (amax v)) (raw bits xs) \<Longrightarrow>
    length (snd s) + 4 * length xs < 2 ^ 59 \<Longrightarrow>
    \<exists>e'. put_raw_list e (map of_nat xs) bits = Some e' \<and>
      enc_rel v e' (foldr (aput v) (raw bits (rev xs)) s) \<and>
      length (snd (foldr (aput v) (raw bits (rev xs)) s)) \<le> length (snd s) + 4 * length xs"
proof (induction xs arbitrary: e s)
  case (Cons x xs)
  let ?s = "aput v (x, 1, bits) s"
  have wf: "wf_sym (amax v) (x, 1, bits)" using Cons.prems(2) by simp
  have ok: "aok v s" using Cons.prems(1) by (simp add: enc_rel_def)
  obtain e1 where e1: "put_raw e (of_nat x) 1 bits = Some e1" "enc_rel v e1 ?s"
    using put_raw_refines [OF Cons.prems(1) _ wf] Cons.prems(3) by auto
  have l: "length (snd ?s) \<le> length (snd s) + 4" by (rule aput_length [OF ok wf])
  with Cons.IH [OF e1(2)] Cons.prems obtain e' where
    "put_raw_list e1 (map of_nat xs) bits = Some e'" "enc_rel v e' (foldr (aput v) (raw bits (rev xs)) ?s)"
    "length (snd (foldr (aput v) (raw bits (rev xs)) ?s)) \<le> length (snd ?s) + 4 * length xs"
    by auto
  then show ?case using e1(1) l by auto
qed simp

lemma mask_nat: "(push_bit b 1 - 1 :: u32) = of_nat (2 ^ b - 1)"
  by (simp add: push_bit_one_of_nat of_nat_diff)

lemma enc_bypass_refines:
  assumes rel: "enc_rel v e s" and c: "coder_ok c" "bypass_bits c \<le> amax v"
    and len: "length (snd s) + 4 * length (bypass_syms (bypass_bits c) (unat x)) < 2 ^ 59"
  shows "\<exists>e'. enc_bypass e c x = Some e' \<and>
    enc_rel v e' (foldr (aput v) (raw (bypass_bits c) (bypass_syms (bypass_bits c) (unat x))) s)"
proof -
  let ?b = "bypass_bits c" and ?B = "2 ^ bypass_bits c - 1 :: nat" and ?ds = "digits (bypass_bits c) (unat x)"
  have b: "1 \<le> ?b" "?b \<le> 31" and bm: "bypass_max c = push_bit ?b 1 - 1"
    using c(1) by (simp_all add: coder_ok_def)
  have "(1::nat) < 2 ^ ?b" using b(1) by (intro one_less_pow2) simp
  moreover have "(2::nat) ^ ?b \<le> 2 ^ 31" using b(2) by (intro power_increasing) auto
  ultimately have B: "0 < ?B" "?B < 2 ^ 32" by simp_all
  have "unat x < 2 ^ (1 * 32)" using unsigned_less [of x] by simp
  also have "\<dots> \<le> 2 ^ (?b * 32)" using b(1) by (intro power_increasing) auto
  finally have n: "length ?ds \<le> 32" by (rule digits_length)
  then have n32: "length ?ds < 2 ^ 32" by simp
  have wf: "list_all (wf_sym (amax v)) (raw ?b (bypass_syms ?b (unat x)))"
    by (rule bypass_syms_wf [OF b(1) c(2)])
  have sy: "bypass_syms ?b (unat x) = replicate (length ?ds div ?B) ?B @ [length ?ds mod ?B] @ ?ds"
    by (simp add: bypass_syms_def Let_def)
  let ?all = "rev ?ds @ [length ?ds mod ?B] @ replicate (length ?ds div ?B) ?B"
  have rv: "rev ?all = bypass_syms ?b (unat x)" by (simp add: sy)
  have wf': "list_all (wf_sym (amax v)) (raw ?b ?all)"
    using wf by (auto simp: sy raw_def list_all_iff)
  have "length (snd s) + 4 * length ?all < 2 ^ 59" using len by (simp add: sy)
  from put_raw_list_refines [OF rel wf' this] obtain e' where
    e': "put_raw_list e (map of_nat ?all) ?b = Some e'"
      "enc_rel v e' (foldr (aput v) (raw ?b (bypass_syms ?b (unat x))) s)" unfolding rv by blast
  have split: "put_raw_list e (xs @ ys) bits = Option.bind (put_raw_list e xs bits) (\<lambda>d. put_raw_list d ys bits)"
    for e xs ys bits by (induction xs arbitrary: e) (auto split: Option.bind_splits)
  have "enc_bypass e c x = put_raw_list e (map of_nat ?all) ?b"
    unfolding enc_bypass_def bm bypass_digits_refines [OF b(1)]
    using bypass_count_refines [OF B n32, of 0]
    by (simp add: mask_nat rev_map split bind_assoc)
  with e' show ?thesis by auto
qed

section \<open>The decoder's side\<close>

text \<open>What a decoder is about to read: the state left by an encoder that put \<open>ts\<close> last.\<close>

definition reads :: "rans_variant \<Rightarrow> rans_decoder \<Rightarrow> ans_sym list \<Rightarrow> ans_state \<Rightarrow> bool" where
  "reads v d ts s \<longleftrightarrow> aok v s \<and> list_all (wf_sym (amax v)) ts \<and> dec_rel v d (foldr (aput v) ts s)"

lemma reads_step:
  assumes "reads v d ((start, freq, bits) # ts) s"
  obtains d' where "advance d (of_nat start) (of_nat freq) bits = (True, d')" "reads v d' ts s"
proof -
  have a: "aok v s" "list_all (wf_sym (amax v)) ((start, freq, bits) # ts)"
    "dec_rel v d (foldr (aput v) ((start, freq, bits) # ts) s)"
    using assms by (auto simp: reads_def)
  have wf: "wf_sym (amax v) (start, freq, bits)" "list_all (wf_sym (amax v)) ts" using a(2) by simp_all
  have adv: "aadv v (start, freq, bits) (foldr (aput v) ((start, freq, bits) # ts) s) = Some (foldr (aput v) ts s)"
    by (rule rans_code.adv_put_all [OF a(1,2)])
  have ok: "aok v (foldr (aput v) ts s)" by (rule rans_code.put_all_ok [OF a(1) wf(2)])
  have "start \<le> ans_get bits (foldr (aput v) ((start, freq, bits) # ts) s)"
    using rans_code.get_put_all [OF a(1,2)] by simp
  from advance_refines [OF a(3) wf(1) adv ok this] obtain d' where
    "advance d (of_nat start) (of_nat freq) bits = (True, d')" "dec_rel v d' (foldr (aput v) ts s)" by blast
  with a(1) wf(2) show thesis by (intro that) (simp_all add: reads_def)
qed

lemma reads_get:
  assumes "reads v d ((start, freq, bits) # ts) s" "bits \<le> 31"
  obtains x where "get_bits d bits = of_nat x" "start \<le> x" "x < start + freq" "x < 2 ^ 32"
proof -
  let ?s = "foldr (aput v) ((start, freq, bits) # ts) s"
  have a: "aok v s" "list_all (wf_sym (amax v)) ((start, freq, bits) # ts)" "dec_rel v d ?s"
    using assms(1) by (auto simp: reads_def)
  have "ans_get bits ?s < 2 ^ bits" by (simp add: ans_get_def)
  also have "\<dots> \<le> 2 ^ 31" using assms(2) by (intro power_increasing) auto
  finally have "ans_get bits ?s < 2 ^ 32" by simp
  with rans_code.get_put_all [OF a(1,2)] get_bits_refines [OF a(3) assms(2)] show thesis
    by (intro that) simp_all
qed

lemma reads_raw:
  assumes "reads v d (raw bits (x # xs) @ ts) s" "bits \<le> 31"
  obtains d' where "get_bits d bits = of_nat x" "advance d (of_nat x) 1 bits = (True, d')"
    "reads v d' (raw bits xs @ ts) s"
proof -
  have r: "reads v d ((x, 1, bits) # (raw bits xs @ ts)) s" using assms(1) by simp
  obtain y where "get_bits d bits = of_nat y" "x \<le> y" "y < x + 1" by (rule reads_get [OF r assms(2)]) auto
  then have "get_bits d bits = of_nat x" by (metis Suc_eq_plus1 le_antisym less_Suc_eq_le)
  moreover obtain d' where "advance d (of_nat x) (of_nat 1) bits = (True, d')" "reads v d' (raw bits xs @ ts) s"
    by (rule reads_step [OF r])
  ultimately show thesis by (intro that) simp_all
qed

lemma bypass_prefix_reads:
  assumes b: "bypass_bits c \<le> 31" and B: "bypass_max c = of_nat B" "B < 2 ^ 31" and r: "r < B"
  shows "reads v d (raw (bypass_bits c) (replicate p B @ [r] @ xs) @ ts) s \<Longrightarrow>
    n = cnt + p * B + r \<Longrightarrow> n \<le> m \<Longrightarrow> m < 2 ^ 31 \<Longrightarrow>
    \<exists>d'. bypass_prefix c (of_nat m) (of_nat B) (of_nat cnt) d = Some (Some (of_nat n), d') \<and>
      reads v d' (raw (bypass_bits c) xs @ ts) s"
proof (induction p arbitrary: d cnt)
  case 0
  obtain d1 where d1: "get_bits d (bypass_bits c) = of_nat r" "advance d (of_nat r) 1 (bypass_bits c) = (True, d1)"
      "reads v d1 (raw (bypass_bits c) xs @ ts) s"
    by (rule reads_raw [OF _ b, of v d r xs ts s]) (use "0.prems" in auto)
  have "(of_nat r :: u32) \<noteq> of_nat B"
    using less_of_nat_word [of r B, where 'a = 32] r B(2) by auto
  moreover have "\<not> (of_nat (cnt + r) > (of_nat m :: u32))"
    using less_of_nat_word [of m "cnt + r", where 'a = 32] "0.prems" by simp
  ultimately show ?case using d1 B(1) "0.prems"(2)
    by (auto simp: bypass_prefix.simps [of c _ "of_nat B"] bypass_prefix.simps [of c _ "of_nat r"])
next
  case (Suc p)
  obtain d1 where d1: "get_bits d (bypass_bits c) = of_nat B" "advance d (of_nat B) 1 (bypass_bits c) = (True, d1)"
      "reads v d1 (raw (bypass_bits c) (replicate p B @ [r] @ xs) @ ts) s"
    by (rule reads_raw [OF _ b, of v d B "replicate p B @ [r] @ xs" ts s]) (use Suc.prems in auto)
  have le: "cnt + B \<le> m" using Suc.prems(2,3) by simp
  then have "\<not> (of_nat (cnt + B) > (of_nat m :: u32))"
    using less_of_nat_word [of m "cnt + B", where 'a = 32] Suc.prems(4) by simp
  moreover have "n = (cnt + B) + p * B + r" using Suc.prems(2) by simp
  from Suc.IH [OF d1(3) this Suc.prems(3,4)] obtain d' where
    "bypass_prefix c (of_nat m) (of_nat B) (of_nat (cnt + B)) d1 = Some (Some (of_nat n), d')"
    "reads v d' (raw (bypass_bits c) xs @ ts) s" by blast
  ultimately show ?case using d1 B(1)
    by (simp add: bypass_prefix.simps [of c _ "of_nat B" "of_nat cnt"])
qed

lemma or_shifted:
  assumes "enc < 2 ^ shift" "shift < 32"
  shows "(of_nat enc OR push_bit shift (of_nat x) :: u32) = of_nat (enc + 2 ^ shift * x)"
proof -
  have "\<not> bit (of_nat enc :: u32) n \<or> \<not> bit (push_bit shift (of_nat x) :: u32) n" for n
  proof (cases "n < shift")
    case True
    then show ?thesis by (simp add: bit_simps)
  next
    case False
    have "take_bit shift enc = enc" using assms(1) by (simp add: take_bit_nat_eq_self)
    then have "\<not> bit enc n" using False by (metis bit_take_bit_iff)
    then show ?thesis by (simp add: bit_simps)
  qed
  then have "(of_nat enc OR push_bit shift (of_nat x) :: u32) = of_nat enc + push_bit shift (of_nat x)"
    by (intro disjunctive_add [symmetric]) auto
  then show ?thesis by (simp add: push_bit_eq_mult)
qed

lemma bypass_assemble_reads:
  "reads v d (raw bits ds @ ts) s \<Longrightarrow> bits \<le> 31 \<Longrightarrow> 0 < bits \<Longrightarrow> \<forall>x \<in> set ds. x < 2 ^ bits \<Longrightarrow>
    enc < 2 ^ shift \<Longrightarrow> shift + bits * length ds \<le> 32 \<Longrightarrow>
    \<exists>d'. bypass_assemble bits (length ds) shift (of_nat enc) d =
      (Some (of_nat (enc + 2 ^ shift * undigits bits ds)), d') \<and> reads v d' ts s"
proof (induction ds arbitrary: d shift enc)
  case (Cons x ds)
  obtain d1 where d1: "get_bits d bits = of_nat x" "advance d (of_nat x) 1 bits = (True, d1)"
      "reads v d1 (raw bits ds @ ts) s"
    by (rule reads_raw [OF Cons.prems(1,2)])
  have sh: "shift < 32" using Cons.prems(3,6) by simp
  have x: "x + 1 \<le> 2 ^ bits" using Cons.prems(4) by (simp add: Suc_le_eq)
  have "enc + 2 ^ shift * x < 2 ^ shift * (x + 1)" using Cons.prems(5) by simp
  also have "\<dots> \<le> 2 ^ shift * 2 ^ bits" using x by (rule mult_le_mono2)
  finally have e: "enc + 2 ^ shift * x < 2 ^ (shift + bits)" by (simp only: power_add)
  have "\<exists>d'. bypass_assemble bits (length ds) (shift + bits) (of_nat (enc + 2 ^ shift * x)) d1 =
      (Some (of_nat (enc + 2 ^ shift * x + 2 ^ (shift + bits) * undigits bits ds)), d') \<and> reads v d' ts s"
    by (rule Cons.IH [OF d1(3) Cons.prems(2,3) _ e]) (use Cons.prems in auto)
  moreover have "enc + 2 ^ shift * x + 2 ^ (shift + bits) * undigits bits ds = enc + 2 ^ shift * undigits bits (x # ds)"
    by (simp add: power_add algebra_simps)
  ultimately show ?case
    using d1(1,2) or_shifted [OF Cons.prems(5) sh, of x]
    by (simp add: Let_def del: of_nat_add of_nat_mult of_nat_power undigits_simps)
qed simp

lemma dec_bypass_reads:
  assumes c: "coder_ok c" and n: "length (digits (bypass_bits c) (unat x)) \<le> 32 div bypass_bits c"
    and r: "reads v d (raw (bypass_bits c) (bypass_syms (bypass_bits c) (unat x)) @ ts) s"
  shows "\<exists>d'. dec_bypass d c = Some (Some x, d') \<and> reads v d' ts s"
proof -
  let ?b = "bypass_bits c" and ?B = "2 ^ bypass_bits c - 1 :: nat"
  let ?ds = "digits (bypass_bits c) (unat x)" and ?m = "32 div bypass_bits c"
  have b: "2 \<le> ?b" "?b \<le> 31" and bm: "bypass_max c = of_nat ?B"
    using c by (simp_all add: coder_ok_def mask_nat)
  have "(1::nat) < 2 ^ ?b" using b(1) by (intro one_less_pow2) simp
  moreover have "(2::nat) ^ ?b \<le> 2 ^ 31" using b(2) by (intro power_increasing) auto
  ultimately have B: "0 < ?B" "?B < 2 ^ 31" by simp_all
  have md: "32 div of_nat ?b = (of_nat ?m :: u32)"
    using div_of_nat_word [of 32 ?b, where 'a = 32] b by simp
  have "?m \<le> 32" by simp
  then have m: "?m < 2 ^ 31" by (rule order_le_less_trans) simp
  let ?r = "length ?ds mod ?B" and ?p = "length ?ds div ?B"
  have rB: "?r < ?B" using B(1) by (rule mod_less_divisor)
  have "reads v d (raw ?b (replicate ?p ?B @ [?r] @ ?ds) @ ts) s"
    using r by (simp only: bypass_syms_def Let_def)
  then have "\<exists>w d1 d2. get_bits d ?b = w \<and> advance d w 1 ?b = (True, d1) \<and> \<not> of_nat ?m < w \<and>
      bypass_prefix c (of_nat ?m) w w d1 = Some (Some (of_nat (length ?ds)), d2) \<and> reads v d2 (raw ?b ?ds @ ts) s"
  proof (cases ?p)
    case 0
    then have len: "length ?ds = ?r" using B(1) by (simp add: div_eq_0_iff)
    with 0 \<open>reads v d (raw ?b (replicate ?p ?B @ [?r] @ ?ds) @ ts) s\<close>
    have rd: "reads v d (raw ?b (?r # ?ds) @ ts) s" by simp
    obtain d1 where d1: "get_bits d ?b = of_nat ?r" "advance d (of_nat ?r) 1 ?b = (True, d1)"
        "reads v d1 (raw ?b ?ds @ ts) s"
      by (rule reads_raw [OF rd b(2)])
    have "(of_nat ?r :: u32) \<noteq> of_nat ?B"
      using less_of_nat_word [of ?r ?B, where 'a = 32] rB B(2) by auto
    moreover have "\<not> of_nat ?m < (of_nat ?r :: u32)"
      using less_of_nat_word [of ?m ?r, where 'a = 32] n len m by simp
    moreover have "bypass_prefix c (of_nat ?m) (of_nat ?r) (of_nat ?r) d1 = Some (Some (of_nat ?r), d1)"
      unfolding bypass_prefix.simps [of c "of_nat ?m" "of_nat ?r"] bm using calculation(1) by (simp only: if_False)
    ultimately show ?thesis using d1 len by metis
  next
    case (Suc p)
    have len: "length ?ds = ?B + p * ?B + ?r"
      using div_mult_mod_eq [of "length ?ds" ?B] unfolding Suc by simp
    with Suc \<open>reads v d (raw ?b (replicate ?p ?B @ [?r] @ ?ds) @ ts) s\<close>
    have rd: "reads v d (raw ?b (?B # replicate p ?B @ [?r] @ ?ds) @ ts) s" by simp
    obtain d1 where d1: "get_bits d ?b = of_nat ?B" "advance d (of_nat ?B) 1 ?b = (True, d1)"
        "reads v d1 (raw ?b (replicate p ?B @ [?r] @ ?ds) @ ts) s"
      by (rule reads_raw [OF rd b(2)])
    obtain d2 where d2: "bypass_prefix c (of_nat ?m) (of_nat ?B) (of_nat ?B) d1 = Some (Some (of_nat (length ?ds)), d2)"
        "reads v d2 (raw ?b ?ds @ ts) s"
      using bypass_prefix_reads [OF b(2) bm B(2) rB d1(3) len n m] by blast
    have "?B \<le> ?m" using n len by linarith
    then have "\<not> of_nat ?m < (of_nat ?B :: u32)"
      using less_of_nat_word [of ?m ?B, where 'a = 32] B m by simp
    with d1 d2 show ?thesis by blast
  qed
  then obtain w d1 d2 where d: "get_bits d ?b = w" "advance d w 1 ?b = (True, d1)" "\<not> of_nat ?m < w"
      "bypass_prefix c (of_nat ?m) w w d1 = Some (Some (of_nat (length ?ds)), d2)" "reads v d2 (raw ?b ?ds @ ts) s"
    by blast
  have "?b * length ?ds \<le> ?b * ?m" using n by (rule mult_le_mono2)
  also have "\<dots> \<le> 32" by simp
  finally have tot: "0 + ?b * length ?ds \<le> 32" by simp
  have less: "\<forall>y \<in> set ?ds. y < 2 ^ ?b" using digits_less by blast
  have "0 < ?b" using b(1) by simp
  from bypass_assemble_reads [OF d(5) b(2) this less _ tot, of 0] obtain d' where
    "bypass_assemble ?b (length ?ds) 0 0 d2 = (Some (of_nat (undigits ?b ?ds)), d')" "reads v d' ts s"
    by auto
  moreover have "of_nat (undigits ?b ?ds) = x" using undigits_digits [OF \<open>0 < ?b\<close>] by simp
  moreover have "unat (of_nat (length ?ds) :: u32) = length ?ds"
    using n m by (intro unat_of_nat_small) simp
  ultimately show ?thesis using d
    by (simp add: dec_bypass_def Let_def md)
qed

section \<open>Codes with too many digits\<close>

lemma bypass_prefix_rejects:
  assumes b: "bypass_bits c \<le> 31" and B: "bypass_max c = of_nat B" "B < 2 ^ 31" and r: "r < B"
  shows "reads v d (raw (bypass_bits c) (replicate p B @ [r] @ xs) @ ts) s \<Longrightarrow>
    n = cnt + p * B + r \<Longrightarrow> m < n \<Longrightarrow> cnt \<le> m \<Longrightarrow> m < 2 ^ 31 \<Longrightarrow>
    \<exists>d'. bypass_prefix c (of_nat m) (of_nat B) (of_nat cnt) d = Some (None, d')"
proof (induction p arbitrary: d cnt)
  case 0
  obtain d1 where d1: "get_bits d (bypass_bits c) = of_nat r" "advance d (of_nat r) 1 (bypass_bits c) = (True, d1)"
      "reads v d1 (raw (bypass_bits c) xs @ ts) s"
    by (rule reads_raw [OF _ b, of v d r xs ts s]) (use "0.prems" in auto)
  have "of_nat (cnt + r) > (of_nat m :: u32)"
    using less_of_nat_word [of m "cnt + r", where 'a = 32] "0.prems" B(2) r by simp
  then show ?case using d1 B(1) by (auto simp: bypass_prefix.simps [of c _ "of_nat B"])
next
  case (Suc p)
  obtain d1 where d1: "get_bits d (bypass_bits c) = of_nat B" "advance d (of_nat B) 1 (bypass_bits c) = (True, d1)"
      "reads v d1 (raw (bypass_bits c) (replicate p B @ [r] @ xs) @ ts) s"
    by (rule reads_raw [OF _ b, of v d B "replicate p B @ [r] @ xs" ts s]) (use Suc.prems in auto)
  have c: "of_nat (cnt + B) > (of_nat m :: u32) \<longleftrightarrow> m < cnt + B"
    using less_of_nat_word [of m "cnt + B", where 'a = 32] Suc.prems B(2) by simp
  show ?case
  proof (cases "m < cnt + B")
    case True
    with c d1 B(1) show ?thesis by (simp add: bypass_prefix.simps [of c _ "of_nat B" "of_nat cnt"])
  next
    case False
    have "n = (cnt + B) + p * B + r" using Suc.prems(2) by simp
    from Suc.IH [OF d1(3) this] Suc.prems False obtain d' where
      "bypass_prefix c (of_nat m) (of_nat B) (of_nat (cnt + B)) d1 = Some (None, d')" by auto
    with False c d1 B(1) show ?thesis by (simp add: bypass_prefix.simps [of c _ "of_nat B" "of_nat cnt"])
  qed
qed

lemma dec_bypass_rejects:
  assumes c: "coder_ok c" and n: "32 div bypass_bits c < length (digits (bypass_bits c) (unat x))"
    and r: "reads v d (raw (bypass_bits c) (bypass_syms (bypass_bits c) (unat x)) @ ts) s"
  shows "\<exists>d'. dec_bypass d c = Some (None, d')"
proof -
  let ?b = "bypass_bits c" and ?B = "2 ^ bypass_bits c - 1 :: nat"
  let ?ds = "digits (bypass_bits c) (unat x)" and ?m = "32 div bypass_bits c"
  have b: "2 \<le> ?b" "?b \<le> 31" and bm: "bypass_max c = of_nat ?B"
    using c by (simp_all add: coder_ok_def mask_nat)
  have "(1::nat) < 2 ^ ?b" using b(1) by (intro one_less_pow2) simp
  moreover have "(2::nat) ^ ?b \<le> 2 ^ 31" using b(2) by (intro power_increasing) auto
  ultimately have B: "0 < ?B" "?B < 2 ^ 31" by simp_all
  have md: "32 div of_nat ?b = (of_nat ?m :: u32)"
    using div_of_nat_word [of 32 ?b, where 'a = 32] b by simp
  have "?m \<le> 32" by simp
  then have m: "?m < 2 ^ 31" by (rule order_le_less_trans) simp
  have less32: "(of_nat ?m < (of_nat k :: u32)) = (?m < k)" if "k < 2 ^ 31" for k
    using less_of_nat_word [of ?m k, where 'a = 32] m that by simp
  let ?r = "length ?ds mod ?B" and ?p = "length ?ds div ?B"
  have rB: "?r < ?B" using B(1) by (rule mod_less_divisor)
  have rd0: "reads v d (raw ?b (replicate ?p ?B @ [?r] @ ?ds) @ ts) s"
    using r by (simp only: bypass_syms_def Let_def)
  show ?thesis
  proof (cases ?p)
    case 0
    then have len: "?r = length ?ds" using B(1) by (simp add: div_eq_0_iff)
    with 0 rd0 have rd: "reads v d (raw ?b (?r # ?ds) @ ts) s" by simp
    obtain d1 where d1: "get_bits d ?b = of_nat ?r" "advance d (of_nat ?r) 1 ?b = (True, d1)"
      by (rule reads_raw [OF rd b(2)])
    have "?r < 2 ^ 31" using rB B(2) by (rule less_trans)
    with less32 [of ?r] n len have "of_nat ?m < (of_nat ?r :: u32)" by metis
    then show ?thesis unfolding dec_bypass_def Let_def md d1(1) d1(2) by simp
  next
    case (Suc p)
    have len: "length ?ds = ?B + p * ?B + ?r"
      using div_mult_mod_eq [of "length ?ds" ?B] unfolding Suc by simp
    with Suc rd0 have rd: "reads v d (raw ?b (?B # replicate p ?B @ [?r] @ ?ds) @ ts) s" by simp
    obtain d1 where d1: "get_bits d ?b = of_nat ?B" "advance d (of_nat ?B) 1 ?b = (True, d1)"
        "reads v d1 (raw ?b (replicate p ?B @ [?r] @ ?ds) @ ts) s"
      by (rule reads_raw [OF rd b(2)])
    show ?thesis
    proof (cases "?m < ?B")
      case True
      then have "of_nat ?m < (of_nat ?B :: u32)" using less32 [OF B(2)] by simp
      then show ?thesis unfolding dec_bypass_def Let_def md d1(1) d1(2) by simp
    next
      case False
      then obtain d2 where "bypass_prefix c (of_nat ?m) (of_nat ?B) (of_nat ?B) d1 = Some (None, d2)"
        using bypass_prefix_rejects [OF b(2) bm B(2) rB d1(3) len n _ m] by auto
      moreover have "\<not> of_nat ?m < (of_nat ?B :: u32)" using False less32 [OF B(2)] by simp
      ultimately show ?thesis unfolding dec_bypass_def Let_def md d1(1) d1(2) by simp
    qed
  qed
qed

end
