(* ===== verification/Rans_Roundtrip.thy ===== *)
theory Rans_Roundtrip
  imports Rans_Bypass
begin

text \<open>
  Decoding undoes encoding: for a coder that \<open>RansCoder::create\<close> accepts and values whose
  escape codes fit the decoder's digit limit, \<open>RansDecoder\<close> returns the values that
  \<open>RansEncoder\<close> wrote and then finds the end of the stream.
\<close>

unbundle bit_operations_syntax

section \<open>The symbols of a value\<close>

definition escapes :: "rans_dist \<Rightarrow> int \<Rightarrow> bool" where
  "escapes d value \<longleftrightarrow> value < 0 \<or> value \<ge> bypass_sentinel d"

definition sym_slot :: "rans_dist \<Rightarrow> int \<Rightarrow> nat" where
  "sym_slot d value = nat (if escapes d value then bypass_sentinel d else value)"

definition value_syms :: "rans_coder \<Rightarrow> int \<Rightarrow> int \<Rightarrow> ans_sym list" where
  "value_syms c index v =
     (let d = pick_dist c index;
          value = v + value_offset d;
          k = dec_cdf_offset d + sym_slot d value
      in (unat (cdf_table c ! k), unat (cdf_table c ! (k + 1)) - unat (cdf_table c ! k), symbol_bits c) #
         (if escapes d value
          then raw (bypass_bits c) (bypass_syms (bypass_bits c) (unat (bypass_code (bypass_sentinel d) value)))
          else []))"

text \<open>
  A value is codable when the code's signed arithmetic does not overflow on it and its escape
  code has at most as many digits as the decoder accepts.
\<close>

definition codable :: "rans_coder \<Rightarrow> int \<Rightarrow> int \<Rightarrow> bool" where
  "codable c index v \<longleftrightarrow>
     (let d = pick_dist c index;
          value = v + value_offset d
      in escapes d value \<longrightarrow>
           - (2 ^ 31) < value \<and> value - bypass_sentinel d < 2 ^ 31 \<and>
           unat (bypass_code (bypass_sentinel d) value) < 2 ^ (bypass_bits c * (32 div bypass_bits c)))"

lemma pick_dist_in: "dists c \<noteq> [] \<Longrightarrow> pick_dist c index \<in> set (dists c)"
  by (auto simp: pick_dist_def intro!: nth_mem)

lemma coder_dist:
  assumes "coder_ok c"
  obtains r where "1 \<le> bypass_sentinel (pick_dist c index)"
    "length r = nat (bypass_sentinel (pick_dist c index) + 1)" "row_ok (symbol_bits c) r"
    "\<And>k. k < length r \<Longrightarrow> enc_syms c ! (enc_sym_offset (pick_dist c index) + k) =
      enc_sym_init (variant c) (of_nat (cum r k)) (of_nat (nat (r ! k))) (symbol_bits c)"
    "\<And>k. k \<le> length r \<Longrightarrow> cdf_table c ! (dec_cdf_offset (pick_dist c index) + k) = of_nat (cum r k)"
    "\<And>k. k \<le> length r \<Longrightarrow> cum r k < 2 ^ 32"
proof -
  have "dist_ok c (pick_dist c index)" using assms pick_dist_in [of c index] by (simp add: coder_ok_def)
  then obtain r where r: "1 \<le> bypass_sentinel (pick_dist c index)"
    "length r = nat (bypass_sentinel (pick_dist c index) + 1)" "row_ok (symbol_bits c) r"
    "\<forall>k < length r. enc_syms c ! (enc_sym_offset (pick_dist c index) + k) =
      enc_sym_init (variant c) (of_nat (cum r k)) (of_nat (nat (r ! k))) (symbol_bits c)"
    "\<forall>k \<le> length r. cdf_table c ! (dec_cdf_offset (pick_dist c index) + k) = of_nat (cum r k)"
    unfolding dist_ok_def by blast
  have "(2::nat) ^ symbol_bits c \<le> 2 ^ 30" using assms by (intro power_increasing) (auto simp: coder_ok_def)
  with cum_total [OF r(3)] have "cum r (length r) < 2 ^ 32" by simp
  then have "cum r k < 2 ^ 32" if "k \<le> length r" for k
    using cum_mono [OF r(3) that] by simp
  with r show thesis by (intro that [of r]) blast+
qed

lemma sym_slot_less:
  assumes "1 \<le> bypass_sentinel d"
  shows "sym_slot d value < nat (bypass_sentinel d + 1)"
  using assms by (auto simp: sym_slot_def escapes_def)

lemma value_syms_row:
  assumes "coder_ok c"
  obtains r where "row_ok (symbol_bits c) r" "length r = nat (bypass_sentinel (pick_dist c index) + 1)"
    "1 \<le> bypass_sentinel (pick_dist c index)"
    "\<And>v. hd (value_syms c index v) =
      (let k = sym_slot (pick_dist c index) (v + value_offset (pick_dist c index))
       in (cum r k, nat (r ! k), symbol_bits c))"
    "\<And>k. k < length r \<Longrightarrow> enc_syms c ! (enc_sym_offset (pick_dist c index) + k) =
      enc_sym_init (variant c) (of_nat (cum r k)) (of_nat (nat (r ! k))) (symbol_bits c)"
    "\<And>k. k \<le> length r \<Longrightarrow> cdf_table c ! (dec_cdf_offset (pick_dist c index) + k) = of_nat (cum r k)"
    "\<And>k. k \<le> length r \<Longrightarrow> cum r k < 2 ^ 32"
proof -
  obtain r where r: "1 \<le> bypass_sentinel (pick_dist c index)"
    "length r = nat (bypass_sentinel (pick_dist c index) + 1)" "row_ok (symbol_bits c) r"
    "\<And>k. k < length r \<Longrightarrow> enc_syms c ! (enc_sym_offset (pick_dist c index) + k) =
      enc_sym_init (variant c) (of_nat (cum r k)) (of_nat (nat (r ! k))) (symbol_bits c)"
    "\<And>k. k \<le> length r \<Longrightarrow> cdf_table c ! (dec_cdf_offset (pick_dist c index) + k) = of_nat (cum r k)"
    "\<And>k. k \<le> length r \<Longrightarrow> cum r k < 2 ^ 32"
    by (rule coder_dist [OF assms]) blast
  have u: "unat (cdf_table c ! (dec_cdf_offset (pick_dist c index) + k)) = cum r k" if "k \<le> length r" for k
    using r(5,6) [OF that] by (simp add: unat_of_nat_small)
  have "hd (value_syms c index v) =
      (let k = sym_slot (pick_dist c index) (v + value_offset (pick_dist c index))
       in (cum r k, nat (r ! k), symbol_bits c))" for v
  proof -
    let ?k = "sym_slot (pick_dist c index) (v + value_offset (pick_dist c index))"
    have k: "?k < length r" using sym_slot_less [OF r(1)] r(2) by simp
    then have "unat (cdf_table c ! (dec_cdf_offset (pick_dist c index) + ?k)) = cum r ?k"
      "unat (cdf_table c ! (dec_cdf_offset (pick_dist c index) + ?k + 1)) = cum r ?k + nat (r ! ?k)"
      using u [of ?k] u [of "Suc ?k"] cum_Suc [OF r(3) k] by simp_all
    then show ?thesis by (simp add: value_syms_def Let_def)
  qed
  with r show thesis by (intro that) auto
qed

lemma value_syms_Cons: "\<exists>start freq ts. value_syms c index v = (start, freq, symbol_bits c) # ts"
  by (simp add: value_syms_def Let_def)

definition coder_fits :: "rans_coder \<Rightarrow> bool" where
  "coder_fits c \<longleftrightarrow> coder_ok c \<and> symbol_bits c \<le> amax (variant c) \<and> bypass_bits c \<le> amax (variant c)"

lemma value_syms_tl:
  "tl (value_syms c index v) =
    (let d = pick_dist c index; value = v + value_offset d
     in if escapes d value
        then raw (bypass_bits c) (bypass_syms (bypass_bits c) (unat (bypass_code (bypass_sentinel d) value)))
        else [])"
  by (simp add: value_syms_def Let_def)

lemma value_syms_wf:
  assumes "coder_fits c"
  shows "list_all (wf_sym (amax (variant c))) (value_syms c index v)"
proof -
  have c: "coder_ok c" "symbol_bits c \<le> amax (variant c)" "bypass_bits c \<le> amax (variant c)" "1 \<le> bypass_bits c"
    using assms by (auto simp: coder_fits_def coder_ok_def)
  obtain r where r: "row_ok (symbol_bits c) r" "length r = nat (bypass_sentinel (pick_dist c index) + 1)"
    "1 \<le> bypass_sentinel (pick_dist c index)"
    "hd (value_syms c index v) =
      (let k = sym_slot (pick_dist c index) (v + value_offset (pick_dist c index))
       in (cum r k, nat (r ! k), symbol_bits c))"
    by (rule value_syms_row [OF c(1)]) blast
  have "wf_sym (amax (variant c)) (hd (value_syms c index v))"
    unfolding r(4) Let_def using sym_slot_less [OF r(3)] r(2)
    by (intro row_sym_wf [OF r(1) _ c(2)]) simp
  moreover have "list_all (wf_sym (amax (variant c))) (tl (value_syms c index v))"
    using bypass_syms_wf [OF c(4,3)] by (simp add: value_syms_tl Let_def)
  ultimately show ?thesis using value_syms_Cons [of c index v] by auto
qed

lemma value_syms_length:
  assumes "codable c index v" "coder_ok c"
  shows "length (value_syms c index v) \<le> 66"
proof -
  let ?d = "pick_dist c index" and ?val = "v + value_offset (pick_dist c index)"
  have l: "length (digits (bypass_bits c) (unat (bypass_code (bypass_sentinel ?d) ?val))) \<le> 32 div bypass_bits c"
    if "escapes ?d ?val"
    using assms that by (intro digits_length) (simp add: codable_def Let_def)
  have "32 div bypass_bits c \<le> 32" by simp
  then have "length (bypass_syms (bypass_bits c) (unat (bypass_code (bypass_sentinel ?d) ?val))) \<le> 65"
    if "escapes ?d ?val"
    using l [OF that] bypass_syms_length [of "bypass_bits c" "unat (bypass_code (bypass_sentinel ?d) ?val)"]
    by linarith
  then show ?thesis by (simp add: value_syms_def Let_def)
qed

section \<open>Encoding a value\<close>

lemma encode_value_refines:
  assumes c: "coder_fits c" and rel: "enc_rel (variant c) e s" and cd: "codable c index v"
    and len: "length (snd s) + 300 < 2 ^ 59"
  shows "\<exists>e'. encode_value c index v e = Some e' \<and>
    enc_rel (variant c) e' (foldr (aput (variant c)) (value_syms c index v) s)"
proof -
  let ?d = "pick_dist c index" and ?val = "v + value_offset (pick_dist c index)"
  let ?k = "sym_slot ?d ?val" and ?x = "bypass_code (bypass_sentinel ?d) ?val"
  let ?ts = "tl (value_syms c index v)"
  have ok: "coder_ok c" "bypass_bits c \<le> amax (variant c)" "symbol_bits c \<le> amax (variant c)"
    using c by (auto simp: coder_fits_def)
  have aok: "aok (variant c) s" using rel by (simp add: enc_rel_def)
  have l66: "length ?ts \<le> 65" using value_syms_length [OF cd ok(1)] by simp
  have wf: "list_all (wf_sym (amax (variant c))) (value_syms c index v)" by (rule value_syms_wf [OF c])
  obtain start freq ts where hd: "value_syms c index v = (start, freq, symbol_bits c) # ts"
    using value_syms_Cons by blast
  have e1: "\<exists>e1. (if escapes ?d ?val then enc_bypass e c ?x else Some e) = Some e1 \<and>
      enc_rel (variant c) e1 (foldr (aput (variant c)) ?ts s)"
  proof (cases "escapes ?d ?val")
    case True
    have "length (bypass_syms (bypass_bits c) (unat ?x)) \<le> 65"
      using l66 True by (simp add: value_syms_tl Let_def)
    with len have "length (snd s) + 4 * length (bypass_syms (bypass_bits c) (unat ?x)) < 2 ^ 59" by linarith
    from enc_bypass_refines [OF rel ok(1,2) this] True show ?thesis
      by (simp add: value_syms_tl Let_def)
  next
    case False
    with rel show ?thesis by (simp add: value_syms_tl Let_def)
  qed
  then obtain e1 where e1: "(if escapes ?d ?val then enc_bypass e c ?x else Some e) = Some e1"
      "enc_rel (variant c) e1 (foldr (aput (variant c)) ?ts s)" by blast
  have "length (snd (foldr (aput (variant c)) ts' s)) \<le> length (snd s) + 4 * length ts'"
    if "list_all (wf_sym (amax (variant c))) ts'" for ts'
    using that
  proof (induction ts')
    case (Cons t ts')
    have "aok (variant c) (foldr (aput (variant c)) ts' s)"
      using rans_code.put_all_ok [OF aok] Cons.prems by simp
    from aput_length [OF this] Cons show ?case by fastforce
  qed simp
  then have "length (snd (foldr (aput (variant c)) ?ts s)) \<le> length (snd s) + 4 * length ?ts"
    using wf hd by simp
  with l66 len have len1: "length (snd (foldr (aput (variant c)) ?ts s)) < 2 ^ 59" by linarith
  obtain r where r: "row_ok (symbol_bits c) r" "length r = nat (bypass_sentinel ?d + 1)" "1 \<le> bypass_sentinel ?d"
    "hd (value_syms c index v) = (let k = ?k in (cum r k, nat (r ! k), symbol_bits c))"
    "\<And>k. k < length r \<Longrightarrow> enc_syms c ! (enc_sym_offset ?d + k) =
      enc_sym_init (variant c) (of_nat (cum r k)) (of_nat (nat (r ! k))) (symbol_bits c)"
    by (rule value_syms_row [OF ok(1), of index]) blast
  have k: "?k < length r" using sym_slot_less [OF r(3)] r(2) by simp
  have st: "start = cum r ?k" "freq = nat (r ! ?k)" using r(4) hd by (simp_all add: Let_def)
  have wf1: "wf_sym (amax (variant c)) (start, freq, symbol_bits c)" using wf hd by simp
  have sy: "enc_syms c ! (enc_sym_offset ?d + ?k) = enc_sym_init (variant c) (of_nat start) (of_nat freq) (symbol_bits c)"
    using r(5) [OF k] st by simp
  from put_sym_refines [OF e1(2) len1 wf1 sy] obtain e' where
    e': "(case e_variant e1 of RansByte \<Rightarrow> put_sym_byte e1 (enc_syms c ! (enc_sym_offset ?d + ?k))
          | Rans64 \<Rightarrow> put_sym_64 e1 (enc_syms c ! (enc_sym_offset ?d + ?k))) = Some e'"
      "enc_rel (variant c) e' (aput (variant c) (start, freq, symbol_bits c) (foldr (aput (variant c)) ?ts s))" by blast
  have "encode_value c index v e = Some e'"
    using e1(1) e'(1) unfolding encode_value_def Let_def escapes_def sym_slot_def by simp
  with e'(2) hd show ?thesis by simp
qed

section \<open>Decoding a value\<close>

lemma cdf_search_finds:
  assumes r: "row_ok bits r" and cdf: "\<And>j. j \<le> length r \<Longrightarrow> cdf ! (base + j) = of_nat (cum r j)"
    and small: "\<And>j. j \<le> length r \<Longrightarrow> cum r j < 2 ^ 32"
    and k: "k < length r" "cum r k \<le> x" "x < cum r (Suc k)" and x: "x < 2 ^ 32"
  shows "0 \<le> lo \<Longrightarrow> lo \<le> int k \<Longrightarrow> int k \<le> hi \<Longrightarrow> hi \<le> int (length r) \<Longrightarrow>
    cdf_search cdf base (of_nat x) lo hi = int k"
proof (induction "nat (hi - lo)" arbitrary: lo hi rule: less_induct)
  case less
  show ?case
  proof (cases "lo < hi")
    case True
    define mid where "mid = lo + (hi - lo) div 2"
    have mid: "lo \<le> mid" "mid < hi" using True by (auto simp: mid_def)
    define m where "m = nat (mid + 1)"
    have m: "m \<le> length r" "int m = mid + 1" using mid less.prems by (auto simp: m_def)
    have c: "cdf ! (base + m) \<le> of_nat x \<longleftrightarrow> cum r m \<le> x"
      unfolding cdf [OF m(1)] using small [OF m(1)] x by (intro le_of_nat_word) simp_all
    show ?thesis
    proof (cases "cum r m \<le> x")
      case True
      have "m \<le> k"
      proof (rule ccontr)
        assume "\<not> m \<le> k"
        then have "cum r (Suc k) \<le> cum r m" using m(1) by (intro cum_mono [OF r]) auto
        with True k(3) show False by simp
      qed
      then have "mid + 1 \<le> int k" using m(2) by simp
      then have "cdf_search cdf base (of_nat x) (mid + 1) hi = int k"
        using less.prems mid by (intro less.hyps) auto
      then show ?thesis using \<open>lo < hi\<close> True c
        by (simp add: cdf_search.simps [of _ _ _ lo hi] Let_def mid_def [symmetric] m_def [symmetric])
    next
      case False
      have "k < m"
      proof (rule ccontr)
        assume "\<not> k < m"
        then have "cum r m \<le> cum r k" using k(1) by (intro cum_mono [OF r]) auto
        with False k(2) show False by simp
      qed
      then have "int k \<le> mid" using m(2) by simp
      then have "cdf_search cdf base (of_nat x) lo mid = int k"
        using less.prems mid by (intro less.hyps) auto
      then show ?thesis using \<open>lo < hi\<close> False c
        by (simp add: cdf_search.simps [of _ _ _ lo hi] Let_def mid_def [symmetric] m_def [symmetric])
    qed
  next
    case False
    then show ?thesis using less.prems by (simp add: cdf_search.simps [of _ _ _ lo hi])
  qed
qed

lemma unmap_bypass_code:
  assumes "escapes d value" "1 \<le> bypass_sentinel d" "- (2 ^ 31) < value" "value - bypass_sentinel d < 2 ^ 31"
  shows "unmap_bypass (bypass_sentinel d) (bypass_code (bypass_sentinel d) value) = value"
proof -
  have odd_bit: "(w AND 1 = 0) = even (unat w)" for w :: u32
  proof -
    have "bit (unat w) 0 \<longleftrightarrow> bit w 0" by (simp only: bit_unsigned_iff) simp
    then have "even (unat w) = even w" by (simp only: bit_0) blast
    then show ?thesis by (simp only: and_one_eq even_iff_mod_2_eq_zero [of w])
  qed
  show ?thesis
  proof (cases "value < 0")
    case True
    define m where "m = nat (- value - 1)"
    have m: "value = - int m - 1" "m < 2 ^ 31" using True assms(3) by (simp_all add: m_def)
    have w: "bypass_code (bypass_sentinel d) value = of_nat (2 * m + 1)"
      using True by (simp add: bypass_code_def m(1))
    have u: "unat (of_nat (2 * m + 1) :: u32) = 2 * m + 1" using m(2) by (intro unat_of_nat_small) simp
    have "unat (drop_bit 1 (of_nat (2 * m + 1) :: u32)) = m" unfolding unat_drop_bit_div u by simp
    then have "uint (drop_bit 1 (of_nat (2 * m + 1) :: u32)) = int m" by (metis uint_nat)
    then show ?thesis unfolding w unmap_bypass_def using odd_bit [of "of_nat (2 * m + 1)"]
      unfolding u by (simp add: m(1))
  next
    case False
    define m where "m = nat (value - bypass_sentinel d)"
    have m: "value = int m + bypass_sentinel d" "m < 2 ^ 31"
      using False assms by (auto simp: m_def escapes_def)
    have w: "bypass_code (bypass_sentinel d) value = of_nat (2 * m)"
      using False by (simp add: bypass_code_def m(1))
    have u: "unat (of_nat (2 * m) :: u32) = 2 * m" using m(2) by (intro unat_of_nat_small) simp
    have "unat (drop_bit 1 (of_nat (2 * m) :: u32)) = m" unfolding unat_drop_bit_div u by simp
    then have "uint (drop_bit 1 (of_nat (2 * m) :: u32)) = int m" by (metis uint_nat)
    then show ?thesis unfolding w unmap_bypass_def using odd_bit [of "of_nat (2 * m)"]
      unfolding u by (simp add: m(1))
  qed
qed

lemma decode_value_reads:
  assumes c: "coder_fits c" and cd: "codable c index v"
    and rd: "reads (variant c) d (value_syms c index v @ ts) s"
  shows "\<exists>d'. decode_value c index d = Some (Some v, d') \<and> reads (variant c) d' ts s"
proof -
  let ?d = "pick_dist c index" and ?val = "v + value_offset (pick_dist c index)"
  let ?k = "sym_slot ?d ?val" and ?x = "bypass_code (bypass_sentinel ?d) ?val" and ?base = "dec_cdf_offset ?d"
  have ok: "coder_ok c" and sb: "symbol_bits c \<le> 31"
    using c by (auto simp: coder_fits_def coder_ok_def)
  obtain r where r: "row_ok (symbol_bits c) r" "length r = nat (bypass_sentinel ?d + 1)" "1 \<le> bypass_sentinel ?d"
    "hd (value_syms c index v) = (let k = ?k in (cum r k, nat (r ! k), symbol_bits c))"
    "\<And>k. k \<le> length r \<Longrightarrow> cdf_table c ! (?base + k) = of_nat (cum r k)"
    "\<And>k. k \<le> length r \<Longrightarrow> cum r k < 2 ^ 32"
    by (rule value_syms_row [OF ok, of index]) blast
  have k: "?k < length r" using sym_slot_less [OF r(3)] r(2) by simp
  let ?f = "nat (r ! ?k)"
  have sy: "value_syms c index v = (cum r ?k, ?f, symbol_bits c) # tl (value_syms c index v)"
    using r(4) value_syms_Cons [of c index v] by (auto simp: Let_def)
  have rd': "reads (variant c) d ((cum r ?k, ?f, symbol_bits c) # (tl (value_syms c index v) @ ts)) s"
    using rd sy by (metis append_Cons)
  obtain x where x: "get_bits d (symbol_bits c) = of_nat x" "cum r ?k \<le> x" "x < cum r ?k + ?f" "x < 2 ^ 32"
    by (rule reads_get [OF rd' sb])
  have S: "cum r (Suc ?k) = cum r ?k + ?f" by (rule cum_Suc [OF r(1) k])
  have s: "cdf_search (cdf_table c) ?base (of_nat x) 0 (bypass_sentinel ?d + 1) = int ?k"
    by (rule cdf_search_finds [OF r(1,5,6) k x(2)]) (use x S k r(2,3) in auto)
  have fr: "cdf_table c ! (?base + ?k + 1) - of_nat (cum r ?k) = of_nat ?f"
    using r(5) [of "Suc ?k"] k S by simp
  have st: "cdf_table c ! (?base + ?k) = of_nat (cum r ?k)" using r(5) k by simp
  obtain d1 where d1: "advance d (of_nat (cum r ?k)) (of_nat ?f) (symbol_bits c) = (True, d1)"
      "reads (variant c) d1 (tl (value_syms c index v) @ ts) s"
    by (rule reads_step [OF rd'])
  have ik: "\<not> int ?k > bypass_sentinel ?d" using k r(2,3) by linarith
  have e: "decode_value c index d =
      (if int ?k = bypass_sentinel ?d
       then do { q \<leftarrow> dec_bypass d1 c;
                 Some (case q of (None, d2) \<Rightarrow> (None, d2)
                   | (Some bv, d2) \<Rightarrow> (Some (unmap_bypass (bypass_sentinel ?d) bv - value_offset ?d), d2)) }
       else Some (Some (int ?k - value_offset ?d), d1))"
    unfolding decode_value_def Let_def x(1) s nat_int if_not_P [OF ik] fr st d1(1) by simp
  show ?thesis
  proof (cases "escapes ?d ?val")
    case True
    have cod: "- (2 ^ 31) < ?val" "?val - bypass_sentinel ?d < 2 ^ 31"
      "unat ?x < 2 ^ (bypass_bits c * (32 div bypass_bits c))"
      using cd True by (simp_all add: codable_def Let_def)
    have "reads (variant c) d1 (raw (bypass_bits c) (bypass_syms (bypass_bits c) (unat ?x)) @ ts) s"
      using d1(2) True by (simp add: value_syms_tl Let_def)
    from dec_bypass_reads [OF ok digits_length [OF cod(3)] this] obtain d2 where
      "dec_bypass d1 c = Some (Some ?x, d2)" "reads (variant c) d2 ts s" by blast
    moreover have "int ?k = bypass_sentinel ?d" using True r(3) by (simp add: sym_slot_def)
    ultimately show ?thesis using unmap_bypass_code [OF True r(3) cod(1,2)] by (simp add: e)
  next
    case False
    then have "int ?k = ?val" "?val < bypass_sentinel ?d" by (auto simp: sym_slot_def escapes_def)
    then show ?thesis using d1(2) False by (simp add: e value_syms_tl Let_def)
  qed
qed

section \<open>Whole sequences\<close>

definition used :: "(int \<times> int) list \<Rightarrow> (int \<times> int) list" where
  "used ps = filter (\<lambda>(i, v). 0 \<le> i) ps"

definition all_value_syms :: "rans_coder \<Rightarrow> (int \<times> int) list \<Rightarrow> ans_sym list" where
  "all_value_syms c ps = concat (map (\<lambda>(i, v). value_syms c i v) (used ps))"

lemma used_simps [simp]:
  "used [] = []" "used ((i, v) # ps) = (if 0 \<le> i then (i, v) # used ps else used ps)"
  "used (ps @ qs) = used ps @ used qs"
  by (simp_all add: used_def)

lemma all_value_syms_simps [simp]:
  "all_value_syms c [] = []"
  "all_value_syms c ((i, v) # ps) = (if 0 \<le> i then value_syms c i v @ all_value_syms c ps else all_value_syms c ps)"
  "all_value_syms c (ps @ qs) = all_value_syms c ps @ all_value_syms c qs"
  by (simp_all add: all_value_syms_def)

lemma all_value_syms_wf: "coder_fits c \<Longrightarrow> list_all (wf_sym (amax (variant c))) (all_value_syms c ps)"
  by (induction ps) (auto simp: value_syms_wf)

lemma aput_all_length:
  assumes ok: "aok v s"
  shows "list_all (wf_sym (amax v)) ts \<Longrightarrow> length (snd (foldr (aput v) ts s)) \<le> length (snd s) + 4 * length ts"
proof (induction ts)
  case (Cons t ts)
  have "aok v (foldr (aput v) ts s)" using rans_code.put_all_ok [OF ok] Cons.prems by simp
  from aput_length [OF this] Cons show ?case by fastforce
qed simp

lemma encode_loop_refines:
  "coder_fits c \<Longrightarrow> enc_rel (variant c) e s \<Longrightarrow> \<forall>(i, v) \<in> set ps. 0 \<le> i \<longrightarrow> codable c i v \<Longrightarrow>
    length (snd s) + 300 * (length ps + 1) < 2 ^ 59 \<Longrightarrow>
    \<exists>e'. encode_loop c ps e = Some (Ok, e') \<and>
      enc_rel (variant c) e' (foldr (aput (variant c)) (all_value_syms c (rev ps)) s)"
proof (induction ps arbitrary: e s)
  case (Cons p ps)
  obtain i v where p: "p = (i, v)" by (cases p)
  show ?case
  proof (cases "i < 0")
    case True
    with Cons show ?thesis by (simp add: p)
  next
    case False
    let ?s = "foldr (aput (variant c)) (value_syms c i v) s"
    have cd: "codable c i v" using Cons.prems(3) False p by simp
    have "length (snd s) + 300 < 2 ^ 59" using Cons.prems(4) by simp
    from encode_value_refines [OF Cons.prems(1,2) cd this] obtain e1 where
      e1: "encode_value c i v e = Some e1" "enc_rel (variant c) e1 ?s" by blast
    have "length (value_syms c i v) \<le> 66"
      using value_syms_length [OF cd] Cons.prems(1) by (simp add: coder_fits_def)
    moreover have "length (snd ?s) \<le> length (snd s) + 4 * length (value_syms c i v)"
      using aput_all_length [OF _ value_syms_wf [OF Cons.prems(1)]] Cons.prems(2) by (simp add: enc_rel_def)
    ultimately have "length (snd ?s) + 300 * (length ps + 1) < 2 ^ 59" using Cons.prems(4) by simp
    with Cons.IH [OF Cons.prems(1) e1(2)] Cons.prems(3) obtain e' where
      "encode_loop c ps e1 = Some (Ok, e')"
      "enc_rel (variant c) e' (foldr (aput (variant c)) (all_value_syms c (rev ps)) ?s)" by auto
    moreover have "\<not> e_oom e1" using e1(2) by (simp add: enc_rel_def enc_inv_def)
    ultimately show ?thesis using False e1(1) by (simp add: p)
  qed
qed simp

lemma decode_loop_reads:
  "coder_fits c \<Longrightarrow> \<forall>(i, v) \<in> set ps. 0 \<le> i \<longrightarrow> codable c i v \<Longrightarrow>
    reads (variant c) d (all_value_syms c ps) s \<Longrightarrow>
    \<exists>d'. decode_loop c (map fst ps) d = Some (Ok, map (\<lambda>(i, v). if i < 0 then 0 else v) ps, d') \<and>
      reads (variant c) d' [] s"
proof (induction ps arbitrary: d)
  case (Cons p ps)
  obtain i v where p: "p = (i, v)" by (cases p)
  show ?case
  proof (cases "i < 0")
    case True
    with Cons.IH [of d] Cons.prems show ?thesis by (auto simp: p)
  next
    case False
    have cd: "codable c i v" using Cons.prems(2) False p by simp
    have "reads (variant c) d (value_syms c i v @ all_value_syms c ps) s"
      using Cons.prems(3) False by (simp add: p)
    from decode_value_reads [OF Cons.prems(1) cd this] obtain d1 where
      d1: "decode_value c i d = Some (Some v, d1)" "reads (variant c) d1 (all_value_syms c ps) s" by blast
    from Cons.IH [OF Cons.prems(1) _ d1(2)] Cons.prems(2) obtain d' where
      "decode_loop c (map fst ps) d1 = Some (Ok, map (\<lambda>(i, v). if i < 0 then 0 else v) ps, d')"
      "reads (variant c) d' [] s" by auto
    with d1(1) False show ?thesis by (simp add: p)
  qed
qed simp

section \<open>Opening and closing a stream\<close>

definition start_state :: "rans_variant \<Rightarrow> ans_state" where
  "start_state v = (case v of RansByte \<Rightarrow> (2 ^ 23, []) | Rans64 \<Rightarrow> (2 ^ 31, []))"

definition state_bytes :: "rans_variant \<Rightarrow> nat \<Rightarrow> bytes" where
  "state_bytes v x =
     (case v of RansByte \<Rightarrow> le32 (of_nat x) | Rans64 \<Rightarrow> le32 (of_nat x) @ le32 (of_nat (x div 2 ^ 32)))"

lemma unat_kLower: "unat (ucast kByteLower :: u64) = 2 ^ 23" "unat k64Lower = 2 ^ 31"
  by (simp_all add: kByteLower_def k64Lower_def push_bit_one_of_nat unsigned_of_nat take_bit_nat_eq_self)

lemma enc_rel_new: "enc_rel v (new_encoder v 65536) (start_state v)"
proof -
  have "e_state (new_encoder v 65536) = initial_state v" by (simp add: new_encoder_def Let_def)
  then show ?thesis using unat_kLower enc_inv_new [of 65536 v] content_new [of v 65536]
    by (cases v) (simp_all add: enc_rel_def start_state_def initial_state_def variant_defs byte_ok_def unit_ok_def)
qed

lemma flush_refines:
  assumes rel: "enc_rel v e s" and len: "length (snd s) < 2 ^ 59"
  shows "fst (rans_enc_flush e) = (Ok, state_bytes v (fst s) @ snd s)"
proof -
  have r: "enc_inv v e" "content e = snd s" "unat (e_state e) = fst s" "fst s < 2 ^ 63"
    using rel aok_less [of v s] by (auto simp: enc_rel_def)
  have live: "e_variant e = v" "\<not> e_flushed e" "\<not> e_oom e" "e_buf e \<noteq> []"
    using r(1) by (simp_all add: enc_inv_def)
  have es: "e_state e = of_nat (fst s)" by (metis r(3) of_nat_unat ucast_id)
  note w = write_byte_spec [of v]
  note u = write_unit32_spec [of v]
  show ?thesis
  proof (cases v)
    case RansByte
    let ?x = "of_nat (fst s) :: u32"
    have x: "ucast (e_state e) = ?x" unfolding es using r(4) by (intro ucast_of_nat_u64_u32) simp
    let ?e1 = "write_byte e (ucast (drop_bit 24 ?x))"
    let ?e2 = "write_byte ?e1 (ucast (drop_bit 16 ?x))"
    let ?e3 = "write_byte ?e2 (ucast (drop_bit 8 ?x))"
    let ?e4 = "write_byte ?e3 (ucast ?x)"
    have e1: "enc_inv v ?e1" "content ?e1 = ucast (drop_bit 24 ?x) # snd s"
      using w [OF r(1)] len r(2) by simp_all
    have e2: "enc_inv v ?e2" "content ?e2 = ucast (drop_bit 16 ?x) # content ?e1"
      using w [OF e1(1)] len e1(2) by simp_all
    have e3: "enc_inv v ?e3" "content ?e3 = ucast (drop_bit 8 ?x) # content ?e2"
      using w [OF e2(1)] len e1(2) e2(2) by simp_all
    have e4: "enc_inv v ?e4" "content ?e4 = ucast ?x # content ?e3"
      using w [OF e3(1)] len e1(2) e2(2) e3(2) by simp_all
    have "content ?e4 = le32 ?x @ snd s" unfolding e4(2) e3(2) e2(2) e1(2) by (simp add: le32_def)
    with e4(1) live RansByte show ?thesis
      by (simp add: rans_enc_flush_def Let_def x state_bytes_def content_def enc_inv_def)
  next
    case Rans64
    let ?x = "e_state e"
    have x: "ucast ?x = (of_nat (fst s) :: u32)" "ucast (drop_bit 32 ?x) = (of_nat (fst s div 2 ^ 32) :: u32)"
      using r(4) es by (simp_all add: ucast_of_nat_u64_u32 drop_bit_of_nat_word)
    let ?e1 = "write_unit32 e (of_nat (fst s div 2 ^ 32))"
    let ?e2 = "write_unit32 ?e1 (of_nat (fst s))"
    have e1: "enc_inv v ?e1" "content ?e1 = le32 (of_nat (fst s div 2 ^ 32)) @ snd s"
      using u [OF r(1)] len r(2) by simp_all
    have e2: "enc_inv v ?e2" "content ?e2 = le32 (of_nat (fst s)) @ content ?e1"
      using u [OF e1(1)] len e1(2) by simp_all
    from e2(1) live Rans64 e1(2) e2(2) show ?thesis
      unfolding rans_enc_flush_def Let_def
      by (simp add: x state_bytes_def enc_inv_def) (simp add: content_def)
  qed
qed

lemma byte_sum:
  assumes "n < (2::nat) ^ 32"
  shows "n mod 256 + n div 2 ^ 8 mod 256 * 2 ^ 8 + n div 2 ^ 16 mod 256 * 2 ^ 16 + n div 2 ^ 24 mod 256 * 2 ^ 24 = n"
proof -
  define q1 where "q1 = n div 256"
  define q2 where "q2 = q1 div 256"
  define q3 where "q3 = q2 div 256"
  have d: "n div 2 ^ 8 = q1" "n div 2 ^ 16 = q2" "n div 2 ^ 24 = q3"
    by (simp_all add: q1_def q2_def q3_def div_mult2_eq [symmetric])
  have "n div 2 ^ 24 < 256" using assms by (simp add: div_less_iff_less_mult)
  then have "q3 mod 256 = q3" unfolding d by simp
  moreover have "n = q1 * 256 + n mod 256" "q1 = q2 * 256 + q1 mod 256" "q2 = q3 * 256 + q2 mod 256"
    unfolding q1_def q2_def q3_def by (simp_all only: div_mult_mod_eq)
  moreover have p: "(2::nat) ^ 8 = 256" "(2::nat) ^ 16 = 65536" "(2::nat) ^ 24 = 16777216" by simp_all
  ultimately show ?thesis unfolding d unfolding p by linarith
qed

lemma ucast_byte_of_nat:
  fixes x :: u32
  shows "ucast (ucast (drop_bit k x) :: u8) = (of_nat (unat x div 2 ^ k mod 256) :: u32)"
proof -
  have "unat (ucast (drop_bit k x) :: u8) = unat x div 2 ^ k mod 256"
    using unat_drop_bit_div [of k x] by (simp add: unsigned_ucast_eq take_bit_eq_mod)
  then have "of_nat (unat (ucast (drop_bit k x) :: u8)) = (of_nat (unat x div 2 ^ k mod 256) :: u32)"
    by (rule arg_cong)
  then show ?thesis by (simp only: of_nat_unat)
qed

lemma le32_sum:
  fixes x :: u32
  shows "0 + push_bit (0 * 8) (ucast (ucast x :: u8)) + push_bit (1 * 8) (ucast (ucast (drop_bit 8 x) :: u8)) +
    push_bit (2 * 8) (ucast (ucast (drop_bit 16 x) :: u8)) + push_bit (3 * 8) (ucast (ucast (drop_bit 24 x) :: u8)) = x"
proof -
  have "ucast (ucast x :: u8) = (of_nat (unat x mod 256) :: u32)"
    using ucast_byte_of_nat [of 0 x] by simp
  then have "0 + push_bit (0 * 8) (ucast (ucast x :: u8)) + push_bit (1 * 8) (ucast (ucast (drop_bit 8 x) :: u8)) +
      push_bit (2 * 8) (ucast (ucast (drop_bit 16 x) :: u8)) + push_bit (3 * 8) (ucast (ucast (drop_bit 24 x) :: u8)) =
    (of_nat (unat x mod 256 + unat x div 2 ^ 8 mod 256 * 2 ^ 8 + unat x div 2 ^ 16 mod 256 * 2 ^ 16 +
      unat x div 2 ^ 24 mod 256 * 2 ^ 24) :: u32)"
    unfolding ucast_byte_of_nat push_bit_of_nat_word by simp
  also have "\<dots> = of_nat (unat x)" by (subst byte_sum) (use unsigned_less [of x] in simp_all)
  finally show ?thesis by (simp only: of_nat_unat ucast_id)
qed

lemma dec_open_byte:
  assumes ok: "aok RansByte (x, tail)"
  shows "\<exists>d. rans_dec_open (new_decoder RansByte) (state_bytes RansByte x @ tail) = (Ok, d) \<and>
    dec_rel RansByte d (x, tail)"
proof -
  let ?x = "of_nat x :: u32" and ?data = "state_bytes RansByte x @ tail"
  let ?d = "\<lparr>d_variant = RansByte, d_state = 0, d_data = ?data, d_pos = 0, d_opened = False\<rparr>"
  have xb: "2 ^ 23 \<le> x" "x < 2 ^ 31" using ok by (simp_all add: variant_defs byte_ok_def)
  have "init_bytes [0, 1, 2, 3] 0 ?d = (Some ?x, ?d\<lparr>d_pos := 4\<rparr>)"
    using le32_sum [of ?x] by (simp add: read_byte_def state_bytes_def le32_def del: push_bit_numeral)
  moreover have "\<not> ?x < kByteLower"
    unfolding kByteLower_def push_bit_one_of_nat
    using less_of_nat_word [of x "2 ^ 23", where 'a = 32] xb by simp
  ultimately have "init_state ?d = (True, ?d\<lparr>d_pos := 4, d_state := ucast ?x\<rparr>)"
    by (simp add: init_state_def)
  moreover have "unat (ucast ?x :: u64) = x"
    using xb(2) by (simp add: ucast_of_nat_u32_u64 unat_of_nat_small)
  ultimately show ?thesis using ok
    by (simp add: rans_dec_open_def new_decoder_def dec_rel_def rest_def state_bytes_def)
qed

lemma dec_open_unit:
  assumes ok: "aok Rans64 (x, tail)" and al: "length tail mod 4 = 0"
  shows "\<exists>d. rans_dec_open (new_decoder Rans64) (state_bytes Rans64 x @ tail) = (Ok, d) \<and>
    dec_rel Rans64 d (x, tail)"
proof -
  let ?lo = "of_nat x :: u32" and ?hi = "of_nat (x div 2 ^ 32) :: u32" and ?data = "state_bytes Rans64 x @ tail"
  let ?d = "\<lparr>d_variant = Rans64, d_state = 0, d_data = ?data, d_pos = 0, d_opened = False\<rparr>"
  have xb: "2 ^ 31 \<le> x" "x < 2 ^ 63" using ok by (simp_all add: variant_defs unit_ok_def)
  have r: "rd_u32 ?data 0 = ?lo" "rd_u32 ?data 4 = ?hi"
    using rd_u32_le32 [of "[]" 0 ?lo "le32 ?hi @ tail"] rd_u32_le32 [of "le32 ?lo" 4 ?hi tail]
    by (simp_all add: state_bytes_def)
  have lo: "ucast ?lo = (of_nat (x mod 2 ^ 32) :: u64)"
  proof -
    have "?lo = of_nat (x mod 2 ^ 32)" by (simp add: word_of_nat_eq_iff take_bit_eq_mod)
    then show ?thesis by (simp add: ucast_of_nat_u32_u64)
  qed
  have hi: "ucast ?hi = (of_nat (x div 2 ^ 32) :: u64)"
    using xb(2) by (intro ucast_of_nat_u32_u64) (simp add: div_less_iff_less_mult)
  have sum: "0 + push_bit (0 * 32) (ucast ?lo) + push_bit (1 * 32) (ucast ?hi) = (of_nat x :: u64)"
  proof -
    have "0 + push_bit (0 * 32) (ucast ?lo) + push_bit (1 * 32) (ucast ?hi) =
        (of_nat (x mod 2 ^ 32 + x div 2 ^ 32 * 2 ^ 32) :: u64)"
      unfolding lo hi push_bit_of_nat_word
      by (simp only: of_nat_add mult_0 mult_1 power_0 mult_1_right add_0_left)
    then show ?thesis by (simp only: mod_div_mult_eq)
  qed
  have "of_nat (x mod 2 ^ 32 + x div 2 ^ 32 * 2 ^ 32) = (of_nat x :: u64)" by (simp only: mod_div_mult_eq)
  then have sum': "of_nat (x mod 2 ^ 32) + of_nat (x div 2 ^ 32) * 2 ^ 32 = (of_nat x :: u64)"
    by (simp only: of_nat_add of_nat_mult of_nat_power of_nat_numeral)
  have "init_units [0, 1] 0 ?d = (Some (of_nat x), ?d\<lparr>d_pos := 8\<rparr>)"
    using sum sum' r by (simp add: read_unit32_def) (simp add: state_bytes_def)
  moreover have "\<not> of_nat x < k64Lower"
    unfolding k64Lower_def push_bit_one_of_nat
    using less_of_nat_word [of x "2 ^ 31", where 'a = 64] xb by simp
  ultimately have "init_state ?d = (True, ?d\<lparr>d_pos := 8, d_state := of_nat x\<rparr>)"
    by (simp add: init_state_def)
  moreover have "unat (of_nat x :: u64) = x" using xb(2) by (intro unat_of_nat_small) simp
  moreover have "length ?data mod 4 = 0" using al by (simp add: state_bytes_def mod_eq_0_iff_dvd)
  ultimately show ?thesis using ok
    by (simp add: rans_dec_open_def new_decoder_def dec_rel_def rest_def) (simp add: state_bytes_def)
qed

lemma dec_open_reads:
  assumes ok: "aok v (x, tail)" and al: "v = Rans64 \<longrightarrow> length tail mod 4 = 0"
  shows "\<exists>d. rans_dec_open (new_decoder v) (state_bytes v x @ tail) = (Ok, d) \<and> dec_rel v d (x, tail)"
  using assms dec_open_byte dec_open_unit by (cases v) auto

lemma aput_aligned:
  "length (snd (foldr (aput Rans64) ts (start_state Rans64))) mod 4 = 0"
proof (induction ts)
  case Nil
  then show ?case by (simp add: start_state_def)
next
  case (Cons t ts)
  obtain start freq bits where t: "t = (start, freq, bits)" by (cases t)
  obtain x out where s: "foldr (aput Rans64) ts (start_state Rans64) = (x, out)" by force
  from Cons show ?case by (simp add: s aput_def unit_put_def t)
qed

lemma check_eof_start:
  assumes "reads v d [] (start_state v)"
  shows "check_eof d"
proof -
  have r: "dec_rel v d (start_state v)" using assms by (simp add: reads_def)
  then have "d_pos d = length (d_data d)"
    by (cases v) (auto simp: dec_rel_def rest_def start_state_def)
  moreover have "d_state d = initial_state v"
    using r unat_kLower by (cases v) (auto simp: dec_rel_def start_state_def initial_state_def word_unat_eq_iff)
  ultimately show ?thesis using r
    by (cases v) (auto simp: check_eof_def dec_rel_def initial_state_def kByteLower_def)
qed

text \<open>The values that a decode delivers: 0 where the index is negative, as the code does.\<close>

definition decoded_values :: "int list \<Rightarrow> int list \<Rightarrow> int list" where
  "decoded_values indices values = map (\<lambda>(i, v). if i < 0 then 0 else v) (zip indices values)"

definition all_codable :: "rans_coder \<Rightarrow> int list \<Rightarrow> int list \<Rightarrow> bool" where
  "all_codable c indices values \<longleftrightarrow> (\<forall>(i, v) \<in> set (zip indices values). 0 \<le> i \<longrightarrow> codable c i v)"

lemma rans_decode_encode:
  assumes c: "coder_fits c" and len: "length indices = length values" "length values < 2 ^ 40"
    and cd: "all_codable c indices values" and old: "length old = length values"
  shows "\<exists>data. rans_encode c indices values = Some (Inr data) \<and>
    rans_decode c old indices data = Some (Ok, decoded_values indices values)"
proof -
  let ?v = "variant c" and ?ps = "zip indices values"
  let ?init = "start_state ?v" and ?ts = "all_value_syms c ?ps"
  let ?s = "foldr (aput ?v) ?ts ?init"
  have ok: "coder_ok c" using c by (simp add: coder_fits_def)
  then have ne: "dists c \<noteq> []" "enc_syms c \<noteq> []" "cdf_table c \<noteq> []" by (simp_all add: coder_ok_def)
  have aok0: "aok ?v ?init" using enc_rel_new [of ?v] by (simp add: enc_rel_def)
  have wf: "list_all (wf_sym (amax ?v)) ?ts" by (rule all_value_syms_wf [OF c])
  have cd': "\<forall>(i, v) \<in> set (rev ?ps). 0 \<le> i \<longrightarrow> codable c i v"
    using cd by (simp add: all_codable_def)
  have s0: "snd ?init = []" by (simp add: start_state_def split: rans_variant.splits)
  have "length (snd ?init) + 300 * (length (rev ?ps) + 1) < 2 ^ 59" using len by (simp add: s0)
  from encode_loop_refines [OF c enc_rel_new cd' this] obtain e where
    e: "encode_loop c (rev ?ps) (new_encoder ?v 65536) = Some (Ok, e)" "enc_rel ?v e ?s" by auto
  have fresh: "\<not> e_flushed (new_encoder ?v 65536)" "\<not> e_oom (new_encoder ?v 65536)" "e_buf (new_encoder ?v 65536) \<noteq> []"
    using enc_inv_new [of 65536 ?v] by (simp_all add: enc_inv_def)
  have syms: "length (all_value_syms c ps) \<le> 66 * length ps"
    if "\<forall>(i, v) \<in> set ps. 0 \<le> i \<longrightarrow> codable c i v" for ps
    using that
  proof (induction ps)
    case (Cons p ps)
    then show ?case using value_syms_length [OF _ ok] by (cases p) (fastforce simp: add_mono)
  qed simp
  have "length ?ts \<le> 66 * length ?ps" using syms [of ?ps] cd by (simp add: all_codable_def)
  then have small: "length (snd ?s) < 2 ^ 59"
    using aput_all_length [OF aok0 wf] len by (simp add: s0)
  let ?data = "state_bytes ?v (fst ?s) @ snd ?s"
  obtain e' where "rans_enc_flush e = ((Ok, ?data), e')"
    using flush_refines [OF e(2) small] by (cases "rans_enc_flush e") auto
  then have enc: "rans_encode c indices values = Some (Inr ?data)"
    using e(1) len(1) ne fresh by (simp add: rans_encode_def rans_enc_encode_def)
  have oks: "aok ?v (fst ?s, snd ?s)" using rans_code.put_all_ok [OF aok0 wf] by (simp only: prod.collapse)
  have al: "?v = Rans64 \<longrightarrow> length (snd ?s) mod 4 = 0" using aput_aligned by auto
  obtain d where d: "rans_dec_open (new_decoder ?v) ?data = (Ok, d)" "dec_rel ?v d ?s"
    using dec_open_reads [OF oks al] by auto
  then have rd: "reads ?v d ?ts ?init" using aok0 wf by (simp add: reads_def)
  obtain d' where d': "decode_loop c (map fst ?ps) d = Some (Ok, decoded_values indices values, d')"
      "reads ?v d' [] ?init"
    using decode_loop_reads [OF c _ rd] cd unfolding all_codable_def decoded_values_def by blast
  have "map fst ?ps = indices" using len(1) by simp
  moreover have "length (decoded_values indices values) = length old"
    using len(1) old by (simp add: decoded_values_def)
  moreover have "d_opened d" using d(2) by (simp add: dec_rel_def)
  ultimately have "rans_decode c old indices ?data = Some (Ok, decoded_values indices values)"
    using d(1) d' ne old len(1) check_eof_start [OF d'(2)]
    by (simp add: rans_decode_def rans_dec_decode_def)
  with enc show ?thesis by blast
qed

lemma coder_fits_create:
  assumes "rans_create v lengths offsets table sym_bits byp_bits = Inr c"
    "v = RansByte \<longrightarrow> sym_bits \<le> 23 \<and> byp_bits \<le> 23"
  shows "coder_fits c"
  using rans_create_ok [OF assms(1)] assms(2)
  by (cases v) (auto simp: coder_fits_def coder_ok_def amax_def nat_le_iff)

end
