(* ===== verification/Rans_Claims.thy ===== *)
theory Rans_Claims
  imports Rans_Roundtrip
begin

text \<open>
  The properties of \<open>codecs/mlvc/src/rans.cpp\<close>: the round trip of the coder, what the tables
  guarantee, and the inputs outside which they fail.
\<close>

unbundle bit_operations_syntax

text \<open>
  C1. Decoding undoes encoding, within the scales that the decoder's state carries. For every table
  that \<open>RansCoder::create\<close> accepts in the 64-bit variant, every one it accepts in the byte variant with
  symbol and bypass scales of at most 23 bits (at 30 bits it accepts tables whose streams do not
  decode, \<open>byte_scale_30_not_decodable\<close>), and every sequence of values whose escape codes fit
  the decoder's digit limit, \<open>encode\<close> and \<open>flush\<close> return a stream, in spite of every growth of the
  buffer, and \<open>open\<close>, \<open>decode\<close> and \<open>check_eof\<close> on it succeed with the values back, 0 where the
  index is negative.
\<close>

theorem rans_roundtrip:
  assumes "rans_create v lengths offsets table sym_bits byp_bits = Inr c"
    "v = RansByte \<longrightarrow> sym_bits \<le> 23 \<and> byp_bits \<le> 23"
    "length indices = length values" "length values < 2 ^ 40" "length old = length values"
    "all_codable c indices values"
  shows "\<exists>data. rans_encode c indices values = Some (Inr data) \<and>
    rans_decode c old indices data = Some (Ok, decoded_values indices values)"
  by (rule rans_decode_encode [OF coder_fits_create [OF assms(1,2)] assms(3,4,6,5)])

definition sample_coder :: "rans_variant \<Rightarrow> rans_coder result" where
  "sample_coder v = rans_create v [3, 2] [1, 0] [4, 3, 1, 6, 2] 3 4"

lemma sample_created: "\<exists>c. sample_coder v = Inr c \<and> all_codable c [0, 1, -1, 0] [-1, 5, 9, 2]"
  by (cases v; simp add: sample_coder_def rans_create_def kByteMaxScale_def Let_def freq_ok_def;
      simp add: all_codable_def codable_def pick_dist_def escapes_def bypass_code_def)

theorem rans_roundtrip_witness:
  "\<exists>c data. sample_coder RansByte = Inr c \<and> rans_encode c [0, 1, -1, 0] [-1, 5, 9, 2] = Some (Inr data) \<and>
    rans_decode c [0, 0, 0, 0] [0, 1, -1, 0] data = Some (Ok, [-1, 5, 0, 2])"
proof -
  obtain c where c: "sample_coder RansByte = Inr c" "all_codable c [0, 1, -1, 0] [-1, 5, 9, 2]"
    using sample_created by blast
  from rans_roundtrip [OF c(1) [unfolded sample_coder_def], of "[0, 1, -1, 0]" "[-1, 5, 9, 2]" "[0, 0, 0, 0]"] c
  show ?thesis by (simp add: decoded_values_def)
qed

text \<open>
  C2. Every symbol that the encoder puts through its reciprocal tables (a multiplication and a
  shift, in place of a division) is the step of the abstract coder: the state word becomes
  \<open>(y div freq) * 2 ^ bits + start + y mod freq\<close> for the renormalised state \<open>y\<close>, the bytes of the
  renormalisation are written in front of the stream, and the encoder keeps its invariant.
\<close>

theorem put_symbol_refines:
  assumes "enc_rel v e s" "length (snd s) < 2 ^ 59" "wf_sym (amax v) (start, freq, bits)"
  shows "\<exists>e'. (case e_variant e of
      RansByte \<Rightarrow> put_sym_byte e (enc_sym_init v (of_nat start) (of_nat freq) bits)
    | Rans64 \<Rightarrow> put_sym_64 e (enc_sym_init v (of_nat start) (of_nat freq) bits)) = Some e' \<and>
    enc_rel v e' (aput v (start, freq, bits) s)"
  by (rule put_sym_refines [OF assms refl])

theorem put_symbol_refines_witness:
  "\<exists>e'. put_sym_64 (new_encoder Rans64 65536) (enc_sym_init Rans64 2 3 4) = Some e' \<and>
    enc_rel Rans64 e' (aput Rans64 (2, 3, 4) (2 ^ 31, []))"
  using put_symbol_refines [OF enc_rel_new [of Rans64], of 2 3 4]
  by (simp add: start_state_def wf_sym_def amax_def new_encoder_def Let_def)

text \<open>
  C3. A coder that \<open>create\<close> returns is well formed: every distribution owns a row of positive
  frequencies with a sum of at most the scale, the encoder symbols of exactly that row, and the
  cumulative table that the decoder's binary search relies on; the scales are within bounds.
\<close>

theorem create_tables_ok:
  assumes "rans_create v lengths offsets table sym_bits byp_bits = Inr c"
  shows "coder_ok c \<and> variant c = v \<and> symbol_bits c = nat sym_bits \<and> bypass_bits c = nat byp_bits"
  by (rule rans_create_ok [OF assms])

theorem create_tables_ok_witness:
  "\<exists>c. sample_coder Rans64 = Inr c \<and> coder_ok c \<and> symbol_bits c = 3"
proof -
  obtain c where c: "sample_coder Rans64 = Inr c" using sample_created by blast
  from create_tables_ok [OF c [unfolded sample_coder_def]] c show ?thesis by simp
qed

definition wide_coder :: rans_coder where
  "wide_coder =
     \<lparr>variant = RansByte, symbol_bits = 30, bypass_bits = 2, bypass_max = 3,
      dists = [\<lparr>value_offset = 0, bypass_sentinel = 1, enc_sym_offset = 0, dec_cdf_offset = 0\<rparr>],
      enc_syms = [enc_sym_init_byte 0 1 30, enc_sym_init_byte 1 1073741823 30],
      cdf_table = [0, 1, 1073741824]\<rparr>"

lemma wide_put:
  assumes "enc_rel RansByte e (2 ^ 23, [])"
  shows "\<exists>e'. put_sym_byte e (enc_sym_init_byte 0 1 30) = Some e' \<and>
    enc_rel RansByte e' (2 ^ 30 - 1, [128, 0, 0])"
proof -
  have sym: "enc_sym_init_byte 0 1 30 = \<lparr>x_max_hi = 2, freq_rcp_shift = 32, freq_rcp = 0xFFFFFFFF,
      freq_rcp_hi = 0, freq_cmpl = 1073741823, bias = 1073741823\<rparr>"
    by (simp add: enc_sym_init_byte_def Let_def)
  have "byte_renorm 2 (2 ^ 23) [] = (0, [128, 0, 0])" by (simp add: byte_renorm.simps)
  then obtain e' where "renorm_byte e 2 = Some e'" "enc_inv RansByte e'" "content e' = [128, 0, 0]" "e_state e' = 0"
    using renorm_byte_refines [OF assms, of 2 0 "[128, 0, 0]"] by auto
  then show ?thesis by (simp add: put_sym_byte_def sym enc_rel_def variant_defs byte_ok_def)
qed

text \<open>
  The scale limit of 30 bits that \<open>create\<close> uses for the byte variant is too large: the table
  \<open>{1, 2^30 - 1}\<close> is accepted with 30 bits, the value 0 is encoded without an error, and decoding
  the stream fails with \<open>Format\<close>. (The limit under which C1 holds is 23 bits.)
\<close>

theorem byte_scale_30_not_decodable:
  "rans_create RansByte [2] [0] [1, 0x3FFFFFFF] 30 2 = Inr wide_coder \<and>
   (\<exists>data. rans_encode wide_coder [0] [0] = Some (Inr data) \<and>
      fst (the (rans_decode wide_coder [0] [0] data)) = Format)"
proof
  show "rans_create RansByte [2] [0] [1, 0x3FFFFFFF] 30 2 = Inr wide_coder"
    by (simp add: rans_create_def kByteMaxScale_def Let_def freq_ok_def wide_coder_def enc_sym_init_def)
  let ?e = "new_encoder RansByte 65536" and ?data = "[255, 255, 255, 63, 128, 0, 0] :: bytes"
  have fresh: "\<not> e_flushed ?e" "\<not> e_oom ?e" "e_buf ?e \<noteq> []" "e_variant ?e = RansByte"
    using enc_inv_new [of 65536 RansByte] by (simp_all add: enc_inv_def)
  have rel: "enc_rel RansByte ?e (2 ^ 23, [])" using enc_rel_new [of RansByte] by (simp add: start_state_def)
  obtain e where e: "put_sym_byte ?e (enc_sym_init_byte 0 1 30) = Some e" "enc_rel RansByte e (2 ^ 30 - 1, [128, 0, 0])"
    using wide_put [OF rel] by blast
  have "encode_value wide_coder 0 0 ?e = Some e"
    using e(1) fresh by (simp add: encode_value_def pick_dist_def wide_coder_def)
  moreover have "\<not> e_oom e" using e(2) by (simp add: enc_rel_def enc_inv_def)
  moreover obtain e' where "rans_enc_flush e = ((Ok, ?data), e')"
    using flush_refines [OF e(2)] by (cases "rans_enc_flush e") (auto simp: state_bytes_def le32_def)
  moreover have "variant wide_coder = RansByte" "dists wide_coder \<noteq> []" "enc_syms wide_coder \<noteq> []"
    by (simp_all add: wide_coder_def)
  ultimately have "rans_encode wide_coder [0] [0] = Some (Inr ?data)"
    using fresh by (simp add: rans_encode_def rans_enc_encode_def)
  moreover have "fst (the (rans_decode wide_coder [0] [0] ?data)) = Format" by code_simp
  ultimately show "\<exists>data. rans_encode wide_coder [0] [0] = Some (Inr data) \<and>
      fst (the (rans_decode wide_coder [0] [0] data)) = Format" by blast
qed

text \<open>
  An escape code of more than \<open>32 div bypass_bits\<close> digits is written by the encoder and refused
  by the decoder: where \<open>bypass_bits\<close> does not divide 32, there are 32-bit codes that do not
  survive (with 3 bits, every code from \<open>2^30\<close> on).
\<close>

theorem long_escape_refused:
  assumes "coder_fits c" "enc_rel (variant c) e s" "length (snd s) < 2 ^ 40"
    "32 div bypass_bits c < length (digits (bypass_bits c) (unat x))"
    "dec_rel (variant c) d (foldr (aput (variant c)) (raw (bypass_bits c) (bypass_syms (bypass_bits c) (unat x))) s)"
  shows "(\<exists>e'. enc_bypass e c x = Some e' \<and>
      enc_rel (variant c) e' (foldr (aput (variant c)) (raw (bypass_bits c) (bypass_syms (bypass_bits c) (unat x))) s)) \<and>
    (\<exists>d'. dec_bypass d c = Some (None, d'))"
proof
  have c: "coder_ok c" "bypass_bits c \<le> amax (variant c)" "1 \<le> bypass_bits c"
    using assms(1) by (auto simp: coder_fits_def coder_ok_def)
  have "unat x < 2 ^ (1 * 32)" using unsigned_less [of x] by simp
  also have "\<dots> \<le> 2 ^ (bypass_bits c * 32)" using c(3) by (intro power_increasing) auto
  finally have "length (digits (bypass_bits c) (unat x)) \<le> 32" by (rule digits_length)
  then have "length (snd s) + 4 * length (bypass_syms (bypass_bits c) (unat x)) < 2 ^ 59"
    using bypass_syms_length [of "bypass_bits c" "unat x"] assms(3) by simp
  from enc_bypass_refines [OF assms(2) c(1,2) this]
  show "\<exists>e'. enc_bypass e c x = Some e' \<and>
    enc_rel (variant c) e' (foldr (aput (variant c)) (raw (bypass_bits c) (bypass_syms (bypass_bits c) (unat x))) s)" .
  have "reads (variant c) d (raw (bypass_bits c) (bypass_syms (bypass_bits c) (unat x)) @ []) s"
    using assms(2,5) bypass_syms_wf [OF c(3,2)] by (simp add: reads_def enc_rel_def)
  from dec_bypass_rejects [OF c(1) assms(4) this] show "\<exists>d'. dec_bypass d c = Some (None, d')" .
qed

lemma three_bit_digits: "length (digits 3 (2 ^ 30)) = 11"
  by (simp add: digits.simps)

theorem long_escape_refused_witness:
  "\<exists>c e d. rans_create Rans64 [2] [0] [3, 5] 3 3 = Inr c \<and>
    enc_bypass (new_encoder Rans64 65536) c (2 ^ 30) = Some e \<and>
    dec_rel Rans64 d (unat (e_state e), content e) \<and> (\<exists>d'. dec_bypass d c = Some (None, d'))"
proof -
  obtain c where c: "rans_create Rans64 [2] [0] [3, 5] 3 3 = Inr c"
    by (simp add: rans_create_def Let_def freq_ok_def)
  have v: "coder_fits c" "variant c = Rans64" "bypass_bits c = 3"
    using coder_fits_create [OF c] rans_create_ok [OF c] by simp_all
  let ?s = "start_state Rans64"
  let ?t = "foldr (aput Rans64) (raw 3 (bypass_syms 3 (2 ^ 30))) ?s"
  let ?d = "\<lparr>d_variant = Rans64, d_state = of_nat (fst ?t), d_data = snd ?t, d_pos = 0, d_opened = True\<rparr>"
  have ok: "aok Rans64 ?s" using enc_rel_new [of Rans64] by (simp add: enc_rel_def)
  have wf: "list_all (wf_sym (amax Rans64)) (raw 3 (bypass_syms 3 (2 ^ 30)))"
    by (rule bypass_syms_wf) (simp_all add: amax_def)
  have t: "aok Rans64 ?t" by (rule rans_code.put_all_ok [OF ok wf])
  have "unat (of_nat (fst ?t) :: u64) = fst ?t" using aok_less [OF t] by (intro unat_of_nat_small) simp
  then have d: "dec_rel Rans64 ?d ?t" using t by (simp add: dec_rel_def rest_def)
  have x: "unat (2 ^ 30 :: u32) = 2 ^ 30" by simp
  have "32 div 3 < length (digits 3 (2 ^ 30))" unfolding three_bit_digits by simp
  with long_escape_refused [OF v(1), of "new_encoder Rans64 65536" ?s "2 ^ 30" ?d] d enc_rel_new [of Rans64]
  have "\<exists>e'. enc_bypass (new_encoder Rans64 65536) c (2 ^ 30) = Some e' \<and> enc_rel Rans64 e' ?t"
    "\<exists>d'. dec_bypass ?d c = Some (None, d')"
    unfolding v x by (simp_all add: start_state_def)
  moreover have "dec_rel Rans64 ?d (unat (e_state e), content e)" if "enc_rel Rans64 e ?t" for e
    using that d by (simp add: enc_rel_def)
  ultimately show ?thesis using c by blast
qed

text \<open>
  A symbol scale of 31 bits passes the scale check of the variant with 32-bit units and is
  then always refused: \<open>static_cast<int32_t>(max_freq - start)\<close> is negative for the first
  frequency, so no table at all is accepted.
\<close>

theorem scale_31_never_accepted: "\<nexists>c. rans_create v lengths offsets table 31 byp_bits = Inr c"
proof
  assume "\<exists>c. rans_create v lengths offsets table 31 byp_bits = Inr c"
  then obtain c where "rans_create v lengths offsets table 31 byp_bits = Inr c" by blast
  from rans_create_ok [OF this] show False by (auto simp: coder_ok_def)
qed

text \<open>
  The product without a 128-bit type (the \<open>#else\<close> branch of \<open>mul64hi\<close>) is not the high half
  of the product: its middle sum can overflow and lose a carry, as on the all-ones operands,
  where it is smaller by \<open>2^32\<close>.
\<close>

theorem mul64hi_portable_loses_carry:
  "mul64hi 0xFFFFFFFFFFFFFFFF 0xFFFFFFFFFFFFFFFF = 0xFFFFFFFFFFFFFFFE \<and>
   mul64hi_portable 0xFFFFFFFFFFFFFFFF 0xFFFFFFFFFFFFFFFF = 0xFFFFFFFEFFFFFFFE"
  by (simp add: mul64hi_def mul64hi_portable_def Let_def)

end
