(* ===== verification/Media_Spec.thy ===== *)
theory Media_Spec
  imports Status
begin

text \<open>
  The negotiation object of the core, \<open>core/include/rkvc/spec.hpp\<close> and \<open>core/src/spec.cpp\<close>:
  strides and payload sizes with their fixed-width arithmetic, and \<open>unify\<close>, the merge of the
  specs of two ports. The abstract view of \<open>unify\<close> is an order: a spec refines another when it
  agrees with every field the other one fixes, and \<open>unify\<close> computes the least spec that refines
  both.
\<close>

unbundle bit_operations_syntax

datatype pixel_format = Unknown | Nv12 | Nv21 | Yuv420P | Nv16 | P010 | Rgb24 | Bitstream

datatype mem_domain = Host | Dmabuf

record spec =
  s_width :: u32
  s_height :: u32
  s_fmt :: pixel_format
  s_domain :: mem_domain
  s_stride :: u32
  s_ver_stride :: u32
  s_modifier :: u64

definition default_spec :: spec where
  "default_spec = \<lparr>s_width = 0, s_height = 0, s_fmt = Unknown, s_domain = Host, s_stride = 0,
     s_ver_stride = 0, s_modifier = 0\<rparr>"

definition is_linear :: "spec \<Rightarrow> bool" where
  "is_linear s \<longleftrightarrow> s_modifier s = 0"

definition eff_stride :: "spec \<Rightarrow> u32" where
  "eff_stride s =
     (if s_stride s \<noteq> 0 then s_stride s
      else case s_fmt s of
             Yuv420P \<Rightarrow> s_width s | Nv12 \<Rightarrow> s_width s | Nv21 \<Rightarrow> s_width s | Nv16 \<Rightarrow> s_width s
           | P010 \<Rightarrow> s_width s * 2
           | Rgb24 \<Rightarrow> s_width s * 3
           | _ \<Rightarrow> 0)"

definition eff_ver_stride :: "spec \<Rightarrow> u32" where
  "eff_ver_stride s = (if s_ver_stride s \<noteq> 0 then s_ver_stride s else s_height s)"

definition min_size :: "spec \<Rightarrow> u64" where
  "min_size s =
     (if s_fmt s = Unknown \<or> s_fmt s = Bitstream then 0
      else let st = eff_stride s; vs = eff_ver_stride s
      in if st = 0 \<or> vs = 0 then 0
         else let plane = ucast st * ucast vs :: u64
              in case s_fmt s of
                   Nv12 \<Rightarrow> plane * 3 div 2 | Nv21 \<Rightarrow> plane * 3 div 2
                 | Yuv420P \<Rightarrow> plane * 3 div 2 | P010 \<Rightarrow> plane * 3 div 2
                 | Nv16 \<Rightarrow> plane * 2
                 | Rgb24 \<Rightarrow> plane
                 | _ \<Rightarrow> 0)"

primrec format_string :: "pixel_format \<Rightarrow> string" where
  "format_string Unknown = ''unknown''"
| "format_string Nv12 = ''nv12''"
| "format_string Nv21 = ''nv21''"
| "format_string Yuv420P = ''yuv420p''"
| "format_string Nv16 = ''nv16''"
| "format_string P010 = ''p010''"
| "format_string Rgb24 = ''rgb24''"
| "format_string Bitstream = ''bitstream''"

text \<open>\<open>merge_dim\<close>: \<open>None\<close> is the \<open>false\<close> of the code.\<close>

definition merge_dim :: "u32 \<Rightarrow> u32 \<Rightarrow> u32 option" where
  "merge_dim a b = (if a \<noteq> 0 \<and> b \<noteq> 0 \<and> a \<noteq> b then None else Some (if a \<noteq> 0 then a else b))"

definition unify :: "spec \<Rightarrow> spec \<Rightarrow> spec result" where
  "unify a b =
     (if s_fmt a = Unknown then Inr b
      else if s_fmt b = Unknown then Inr a
      else if s_fmt a \<noteq> s_fmt b then reject Negotiate ''pixel format mismatch''
      else if s_domain a \<noteq> s_domain b then reject Negotiate ''memory domain mismatch''
      else if s_modifier a \<noteq> s_modifier b then reject Negotiate ''modifier mismatch''
      else case (merge_dim (s_width a) (s_width b), merge_dim (s_height a) (s_height b),
                 merge_dim (s_stride a) (s_stride b), merge_dim (s_ver_stride a) (s_ver_stride b)) of
             (Some w, Some h, Some st, Some vs) \<Rightarrow>
               Inr (a\<lparr>s_width := w, s_height := h, s_stride := st, s_ver_stride := vs\<rparr>)
           | _ \<Rightarrow> reject Negotiate ''dimension mismatch'')"

section \<open>The order behind \<open>unify\<close>\<close>

definition dim_refines :: "u32 \<Rightarrow> u32 \<Rightarrow> bool" where
  "dim_refines c a \<longleftrightarrow> a = 0 \<or> c = a"

definition refines :: "spec \<Rightarrow> spec \<Rightarrow> bool" where
  "refines c a \<longleftrightarrow>
     (s_fmt a = Unknown \<or> s_fmt c = s_fmt a \<and> s_domain c = s_domain a \<and> s_modifier c = s_modifier a) \<and>
     dim_refines (s_width c) (s_width a) \<and> dim_refines (s_height c) (s_height a) \<and>
     dim_refines (s_stride c) (s_stride a) \<and> dim_refines (s_ver_stride c) (s_ver_stride a)"

lemma refines_refl: "refines a a"
  by (simp add: refines_def dim_refines_def)

lemma dim_refines_trans: "dim_refines c b \<Longrightarrow> dim_refines b a \<Longrightarrow> dim_refines c a"
  by (auto simp: dim_refines_def)

lemma refines_trans: "refines c b \<Longrightarrow> refines b a \<Longrightarrow> s_fmt b \<noteq> Unknown \<Longrightarrow> refines c a"
  unfolding refines_def using dim_refines_trans by metis

lemma merge_dim_Some:
  "merge_dim a b = Some c \<longleftrightarrow> dim_refines c a \<and> dim_refines c b \<and> (a = 0 \<longrightarrow> b = 0 \<longrightarrow> c = 0)"
  by (auto simp: merge_dim_def dim_refines_def)

lemma merge_dim_None: "merge_dim a b = None \<longleftrightarrow> (\<nexists>c. dim_refines c a \<and> dim_refines c b)"
  by (auto simp: merge_dim_def dim_refines_def)

lemma merge_dim_least: "merge_dim a b = Some c \<Longrightarrow> dim_refines d a \<Longrightarrow> dim_refines d b \<Longrightarrow> dim_refines d c"
  by (auto simp: merge_dim_def dim_refines_def split: if_splits)

lemma merge_dim_comm: "merge_dim a b = merge_dim b a"
  by (auto simp: merge_dim_def)

text \<open>\<open>unify\<close> between two known formats, as one conjunction of equations.\<close>

lemma unify_Inr_iff:
  assumes "s_fmt a \<noteq> Unknown" "s_fmt b \<noteq> Unknown"
  shows "unify a b = Inr r \<longleftrightarrow>
    s_fmt r = s_fmt a \<and> s_fmt a = s_fmt b \<and> s_domain r = s_domain a \<and> s_domain a = s_domain b \<and>
    s_modifier r = s_modifier a \<and> s_modifier a = s_modifier b \<and>
    merge_dim (s_width a) (s_width b) = Some (s_width r) \<and>
    merge_dim (s_height a) (s_height b) = Some (s_height r) \<and>
    merge_dim (s_stride a) (s_stride b) = Some (s_stride r) \<and>
    merge_dim (s_ver_stride a) (s_ver_stride b) = Some (s_ver_stride r)"
  using assms by (cases a; cases b; cases r) (auto simp: unify_def split: option.splits)

lemma unify_unknown [simp]:
  "s_fmt a = Unknown \<Longrightarrow> unify a b = Inr b" "s_fmt b = Unknown \<Longrightarrow> s_fmt a \<noteq> Unknown \<Longrightarrow> unify a b = Inr a"
  by (simp_all add: unify_def)

lemma unify_Inl: "unify a b = Inl e \<Longrightarrow> fst e = Negotiate"
  by (auto simp: unify_def split: if_splits option.splits)

lemma unify_upper:
  assumes "unify a b = Inr r" "s_fmt a \<noteq> Unknown" "s_fmt b \<noteq> Unknown"
  shows "refines r a \<and> refines r b"
  using assms by (simp add: unify_Inr_iff refines_def merge_dim_Some)

text \<open>What an edge is worth to the two ports it joins: all they ask for, where both name a format.\<close>

lemma unify_known_sides:
  assumes "unify a b = Inr r"
  shows "(s_fmt a \<noteq> Unknown \<longrightarrow> refines r a) \<and> (s_fmt b \<noteq> Unknown \<longrightarrow> refines r b)"
proof (cases "s_fmt a = Unknown \<or> s_fmt b = Unknown")
  case True
  then show ?thesis using assms by (auto simp: unify_def refines_refl split: if_splits)
next
  case False
  with unify_upper [OF assms] show ?thesis by blast
qed

section \<open>Properties\<close>

lemma unify_known_least:
  assumes "s_fmt a \<noteq> Unknown" "s_fmt b \<noteq> Unknown"
  shows "case unify a b of
      Inr r \<Rightarrow> refines r a \<and> refines r b \<and> (\<forall>c. refines c a \<and> refines c b \<longrightarrow> refines c r)
    | Inl (st, _) \<Rightarrow> st = Negotiate \<and> (\<nexists>c. refines c a \<and> refines c b)"
proof (cases "unify a b")
  case (Inr r)
  then have r: "s_fmt r = s_fmt a" "s_domain r = s_domain a" "s_modifier r = s_modifier a"
    "merge_dim (s_width a) (s_width b) = Some (s_width r)"
    "merge_dim (s_height a) (s_height b) = Some (s_height r)"
    "merge_dim (s_stride a) (s_stride b) = Some (s_stride r)"
    "merge_dim (s_ver_stride a) (s_ver_stride b) = Some (s_ver_stride r)"
    using unify_Inr_iff [OF assms] by simp_all
  have "refines c r" if "refines c a" "refines c b" for c
    using that assms r(1-3) merge_dim_least [OF r(4)] merge_dim_least [OF r(5)] merge_dim_least [OF r(6)]
      merge_dim_least [OF r(7)] by (auto simp: refines_def)
  with unify_upper [OF Inr assms] Inr show ?thesis by simp
next
  case (Inl e)
  have "\<not> (refines c a \<and> refines c b)" for c
  proof
    assume "refines c a \<and> refines c b"
    then have "s_fmt a = s_fmt b" "s_domain a = s_domain b" "s_modifier a = s_modifier b"
      "merge_dim (s_width a) (s_width b) \<noteq> None" "merge_dim (s_height a) (s_height b) \<noteq> None"
      "merge_dim (s_stride a) (s_stride b) \<noteq> None" "merge_dim (s_ver_stride a) (s_ver_stride b) \<noteq> None"
      using assms by (auto simp: refines_def merge_dim_None)
    then have "\<exists>r. unify a b = Inr r" using assms by (auto simp: unify_def)
    with Inl show False by simp
  qed
  with unify_Inl [OF Inl] Inl show ?thesis by (cases e) auto
qed

text \<open>
  C8. \<open>unify\<close> on all specs. Between two known formats it computes the least common refinement, field by
  field: it succeeds exactly when some spec satisfies both sides, its result satisfies both, and it
  fixes nothing that both leave open; a failure is \<open>Negotiate\<close>. Against an Unknown format it does not
  merge: it returns the other side as it is, so that the result satisfies the Unknown side exactly
  when each dimension and stride which that side fixes is already the other's.
\<close>

theorem unify_least:
  "if s_fmt a \<noteq> Unknown \<and> s_fmt b \<noteq> Unknown
   then case unify a b of
      Inr r \<Rightarrow> refines r a \<and> refines r b \<and> (\<forall>c. refines c a \<and> refines c b \<longrightarrow> refines c r)
    | Inl (st, _) \<Rightarrow> st = Negotiate \<and> (\<nexists>c. refines c a \<and> refines c b)
   else let known = (if s_fmt a = Unknown then b else a); asked = (if s_fmt a = Unknown then a else b)
     in unify a b = Inr known \<and>
        (refines known asked \<longleftrightarrow>
           (s_width asked = 0 \<or> s_width asked = s_width known) \<and> (s_height asked = 0 \<or> s_height asked = s_height known) \<and>
           (s_stride asked = 0 \<or> s_stride asked = s_stride known) \<and>
           (s_ver_stride asked = 0 \<or> s_ver_stride asked = s_ver_stride known))"
proof (cases "s_fmt a \<noteq> Unknown \<and> s_fmt b \<noteq> Unknown")
  case True
  then show ?thesis using unify_known_least [of a b] by simp
next
  case False
  then show ?thesis by (auto simp: refines_def dim_refines_def Let_def)
qed

theorem unify_least_witness:
  "unify (default_spec\<lparr>s_fmt := Nv12, s_width := 64\<rparr>) (default_spec\<lparr>s_fmt := Nv12, s_height := 48\<rparr>)
     = Inr (default_spec\<lparr>s_fmt := Nv12, s_width := 64, s_height := 48\<rparr>) \<and>
   refines (default_spec\<lparr>s_fmt := Nv12, s_width := 64, s_height := 48\<rparr>) (default_spec\<lparr>s_fmt := Nv12, s_width := 64\<rparr>)"
proof -
  have u: "unify (default_spec\<lparr>s_fmt := Nv12, s_width := 64\<rparr>) (default_spec\<lparr>s_fmt := Nv12, s_height := 48\<rparr>)
     = Inr (default_spec\<lparr>s_fmt := Nv12, s_width := 64, s_height := 48\<rparr>)"
    by (simp add: unify_def default_spec_def merge_dim_def)
  from unify_least [of "default_spec\<lparr>s_fmt := Nv12, s_width := 64\<rparr>" "default_spec\<lparr>s_fmt := Nv12, s_height := 48\<rparr>"]
  show ?thesis unfolding u by simp
qed

text \<open>
  A spec of unknown format absorbs nothing: merged with any spec, on either side, it yields
  the other one as it is. Dimensions, strides and the memory domain that it fixes are dropped
  without a conflict, although the merge is documented as one of fields.
\<close>

theorem unify_unknown_drops_fields:
  "unify (a\<lparr>s_fmt := Unknown\<rparr>) b = Inr b \<and> (s_fmt b \<noteq> Unknown \<longrightarrow> unify b (a\<lparr>s_fmt := Unknown\<rparr>) = Inr b)"
  by simp

theorem unify_unknown_drops_fields_witness:
  "unify (default_spec\<lparr>s_fmt := Nv12, s_width := 640\<rparr>) (default_spec\<lparr>s_width := 320, s_domain := Dmabuf\<rparr>)
    = Inr (default_spec\<lparr>s_fmt := Nv12, s_width := 640\<rparr>)"
  using unify_unknown_drops_fields [of "default_spec\<lparr>s_width := 320, s_domain := Dmabuf\<rparr>"
    "default_spec\<lparr>s_fmt := Nv12, s_width := 640\<rparr>"] by (simp add: default_spec_def)

text \<open>The payload of a spec in unbounded arithmetic: what \<open>min_size\<close> stands for.\<close>

definition stride_bytes :: "spec \<Rightarrow> nat" where
  "stride_bytes s =
     (if s_stride s \<noteq> 0 then unat (s_stride s)
      else case s_fmt s of
             P010 \<Rightarrow> 2 * unat (s_width s) | Rgb24 \<Rightarrow> 3 * unat (s_width s)
           | Unknown \<Rightarrow> 0 | Bitstream \<Rightarrow> 0 | _ \<Rightarrow> unat (s_width s))"

definition payload_bytes :: "spec \<Rightarrow> nat" where
  "payload_bytes s =
     (let plane = stride_bytes s * unat (eff_ver_stride s)
      in case s_fmt s of
           Unknown \<Rightarrow> 0 | Bitstream \<Rightarrow> 0 | Nv16 \<Rightarrow> 2 * plane | Rgb24 \<Rightarrow> plane | _ \<Rightarrow> 3 * plane div 2)"

lemma unat_ucast_u32_u64: "unat (ucast (x :: u32) :: u64) = unat x"
proof -
  have "unat x < 2 ^ 32" using unsigned_less [of x, where 'a = nat] by simp
  then show ?thesis by (simp add: unsigned_ucast_eq take_bit_nat_eq_self)
qed

lemma unat_times_small: "unat x * unat y < 2 ^ LENGTH('a) \<Longrightarrow> unat (x * y :: 'a::len word) = unat x * unat y"
  using unat_mult_lem by blast

lemma eff_stride_exact:
  assumes "unat (s_width s) < 2 ^ 30"
  shows "unat (eff_stride s) = stride_bytes s"
proof -
  have "unat (s_width s * 2) = unat (s_width s) * unat (2 :: u32)"
    by (rule unat_times_small) (use assms in simp)
  moreover have "unat (s_width s * 3) = unat (s_width s) * unat (3 :: u32)"
    by (rule unat_times_small) (use assms in simp)
  ultimately show ?thesis by (simp add: eff_stride_def stride_bytes_def split: pixel_format.splits)
qed

lemma min_size_payload:
  assumes "unat (s_width s) < 2 ^ 30" "3 * (stride_bytes s * unat (eff_ver_stride s)) < 2 ^ 64"
  shows "unat (min_size s) = payload_bytes s"
proof -
  let ?p = "ucast (eff_stride s) * ucast (eff_ver_stride s) :: u64"
  let ?n = "stride_bytes s * unat (eff_ver_stride s)"
  have st: "unat (eff_stride s) = stride_bytes s" by (rule eff_stride_exact [OF assms(1)])
  have "unat ?p = unat (ucast (eff_stride s) :: u64) * unat (ucast (eff_ver_stride s) :: u64)"
    by (rule unat_times_small) (use assms(2) in \<open>simp add: unat_ucast_u32_u64 st\<close>)
  then have p: "unat ?p = ?n" by (simp add: unat_ucast_u32_u64 st)
  have "unat (?p * 3) = unat ?p * unat (3 :: u64)"
    by (rule unat_times_small) (use assms(2) p in simp)
  then have p3: "unat (?p * 3 div 2) = 3 * ?n div 2" by (simp add: unat_div p)
  have "unat (?p * 2) = unat ?p * unat (2 :: u64)"
    by (rule unat_times_small) (use assms(2) p in simp)
  then have p2: "unat (?p * 2) = 2 * ?n" by (simp add: p)
  have z: "eff_stride s = 0 \<longleftrightarrow> stride_bytes s = 0" using st by (metis unat_eq_zero)
  have v: "eff_ver_stride s = 0 \<longleftrightarrow> unat (eff_ver_stride s) = 0" by (simp add: unat_eq_zero)
  show ?thesis
    using p p2 p3 by (cases "s_fmt s") (simp_all add: min_size_def payload_bytes_def Let_def z v)
qed

text \<open>
  C9. \<open>min_size\<close> is exact for the sizes that occur: with a width below \<open>2^30\<close> and a payload far from
  the 64-bit range the fixed-width computation gives the payload of the packed planes, and 0, the
  value for unbounded, only where a stride or the vertical stride is 0 or the format has none.
\<close>

theorem min_size_exact:
  assumes "unat (s_width s) < 2 ^ 30" "3 * (stride_bytes s * unat (eff_ver_stride s)) < 2 ^ 64"
  shows "unat (min_size s) = payload_bytes s"
  by (rule min_size_payload [OF assms])

theorem min_size_exact_witness:
  "unat (min_size (default_spec\<lparr>s_fmt := Nv12, s_width := 1920, s_height := 1080\<rparr>)) = 3110400"
  using min_size_exact [of "default_spec\<lparr>s_fmt := Nv12, s_width := 1920, s_height := 1080\<rparr>"]
  by (simp add: default_spec_def stride_bytes_def eff_ver_stride_def payload_bytes_def Let_def)

text \<open>
  Outside that range the arithmetic wraps: a P010 spec of width \<open>2^31\<close> has the effective stride 0
  and therefore the minimum size 0, which stands for unbounded.
\<close>

theorem wide_p010_unbounded:
  "s_fmt s = P010 \<and> s_stride s = 0 \<and> s_width s = 0x80000000 \<longrightarrow> eff_stride s = 0 \<and> min_size s = 0"
  by (simp add: eff_stride_def min_size_def Let_def)

theorem wide_p010_unbounded_witness:
  "min_size (default_spec\<lparr>s_fmt := P010, s_width := 0x80000000, s_height := 2\<rparr>) = 0"
  using wide_p010_unbounded [of "default_spec\<lparr>s_fmt := P010, s_width := 0x80000000, s_height := 2\<rparr>"]
  by (simp add: default_spec_def)

end
