(* ===== verification/Media_Frame.thy ===== *)
theory Media_Frame
  imports Media_Spec
begin

text \<open>
  The media object of the core, \<open>core/include/rkvc/frame.hpp\<close> and \<open>core/src/frame.cpp\<close>: wrapping a
  host payload or a dma-buf, and the regions of interest. A payload is the list of its bytes, or
  \<open>None\<close> for the null pointer; \<open>alloc\<close> says whether the \<open>nothrow\<close> allocation of the object succeeds.
  The region arithmetic is the code's, on 32-bit words.
\<close>

unbundle bit_operations_syntax

definition kRoiMaxRegions :: nat where "kRoiMaxRegions = 8"
definition kFlagKeyframe :: u32 where "kFlagKeyframe = push_bit 0 1"
definition kFlagDiscontinuity :: u32 where "kFlagDiscontinuity = push_bit 1 1"
definition kFlagCorrupt :: u32 where "kFlagCorrupt = push_bit 2 1"
definition kTsUnknown :: int where "kTsUnknown = - (2 ^ 63)"

record roi_region =
  r_x :: u32
  r_y :: u32
  r_width :: u32
  r_height :: u32
  r_qp_delta :: int
  r_force_intra :: bool

definition empty_region :: roi_region where
  "empty_region = \<lparr>r_x = 0, r_y = 0, r_width = 0, r_height = 0, r_qp_delta = 0, r_force_intra = False\<rparr>"

record encode_control =
  ec_bitrate_bps :: int
  ec_gop_size :: u32
  ec_force_idr :: bool

record frame =
  f_spec :: spec
  f_data :: "bytes option"
  f_size :: nat
  f_fd :: int
  f_pts :: int
  f_dts :: int
  f_flags :: u32
  f_encode :: encode_control
  f_roi :: "roi_region list"
  f_roi_count :: nat

definition make_frame :: "spec \<Rightarrow> bytes option \<Rightarrow> nat \<Rightarrow> int \<Rightarrow> frame" where
  "make_frame s data n fd =
     \<lparr>f_spec = s, f_data = data, f_size = n, f_fd = fd, f_pts = kTsUnknown, f_dts = kTsUnknown,
      f_flags = 0, f_encode = \<lparr>ec_bitrate_bps = 0, ec_gop_size = 0, ec_force_idr = False\<rparr>,
      f_roi = replicate kRoiMaxRegions empty_region, f_roi_count = 0\<rparr>"

definition borrow_host :: "bool \<Rightarrow> spec \<Rightarrow> bytes option \<Rightarrow> nat \<Rightarrow> frame result" where
  "borrow_host alloc s data n =
     (if s_domain s \<noteq> Host then reject Invalid ''host borrow needs host domain''
      else if s_fmt s \<noteq> Unknown \<and> data = None then reject Invalid ''null host payload''
      else if s_fmt s \<noteq> Unknown \<and> min_size s \<noteq> 0 \<and> n < unat (min_size s)
      then reject Invalid ''host payload too small''
      else if \<not> alloc then reject Nomem ''frame alloc failed''
      else Inr (make_frame s data n (-1)))"

definition borrow_dmabuf :: "bool \<Rightarrow> spec \<Rightarrow> int \<Rightarrow> nat \<Rightarrow> frame result" where
  "borrow_dmabuf alloc s fd n =
     (if s_domain s \<noteq> Dmabuf then reject Invalid ''dmabuf borrow needs dmabuf domain''
      else if fd < 0 then reject Invalid ''bad dmabuf fd''
      else if \<not> is_linear s then reject Format ''non-linear modifier rejected''
      else if \<not> alloc then reject Nomem ''frame alloc failed''
      else Inr (make_frame s None n fd))"

section \<open>Regions of interest\<close>

definition roi_in_frame :: "spec \<Rightarrow> roi_region \<Rightarrow> bool" where
  "roi_in_frame s r \<longleftrightarrow> \<not> (r_x r + r_width r > s_width s \<or> r_y r + r_height r > s_height s)"

text \<open>
  The loop over the regions: each one is checked and then stored, so that the ones before a
  rejected region have been written.
\<close>

fun roi_loop :: "spec \<Rightarrow> nat \<Rightarrow> roi_region list \<Rightarrow> roi_region list \<Rightarrow> (string option) \<times> roi_region list" where
  "roi_loop s i [] roi = (None, roi)"
| "roi_loop s i (r # rs) roi =
     (if r_qp_delta r < -51 \<or> r_qp_delta r > 51 then (Some ''roi qp_delta out of range'', roi)
      else if s_width s \<noteq> 0 \<and> s_height s \<noteq> 0 \<and> \<not> roi_in_frame s r
      then (Some ''roi region out of frame'', roi)
      else roi_loop s (Suc i) rs (roi[i := r]))"

definition set_roi :: "frame \<Rightarrow> roi_region list option \<Rightarrow> nat \<Rightarrow> unit result \<times> frame" where
  "set_roi f regions n =
     (if n > kRoiMaxRegions then (reject Invalid ''too many roi regions'', f)
      else if n \<noteq> 0 \<and> regions = None then (reject Invalid ''null roi regions'', f)
      else case roi_loop (f_spec f) 0 (case regions of None \<Rightarrow> [] | Some rs \<Rightarrow> take n rs) (f_roi f) of
             (Some why, roi) \<Rightarrow> (reject Invalid why, f\<lparr>f_roi := roi\<rparr>)
           | (None, roi) \<Rightarrow> (Inr (), f\<lparr>f_roi := roi, f_roi_count := n\<rparr>))"

text \<open>What a region must satisfy, in unbounded arithmetic.\<close>

definition roi_valid :: "spec \<Rightarrow> roi_region \<Rightarrow> bool" where
  "roi_valid s r \<longleftrightarrow> -51 \<le> r_qp_delta r \<and> r_qp_delta r \<le> 51 \<and>
     (s_width s \<noteq> 0 \<and> s_height s \<noteq> 0 \<longrightarrow>
        unat (r_x r) + unat (r_width r) \<le> unat (s_width s) \<and> unat (r_y r) + unat (r_height r) \<le> unat (s_height s))"

definition roi_no_wrap :: "roi_region \<Rightarrow> bool" where
  "roi_no_wrap r \<longleftrightarrow> unat (r_x r) + unat (r_width r) < 2 ^ 32 \<and> unat (r_y r) + unat (r_height r) < 2 ^ 32"

lemma roi_in_frame_iff:
  assumes "roi_no_wrap r"
  shows "roi_in_frame s r \<longleftrightarrow>
    unat (r_x r) + unat (r_width r) \<le> unat (s_width s) \<and> unat (r_y r) + unat (r_height r) \<le> unat (s_height s)"
proof -
  have "unat (r_x r + r_width r) = unat (r_x r) + unat (r_width r)"
    "unat (r_y r + r_height r) = unat (r_y r) + unat (r_height r)"
    using assms unat_add_lem [of "r_x r" "r_width r"] unat_add_lem [of "r_y r" "r_height r"]
    by (simp_all add: roi_no_wrap_def)
  then show ?thesis by (simp add: roi_in_frame_def word_le_nat_alt not_less)
qed

lemma roi_loop_spec:
  "list_all roi_no_wrap rs \<Longrightarrow> i + length rs \<le> length roi \<Longrightarrow>
    (case roi_loop s i rs roi of
       (None, roi') \<Rightarrow> list_all (roi_valid s) rs \<and> roi' = put_at roi i rs
     | (Some _, roi') \<Rightarrow> \<not> list_all (roi_valid s) rs \<and> length roi' = length roi)"
proof (induction s i rs roi rule: roi_loop.induct)
  case (1 s i roi)
  then show ?case by simp
next
  case (2 s i r rs roi)
  show ?case
  proof (cases "roi_valid s r")
    case False
    then show ?thesis using "2.prems" roi_in_frame_iff [of r s]
      by (auto simp: roi_valid_def split: prod.splits)
  next
    case True
    then have g: "\<not> (r_qp_delta r < -51 \<or> r_qp_delta r > 51)" "\<not> (s_width s \<noteq> 0 \<and> s_height s \<noteq> 0 \<and> \<not> roi_in_frame s r)"
      using "2.prems" roi_in_frame_iff [of r s] by (auto simp: roi_valid_def)
    have "put_at (roi[i := r]) (Suc i) rs = put_at roi i (r # rs)"
      using "2.prems"(2) by (simp add: put_at_def take_Suc_conv_app_nth nth_list_update_eq)
    with "2.IH" [OF g] "2.prems" g True show ?thesis
      by (auto split: prod.splits option.splits)
  qed
qed

section \<open>Properties\<close>

text \<open>
  \<open>borrow_host\<close> decides whether a payload is large enough, for widths below \<open>2^30\<close> and plane sizes
  below the 64-bit range: it yields a frame exactly when the specification is in the Host domain, the
  allocation succeeds and, for a known format, the payload is not null and has at least the bytes
  of the packed planes; the frame starts with unknown time stamps, no flags and no regions. Otherwise
  the status is \<open>Nomem\<close> for the allocation and \<open>Invalid\<close> for the rest.
\<close>

theorem borrow_host_holds_payload:
  assumes "unat (s_width s) < 2 ^ 30" "3 * (stride_bytes s * unat (eff_ver_stride s)) < 2 ^ 64"
  shows "let fits = (s_domain s = Host \<and> (s_fmt s \<noteq> Unknown \<longrightarrow> data \<noteq> None \<and> payload_bytes s \<le> n))
    in case borrow_host alloc s data n of
         Inr f \<Rightarrow> fits \<and> alloc \<and> f = make_frame s data n (-1)
       | Inl (st, _) \<Rightarrow> if fits then \<not> alloc \<and> st = Nomem else st = Invalid"
proof -
  have m: "unat (min_size s) = payload_bytes s" by (rule min_size_payload [OF assms])
  then have z: "min_size s = 0 \<longrightarrow> payload_bytes s = 0" by (metis unat_0)
  show ?thesis using m z by (auto simp: borrow_host_def Let_def split: if_splits)
qed

theorem borrow_host_holds_payload_witness:
  "payload_bytes (default_spec\<lparr>s_fmt := Nv12, s_width := 2, s_height := 2\<rparr>) \<le> 6"
proof -
  let ?s = "default_spec\<lparr>s_fmt := Nv12, s_width := 2, s_height := 2\<rparr>"
  have "borrow_host True ?s (Some [0, 0, 0, 0, 0, 0]) 6 = Inr (make_frame ?s (Some [0, 0, 0, 0, 0, 0]) 6 (-1))"
    by (simp add: borrow_host_def default_spec_def min_size_def eff_stride_def eff_ver_stride_def Let_def)
  with borrow_host_holds_payload [of ?s "Some [0, 0, 0, 0, 0, 0]" 6 True] show ?thesis
    by (simp add: default_spec_def stride_bytes_def eff_ver_stride_def Let_def)
qed

text \<open>A refused list has already replaced the regions before its first invalid one.\<close>

lemma roi_loop_refused:
  "list_all roi_no_wrap rs \<Longrightarrow> i + length rs \<le> length roi \<Longrightarrow> roi_loop s i rs roi = (Some why, roi') \<Longrightarrow>
     roi' = put_at roi i (takeWhile (roi_valid s) rs)"
proof (induction s i rs roi rule: roi_loop.induct)
  case (1 s i roi)
  then show ?case by simp
next
  case (2 s i r rs roi)
  show ?case
  proof (cases "roi_valid s r")
    case False
    then show ?thesis using "2.prems" roi_in_frame_iff [of r s]
      by (auto simp: roi_valid_def put_at_def split: prod.splits if_splits)
  next
    case True
    then have g: "\<not> (r_qp_delta r < -51 \<or> r_qp_delta r > 51)" "\<not> (s_width s \<noteq> 0 \<and> s_height s \<noteq> 0 \<and> \<not> roi_in_frame s r)"
      using "2.prems" roi_in_frame_iff [of r s] by (auto simp: roi_valid_def)
    have "length (takeWhile (roi_valid s) rs) \<le> length rs" by (rule length_takeWhile_le)
    then have "put_at (roi[i := r]) (Suc i) (takeWhile (roi_valid s) rs) = put_at roi i (r # takeWhile (roi_valid s) rs)"
      using "2.prems"(2) by (simp add: put_at_def take_Suc_conv_app_nth nth_list_update_eq)
    with "2.IH" [OF g] "2.prems" g True show ?thesis by auto
  qed
qed

text \<open>
  C12. \<open>set_roi\<close> decides validity: for at most eight regions whose sums do not wrap, it succeeds
  exactly when every region lies inside the frame (where the frame has an extent) and has a
  quantiser offset between -51 and 51, and then the frame's first regions are the caller's, in
  order, the remaining ones are kept and the count is set; otherwise the status is \<open>Invalid\<close> and
  the count is unchanged, but the regions before the first invalid one have replaced the frame's.
\<close>

theorem set_roi_decides:
  assumes "length rs \<le> kRoiMaxRegions" "list_all roi_no_wrap rs" "length (f_roi f) = kRoiMaxRegions"
  shows "case set_roi f (Some rs) (length rs) of
      (Inr _, f') \<Rightarrow> list_all (roi_valid (f_spec f)) rs \<and>
        f' = f\<lparr>f_roi := rs @ drop (length rs) (f_roi f), f_roi_count := length rs\<rparr>
    | (Inl (st, _), f') \<Rightarrow> \<not> list_all (roi_valid (f_spec f)) rs \<and> st = Invalid \<and>
        f_roi_count f' = f_roi_count f \<and>
        (let ok = takeWhile (roi_valid (f_spec f)) rs in f' = f\<lparr>f_roi := ok @ drop (length ok) (f_roi f)\<rparr>)"
proof -
  obtain w roi where l: "roi_loop (f_spec f) 0 rs (f_roi f) = (w, roi)" by force
  show ?thesis
  proof (cases w)
    case None
    then show ?thesis using roi_loop_spec [OF assms(2), of 0 "f_roi f" "f_spec f"] assms(1,3) l
      by (simp add: set_roi_def put_at_def)
  next
    case (Some why)
    then have "roi = put_at (f_roi f) 0 (takeWhile (roi_valid (f_spec f)) rs)"
      by (intro roi_loop_refused [OF assms(2) _ l [unfolded Some]]) (use assms in simp)
    then show ?thesis using Some roi_loop_spec [OF assms(2), of 0 "f_roi f" "f_spec f"] assms(1,3) l
      by (simp add: set_roi_def put_at_def Let_def)
  qed
qed

theorem set_roi_decides_witness:
  "fst (set_roi (make_frame (default_spec\<lparr>s_width := 64, s_height := 48\<rparr>) None 0 0)
     (Some [empty_region\<lparr>r_x := 60, r_width := 5\<rparr>]) 1) \<noteq> Inr ()"
  using set_roi_decides [of "[empty_region\<lparr>r_x := 60, r_width := 5\<rparr>]"
      "make_frame (default_spec\<lparr>s_width := 64, s_height := 48\<rparr>) None 0 0"]
  by (auto simp: kRoiMaxRegions_def make_frame_def empty_region_def roi_no_wrap_def roi_valid_def default_spec_def
      split: prod.splits sum.splits)

text \<open>
  The bounds check wraps: a region that starts at the last column and is \<open>2^32 - 63\<close> columns wide
  is accepted for a frame of 64 columns.
\<close>

theorem roi_check_wraps:
  "roi_in_frame (default_spec\<lparr>s_width := 64, s_height := 48\<rparr>) (empty_region\<lparr>r_x := 63, r_width := 0xFFFFFFC1\<rparr>)"
  by (simp add: roi_in_frame_def default_spec_def empty_region_def)

end
