(* ===== verification/Download_Copy.thy ===== *)
theory Download_Copy
  imports Media_Frame
begin

text \<open>
  The download bridge of \<open>core/src/graph.cpp\<close> at work: \<open>DownloadNode::process\<close> and \<open>copy\<close>, which
  pack the strided planes of a Dmabuf picture into a Host frame. \<open>size_t\<close> is 64 bits wide. A
  \<open>memcpy\<close> that leaves the mapping or the allocated block is the value \<open>None\<close>; the theorems show
  when it cannot happen.
\<close>

section \<open>Layout\<close>

definition even_extent_ok :: "spec \<Rightarrow> bool" where
  "even_extent_ok s =
     (case s_fmt s of
        Nv12 \<Rightarrow> s_width s mod 2 = 0 \<and> s_height s mod 2 = 0
      | Nv21 \<Rightarrow> s_width s mod 2 = 0 \<and> s_height s mod 2 = 0
      | P010 \<Rightarrow> s_width s mod 2 = 0 \<and> s_height s mod 2 = 0
      | Nv16 \<Rightarrow> s_width s mod 2 = 0
      | _ \<Rightarrow> True)"

record plane =
  pl_lines :: u32
  pl_line_bytes :: u32
  pl_ver_off :: u32

definition plan_layout :: "spec \<Rightarrow> plane list option" where
  "plan_layout s =
     (let w = s_width s; h = s_height s; uv_h = (h + 1) div 2; vs = eff_ver_stride s;
          semi = (\<lambda>b. Some [\<lparr>pl_lines = h, pl_line_bytes = w * b, pl_ver_off = 0\<rparr>,
                          \<lparr>pl_lines = uv_h, pl_line_bytes = w * b, pl_ver_off = vs\<rparr>])
      in case s_fmt s of
           Nv12 \<Rightarrow> semi 1
         | Nv21 \<Rightarrow> semi 1
         | P010 \<Rightarrow> semi 2
         | Nv16 \<Rightarrow> Some [\<lparr>pl_lines = h, pl_line_bytes = w, pl_ver_off = 0\<rparr>,
                         \<lparr>pl_lines = h, pl_line_bytes = w, pl_ver_off = vs\<rparr>]
         | Rgb24 \<Rightarrow> Some [\<lparr>pl_lines = h, pl_line_bytes = w * 3, pl_ver_off = 0\<rparr>]
         | _ \<Rightarrow> None)"

section \<open>The copy\<close>

text \<open>The line loop of one plane, \<open>k\<close> lines from line \<open>l\<close> on.\<close>

fun copy_lines :: "bytes \<Rightarrow> u64 \<Rightarrow> u32 \<Rightarrow> u32 \<Rightarrow> u32 \<Rightarrow> nat \<Rightarrow> nat \<Rightarrow> bytes \<Rightarrow> u64 \<Rightarrow> (bytes \<times> u64) option" where
  "copy_lines m start ss ds lb l 0 out off = Some (out, off)"
| "copy_lines m start ss ds lb l (Suc k) out off =
     (let from = unat (start + of_nat l * ucast ss); n = unat lb
      in if from + n > length m \<or> unat off + n > length out then None
         else copy_lines m start ss ds lb (l + 1) k
                (put_at out (unat off) (slice_of m from (from + n))) (off + ucast ds))"

fun copy_planes :: "bytes \<Rightarrow> u32 \<Rightarrow> u32 \<Rightarrow> plane list \<Rightarrow> bytes \<Rightarrow> u64 \<Rightarrow> (bytes \<times> u64) result option" where
  "copy_planes m ss ds [] out off = Some (Inr (out, off))"
| "copy_planes m ss ds (p # ps) out off =
     (if pl_line_bytes p > ss then Some (reject Invalid ''stride smaller than width'')
      else let start = ucast ss * ucast (pl_ver_off p) :: u64;
               stop = start + ucast (pl_lines p - 1) * ucast ss + ucast (pl_line_bytes p)
      in if unat stop > length m then Some (reject Invalid ''plane exceeds mapping'')
         else case copy_lines m start ss ds (pl_line_bytes p) 0 (unat (pl_lines p)) out off of
                None \<Rightarrow> None
              | Some (out', off') \<Rightarrow> copy_planes m ss ds ps out' off')"

definition host_spec :: "spec \<Rightarrow> spec" where
  "host_spec s = default_spec\<lparr>s_width := s_width s, s_height := s_height s, s_fmt := s_fmt s, s_domain := Host\<rparr>"

text \<open>
  \<open>copy\<close> and \<open>finish_flat\<close> up to \<open>finish\<close>: the specification and the payload of the new frame.
  \<open>fresh n\<close> is the block \<open>malloc\<close> returns, \<open>None\<close> where it fails.
\<close>

definition download_copy :: "(nat \<Rightarrow> bytes option) \<Rightarrow> spec \<Rightarrow> bytes \<Rightarrow> (spec \<times> bytes) result option" where
  "download_copy fresh s m =
     (if s_fmt s = Bitstream
      then (case fresh (length m) of
              None \<Rightarrow> Some (reject Nomem ''host alloc failed'')
            | Some dst \<Rightarrow> Some (Inr (default_spec\<lparr>s_fmt := Bitstream, s_domain := Host\<rparr>, put_at dst 0 m)))
      else if s_width s = 0 \<or> s_height s = 0 then Some (reject Invalid ''unresolved extent'')
      else if \<not> even_extent_ok s then Some (reject Unsupported ''odd extent for subsampled format'')
      else case plan_layout s of
             None \<Rightarrow> Some (reject Unsupported ''pixel format not handled'')
           | Some planes \<Rightarrow>
      (let d = host_spec s; need = min_size d
      in if need = 0 then Some (reject Unsupported ''pixel format not handled'')
         else case fresh (unat need) of
                None \<Rightarrow> Some (reject Nomem ''host alloc failed'')
              | Some dst \<Rightarrow>
                  (case copy_planes m (eff_stride s) (eff_stride d) planes dst 0 of
                     None \<Rightarrow> None
                   | Some (Inl e) \<Rightarrow> Some (Inl e)
                   | Some (Inr (out, off)) \<Rightarrow>
                       if off \<noteq> need then Some (reject Internal ''plane accounting mismatch'')
                       else Some (Inr (d, out)))))"

text \<open>
  \<open>process\<close>: \<open>mapping\<close> is what \<open>mmap\<close> returns, \<open>falloc\<close> whether the frame object can be allocated.
  The value is the frame handed to \<open>emit\<close>.
\<close>

definition download_process :: "(nat \<Rightarrow> bytes option) \<Rightarrow> bool \<Rightarrow> bytes option \<Rightarrow> frame option \<Rightarrow> frame result option" where
  "download_process fresh falloc mapping input =
     (case input of
        None \<Rightarrow> Some (reject Invalid ''null frame'')
      | Some f \<Rightarrow>
     (let s = f_spec f
      in if s_domain s \<noteq> Dmabuf \<or> f_fd f < 0 then Some (reject Invalid ''not a dmabuf frame'')
         else if s_fmt s = Unknown then Some (reject Invalid ''unresolved format'')
         else if \<not> is_linear s then Some (reject Unsupported ''non-linear modifier'')
         else if f_size f = 0 then Some (reject Invalid ''empty dmabuf'')
         else case mapping of
                None \<Rightarrow> Some (reject Hw ''mmap failed'')
              | Some m \<Rightarrow>
                  (case download_copy fresh s m of
                     None \<Rightarrow> None
                   | Some (Inl e) \<Rightarrow> Some (Inl e)
                   | Some (Inr (d, dst)) \<Rightarrow>
                       (case borrow_host falloc d (Some dst) (length dst) of
                          Inl (st, why) \<Rightarrow> Some (reject st ''host wrap failed'')
                        | Inr g \<Rightarrow> Some (Inr (g\<lparr>f_pts := f_pts f, f_dts := f_dts f, f_flags := f_flags f\<rparr>))))))"

section \<open>Packed planes\<close>

text \<open>The lines of a plane, read one stride apart.\<close>

definition plane_lines :: "bytes \<Rightarrow> nat \<Rightarrow> nat \<Rightarrow> nat \<Rightarrow> nat \<Rightarrow> bytes" where
  "plane_lines m stride start lb k =
     concat (map (\<lambda>j. slice_of m (start + j * stride) (start + j * stride + lb)) [0..<k])"

definition packed :: "bytes \<Rightarrow> nat \<Rightarrow> plane list \<Rightarrow> bytes" where
  "packed m stride ps =
     concat (map (\<lambda>p. plane_lines m stride (stride * unat (pl_ver_off p)) (unat (pl_line_bytes p)) (unat (pl_lines p))) ps)"

definition plane_fits :: "nat \<Rightarrow> nat \<Rightarrow> plane \<Rightarrow> bool" where
  "plane_fits n stride p \<longleftrightarrow>
     unat (pl_line_bytes p) \<le> stride \<and>
     stride * unat (pl_ver_off p) + (unat (pl_lines p) - 1) * stride + unat (pl_line_bytes p) \<le> n"

lemma unat_line_pos:
  fixes start :: u64 and ss :: u32
  assumes "unat start + l * unat ss < 2 ^ 64"
  shows "unat (start + of_nat l * ucast ss) = unat start + l * unat ss"
proof -
  have "start + of_nat l * ucast ss = (of_nat (unat start + l * unat ss) :: u64)"
    by (simp add: unat_ucast_u32_u64 [symmetric] del: of_nat_unat) (simp add: of_nat_unat)
  moreover have "unat (of_nat (unat start + l * unat ss) :: u64) = unat start + l * unat ss"
    by (rule unat_of_nat_small) (use assms in simp)
  ultimately show ?thesis by simp
qed

lemma ucast_of_unat: "ucast (x :: u32) = (of_nat (unat x) :: u64)"
  by (simp add: unat_ucast_u32_u64 [symmetric])

lemma unat_add_of_nat:
  fixes off :: u64
  assumes "unat off + n < 2 ^ 64"
  shows "unat (off + of_nat n) = unat off + n"
proof -
  have "off + of_nat n = (of_nat (unat off + n) :: u64)" by simp
  moreover have "unat (of_nat (unat off + n) :: u64) = unat off + n"
    by (rule unat_of_nat_small) (use assms in simp)
  ultimately show ?thesis by simp
qed

lemma copy_lines_ok:
  assumes "length m < 2 ^ 64" "0 < k \<Longrightarrow> unat start + (l + k - 1) * unat ss + unat lb \<le> length m"
    and "length pre = unat off" "k * unat lb \<le> length rest" "unat off + k * unat lb < 2 ^ 64"
  shows "copy_lines m start ss lb lb l k (pre @ rest) off =
    Some (pre @ concat (map (\<lambda>j. slice_of m (unat start + j * unat ss) (unat start + j * unat ss + unat lb)) [l..<l + k])
            @ drop (k * unat lb) rest, off + of_nat (k * unat lb))"
  using assms
proof (induction k arbitrary: l pre rest off)
  case (Suc k)
  let ?from = "unat start + l * unat ss"
  let ?line = "slice_of m ?from (?from + unat lb)"
  have "l * unat ss \<le> (l + k) * unat ss" by (rule mult_le_mono1) simp
  moreover have "unat start + (l + k) * unat ss + unat lb \<le> length m" using Suc.prems(2) by simp
  ultimately have fit: "?from + unat lb \<le> length m" by linarith
  then have at: "unat (start + of_nat l * ucast ss) = ?from"
    by (intro unat_line_pos) (use Suc.prems(1) in simp)
  have len: "length ?line = unat lb" using fit by simp
  have room: "unat lb \<le> length rest" using Suc.prems(4) by simp
  have put: "put_at (pre @ rest) (unat off) ?line = (pre @ ?line) @ drop (unat lb) rest"
    using Suc.prems(3) len room by (simp add: put_at_def del: length_slice_of)
  have off: "unat (off + ucast lb) = unat off + unat lb"
    using unat_add_of_nat[of off "unat lb"] Suc.prems(5) by (simp add: unat_ucast_u32_u64 [symmetric])
  have "copy_lines m start ss lb lb (l + 1) k ((pre @ ?line) @ drop (unat lb) rest) (off + ucast lb) =
    Some ((pre @ ?line) @ concat (map (\<lambda>j. slice_of m (unat start + j * unat ss) (unat start + j * unat ss + unat lb)) [l + 1..<l + 1 + k])
            @ drop (k * unat lb) (drop (unat lb) rest), off + ucast lb + of_nat (k * unat lb))"
  proof (rule Suc.IH)
    assume "0 < k"
    then show "unat start + (l + 1 + k - 1) * unat ss + unat lb \<le> length m" using Suc.prems(2) by simp
  qed (use Suc.prems len off room in \<open>simp_all del: length_slice_of\<close>)
  moreover have "copy_lines m start ss lb lb l (Suc k) (pre @ rest) off =
    copy_lines m start ss lb lb (l + 1) k ((pre @ ?line) @ drop (unat lb) rest) (off + ucast lb)"
    unfolding copy_lines.simps at Let_def put using fit room Suc.prems(3) by simp
  moreover have "concat (map (\<lambda>j. slice_of m (unat start + j * unat ss) (unat start + j * unat ss + unat lb)) [l..<l + Suc k]) =
    ?line @ concat (map (\<lambda>j. slice_of m (unat start + j * unat ss) (unat start + j * unat ss + unat lb)) [l + 1..<l + 1 + k])"
    by (simp add: upt_conv_Cons del: upt_Suc)
  moreover have "off + ucast lb + of_nat (k * unat lb) = off + of_nat (Suc k * unat lb)"
    by (simp only: ucast_of_unat mult_Suc of_nat_add add.assoc)
  moreover have "drop (k * unat lb) (drop (unat lb) rest) = drop (Suc k * unat lb) rest"
    by (simp add: add.commute)
  ultimately show ?case by (simp only: append_assoc)
qed simp

definition planes_size :: "plane list \<Rightarrow> nat" where
  "planes_size ps = sum_list (map (\<lambda>p. unat (pl_lines p) * unat (pl_line_bytes p)) ps)"

text \<open>The positions of a plane stay within 64 bits, and it has a line.\<close>

definition plane_small :: "nat \<Rightarrow> plane \<Rightarrow> bool" where
  "plane_small stride p \<longleftrightarrow> pl_lines p \<noteq> 0 \<and>
     stride * unat (pl_ver_off p) + unat (pl_lines p) * stride + unat (pl_line_bytes p) < 2 ^ 64"

lemma plane_positions:
  fixes ss :: u32
  assumes "plane_small (unat ss) p"
  shows "unat (ucast ss * ucast (pl_ver_off p) :: u64) = unat ss * unat (pl_ver_off p)"
    and "unat (ucast ss * ucast (pl_ver_off p) + ucast (pl_lines p - 1) * ucast ss + ucast (pl_line_bytes p) :: u64) =
      unat ss * unat (pl_ver_off p) + (unat (pl_lines p) - 1) * unat ss + unat (pl_line_bytes p)" (is ?stop)
proof -
  have b: "unat ss * unat (pl_ver_off p) + unat (pl_lines p) * unat ss + unat (pl_line_bytes p) < 2 ^ 64"
    and z: "pl_lines p \<noteq> 0" using assms by (simp_all add: plane_small_def)
  show start: "unat (ucast ss * ucast (pl_ver_off p) :: u64) = unat ss * unat (pl_ver_off p)"
    using unat_times_small[of "ucast ss :: u64" "ucast (pl_ver_off p)"] b by (simp add: unat_ucast_u32_u64)
  have pred: "unat (pl_lines p - 1) = unat (pl_lines p) - 1" using z by (rule unat_minus_one)
  have "(unat (pl_lines p) - 1) * unat ss \<le> unat (pl_lines p) * unat ss" by simp
  with b have small: "unat ss * unat (pl_ver_off p) + (unat (pl_lines p) - 1) * unat ss + unat (pl_line_bytes p) < 2 ^ 64"
    by linarith
  have up: "ucast (pl_lines p - 1) = (of_nat (unat (pl_lines p) - 1) :: u64)"
    "ucast (pl_line_bytes p) = (of_nat (unat (pl_line_bytes p)) :: u64)"
    by (simp_all only: pred [symmetric] ucast_of_unat)
  have eq: "unat (ucast ss * ucast (pl_ver_off p) + of_nat (unat (pl_lines p) - 1) * ucast ss :: u64) =
    unat ss * unat (pl_ver_off p) + (unat (pl_lines p) - 1) * unat ss"
    using unat_line_pos[of "ucast ss * ucast (pl_ver_off p)" "unat (pl_lines p) - 1" ss] small start by simp
  have "unat (ucast ss * ucast (pl_ver_off p) + of_nat (unat (pl_lines p) - 1) * ucast ss +
      of_nat (unat (pl_line_bytes p)) :: u64) =
    unat (ucast ss * ucast (pl_ver_off p) + of_nat (unat (pl_lines p) - 1) * ucast ss :: u64) + unat (pl_line_bytes p)"
    by (rule unat_add_of_nat) (simp only: eq small)
  then show ?stop by (simp only: up eq)
qed

lemma length_plane_lines:
  "0 < k \<Longrightarrow> start + (k - 1) * stride + lb \<le> length m \<Longrightarrow> length (plane_lines m stride start lb k) = k * lb"
proof -
  assume k: "0 < k" "start + (k - 1) * stride + lb \<le> length m"
  have "start + j * stride + lb \<le> length m" if "j < k" for j
  proof -
    have "j * stride \<le> (k - 1) * stride" using that by (intro mult_le_mono1) simp
    with k show ?thesis by linarith
  qed
  then have "map (\<lambda>j. length (slice_of m (start + j * stride) (start + j * stride + lb))) [0..<k] = map (\<lambda>j. lb) [0..<k]"
    by (intro map_cong refl) simp
  then have "sum_list (map (\<lambda>j. length (slice_of m (start + j * stride) (start + j * stride + lb))) [0..<k]) = k * lb"
    by (simp only: sum_list_triv length_upt) simp
  then show ?thesis by (simp only: plane_lines_def length_concat map_map o_def)
qed

lemma copy_planes_ok:
  assumes "length m < 2 ^ 64" "\<forall>p \<in> set ps. pl_line_bytes p = ds \<and> plane_small (unat ss) p"
    and "length pre = unat off" "length rest = planes_size ps" "unat off + planes_size ps < 2 ^ 64"
  shows "if \<forall>p \<in> set ps. plane_fits (length m) (unat ss) p
    then copy_planes m ss ds ps (pre @ rest) off =
           Some (Inr (pre @ packed m (unat ss) ps, off + of_nat (planes_size ps)))
    else \<exists>why. copy_planes m ss ds ps (pre @ rest) off = Some (reject Invalid why)"
  using assms
proof (induction ps arbitrary: pre rest off)
  case (Cons p ps)
  let ?start = "ucast ss * ucast (pl_ver_off p) :: u64"
  let ?lines = "plane_lines m (unat ss) (unat ss * unat (pl_ver_off p)) (unat ds) (unat (pl_lines p))"
  have p: "pl_line_bytes p = ds" "plane_small (unat ss) p" using Cons.prems by auto
  note pos = plane_positions[OF p(2)]
  have lines: "0 < unat (pl_lines p)" using p(2) by (simp add: plane_small_def unat_gt_0)
  have size: "planes_size (p # ps) = unat (pl_lines p) * unat ds + planes_size ps"
    using p(1) by (simp add: planes_size_def)
  have step: "copy_planes m ss ds (p # ps) (pre @ rest) off =
      copy_planes m ss ds ps ((pre @ ?lines) @ drop (unat (pl_lines p) * unat ds) rest)
        (off + of_nat (unat (pl_lines p) * unat ds))"
    if fits: "plane_fits (length m) (unat ss) p"
  proof -
    have "copy_lines m ?start ss ds ds 0 (unat (pl_lines p)) (pre @ rest) off =
      Some (pre @ concat (map (\<lambda>j. slice_of m (unat ?start + j * unat ss) (unat ?start + j * unat ss + unat ds))
              [0..<0 + unat (pl_lines p)]) @ drop (unat (pl_lines p) * unat ds) rest,
            off + of_nat (unat (pl_lines p) * unat ds))"
      by (rule copy_lines_ok)
        (use Cons.prems fits p size pos(1) in \<open>simp_all add: plane_fits_def\<close>)
    then show ?thesis
      using fits p pos by (simp add: plane_fits_def plane_lines_def Let_def word_less_nat_alt)
  qed
  have len: "plane_fits (length m) (unat ss) p \<Longrightarrow> length ?lines = unat (pl_lines p) * unat ds"
    using lines p by (intro length_plane_lines) (simp_all add: plane_fits_def)
  have off: "unat (off + of_nat (unat (pl_lines p) * unat ds)) = unat off + unat (pl_lines p) * unat ds"
    using Cons.prems(5) size by (intro unat_add_of_nat) simp
  have fail: "\<exists>why. copy_planes m ss ds (p # ps) (pre @ rest) off = Some (reject Invalid why)"
    if "\<not> plane_fits (length m) (unat ss) p"
    using that p pos by (auto simp: plane_fits_def Let_def word_less_nat_alt)
  show ?case
  proof (cases "plane_fits (length m) (unat ss) p")
    case True
    have "if \<forall>p \<in> set ps. plane_fits (length m) (unat ss) p
      then copy_planes m ss ds ps ((pre @ ?lines) @ drop (unat (pl_lines p) * unat ds) rest)
             (off + of_nat (unat (pl_lines p) * unat ds)) =
           Some (Inr ((pre @ ?lines) @ packed m (unat ss) ps,
             off + of_nat (unat (pl_lines p) * unat ds) + of_nat (planes_size ps)))
      else \<exists>why. copy_planes m ss ds ps ((pre @ ?lines) @ drop (unat (pl_lines p) * unat ds) rest)
             (off + of_nat (unat (pl_lines p) * unat ds)) = Some (reject Invalid why)"
      by (rule Cons.IH) (use Cons.prems len[OF True] off size in \<open>simp_all\<close>)
    moreover have "(\<forall>x \<in> set (p # ps). plane_fits (length m) (unat ss) x) \<longleftrightarrow>
        (\<forall>x \<in> set ps. plane_fits (length m) (unat ss) x)" using True by simp
    moreover have "packed m (unat ss) (p # ps) = ?lines @ packed m (unat ss) ps"
      by (simp add: packed_def p(1))
    moreover have "off + of_nat (planes_size (p # ps)) =
        off + of_nat (unat (pl_lines p) * unat ds) + of_nat (planes_size ps)"
      by (simp only: size of_nat_add add.assoc)
    ultimately show ?thesis unfolding step[OF True] by (simp only: append_assoc)
  next
    case False
    then show ?thesis using fail by auto
  qed
qed (simp_all add: packed_def planes_size_def)


section \<open>The whole copy\<close>

text \<open>The extents for which no position of the copy leaves 64 bits.\<close>

definition small_extent :: "spec \<Rightarrow> bool" where
  "small_extent s \<longleftrightarrow> unat (s_width s) < 2 ^ 30 \<and> unat (s_height s) < 2 ^ 30 \<and> unat (eff_ver_stride s) < 2 ^ 31"

lemma host_stride:
  assumes "small_extent s"
  shows "unat (eff_stride (host_spec s)) = stride_bytes (host_spec s)"
  by (rule eff_stride_exact) (use assms in \<open>simp add: host_spec_def small_extent_def\<close>)

lemma layout_width:
  assumes "plan_layout s = Some ps" "p \<in> set ps"
  shows "pl_line_bytes p = eff_stride (host_spec s)"
  using assms
  by (auto simp: plan_layout_def Let_def eff_stride_def host_spec_def default_spec_def split: pixel_format.splits)

lemma unat_Suc_small: "unat (h :: u32) < 2 ^ 30 \<Longrightarrow> unat (h + 1) = unat h + 1"
  by (simp add: unat_word_ariths)

lemma half_height:
  assumes "unat (h :: u32) < 2 ^ 30" "h mod 2 = 0"
  shows "2 * unat ((h + 1) div 2) = unat h"
proof -
  have "unat (h mod 2) = 0" using assms(2) by simp
  then have "unat h mod 2 = 0" by (simp add: unat_mod)
  moreover have "2 * ((n + 1) div 2) = n" if "n mod 2 = 0" for n :: nat using that by presburger
  ultimately show ?thesis by (simp add: unat_div unat_Suc_small[OF assms(1)])
qed

lemma host_fields [simp]:
  "s_width (host_spec s) = s_width s" "s_height (host_spec s) = s_height s" "s_fmt (host_spec s) = s_fmt s"
  "s_stride (host_spec s) = 0" "s_ver_stride (host_spec s) = 0" "s_domain (host_spec s) = Host"
  by (simp_all add: host_spec_def default_spec_def)

lemma host_payload:
  assumes "small_extent s" "s_height s \<noteq> 0"
  shows "unat (min_size (host_spec s)) = payload_bytes (host_spec s)" "payload_bytes (host_spec s) < 2 ^ 64"
proof -
  have w: "stride_bytes (host_spec s) < 3 * 2 ^ 30"
    using assms(1) by (simp add: stride_bytes_def small_extent_def split: pixel_format.splits)
  have v: "unat (eff_ver_stride (host_spec s)) < 2 ^ 30"
    using assms(1) by (simp add: eff_ver_stride_def small_extent_def)
  have "stride_bytes (host_spec s) * unat (eff_ver_stride (host_spec s)) \<le> (3 * 2 ^ 30) * 2 ^ 30"
    using w v by (intro mult_le_mono) simp_all
  then have b: "3 * (stride_bytes (host_spec s) * unat (eff_ver_stride (host_spec s))) < 2 ^ 64" by simp
  show "unat (min_size (host_spec s)) = payload_bytes (host_spec s)"
    by (rule min_size_payload) (use assms b in \<open>simp_all add: small_extent_def\<close>)
  then show "payload_bytes (host_spec s) < 2 ^ 64"
    using unsigned_less[of "min_size (host_spec s)", where 'a = nat] by simp
qed

lemma layout_small:
  assumes s: "small_extent s" "s_height s \<noteq> 0" and ps: "plan_layout s = Some ps" "p \<in> set ps"
  shows "plane_small (unat (eff_stride s)) p"
proof -
  have h: "unat (s_height s) < 2 ^ 30" "0 < unat (s_height s)"
    using s by (simp_all add: small_extent_def unat_gt_0)
  have uv: "0 < unat ((s_height s + 1) div 2)" "unat ((s_height s + 1) div 2) < 2 ^ 30"
    using h by (simp_all add: unat_div unat_Suc_small)
  have p: "0 < unat (pl_lines p)" "unat (pl_lines p) < 2 ^ 30" "unat (pl_ver_off p) < 2 ^ 31"
    using ps h uv s by (auto simp: plan_layout_def Let_def small_extent_def split: pixel_format.splits)
  have ss: "unat (eff_stride s) < 2 ^ 32" "unat (pl_line_bytes p) < 2 ^ 32"
    using unsigned_less[of "eff_stride s", where 'a = nat] unsigned_less[of "pl_line_bytes p", where 'a = nat]
    by simp_all
  have "unat (eff_stride s) * unat (pl_ver_off p) \<le> 2 ^ 32 * 2 ^ 31"
    "unat (pl_lines p) * unat (eff_stride s) \<le> 2 ^ 30 * 2 ^ 32"
    using p ss by (intro mult_le_mono; simp)+
  then have "unat (eff_stride s) * unat (pl_ver_off p) \<le> 2 ^ 63" "unat (pl_lines p) * unat (eff_stride s) \<le> 2 ^ 62"
    by simp_all
  moreover have "(2 ^ 63 + 2 ^ 62 + 2 ^ 32 :: nat) < 2 ^ 64" by simp
  ultimately have "unat (eff_stride s) * unat (pl_ver_off p) + unat (pl_lines p) * unat (eff_stride s) +
      unat (pl_line_bytes p) < 2 ^ 64" using ss(2) by linarith
  then show ?thesis using p(1) by (simp add: plane_small_def unat_gt_0)
qed

lemma three_halves:
  assumes "2 * k = (h :: nat)"
  shows "3 * (w * h) div 2 = h * w + k * w"
proof -
  have "3 * (w * h) = (h * w + k * w) * 2" unfolding assms [symmetric] by (simp add: algebra_simps)
  then show ?thesis by (metis nonzero_mult_div_cancel_right zero_neq_numeral)
qed

lemma layout_size:
  assumes s: "small_extent s" "s_height s \<noteq> 0" "even_extent_ok s" and ps: "plan_layout s = Some ps"
  shows "planes_size ps = payload_bytes (host_spec s)"
proof -
  let ?h = "unat (s_height s)" and ?w = "unat (eff_stride (host_spec s))"
  have hh: "s_height s mod 2 = 0 \<Longrightarrow> 2 * unat ((s_height s + 1) div 2) = ?h"
    by (rule half_height) (use s(1) in \<open>simp add: small_extent_def\<close>)
  have "planes_size ps = (\<Sum>p\<leftarrow>ps. unat (pl_lines p) * ?w)"
    unfolding planes_size_def using layout_width[OF ps] by (intro arg_cong[of _ _ sum_list] map_cong refl) simp
  moreover have "(\<Sum>p\<leftarrow>ps. unat (pl_lines p) * ?w) =
    (case s_fmt s of Nv16 \<Rightarrow> 2 * (?w * ?h) | Rgb24 \<Rightarrow> ?w * ?h | _ \<Rightarrow> 3 * (?w * ?h) div 2)"
  proof -
    have "3 * (?w * ?h) div 2 = ?h * ?w + unat ((s_height s + 1) div 2) * ?w" if "s_height s mod 2 = 0"
      by (rule three_halves) (rule hh[OF that])
    then show ?thesis
      using ps s(3) by (auto simp: plan_layout_def Let_def even_extent_ok_def split: pixel_format.splits)
  qed
  moreover have "s_fmt s \<noteq> Unknown" "s_fmt s \<noteq> Bitstream"
    using ps by (auto simp: plan_layout_def Let_def)
  ultimately show ?thesis
    by (simp add: payload_bytes_def host_stride[OF s(1)] eff_ver_stride_def Let_def split: pixel_format.splits)
qed

text \<open>
  C19. The download copies exactly the picture. For a format with a packed layout, an even extent
  below \<open>2^30\<close> and a vertical stride below \<open>2^31\<close>, the copy reads and writes inside its two blocks;
  it succeeds exactly when every plane fits its stride and the mapping, and then the new frame
  has the packed Host specification and its payload is the concatenation of the lines of the
  planes; otherwise it fails with \<open>Invalid\<close>.
\<close>

theorem download_copy_exact:
  assumes "plan_layout s = Some ps" "even_extent_ok s" "small_extent s" "s_width s \<noteq> 0" "s_height s \<noteq> 0"
    and "length m < 2 ^ 64" and malloc: "\<And>n. \<exists>b. fresh n = Some b \<and> length b = n"
  shows "if \<forall>p \<in> set ps. plane_fits (length m) (unat (eff_stride s)) p
    then download_copy fresh s m = Some (Inr (host_spec s, packed m (unat (eff_stride s)) ps))
    else \<exists>why. download_copy fresh s m = Some (reject Invalid why)"
proof -
  have fmt: "s_fmt s \<noteq> Bitstream" using assms(1) by (auto simp: plan_layout_def Let_def)
  have need: "unat (min_size (host_spec s)) = planes_size ps"
    using host_payload(1) layout_size assms by simp
  have "0 < planes_size ps"
  proof -
    have pos: "0 < stride_bytes (host_spec s) * unat (s_height s)"
      using assms by (auto simp: stride_bytes_def unat_gt_0 plan_layout_def Let_def split: pixel_format.splits)
    have "0 < 3 * n div 2" if "0 < n" for n :: nat using that by presburger
    note this [OF pos]
    with pos show ?thesis
      using assms(1) layout_size[OF assms(3,5,2,1)]
      by (auto simp: payload_bytes_def eff_ver_stride_def Let_def plan_layout_def split: pixel_format.splits)
  qed
  then have nz: "min_size (host_spec s) \<noteq> 0" using need by auto
  have bound: "planes_size ps < 2 ^ 64" using host_payload(2)[OF assms(3,5)] layout_size[OF assms(3,5,2,1)] by simp
  obtain dst where dst: "fresh (unat (min_size (host_spec s))) = Some dst" "length dst = planes_size ps"
    using malloc need by metis
  have off: "of_nat (planes_size ps) = min_size (host_spec s)" using need by (metis of_nat_unat ucast_id)
  have "if \<forall>p \<in> set ps. plane_fits (length m) (unat (eff_stride s)) p
    then copy_planes m (eff_stride s) (eff_stride (host_spec s)) ps ([] @ dst) 0 =
      Some (Inr ([] @ packed m (unat (eff_stride s)) ps, 0 + of_nat (planes_size ps)))
    else \<exists>why. copy_planes m (eff_stride s) (eff_stride (host_spec s)) ps ([] @ dst) 0 = Some (reject Invalid why)"
    by (rule copy_planes_ok)
      (use assms layout_width layout_small dst(2) bound in auto)
  then have "if \<forall>p \<in> set ps. plane_fits (length m) (unat (eff_stride s)) p
    then copy_planes m (eff_stride s) (eff_stride (host_spec s)) ps dst 0 =
      Some (Inr (packed m (unat (eff_stride s)) ps, min_size (host_spec s)))
    else \<exists>why. copy_planes m (eff_stride s) (eff_stride (host_spec s)) ps dst 0 = Some (reject Invalid why)"
    by (simp only: append_Nil add_0 off)
  moreover have "download_copy fresh s m =
    (case copy_planes m (eff_stride s) (eff_stride (host_spec s)) ps dst 0 of
       None \<Rightarrow> None
     | Some (Inl e) \<Rightarrow> Some (Inl e)
     | Some (Inr (out, off)) \<Rightarrow>
         if off \<noteq> min_size (host_spec s) then Some (reject Internal ''plane accounting mismatch'')
         else Some (Inr (host_spec s, out)))"
    using assms(1,2,4,5) fmt nz dst(1) by (simp add: download_copy_def Let_def)
  ultimately show ?thesis by (auto split: if_splits)
qed


definition strided_spec :: spec where
  "strided_spec = default_spec\<lparr>s_fmt := Nv12, s_domain := Dmabuf, s_width := 2, s_height := 2, s_stride := 4\<rparr>"

theorem download_copy_exact_witness:
  "download_copy (\<lambda>n. Some (replicate n 0)) strided_spec [1, 2, 0, 0, 3, 4, 0, 0, 5, 6, 0, 0] =
     Some (Inr (host_spec strided_spec, [1, 2, 3, 4, 5, 6]))"
proof -
  let ?m = "[1, 2, 0, 0, 3, 4, 0, 0, 5, 6, 0, 0] :: bytes"
  obtain ps where ps: "plan_layout strided_spec = Some ps"
    and fits: "\<forall>p \<in> set ps. plane_fits (length ?m) (unat (eff_stride strided_spec)) p"
    and pk: "packed ?m (unat (eff_stride strided_spec)) ps = [1, 2, 3, 4, 5, 6]"
  proof -
    have "(case plan_layout strided_spec of None \<Rightarrow> False | Some ps \<Rightarrow>
      (\<forall>p \<in> set ps. plane_fits (length ?m) (unat (eff_stride strided_spec)) p) \<and>
      packed ?m (unat (eff_stride strided_spec)) ps = [1, 2, 3, 4, 5, 6])" by code_simp
    then show thesis using that by (auto split: option.splits)
  qed
  have "if \<forall>p \<in> set ps. plane_fits (length ?m) (unat (eff_stride strided_spec)) p
    then download_copy (\<lambda>n. Some (replicate n 0)) strided_spec ?m =
      Some (Inr (host_spec strided_spec, packed ?m (unat (eff_stride strided_spec)) ps))
    else \<exists>why. download_copy (\<lambda>n. Some (replicate n 0)) strided_spec ?m = Some (reject Invalid why)"
    by (rule download_copy_exact)
      (simp_all add: ps, (simp add: strided_spec_def default_spec_def even_extent_ok_def small_extent_def eff_ver_stride_def)+)
  then show ?thesis using fits pk by simp
qed

end
