(* ===== verification/Registry_Model.thy ===== *)
theory Registry_Model
  imports Media_Spec "HOL-Library.List_Lexorder" "HOL-Library.Char_ord" "HOL-Library.Multiset"
begin

text \<open>
  Requests and the factory registry: \<open>core/include/rkvc/request.hpp\<close>, \<open>core/src/request.cpp\<close>,
  \<open>core/include/rkvc/registry.hpp\<close> and \<open>core/src/registry.cpp\<close>. A factory is the record of what its
  virtual functions answer; the candidates of a stage are ordered by \<open>std::sort\<close> with the code's
  comparator, here an insertion sort (lemma \<open>candidates_unique\<close>: on distinct ids every sort gives
  the same list).
\<close>

section \<open>Requests\<close>

datatype operation = Transcode | Decode | Encode | Upscale
datatype codec = Auto | H264 | Hevc | Av1 | Mlvc
datatype policy = Realtime | Balanced | Quality | Offline
datatype endpoint_kind = File | FrameSink | Stream

record quality =
  ql_bitrate_bps :: int
  ql_qp :: int
  ql_gop_size :: u32
  ql_fps :: u32
  ql_ltr_period :: u32
  ql_ltr_start_idx :: u32

record endpoint =
  ep_kind :: endpoint_kind
  ep_uri :: string

record request =
  rq_operation :: operation
  rq_codec :: codec
  rq_policy :: policy
  rq_quality :: quality
  rq_input :: endpoint
  rq_output :: endpoint
  rq_input_spec :: spec
  rq_output_spec :: spec
  rq_width :: u32
  rq_height :: u32
  rq_model_id :: string
  rq_queue_capacity :: u32

definition default_request :: request where
  "default_request =
     \<lparr>rq_operation = Encode, rq_codec = Auto, rq_policy = Balanced,
      rq_quality = \<lparr>ql_bitrate_bps = 0, ql_qp = -1, ql_gop_size = 0, ql_fps = 0, ql_ltr_period = 0,
        ql_ltr_start_idx = 0\<rparr>,
      rq_input = \<lparr>ep_kind = FrameSink, ep_uri = []\<rparr>, rq_output = \<lparr>ep_kind = FrameSink, ep_uri = []\<rparr>,
      rq_input_spec = default_spec, rq_output_spec = default_spec, rq_width = 0, rq_height = 0,
      rq_model_id = [], rq_queue_capacity = 4\<rparr>"

definition validate :: "request \<Rightarrow> unit result" where
  "validate r =
     (if rq_queue_capacity r = 0 then reject Invalid ''queue capacity must be nonzero''
      else if ep_kind (rq_input r) = File \<and> ep_uri (rq_input r) = [] then reject Invalid ''file input needs uri''
      else if ep_kind (rq_output r) = File \<and> ep_uri (rq_output r) = [] then reject Invalid ''file output needs uri''
      else if ql_qp (rq_quality r) < -1 \<or> ql_qp (rq_quality r) > 63 then reject Invalid ''qp out of range''
      else if ql_bitrate_bps (rq_quality r) < 0 then reject Invalid ''negative bitrate''
      else Inr ())"

section \<open>Factories\<close>

record device_caps =
  mpp_encode :: bool
  mpp_decode :: bool
  rga :: bool
  rknn :: bool
  npu_cores :: u32
  soc :: string

definition no_caps :: device_caps where
  "no_caps = \<lparr>mpp_encode = False, mpp_decode = False, rga = False, rknn = False, npu_cores = 0, soc = []\<rparr>"

datatype node_stage = SourceStage | DecodeStage | TransformStage | EncodeStage | SinkStage
datatype transport = InternalTransport | QueueTransport | FileTransport

text \<open>The type parameter is what \<open>create\<close> returns.\<close>

record 'n factory =
  fc_id :: string
  fc_stage :: node_stage
  fc_transport :: transport
  fc_priority :: int
  fc_matches :: "request \<Rightarrow> device_caps \<Rightarrow> bool"
  fc_score :: "request \<Rightarrow> device_caps \<Rightarrow> int"
  fc_create :: "request \<Rightarrow> 'n result"

record 'n registry =
  rg_owned :: "'n factory list"
  rg_borrowed :: "'n factory list"

definition empty_registry :: "'n registry" where
  "empty_registry = \<lparr>rg_owned = [], rg_borrowed = []\<rparr>"

definition registry_find :: "'n registry \<Rightarrow> string \<Rightarrow> 'n factory option" where
  "registry_find rg i =
     (case List.find (\<lambda>f. fc_id f = i) (rg_owned rg) of
        Some f \<Rightarrow> Some f
      | None \<Rightarrow> List.find (\<lambda>f. fc_id f = i) (rg_borrowed rg))"

definition registry_add :: "'n registry \<Rightarrow> 'n factory option \<Rightarrow> status \<times> 'n registry" where
  "registry_add rg f =
     (case f of
        None \<Rightarrow> (Invalid, rg)
      | Some f \<Rightarrow>
          if registry_find rg (fc_id f) \<noteq> None then (Invalid, rg)
          else (Ok, rg\<lparr>rg_owned := rg_owned rg @ [f]\<rparr>))"

definition registry_add_borrowed :: "'n registry \<Rightarrow> 'n factory option \<Rightarrow> status \<times> 'n registry" where
  "registry_add_borrowed rg f =
     (case f of
        None \<Rightarrow> (Invalid, rg)
      | Some f \<Rightarrow>
          if fc_id f = [] then (Invalid, rg)
          else if registry_find rg (fc_id f) \<noteq> None then (Invalid, rg)
          else (Ok, rg\<lparr>rg_borrowed := rg_borrowed rg @ [f]\<rparr>))"

definition registry_size :: "'n registry \<Rightarrow> nat" where
  "registry_size rg = length (rg_owned rg)"

text \<open>The comparator: higher priority and score first, then the smaller id.\<close>

definition cand_before :: "request \<Rightarrow> device_caps \<Rightarrow> 'n factory \<Rightarrow> 'n factory \<Rightarrow> bool" where
  "cand_before r caps a b =
     (let sa = fc_priority a + fc_score a r caps; sb = fc_priority b + fc_score b r caps
      in if sa \<noteq> sb then sa > sb else fc_id a < fc_id b)"

fun insert_by :: "('a \<Rightarrow> 'a \<Rightarrow> bool) \<Rightarrow> 'a \<Rightarrow> 'a list \<Rightarrow> 'a list" where
  "insert_by lt x [] = [x]"
| "insert_by lt x (y # ys) = (if lt y x then y # insert_by lt x ys else x # y # ys)"

definition sort_by :: "('a \<Rightarrow> 'a \<Rightarrow> bool) \<Rightarrow> 'a list \<Rightarrow> 'a list" where
  "sort_by lt xs = foldr (insert_by lt) xs []"

definition candidates :: "'n registry \<Rightarrow> node_stage \<Rightarrow> request \<Rightarrow> device_caps \<Rightarrow> 'n factory list" where
  "candidates rg st r caps =
     sort_by (cand_before r caps)
       (filter (\<lambda>f. fc_stage f = st \<and> fc_matches f r caps) (rg_owned rg @ rg_borrowed rg))"

section \<open>Sorting\<close>

lemma mset_insert_by: "mset (insert_by lt x xs) = add_mset x (mset xs)"
  by (induction xs) auto

lemma mset_sort_by: "mset (sort_by lt xs) = mset xs"
  by (induction xs) (auto simp: sort_by_def mset_insert_by)

lemma set_sort_by [simp]: "set (sort_by lt xs) = set xs"
  using mset_sort_by [of lt xs] by (metis set_mset_mset)

lemma sorted_insert_by:
  assumes trans: "\<And>a b c. lt a b \<Longrightarrow> lt b c \<Longrightarrow> lt a c"
  shows "sorted_wrt lt xs \<Longrightarrow> x \<notin> set xs \<Longrightarrow> (\<And>y. y \<in> set xs \<Longrightarrow> lt x y \<or> lt y x) \<Longrightarrow>
    sorted_wrt lt (insert_by lt x xs)"
proof (induction xs)
  case (Cons y ys)
  have set: "set (insert_by lt x ys) = insert x (set ys)"
    using mset_insert_by [of lt x ys] by (metis set_mset_add_mset_insert set_mset_mset)
  have y: "\<And>z. z \<in> set ys \<Longrightarrow> lt y z" "sorted_wrt lt ys" "x \<noteq> y" "x \<notin> set ys"
    using Cons.prems by simp_all
  show ?case
  proof (cases "lt y x")
    case True
    have "sorted_wrt lt (insert_by lt x ys)" by (rule Cons.IH [OF y(2,4)]) (use Cons.prems(3) in simp)
    with True y set show ?thesis by simp
  next
    case False
    then have xy: "lt x y" using Cons.prems(3) [of y] by simp
    have "lt x z" if "z \<in> set ys" for z by (rule trans [OF xy y(1) [OF that]])
    with False xy y show ?thesis by simp
  qed
qed simp

lemma sorted_sort_by:
  assumes trans: "\<And>a b c. lt a b \<Longrightarrow> lt b c \<Longrightarrow> lt a c"
  shows "distinct xs \<Longrightarrow> (\<And>a b. a \<in> set xs \<Longrightarrow> b \<in> set xs \<Longrightarrow> lt a b \<or> lt b a \<or> a = b) \<Longrightarrow>
    sorted_wrt lt (sort_by lt xs)"
proof (induction xs)
  case (Cons x xs)
  have d: "distinct xs" "x \<notin> set xs" using Cons.prems(1) by simp_all
  have "sorted_wrt lt (sort_by lt xs)" by (rule Cons.IH [OF d(1)]) (use Cons.prems(2) in simp)
  moreover have "lt x y \<or> lt y x" if "y \<in> set (sort_by lt xs)" for y
    using Cons.prems(2) [of x y] d(2) that by auto
  ultimately have "sorted_wrt lt (insert_by lt x (sort_by lt xs))"
    using sorted_insert_by [OF trans, where xs = "sort_by lt xs" and x = x] d(2) by simp
  then show ?case by (simp add: sort_by_def)
qed (simp add: sort_by_def)

lemma sorted_unique:
  assumes "\<And>a b. lt a b \<Longrightarrow> \<not> lt b a"
  shows "sorted_wrt lt xs \<Longrightarrow> sorted_wrt lt ys \<Longrightarrow> mset xs = mset ys \<Longrightarrow> xs = ys"
proof (induction xs arbitrary: ys)
  case (Cons x xs)
  then obtain y ys' where ys: "ys = y # ys'" by (cases ys) auto
  have "x = y"
  proof (rule ccontr)
    assume ne: "x \<noteq> y"
    have "x \<in> set ys" "y \<in> set (x # xs)" using Cons.prems(3) ys by (metis list.set_intros(1) set_mset_mset)+
    with ne ys have "x \<in> set ys'" "y \<in> set xs" by auto
    with Cons.prems ys have "lt y x" "lt x y" by auto
    with assms show False by blast
  qed
  with Cons ys show ?case by auto
qed simp

lemma cand_before_trans: "cand_before r caps a b \<Longrightarrow> cand_before r caps b c \<Longrightarrow> cand_before r caps a c"
  by (auto simp: cand_before_def Let_def split: if_splits)

lemma cand_before_asym: "cand_before r caps a b \<Longrightarrow> \<not> cand_before r caps b a"
  by (auto simp: cand_before_def Let_def split: if_splits)

lemma cand_before_total: "fc_id a \<noteq> fc_id b \<Longrightarrow> cand_before r caps a b \<or> cand_before r caps b a"
  by (auto simp: cand_before_def Let_def)

section \<open>The registry invariant\<close>

definition registry_ids :: "'n registry \<Rightarrow> string list" where
  "registry_ids rg = map fc_id (rg_owned rg @ rg_borrowed rg)"

definition registry_ok :: "'n registry \<Rightarrow> bool" where
  "registry_ok rg \<longleftrightarrow> distinct (registry_ids rg)"

lemma find_SomeD: "List.find P xs = Some x \<Longrightarrow> x \<in> set xs \<and> P x"
  by (induction xs) (auto split: if_splits)

lemma registry_find_Some: "registry_find rg i = Some f \<Longrightarrow> f \<in> set (rg_owned rg @ rg_borrowed rg) \<and> fc_id f = i"
  by (auto simp: registry_find_def dest: find_SomeD split: option.splits)

lemma registry_find_None: "registry_find rg i = None \<longleftrightarrow> i \<notin> set (registry_ids rg)"
proof
  show "registry_find rg i = None \<Longrightarrow> i \<notin> set (registry_ids rg)"
    by (auto simp: registry_find_def registry_ids_def find_None_iff split: option.splits)
  show "i \<notin> set (registry_ids rg) \<Longrightarrow> registry_find rg i = None"
    using registry_find_Some [of rg i] by (cases "registry_find rg i") (auto simp: registry_ids_def)
qed

lemma registry_ok_add: "registry_ok rg \<Longrightarrow> registry_ok (snd (registry_add rg f))"
  using registry_find_None [of rg] by (auto simp: registry_add_def registry_ok_def registry_ids_def split: option.splits)

lemma registry_ok_add_borrowed: "registry_ok rg \<Longrightarrow> registry_ok (snd (registry_add_borrowed rg f))"
  using registry_find_None [of rg]
  by (auto simp: registry_add_borrowed_def registry_ok_def registry_ids_def split: option.splits)

lemma registry_distinct: "registry_ok rg \<Longrightarrow> distinct (rg_owned rg @ rg_borrowed rg)"
  by (simp only: registry_ok_def registry_ids_def distinct_map)

lemma registry_inj:
  "registry_ok rg \<Longrightarrow> a \<in> set (rg_owned rg @ rg_borrowed rg) \<Longrightarrow> b \<in> set (rg_owned rg @ rg_borrowed rg) \<Longrightarrow>
    fc_id a = fc_id b \<Longrightarrow> a = b"
  by (simp only: registry_ok_def registry_ids_def distinct_map inj_on_def)

lemma candidates_set:
  "set (candidates rg st r caps) =
    {f \<in> set (rg_owned rg @ rg_borrowed rg). fc_stage f = st \<and> fc_matches f r caps}"
  by (auto simp: candidates_def)

lemma candidates_sorted:
  assumes ok: "registry_ok rg"
  shows "sorted_wrt (cand_before r caps) (candidates rg st r caps)"
  unfolding candidates_def
proof (rule sorted_sort_by)
  show "distinct (filter (\<lambda>f. fc_stage f = st \<and> fc_matches f r caps) (rg_owned rg @ rg_borrowed rg))"
    using registry_distinct [OF ok] by (rule distinct_filter)
next
  fix a b
  assume "a \<in> set (filter (\<lambda>f. fc_stage f = st \<and> fc_matches f r caps) (rg_owned rg @ rg_borrowed rg))"
    "b \<in> set (filter (\<lambda>f. fc_stage f = st \<and> fc_matches f r caps) (rg_owned rg @ rg_borrowed rg))"
  then show "cand_before r caps a b \<or> cand_before r caps b a \<or> a = b"
    using registry_inj [OF ok, of a b] cand_before_total [of a b r caps] by auto
qed (rule cand_before_trans)

text \<open>Whatever sorting algorithm the library uses, the outcome is this list.\<close>

lemma candidates_unique:
  assumes "registry_ok rg" "sorted_wrt (cand_before r caps) fs"
    "mset fs = mset (filter (\<lambda>f. fc_stage f = st \<and> fc_matches f r caps) (rg_owned rg @ rg_borrowed rg))"
  shows "fs = candidates rg st r caps"
proof (rule sorted_unique [OF _ assms(2) candidates_sorted [OF assms(1)]])
  show "mset fs = mset (candidates rg st r caps)" using assms(3) by (simp only: candidates_def mset_sort_by)
qed (rule cand_before_asym)

section \<open>Properties\<close>

text \<open>Registries that registration can build.\<close>

inductive registered :: "'n registry \<Rightarrow> bool" where
  reg_empty: "registered empty_registry"
| reg_add: "registered rg \<Longrightarrow> registered (snd (registry_add rg f))"
| reg_add_borrowed: "registered rg \<Longrightarrow> registered (snd (registry_add_borrowed rg f))"

lemma registered_ok: "registered rg \<Longrightarrow> registry_ok rg"
  by (induction rule: registered.induct)
    (simp_all add: registry_ok_add registry_ok_add_borrowed, simp add: registry_ok_def empty_registry_def registry_ids_def)

text \<open>
  C13. The candidates of a stage: on every registry that \<open>add\<close> and \<open>add_borrowed\<close> can build, they are
  exactly the registered factories of that stage that match the request, each once, in strictly
  descending order of priority plus score with ties broken by the smaller id. The order is
  determined, so that any sorting algorithm yields it.
\<close>

theorem candidates_ranked:
  assumes "registered rg"
  shows "set (candidates rg st r caps) =
      {f \<in> set (rg_owned rg @ rg_borrowed rg). fc_stage f = st \<and> fc_matches f r caps} \<and>
    distinct (candidates rg st r caps) \<and> sorted_wrt (cand_before r caps) (candidates rg st r caps) \<and>
    (\<forall>fs. sorted_wrt (cand_before r caps) fs \<and>
      mset fs = mset (filter (\<lambda>f. fc_stage f = st \<and> fc_matches f r caps) (rg_owned rg @ rg_borrowed rg)) \<longrightarrow>
      fs = candidates rg st r caps)"
proof -
  have ok: "registry_ok rg" by (rule registered_ok [OF assms])
  have "distinct (candidates rg st r caps)"
    using registry_distinct [OF ok] mset_sort_by unfolding candidates_def
    by (metis distinct_filter mset_eq_imp_distinct_iff)
  with candidates_set candidates_sorted [OF ok] candidates_unique [OF ok] show ?thesis by blast
qed

definition sample_factory :: "string \<Rightarrow> int \<Rightarrow> nat factory" where
  "sample_factory i p = \<lparr>fc_id = i, fc_stage = EncodeStage, fc_transport = InternalTransport, fc_priority = p,
     fc_matches = (\<lambda>r c. True), fc_score = (\<lambda>r c. 0), fc_create = (\<lambda>r. Inr 0)\<rparr>"

definition sample_registry :: "nat registry" where
  "sample_registry = snd (registry_add_borrowed (snd (registry_add empty_registry
     (Some (sample_factory ''a'' 1)))) (Some (sample_factory ''b'' 5)))"

theorem candidates_ranked_witness:
  "candidates sample_registry EncodeStage default_request no_caps = [sample_factory ''b'' 5, sample_factory ''a'' 1] \<and>
   distinct (candidates sample_registry EncodeStage default_request no_caps)"
proof -
  have "registered sample_registry"
    unfolding sample_registry_def by (intro registered.intros)
  from candidates_ranked [OF this, of EncodeStage default_request no_caps] show ?thesis
    by (simp add: candidates_def sample_registry_def empty_registry_def registry_add_def registry_add_borrowed_def
        registry_find_def sample_factory_def sort_by_def cand_before_def)
qed

end
