(* ===== verification/Planner.thy ===== *)
theory Planner
  imports Registry_Model
begin

text \<open>
  The context and its planner, \<open>core/src/context.cpp\<close>: the model store, the device probe (the file
  system is a parameter: which paths exist, what the device tree says) and \<open>Context::plan\<close>, which
  turns a request into a chain of steps with their candidate factories; and \<open>Plan::advance\<close> of
  \<open>core/src/graph.cpp\<close>, the fallback to a step's next candidate.
\<close>

section \<open>Models\<close>

record payload =
  pl_kind :: string
  pl_data :: bytes

record model =
  md_id :: string
  md_family :: string
  md_role :: string
  md_target :: string
  md_payloads :: "payload list"

definition model_find :: "model \<Rightarrow> string \<Rightarrow> payload option" where
  "model_find m kind = List.find (\<lambda>p. pl_kind p = kind) (md_payloads m)"

section \<open>The device probe\<close>

definition c_str :: "string \<Rightarrow> string" where
  "c_str s = takeWhile (\<lambda>c. c \<noteq> CHR 0x00) s"

text \<open>
  The loop of \<open>probe_soc\<close> from position \<open>i\<close> of the buffer on, on the bytes that remain.
\<close>

function soc_scan :: "string \<Rightarrow> string" where
  "soc_scan s =
     (if length s \<le> 1 then []
      else if hd s = CHR 0x00 then soc_scan (tl s)
      else if take 9 (c_str s) = ''rockchip,'' then drop 9 (c_str s)
      else soc_scan (drop (length (c_str s)) s))"
  by pat_completeness auto
termination
proof (relation "measure length")
  fix s :: string
  assume "\<not> length s \<le> 1"
  then show "(tl s, s) \<in> measure length" by simp
  assume "hd s \<noteq> CHR 0x00"
  with \<open>\<not> length s \<le> 1\<close> have "c_str s \<noteq> []" by (cases s) (simp_all add: c_str_def)
  with \<open>\<not> length s \<le> 1\<close> show "(drop (length (c_str s)) s, s) \<in> measure length"
    by (cases "c_str s") auto
qed simp

declare soc_scan.simps [simp del]

record platform =
  pf_compatible :: "string option"
  pf_exists :: "string \<Rightarrow> bool"
  pf_dir_has :: "string \<Rightarrow> string \<Rightarrow> bool"

definition probe_soc :: "platform \<Rightarrow> string" where
  "probe_soc pf = (case pf_compatible pf of None \<Rightarrow> [] | Some b \<Rightarrow> soc_scan (take 1023 b))"

record 'n media_context =
  cx_registry :: "'n registry"
  cx_models :: "model list"
  cx_caps :: device_caps
  cx_caps_probed :: bool

definition find_model :: "'n media_context \<Rightarrow> string \<Rightarrow> model option" where
  "find_model cx i = List.find (\<lambda>m. md_id m = i) (cx_models cx)"

definition first_model :: "'n media_context \<Rightarrow> model option" where
  "first_model cx = (case cx_models cx of [] \<Rightarrow> None | m # _ \<Rightarrow> Some m)"

definition add_model :: "'n media_context \<Rightarrow> model \<Rightarrow> status \<times> 'n media_context" where
  "add_model cx m =
     (if md_id m = [] then (Invalid, cx)
      else if find_model cx (md_id m) \<noteq> None then (Invalid, cx)
      else (Ok, cx\<lparr>cx_models := cx_models cx @ [m]\<rparr>))"

definition probe_device :: "platform \<Rightarrow> 'n media_context \<Rightarrow> device_caps \<times> 'n media_context" where
  "probe_device pf cx =
     (if cx_caps_probed cx then (cx_caps cx, cx)
      else let mpp = pf_exists pf ''/dev/mpp_service'';
               npu = (pf_exists pf ''/dev/rknpu'' \<or> pf_exists pf ''/dev/rknpu0'' \<or> pf_exists pf ''/dev/rknn'' \<or>
                      pf_dir_has pf ''/dev/dri/by-path'' ''npu'' \<or> pf_dir_has pf ''/sys/class/devfreq'' ''npu'');
               caps = \<lparr>mpp_encode = mpp, mpp_decode = mpp, rga = pf_exists pf ''/dev/rga'', rknn = npu,
                       npu_cores = (if npu then 1 else 0), soc = probe_soc pf\<rparr>
           in (caps, cx\<lparr>cx_caps := caps, cx_caps_probed := True\<rparr>))"

definition override_device_caps :: "'n media_context \<Rightarrow> device_caps \<Rightarrow> 'n media_context" where
  "override_device_caps cx caps = cx\<lparr>cx_caps := caps, cx_caps_probed := True\<rparr>"

section \<open>Plans\<close>

record 'n plan_step =
  ps_stage :: node_stage
  ps_candidates :: "'n factory list"
  ps_index :: nat
  ps_adapter_source :: bool
  ps_adapter_sink :: bool

record 'n plan =
  pn_steps :: "'n plan_step list"
  pn_fallbacks :: nat

definition kMaxFallbacks :: nat where "kMaxFallbacks = 8"

definition plan_advance :: "'n plan \<Rightarrow> nat \<Rightarrow> bool \<times> 'n plan" where
  "plan_advance p failed =
     (if pn_fallbacks p \<ge> kMaxFallbacks \<or> failed \<ge> length (pn_steps p) then (False, p)
      else let st = pn_steps p ! failed
           in if ps_adapter_source st \<or> ps_adapter_sink st then (False, p)
              else if ps_index st + 1 \<ge> length (ps_candidates st) then (False, p)
              else (True, p\<lparr>pn_steps := (pn_steps p)[failed := st\<lparr>ps_index := ps_index st + 1\<rparr>],
                             pn_fallbacks := pn_fallbacks p + 1\<rparr>))"

primrec middle_stages :: "operation \<Rightarrow> node_stage list" where
  "middle_stages Encode = [EncodeStage]"
| "middle_stages Decode = [DecodeStage]"
| "middle_stages Transcode = [DecodeStage, EncodeStage]"
| "middle_stages Upscale = [TransformStage]"

definition make_step :: "node_stage \<Rightarrow> 'n factory list \<Rightarrow> 'n plan_step" where
  "make_step st cs = \<lparr>ps_stage = st, ps_candidates = cs, ps_index = 0, ps_adapter_source = False,
     ps_adapter_sink = False\<rparr>"

text \<open>The lambda \<open>endpoint_step\<close>.\<close>

definition endpoint_step :: "'n registry \<Rightarrow> request \<Rightarrow> device_caps \<Rightarrow> endpoint \<Rightarrow> bool \<Rightarrow> 'n plan_step option" where
  "endpoint_step rg rq caps ep source =
     (let st = (if source then SourceStage else SinkStage)
      in case ep_kind ep of
           FrameSink \<Rightarrow> Some ((make_step st [])\<lparr>ps_adapter_source := source, ps_adapter_sink := \<not> source\<rparr>)
         | File \<Rightarrow>
             (let cs = filter (\<lambda>f. fc_transport f = FileTransport) (candidates rg st rq caps)
              in if cs = [] then None else Some (make_step st cs))
         | Stream \<Rightarrow> None)"

fun stage_steps :: "'n registry \<Rightarrow> request \<Rightarrow> device_caps \<Rightarrow> node_stage list \<Rightarrow> 'n plan_step list option" where
  "stage_steps rg rq caps [] = Some []"
| "stage_steps rg rq caps (st # sts) =
     (let cs = candidates rg st rq caps
      in if cs = [] then None
         else case stage_steps rg rq caps sts of
                None \<Rightarrow> None
              | Some steps \<Rightarrow> Some (make_step st cs # steps))"

definition context_plan :: "platform \<Rightarrow> 'n media_context \<Rightarrow> request \<Rightarrow> 'n plan result \<times> 'n media_context" where
  "context_plan pf cx rq =
     (case validate rq of
        Inl (_, why) \<Rightarrow> (reject Invalid why, cx)
      | Inr _ \<Rightarrow>
          (case probe_device pf cx of
             (caps, cx') \<Rightarrow>
               (case endpoint_step (cx_registry cx') rq caps (rq_input rq) True of
                  None \<Rightarrow> (reject Unsupported ''no source for endpoint'', cx')
                | Some src \<Rightarrow>
                    (case stage_steps (cx_registry cx') rq caps (middle_stages (rq_operation rq)) of
                       None \<Rightarrow> (reject NotFound ''required stage has no candidate'', cx')
                     | Some mid \<Rightarrow>
                         (case endpoint_step (cx_registry cx') rq caps (rq_output rq) False of
                            None \<Rightarrow> (reject Unsupported ''no sink for endpoint'', cx')
                          | Some snk \<Rightarrow> (Inr \<lparr>pn_steps = src # mid @ [snk], pn_fallbacks = 0\<rparr>, cx'))))))"

section \<open>Reference for the probe\<close>

function nul_words :: "string \<Rightarrow> string list" where
  "nul_words s =
     (case dropWhile (\<lambda>c. c = CHR 0x00) s of
        [] \<Rightarrow> []
      | c # cs \<Rightarrow> c_str (c # cs) # nul_words (drop (length (c_str (c # cs))) (c # cs)))"
  by pat_completeness auto
termination
proof (relation "measure length")
  fix s c cs
  assume d: "dropWhile (\<lambda>c. c = CHR 0x00) s = c # cs"
  then have "c \<noteq> CHR 0x00" by (metis (full_types) dropWhile_eq_Cons_conv)
  then have "0 < length (c_str (c # cs))" by (simp add: c_str_def)
  moreover have "length (c # cs) \<le> length s" using d by (metis length_dropWhile_le)
  moreover have "0 < length (c # cs)" by simp
  ultimately show "(drop (length (c_str (c # cs))) (c # cs), s) \<in> measure length"
    unfolding in_measure length_drop by linarith
qed simp

declare nul_words.simps [simp del]

definition first_soc :: "string list \<Rightarrow> string" where
  "first_soc ws = (case List.find (\<lambda>w. take 9 w = ''rockchip,'') ws of None \<Rightarrow> [] | Some w \<Rightarrow> drop 9 w)"

lemma c_str_length: "length (c_str s) \<le> length s"
  by (simp add: c_str_def length_takeWhile_le)

lemma nul_words_short: "length s \<le> 1 \<Longrightarrow> first_soc (nul_words s) = []"
proof (cases "dropWhile (\<lambda>c. c = CHR 0x00) s")
  case (Cons c cs)
  assume "length s \<le> 1"
  then have "length (c # cs) \<le> 1" using Cons by (metis length_dropWhile_le le_trans)
  then have "cs = []" by simp
  moreover have "c \<noteq> CHR 0x00" using Cons by (metis (full_types) dropWhile_eq_Cons_conv)
  ultimately show ?thesis using Cons
    by (simp add: nul_words.simps [of s] nul_words.simps [of "[]"] first_soc_def c_str_def)
next
  case Nil
  then have "nul_words s = []" by (subst nul_words.simps) (simp only: list.case)
  then show ?thesis by (simp add: first_soc_def)
qed

lemma soc_scan_words: "soc_scan s = first_soc (nul_words s)"
proof (induction s rule: soc_scan.induct)
  case (1 s)
  show ?case
  proof (cases "length s \<le> 1")
    case True
    then show ?thesis by (simp add: soc_scan.simps [of s] nul_words_short)
  next
    case False
    then obtain c cs where s: "s = c # cs" by (cases s) auto
    show ?thesis
    proof (cases "c = CHR 0x00")
      case True
      then have "nul_words s = nul_words cs"
        by (simp add: nul_words.simps [of "CHR 0x00 # cs"] nul_words.simps [of cs] s)
      with 1(1) False True show ?thesis by (simp add: soc_scan.simps [of "CHR 0x00 # cs"] s)
    next
      case nz: False
      then have w: "nul_words s = c_str s # nul_words (drop (length (c_str s)) s)"
        by (simp add: nul_words.simps [of "c # cs"] s)
      show ?thesis
      proof (cases "take 9 (c_str s) = ''rockchip,''")
        case True
        then show ?thesis using False nz by (simp add: soc_scan.simps [of "c # cs"] w [unfolded s] first_soc_def s)
      next
        case nr: False
        from 1(2) False nz nr have "soc_scan (drop (length (c_str s)) s) = first_soc (nul_words (drop (length (c_str s)) s))"
          by (simp add: s)
        then show ?thesis using False nz nr by (simp add: soc_scan.simps [of "c # cs"] w [unfolded s] first_soc_def s)
      qed
    qed
  qed
qed

section \<open>Lemmas on plans\<close>

lemma stage_steps_eq:
  "stage_steps rg rq caps sts =
    (if \<forall>st \<in> set sts. candidates rg st rq caps \<noteq> []
     then Some (map (\<lambda>st. make_step st (candidates rg st rq caps)) sts) else None)"
  by (induction sts) (simp_all add: Let_def)

lemma stage_steps_Some:
  "stage_steps rg rq caps sts = Some steps \<longleftrightarrow>
    (\<forall>st \<in> set sts. candidates rg st rq caps \<noteq> []) \<and>
    steps = map (\<lambda>st. make_step st (candidates rg st rq caps)) sts"
  by (auto simp: stage_steps_eq)

lemma stage_steps_None:
  "stage_steps rg rq caps sts = None \<longleftrightarrow> (\<exists>st \<in> set sts. candidates rg st rq caps = [])"
  by (auto simp: stage_steps_eq)

definition endpoint_supported :: "'n registry \<Rightarrow> request \<Rightarrow> device_caps \<Rightarrow> endpoint \<Rightarrow> bool \<Rightarrow> bool" where
  "endpoint_supported rg rq caps ep source \<longleftrightarrow>
     ep_kind ep = FrameSink \<or>
     (ep_kind ep = File \<and>
      (\<exists>f \<in> set (candidates rg (if source then SourceStage else SinkStage) rq caps). fc_transport f = FileTransport))"

lemma endpoint_step_None:
  "endpoint_step rg rq caps ep source = None \<longleftrightarrow> \<not> endpoint_supported rg rq caps ep source"
  by (cases "ep_kind ep") (auto simp: endpoint_step_def endpoint_supported_def filter_empty_conv Let_def)

definition step_ok :: "'n registry \<Rightarrow> request \<Rightarrow> device_caps \<Rightarrow> node_stage \<Rightarrow> 'n plan_step \<Rightarrow> bool" where
  "step_ok rg rq caps st p \<longleftrightarrow>
     ps_stage p = st \<and> ps_index p = 0 \<and>
     (if ps_adapter_source p \<or> ps_adapter_sink p then ps_candidates p = []
      else ps_candidates p \<noteq> [] \<and>
        (\<forall>f \<in> set (ps_candidates p). fc_stage f = st \<and> fc_matches f rq caps) \<and>
        sorted_wrt (cand_before rq caps) (ps_candidates p))"

lemma candidates_step_ok:
  assumes "registry_ok rg" "candidates rg st rq caps \<noteq> []"
  shows "step_ok rg rq caps st (make_step st (candidates rg st rq caps))"
  using assms candidates_set [of rg st rq caps] candidates_sorted [OF assms(1), of rq caps st]
  by (auto simp: step_ok_def make_step_def)

lemma endpoint_step_ok:
  assumes ok: "registry_ok rg" and st: "endpoint_step rg rq caps ep source = Some p"
  shows "step_ok rg rq caps (if source then SourceStage else SinkStage) p \<and>
    (ps_adapter_source p \<longleftrightarrow> source \<and> ep_kind ep = FrameSink) \<and>
    (ps_adapter_sink p \<longleftrightarrow> \<not> source \<and> ep_kind ep = FrameSink)"
proof (cases "ep_kind ep")
  case File
  let ?st = "if source then SourceStage else SinkStage"
  let ?cs = "filter (\<lambda>f. fc_transport f = FileTransport) (candidates rg ?st rq caps)"
  have p: "p = make_step ?st ?cs" "?cs \<noteq> []" using st File by (auto simp: endpoint_step_def Let_def split: if_splits)
  have "sorted_wrt (cand_before rq caps) ?cs" by (rule sorted_wrt_filter [OF candidates_sorted [OF ok]])
  moreover have "\<forall>f \<in> set ?cs. fc_stage f = ?st \<and> fc_matches f rq caps" using candidates_set [of rg ?st rq caps] by auto
  ultimately show ?thesis using p File by (simp add: step_ok_def make_step_def)
qed (use st in \<open>auto simp: endpoint_step_def step_ok_def make_step_def Let_def\<close>)

definition plan_caps :: "platform \<Rightarrow> 'n media_context \<Rightarrow> device_caps" where
  "plan_caps pf cx = fst (probe_device pf cx)"

lemma probe_registry [simp]: "cx_registry (snd (probe_device pf cx)) = cx_registry cx"
  by (simp add: probe_device_def Let_def)

section \<open>Properties\<close>

text \<open>
  C14. The planner is complete and its answers are ranked: a valid request gets a plan exactly when
  both endpoints are supported and every stage of the operation has a candidate; the plan is then
  the source, the stages of the operation in order and the sink, each with all its candidates for
  this request in rank order, starting at the first, and an adapter in place of candidates exactly
  at a caller-side endpoint.
\<close>

theorem plan_complete:
  assumes "registered (cx_registry cx)" "validate rq = Inr ()"
  shows "case fst (context_plan pf cx rq) of
      Inr p \<Rightarrow> (\<exists>src snk. pn_steps p = src # map (\<lambda>st. make_step st (candidates (cx_registry cx) st rq (plan_caps pf cx)))
            (middle_stages (rq_operation rq)) @ [snk] \<and> pn_fallbacks p = 0 \<and>
          list_all2 (step_ok (cx_registry cx) rq (plan_caps pf cx))
            (SourceStage # middle_stages (rq_operation rq) @ [SinkStage]) (pn_steps p) \<and>
          (ps_adapter_source src \<longleftrightarrow> ep_kind (rq_input rq) = FrameSink) \<and>
          (ps_adapter_sink snk \<longleftrightarrow> ep_kind (rq_output rq) = FrameSink))
    | Inl (st, _) \<Rightarrow>
        if \<not> endpoint_supported (cx_registry cx) rq (plan_caps pf cx) (rq_input rq) True then st = Unsupported
        else if \<exists>stg \<in> set (middle_stages (rq_operation rq)). candidates (cx_registry cx) stg rq (plan_caps pf cx) = []
        then st = NotFound
        else st = Unsupported \<and> \<not> endpoint_supported (cx_registry cx) rq (plan_caps pf cx) (rq_output rq) False"
proof -
  let ?rg = "cx_registry cx" and ?caps = "plan_caps pf cx" and ?mid = "middle_stages (rq_operation rq)"
  have ok: "registry_ok ?rg" by (rule registered_ok [OF assms(1)])
  obtain cx' where pr: "probe_device pf cx = (?caps, cx')" by (metis plan_caps_def prod.collapse)
  then have rg: "cx_registry cx' = ?rg" by (metis probe_registry snd_conv)
  show ?thesis
  proof (cases "endpoint_step ?rg rq ?caps (rq_input rq) True")
    case None
    then show ?thesis using assms(2) endpoint_step_None [of ?rg rq ?caps "rq_input rq" True]
      by (simp add: context_plan_def pr rg)
  next
    case (Some src)
    note src = this
    have sup: "endpoint_supported ?rg rq ?caps (rq_input rq) True" using src endpoint_step_None by (metis option.distinct(1))
    show ?thesis
    proof (cases "stage_steps ?rg rq ?caps ?mid")
      case None
      then show ?thesis using assms(2) sup src stage_steps_None [of ?rg rq ?caps ?mid]
        by (simp add: context_plan_def pr rg)
    next
      case (Some mid)
      note mid = this
      have ne: "\<forall>st \<in> set ?mid. candidates ?rg st rq ?caps \<noteq> []"
        and m: "mid = map (\<lambda>st. make_step st (candidates ?rg st rq ?caps)) ?mid"
        using mid by (simp_all add: stage_steps_Some)
      show ?thesis
      proof (cases "endpoint_step ?rg rq ?caps (rq_output rq) False")
        case None
        then show ?thesis using assms(2) sup src mid ne endpoint_step_None [of ?rg rq ?caps "rq_output rq" False]
          by (auto simp: context_plan_def pr rg)
      next
        case (Some snk)
        have "list_all2 (step_ok ?rg rq ?caps) ?mid mid"
          unfolding m using ne candidates_step_ok [OF ok] by (auto simp: list_all2_conv_all_nth)
        then have "list_all2 (step_ok ?rg rq ?caps) (SourceStage # ?mid @ [SinkStage]) (src # mid @ [snk])"
          using endpoint_step_ok [OF ok src] endpoint_step_ok [OF ok Some] by (simp add: list_all2_appendI)
        then show ?thesis
          using assms(2) src mid Some m endpoint_step_ok [OF ok src] endpoint_step_ok [OF ok Some]
          by (simp add: context_plan_def pr rg)
      qed
    qed
  qed
qed

definition sample_context :: "nat media_context" where
  "sample_context = \<lparr>cx_registry = sample_registry, cx_models = [], cx_caps = no_caps, cx_caps_probed = True\<rparr>"

definition no_platform :: platform where
  "no_platform = \<lparr>pf_compatible = None, pf_exists = (\<lambda>p. False), pf_dir_has = (\<lambda>d p. False)\<rparr>"

theorem plan_complete_witness:
  "\<exists>p. fst (context_plan no_platform sample_context default_request) = Inr p \<and> length (pn_steps p) = 3"
proof -
  have v: "validate default_request = Inr ()" by (simp add: validate_def default_request_def)
  have rg: "registered (cx_registry sample_context)"
    unfolding sample_context_def sample_registry_def by (simp add: registered.intros)
  have "fst (context_plan no_platform sample_context default_request) \<noteq> Inl e" for e
    using v by (simp add: context_plan_def sample_context_def probe_device_def endpoint_step_def default_request_def
        Let_def candidates_def sample_registry_def empty_registry_def registry_add_def registry_add_borrowed_def
        registry_find_def sample_factory_def sort_by_def cand_before_def split: if_splits)
  then obtain p where p: "fst (context_plan no_platform sample_context default_request) = Inr p"
    by (cases "fst (context_plan no_platform sample_context default_request)") auto
  from plan_complete [OF rg v, of no_platform] p show ?thesis
    by (auto simp: default_request_def)
qed

inductive advances :: "'n plan \<Rightarrow> nat \<Rightarrow> 'n plan \<Rightarrow> bool" where
  adv_none: "advances p 0 p"
| adv_step: "advances p n p' \<Longrightarrow> plan_advance p' i = (True, p'') \<Longrightarrow> advances p (Suc n) p''"

lemma advance_True:
  assumes "plan_advance p i = (True, p')"
  shows "i < length (pn_steps p)" "pn_fallbacks p' = Suc (pn_fallbacks p)" "pn_fallbacks p < kMaxFallbacks"
    "length (pn_steps p') = length (pn_steps p)"
    "ps_index (pn_steps p' ! i) = Suc (ps_index (pn_steps p ! i))"
    "ps_index (pn_steps p' ! i) < length (ps_candidates (pn_steps p' ! i))"
    "\<And>j. j \<noteq> i \<Longrightarrow> pn_steps p' ! j = pn_steps p ! j"
    "\<not> ps_adapter_source (pn_steps p ! i)" "\<not> ps_adapter_sink (pn_steps p ! i)"
  using assms by (auto simp: plan_advance_def Let_def split: if_splits)

lemma advances_fallbacks: "advances p n p' \<Longrightarrow> pn_fallbacks p \<le> kMaxFallbacks \<Longrightarrow>
    pn_fallbacks p' = pn_fallbacks p + n \<and> pn_fallbacks p' \<le> kMaxFallbacks \<and> length (pn_steps p') = length (pn_steps p)"
proof (induction rule: advances.induct)
  case (adv_step p n p' i p'')
  with advance_True [OF adv_step.hyps(2)] show ?case by simp
qed simp

text \<open>
  C15. Backtracking terminates: along any run of successful \<open>advance\<close> calls on a plan, at most
  eight succeed; every one moves the failed step, and only it, to its next candidate, which
  exists, and an adapter step or a step without a further candidate is never advanced.
\<close>

theorem advance_bounded:
  assumes "pn_fallbacks p = 0" "advances p n p'" "plan_advance p' i = (True, p'')"
  shows "n < 8 \<and> ps_index (pn_steps p'' ! i) = Suc (ps_index (pn_steps p' ! i)) \<and>
    ps_index (pn_steps p'' ! i) < length (ps_candidates (pn_steps p'' ! i)) \<and>
    (\<forall>j. j \<noteq> i \<longrightarrow> pn_steps p'' ! j = pn_steps p' ! j) \<and>
    \<not> ps_adapter_source (pn_steps p' ! i) \<and> \<not> ps_adapter_sink (pn_steps p' ! i)"
  using advances_fallbacks [OF assms(2)] advance_True [OF assms(3)] assms(1) by (auto simp: kMaxFallbacks_def)

theorem advance_bounded_witness:
  "\<exists>p'. plan_advance \<lparr>pn_steps = [make_step EncodeStage [sample_factory ''b'' 5, sample_factory ''a'' 1]], pn_fallbacks = 0\<rparr> 0
     = (True, p') \<and> ps_index (pn_steps p' ! 0) = 1"
proof -
  let ?p = "\<lparr>pn_steps = [make_step EncodeStage [sample_factory ''b'' 5, sample_factory ''a'' 1]], pn_fallbacks = 0\<rparr>"
  obtain p' where p': "plan_advance ?p 0 = (True, p')"
    by (simp add: plan_advance_def make_step_def kMaxFallbacks_def)
  from advance_bounded [OF _ adv_none p'] p' show ?thesis by (auto simp: make_step_def)
qed

text \<open>
  The SoC probe returns the name behind the first NUL-separated entry of the device tree's
  compatible list that starts with "rockchip,", and the empty string where there is none.
\<close>

theorem probe_soc_first_entry:
  "soc_scan s = (case List.find (\<lambda>w. take 9 w = ''rockchip,'') (nul_words s) of None \<Rightarrow> [] | Some w \<Rightarrow> drop 9 w)"
  by (simp add: soc_scan_words first_soc_def)

end
