(* ===== verification/Bounded_Queue.thy ===== *)
theory Bounded_Queue
  imports Status
begin

text \<open>
  The queue between two nodes, \<open>core/include/rkvc/queue.hpp\<close>. Every member function runs under the
  queue's mutex, so that it is one atomic step on the state; a blocking call whose condition
  variable still waits is \<open>None\<close>, and takes its step when it is enabled. The locale
  \<open>fifo_channel\<close> is what the nodes rely on, whatever the interleaving of their calls:
  delivery in order, without loss or duplication, and a terminal status behind the last item.
\<close>

section \<open>The operations\<close>

record 'a bqueue =
  q_capacity :: nat
  q_items :: "'a list"
  q_end :: bool
  q_end_status :: status

definition new_queue :: "nat \<Rightarrow> 'a bqueue" where
  "new_queue capacity =
     \<lparr>q_capacity = (if capacity \<noteq> 0 then capacity else 1), q_items = [], q_end = False, q_end_status = Eof\<rparr>"

definition q_push :: "'a \<Rightarrow> 'a bqueue \<Rightarrow> (status \<times> 'a bqueue) option" where
  "q_push v q =
     (if \<not> (length (q_items q) < q_capacity q \<or> q_end q) then None
      else if q_end q then Some (q_end_status q, q)
      else Some (Ok, q\<lparr>q_items := q_items q @ [v]\<rparr>))"

definition q_try_push :: "'a \<Rightarrow> 'a bqueue \<Rightarrow> status \<times> 'a bqueue" where
  "q_try_push v q =
     (if q_end q then (q_end_status q, q)
      else if length (q_items q) \<ge> q_capacity q then (Again, q)
      else (Ok, q\<lparr>q_items := q_items q @ [v]\<rparr>))"

definition q_pop :: "'a bqueue \<Rightarrow> ('a result \<times> 'a bqueue) option" where
  "q_pop q =
     (if \<not> (q_items q \<noteq> [] \<or> q_end q) then None
      else case q_items q of
             v # vs \<Rightarrow> Some (Inr v, q\<lparr>q_items := vs\<rparr>)
           | [] \<Rightarrow> Some (reject (q_end_status q) '''', q))"

definition q_try_pop :: "'a bqueue \<Rightarrow> 'a result \<times> 'a bqueue" where
  "q_try_pop q =
     (case q_items q of
        v # vs \<Rightarrow> (Inr v, q\<lparr>q_items := vs\<rparr>)
      | [] \<Rightarrow> if q_end q then (reject (q_end_status q) '''', q) else (reject Again '''', q))"

definition q_close :: "'a bqueue \<Rightarrow> 'a bqueue" where
  "q_close q = (if q_end q then q else q\<lparr>q_end := True, q_end_status := Eof\<rparr>)"

definition q_cancel :: "status \<Rightarrow> 'a bqueue \<Rightarrow> 'a bqueue" where
  "q_cancel s q =
     (if s = Ok \<or> s = Again \<or> s = Eof then q
      else if q_end q then q
      else q\<lparr>q_end := True, q_end_status := s\<rparr>)"

definition q_size :: "'a bqueue \<Rightarrow> nat" where
  "q_size q = length (q_items q)"

lemmas queue_defs = q_push_def q_try_push_def q_pop_def q_try_pop_def q_close_def q_cancel_def

section \<open>Calls and their interleavings\<close>

text \<open>A finished call with its result; a blocked call is no call yet.\<close>

datatype 'a q_call =
    Push 'a status | TryPush 'a status | Pop "'a result" | TryPop "'a result" | Close | Cancel status

inductive q_step :: "'a bqueue \<Rightarrow> 'a q_call \<Rightarrow> 'a bqueue \<Rightarrow> bool" where
  step_push: "q_push v q = Some (st, q') \<Longrightarrow> q_step q (Push v st) q'"
| step_try_push: "q_try_push v q = (st, q') \<Longrightarrow> q_step q (TryPush v st) q'"
| step_pop: "q_pop q = Some (r, q') \<Longrightarrow> q_step q (Pop r) q'"
| step_try_pop: "q_try_pop q = (r, q') \<Longrightarrow> q_step q (TryPop r) q'"
| step_close: "q_step q Close (q_close q)"
| step_cancel: "q_step q (Cancel s) (q_cancel s q)"

inductive_cases q_stepE: "q_step q c q'"

inductive_simps q_step_simps [simp]:
  "q_step q (Push v st) q'" "q_step q (TryPush v st) q'" "q_step q (Pop r) q'" "q_step q (TryPop r) q'"
  "q_step q Close q'" "q_step q (Cancel s) q'"

inductive q_run :: "'a bqueue \<Rightarrow> 'a q_call list \<Rightarrow> 'a bqueue \<Rightarrow> bool" where
  run_Nil: "q_run q [] q"
| run_snoc: "q_run q cs q' \<Longrightarrow> q_step q' c q'' \<Longrightarrow> q_run q (cs @ [c]) q''"

text \<open>The items that a call put into the queue, and the ones it took out.\<close>

fun accepted :: "'a q_call \<Rightarrow> 'a list" where
  "accepted (Push v st) = (if st = Ok then [v] else [])"
| "accepted (TryPush v st) = (if st = Ok then [v] else [])"
| "accepted c = []"

fun delivered :: "'a q_call \<Rightarrow> 'a list" where
  "delivered (Pop (Inr v)) = [v]"
| "delivered (TryPop (Inr v)) = [v]"
| "delivered c = []"

fun call_status :: "'a q_call \<Rightarrow> status" where
  "call_status (Push v st) = st"
| "call_status (TryPush v st) = st"
| "call_status (Pop r) = result_status r"
| "call_status (TryPop r) = result_status r"
| "call_status c = Ok"

definition q_inv :: "'a bqueue \<Rightarrow> bool" where
  "q_inv q \<longleftrightarrow> 0 < q_capacity q \<and> length (q_items q) \<le> q_capacity q \<and>
     q_end_status q \<noteq> Ok \<and> q_end_status q \<noteq> Again \<and> (\<not> q_end q \<longrightarrow> q_end_status q = Eof)"

section \<open>The channel contract\<close>

locale fifo_channel =
  fixes step :: "'q \<Rightarrow> 'a q_call \<Rightarrow> 'q \<Rightarrow> bool"
    and held :: "'q \<Rightarrow> 'a list"
    and ended :: "'q \<Rightarrow> status option"
    and inv :: "'q \<Rightarrow> bool"
  assumes step_held: "inv q \<Longrightarrow> step q c q' \<Longrightarrow> held q @ accepted c = delivered c @ held q'"
    and step_inv: "inv q \<Longrightarrow> step q c q' \<Longrightarrow> inv q'"
    and step_ended: "inv q \<Longrightarrow> step q c q' \<Longrightarrow> ended q = Some s \<Longrightarrow> ended q' = Some s \<and> accepted c = []"
    and pop_end: "inv q \<Longrightarrow> step q (Pop (Inl e)) q' \<Longrightarrow> held q = [] \<and> ended q = Some (fst e)"
begin

inductive steps :: "'q \<Rightarrow> 'a q_call list \<Rightarrow> 'q \<Rightarrow> bool" where
  steps_Nil: "steps q [] q"
| steps_snoc: "steps q cs q' \<Longrightarrow> step q' c q'' \<Longrightarrow> steps q (cs @ [c]) q''"

lemma steps_inv: "steps q cs q' \<Longrightarrow> inv q \<Longrightarrow> inv q'"
  by (induction rule: steps.induct) (auto intro: step_inv)

lemma steps_held:
  "steps q cs q' \<Longrightarrow> inv q \<Longrightarrow> held q @ concat (map accepted cs) = concat (map delivered cs) @ held q'"
proof (induction rule: steps.induct)
  case (steps_snoc q cs q' c q'')
  have "inv q'" using steps_inv steps_snoc.hyps(1) steps_snoc.prems by blast
  from step_held [OF this steps_snoc.hyps(2)] steps_snoc show ?case by (metis append.assoc concat.simps(1,2)
        concat_append append_Nil2 list.map(1,2) map_append)
qed simp

lemma steps_ended: "steps q cs q' \<Longrightarrow> inv q \<Longrightarrow> ended q = Some s \<Longrightarrow> ended q' = Some s \<and> concat (map accepted cs) = []"
proof (induction rule: steps.induct)
  case (steps_snoc q cs q' c q'')
  have "inv q'" using steps_inv steps_snoc.hyps(1) steps_snoc.prems by blast
  with step_ended [OF this steps_snoc.hyps(2)] steps_snoc show ?case by auto
qed simp

text \<open>When a consumer is told the end, everything that was accepted has been delivered.\<close>

lemma steps_drained:
  assumes "steps q cs q'" "inv q" "step q' (Pop (Inl e)) q''"
  shows "held q @ concat (map accepted cs) = concat (map delivered cs)" "ended q' = Some (fst e)"
  using steps_held [OF assms(1,2)] pop_end [OF steps_inv [OF assms(1,2)] assms(3)] by simp_all

end

definition q_terminal :: "'a bqueue \<Rightarrow> status option" where
  "q_terminal q = (if q_end q then Some (q_end_status q) else None)"

lemma q_step_inv: "q_inv q \<Longrightarrow> q_step q c q' \<Longrightarrow> q_inv q'"
  by (cases c) (auto simp: queue_defs q_inv_def split: if_splits list.splits)

lemma q_step_held: "q_inv q \<Longrightarrow> q_step q c q' \<Longrightarrow> q_items q @ accepted c = delivered c @ q_items q'"
  by (cases c) (auto simp: queue_defs q_inv_def split: if_splits list.splits)

interpretation bq: fifo_channel q_step q_items q_terminal q_inv
proof unfold_locales
  fix q q' :: "'a bqueue" and c s
  assume "q_inv q" "q_step q c q'" "q_terminal q = Some s"
  then show "q_terminal q' = Some s \<and> accepted c = []"
    by (cases c) (auto simp: queue_defs q_inv_def q_terminal_def split: if_splits list.splits)
next
  fix q q' :: "'a bqueue" and e
  assume "q_inv q" "q_step q (Pop (Inl e)) q'"
  then show "q_items q = [] \<and> q_terminal q = Some (fst e)"
    by (auto simp: queue_defs q_terminal_def split: if_splits list.splits)
qed (auto intro: q_step_inv q_step_held)

lemma q_run_steps: "q_run q cs q' \<Longrightarrow> bq.steps q cs q'"
  by (induction rule: q_run.induct) (auto intro: bq.steps.intros)

lemma q_inv_new: "q_inv (new_queue n)"
  by (simp add: q_inv_def new_queue_def)

lemma q_step_capacity: "q_step q c q' \<Longrightarrow> q_capacity q' = q_capacity q"
  by (cases c) (auto simp: queue_defs split: if_splits list.splits)

lemma q_run_capacity: "q_run p cs q \<Longrightarrow> q_capacity q = q_capacity p"
  by (induction rule: q_run.induct) (auto dest: q_step_capacity)

section \<open>Properties\<close>

text \<open>
  C10. For every interleaving of calls on a queue, the items accepted so far are the items
  delivered so far followed by the items still in the queue, in this order: the queue is first in
  first out, loses nothing and duplicates nothing, and never holds more than its capacity.
\<close>

theorem queue_fifo:
  assumes "q_run (new_queue n) cs q"
  shows "concat (map accepted cs) = concat (map delivered cs) @ q_items q \<and>
    length (q_items q) \<le> (if n \<noteq> 0 then n else 1)"
proof -
  have "q_inv q" by (rule bq.steps_inv [OF q_run_steps [OF assms] q_inv_new])
  then show ?thesis
    using q_run_capacity [OF assms] bq.steps_held [OF q_run_steps [OF assms] q_inv_new] by (simp add: new_queue_def q_inv_def)
qed

theorem queue_fifo_witness:
  "length (q_items (new_queue 1\<lparr>q_items := [7 :: nat]\<rparr>)) \<le> 1 \<and>
   concat (map accepted [TryPush (7 :: nat) Ok, TryPush 8 Again]) = [7]"
proof -
  have "q_run (new_queue 1) ([] @ [TryPush (7 :: nat) Ok]) (new_queue 1\<lparr>q_items := [7]\<rparr>)"
    by (rule run_snoc [OF run_Nil]) (simp add: q_try_push_def new_queue_def)
  then have "q_run (new_queue 1) (([] @ [TryPush (7 :: nat) Ok]) @ [TryPush 8 Again]) (new_queue 1\<lparr>q_items := [7]\<rparr>)"
    by (rule run_snoc) (simp add: q_try_push_def new_queue_def)
  from queue_fifo [OF this] show ?thesis by (simp add: new_queue_def)
qed

text \<open>The status with which a call that moved no item was answered.\<close>

fun refusal :: "'a q_call \<Rightarrow> status option" where
  "refusal (Push v st) = Some st"
| "refusal (TryPush v st) = Some st"
| "refusal (Pop (Inl e)) = Some (fst e)"
| "refusal (TryPop (Inl e)) = Some (fst e)"
| "refusal c = None"

definition ending :: "'a q_call \<Rightarrow> bool" where
  "ending c \<longleftrightarrow> c = Close \<or> (\<exists>s. c = Cancel s \<and> s \<noteq> Ok \<and> s \<noteq> Again \<and> s \<noteq> Eof)"

lemma ended_step: "q_end q \<Longrightarrow> q_step q c q' \<Longrightarrow> q_end q' \<and> q_end_status q' = q_end_status q \<and>
    accepted c = (if refusal c = Some Ok then accepted c else []) \<and> (refusal c = None \<or> refusal c = Some (q_end_status q))"
  by (cases c) (auto simp: queue_defs split: if_splits list.splits)

lemma ended_run:
  "q_run q ds q' \<Longrightarrow> q_end q \<Longrightarrow> q_end q' \<and> q_end_status q' = q_end_status q \<and>
     (\<forall>c \<in> set ds. refusal c = None \<or> refusal c = Some (q_end_status q))"
proof (induction rule: q_run.induct)
  case (run_snoc q cs q' c q'')
  then show ?case using ended_step [of q' c q''] by auto
qed simp

lemma ending_step: "ending c \<Longrightarrow> q_step q c q' \<Longrightarrow> q_end q' \<and> q_items q' = q_items q \<and>
    q_end_status q' = (if q_end q then q_end_status q else case c of Cancel s \<Rightarrow> s | _ \<Rightarrow> Eof)"
  by (auto simp: ending_def queue_defs)

text \<open>
  C11. The end comes behind the data and is final. Once \<open>close\<close>, or \<open>cancel\<close> with a status that is not
  a flow status, has been called on a queue that any calls have led to, the queue has a terminal
  status: the one it had, or \<open>Eof\<close> for the close, the given one for the cancel. From then on, in every
  interleaving of further calls, no item gets in and every push is answered with this status; the
  items that were waiting are still delivered, in order; and no push and no pop blocks, a pop
  reporting the status exactly when nothing is left.
\<close>

theorem queue_end_after_data:
  assumes "q_run (new_queue n) cs q" "ending c" "q_step q c q'" "q_run q' ds q''"
  defines "t \<equiv> (if q_end q then q_end_status q else case c of Cancel s \<Rightarrow> s | _ \<Rightarrow> Eof)"
  shows "t \<noteq> Ok \<and> t \<noteq> Again \<and> concat (map accepted ds) = [] \<and> (\<forall>d \<in> set ds. refusal d = None \<or> refusal d = Some t) \<and>
    q_items q = concat (map delivered ds) @ q_items q'' \<and>
    concat (map accepted cs) = concat (map delivered (cs @ ds)) @ q_items q'' \<and>
    (\<forall>v. q_push v q'' = Some (t, q'')) \<and>
    (case q_items q'' of [] \<Rightarrow> q_pop q'' = Some (reject t '''', q'')
       | v # vs \<Rightarrow> q_pop q'' = Some (Inr v, q''\<lparr>q_items := vs\<rparr>))"
proof -
  have inv: "q_inv q" by (rule bq.steps_inv [OF q_run_steps [OF assms(1)] q_inv_new])
  have inv': "q_inv q'" by (rule q_step_inv [OF inv assms(3)])
  have e: "q_end q'" "q_items q' = q_items q" "q_end_status q' = t" using ending_step [OF assms(2,3)] by (simp_all add: t_def)
  have t: "t \<noteq> Ok" "t \<noteq> Again" using inv' e(3) by (simp_all add: q_inv_def)
  have r: "q_end q''" "q_end_status q'' = t" "\<forall>d \<in> set ds. refusal d = None \<or> refusal d = Some t"
    using ended_run [OF assms(4) e(1)] e(3) by simp_all
  have "q_terminal q' = Some t" using e by (simp add: q_terminal_def)
  from bq.steps_ended [OF q_run_steps [OF assms(4)] inv' this] have a: "concat (map accepted ds) = []" by simp
  have d: "q_items q = concat (map delivered ds) @ q_items q''"
    using bq.steps_held [OF q_run_steps [OF assms(4)] inv'] e(2) a by simp
  have "concat (map accepted cs) = concat (map delivered cs) @ q_items q"
    using bq.steps_held [OF q_run_steps [OF assms(1)] q_inv_new] by (simp add: new_queue_def)
  then show ?thesis using t a r d by (simp add: q_push_def q_pop_def split: list.splits)
qed

theorem queue_end_after_data_witness:
  "q_pop (q_close (new_queue 2\<lparr>q_items := [7 :: nat]\<rparr>)) = Some (Inr 7, q_close (new_queue 2)) \<and>
   q_push 8 (q_close (new_queue 2\<lparr>q_items := [7 :: nat]\<rparr>)) = Some (Eof, q_close (new_queue 2\<lparr>q_items := [7]\<rparr>))"
proof -
  let ?q = "new_queue 2\<lparr>q_items := [7 :: nat]\<rparr>"
  have r: "q_run (new_queue 2) ([] @ [TryPush (7 :: nat) Ok]) ?q"
    by (rule run_snoc [OF run_Nil]) (simp add: q_try_push_def new_queue_def)
  from queue_end_after_data [OF r, of Close "q_close ?q", OF _ _ run_Nil] show ?thesis
    by (simp add: ending_def new_queue_def q_close_def)
qed

text \<open>
  No deadlock between the two ends. On a queue that any calls have led to, a push that blocks can
  be let through by one pop, which takes the oldest item and leaves room for the pushed one behind
  the others; a pop that blocks can be let through by any one push, whose item it then takes, leaving
  the queue as it was; and the two never block at once.
\<close>

theorem queue_no_deadlock:
  assumes "q_run (new_queue n) cs q"
  shows "(\<forall>v. q_push v q = None \<longrightarrow>
      (\<exists>x q1 q2. q_pop q = Some (Inr x, q1) \<and> q_items q = x # q_items q1 \<and>
         q_push v q1 = Some (Ok, q2) \<and> q_items q2 = q_items q1 @ [v])) \<and>
    (q_pop q = None \<longrightarrow> (\<forall>w. \<exists>q1. q_push w q = Some (Ok, q1) \<and> q_pop q1 = Some (Inr w, q))) \<and>
    (\<forall>v. q_push v q \<noteq> None \<or> q_pop q \<noteq> None)"
proof -
  have inv: "q_inv q" by (rule bq.steps_inv [OF q_run_steps [OF assms] q_inv_new])
  have "\<exists>x q1 q2. q_pop q = Some (Inr x, q1) \<and> q_items q = x # q_items q1 \<and>
         q_push v q1 = Some (Ok, q2) \<and> q_items q2 = q_items q1 @ [v]" if b: "q_push v q = None" for v
  proof -
    have f: "\<not> length (q_items q) < q_capacity q" "\<not> q_end q" using b by (auto simp: q_push_def split: if_splits)
    then obtain x xs where "q_items q = x # xs" using inv by (cases "q_items q") (auto simp: q_inv_def)
    then show ?thesis using inv f by (simp add: q_push_def q_pop_def q_inv_def)
  qed
  moreover have "\<exists>q1. q_push w q = Some (Ok, q1) \<and> q_pop q1 = Some (Inr w, q)" if b: "q_pop q = None" for w
  proof -
    have "q_items q = []" "\<not> q_end q" using b by (auto simp: q_pop_def split: if_splits list.splits)
    then show ?thesis using inv by (simp add: q_push_def q_pop_def q_inv_def)
  qed
  moreover have "q_push v q \<noteq> None \<or> q_pop q \<noteq> None" for v
    using inv by (auto simp: q_push_def q_pop_def q_inv_def split: list.splits)
  ultimately show ?thesis by blast
qed

theorem queue_no_deadlock_witness:
  "\<exists>q1. q_push (5 :: nat) (new_queue 0) = Some (Ok, q1) \<and> q_pop q1 = Some (Inr 5, new_queue 0)"
proof -
  have "q_pop (new_queue 0 :: nat bqueue) = None" by (simp add: new_queue_def q_pop_def)
  with queue_no_deadlock [OF run_Nil, of 0] show ?thesis by blast
qed

end
