(* ===== verification/Graph_Build.thy ===== *)
theory Graph_Build
  imports Planner Bounded_Queue Media_Frame
begin

text \<open>
  The pipeline graph, \<open>core/src/graph.cpp\<close> and \<open>core/src/node.cpp\<close>: the nodes with their virtual
  operations, \<open>Graph::build\<close> phase by phase (nodes and arity, download bridges, edge negotiation,
  configuration, model binding), \<open>Graph::open\<close> and \<open>Graph::close_nodes\<close>.

  The node classes of this file are constructors of \<open>node\<close>; the classes that plugins register are
  objects of the parameter type, whose virtual operations are the parameter \<open>vt\<close>. An error of
  \<open>build\<close> carries the value written to \<open>failed_step\<close>. Memory allocation is taken to succeed: the
  \<open>Nomem\<close> branches are not modelled.
\<close>

section \<open>Ports and nodes\<close>

record port =
  p_name :: string
  p_is_input :: bool
  p_desired :: spec
  p_resolved :: spec

definition make_port :: "string \<Rightarrow> bool \<Rightarrow> spec \<Rightarrow> port" where
  "make_port nm inp s = \<lparr>p_name = nm, p_is_input = inp, p_desired = s, p_resolved = default_spec\<rparr>"

text \<open>The virtual operations of the node classes outside this file, on objects of type \<open>'e\<close>.\<close>

record 'e node_class =
  vt_id :: "'e \<Rightarrow> string"
  vt_make_ports :: "'e \<Rightarrow> port list"
  vt_configure :: "'e \<Rightarrow> port list \<Rightarrow> status \<times> 'e \<times> port list"
  vt_wants_model :: "'e \<Rightarrow> bool"
  vt_bind_model :: "'e \<Rightarrow> model \<Rightarrow> status \<times> 'e"
  vt_open :: "'e \<Rightarrow> bool \<Rightarrow> status \<times> 'e"
  vt_close :: "'e \<Rightarrow> 'e"

text \<open>
  \<open>QueueSourceNode\<close> and \<open>QueueSinkNode\<close> carry whether their queue pointer is set, and their
  specification.
\<close>

datatype 'e node = SourceAdapter bool spec | SinkAdapter bool spec | Download | Other 'e

definition base_configure :: "port list \<Rightarrow> status" where
  "base_configure ps = (if \<exists>p \<in> set ps. s_fmt (p_resolved p) = Unknown then Negotiate else Ok)"

definition download_configure :: "port list \<Rightarrow> status" where
  "download_configure ps =
     (if base_configure ps \<noteq> Ok then base_configure ps
      else if length ps \<noteq> 2 \<or> \<not> p_is_input (ps ! 0) \<or> p_is_input (ps ! 1) then Internal
      else let i = p_resolved (ps ! 0); out = p_resolved (ps ! 1)
      in if s_domain i \<noteq> Dmabuf \<or> s_domain out \<noteq> Host \<or> s_fmt i = Unknown \<or> s_fmt out = Unknown \<or>
            s_fmt i \<noteq> s_fmt out \<or> \<not> is_linear i
         then Negotiate else Ok)"

fun node_id :: "'e node_class \<Rightarrow> 'e node \<Rightarrow> string" where
  "node_id vt (SourceAdapter q s) = ''queue.source''"
| "node_id vt (SinkAdapter q s) = ''queue.sink''"
| "node_id vt Download = ''core.download''"
| "node_id vt (Other e) = vt_id vt e"

fun node_make_ports :: "'e node_class \<Rightarrow> 'e node \<Rightarrow> port list" where
  "node_make_ports vt (SourceAdapter q s) = [make_port ''out'' False s]"
| "node_make_ports vt (SinkAdapter q s) = [make_port ''in'' True s]"
| "node_make_ports vt Download =
     [make_port ''in'' True (default_spec\<lparr>s_domain := Dmabuf\<rparr>),
      make_port ''out'' False (default_spec\<lparr>s_domain := Host\<rparr>)]"
| "node_make_ports vt (Other e) = vt_make_ports vt e"

fun node_configure :: "'e node_class \<Rightarrow> 'e node \<Rightarrow> port list \<Rightarrow> status \<times> 'e node \<times> port list" where
  "node_configure vt (SourceAdapter q s) ps = (base_configure ps, SourceAdapter q s, ps)"
| "node_configure vt (SinkAdapter q s) ps = (base_configure ps, SinkAdapter q s, ps)"
| "node_configure vt Download ps = (download_configure ps, Download, ps)"
| "node_configure vt (Other e) ps = (case vt_configure vt e ps of (st, e', ps') \<Rightarrow> (st, Other e', ps'))"

fun node_wants_model :: "'e node_class \<Rightarrow> 'e node \<Rightarrow> bool" where
  "node_wants_model vt (Other e) = vt_wants_model vt e"
| "node_wants_model vt _ = False"

fun node_bind_model :: "'e node_class \<Rightarrow> 'e node \<Rightarrow> model \<Rightarrow> status \<times> 'e node" where
  "node_bind_model vt (Other e) m = (case vt_bind_model vt e m of (st, e') \<Rightarrow> (st, Other e'))"
| "node_bind_model vt n m = (Ok, n)"

text \<open>\<open>open\<close> with an \<open>Emit\<close> that is set or null.\<close>

fun node_open :: "'e node_class \<Rightarrow> 'e node \<Rightarrow> bool \<Rightarrow> status \<times> 'e node" where
  "node_open vt (SourceAdapter q s) emit = (if \<not> emit \<or> \<not> q then Invalid else Ok, SourceAdapter q s)"
| "node_open vt (SinkAdapter q s) emit = (if \<not> q then Invalid else Ok, SinkAdapter q s)"
| "node_open vt Download emit = (if \<not> emit then Invalid else Ok, Download)"
| "node_open vt (Other e) emit = (case vt_open vt e emit of (st, e') \<Rightarrow> (st, Other e'))"

fun node_close :: "'e node_class \<Rightarrow> 'e node \<Rightarrow> 'e node" where
  "node_close vt (Other e) = Other (vt_close vt e)"
| "node_close vt n = n"

section \<open>Edges\<close>

definition needs_download_bridge :: "spec \<Rightarrow> spec \<Rightarrow> bool" where
  "needs_download_bridge out inp =
     (if s_domain out \<noteq> Dmabuf \<or> s_domain inp \<noteq> Host then False
      else if s_fmt out = Unknown \<or> \<not> is_linear out then False
      else result_ok (unify (out\<lparr>s_domain := Host\<rparr>) inp))"

fun first_input :: "port list \<Rightarrow> port option" where
  "first_input [] = None"
| "first_input (p # ps) = (if p_is_input p then Some p else first_input ps)"

definition last_output :: "port list \<Rightarrow> port option" where
  "last_output ps = List.find (\<lambda>p. \<not> p_is_input p) (rev ps)"

definition last_input :: "port list \<Rightarrow> port option" where
  "last_input ps = List.find p_is_input (rev ps)"

text \<open>Writing through the pointer to the last port of a direction.\<close>

fun set_first :: "bool \<Rightarrow> spec \<Rightarrow> port list \<Rightarrow> port list" where
  "set_first inp s [] = []"
| "set_first inp s (p # ps) = (if p_is_input p = inp then p\<lparr>p_resolved := s\<rparr> # ps else p # set_first inp s ps)"

definition set_last :: "bool \<Rightarrow> spec \<Rightarrow> port list \<Rightarrow> port list" where
  "set_last inp s ps = rev (set_first inp s (rev ps))"

section \<open>The phases of \<open>Graph::build\<close>\<close>

type_synonym build_error = "nat \<times> status \<times> string"

definition source_spec :: "request \<Rightarrow> build_error + spec" where
  "source_spec rq =
     (let s = rq_input_spec rq
      in if rq_width rq \<noteq> 0 \<and> s_width s \<noteq> 0 \<and> s_width s \<noteq> rq_width rq
         then Inl (0, Negotiate, ''width mismatch'')
         else let s1 = (if rq_width rq \<noteq> 0 then s\<lparr>s_width := rq_width rq\<rparr> else s)
         in if rq_height rq \<noteq> 0 \<and> s_height s1 \<noteq> 0 \<and> s_height s1 \<noteq> rq_height rq
            then Inl (0, Negotiate, ''height mismatch'')
            else Inr (if rq_height rq \<noteq> 0 then s1\<lparr>s_height := rq_height rq\<rparr> else s1))"

text \<open>The node of one plan step; \<open>None\<close> is the null node a factory may return.\<close>

definition step_node :: "request \<Rightarrow> spec \<Rightarrow> nat \<Rightarrow> 'e option plan_step \<Rightarrow> build_error + 'e node" where
  "step_node rq src i st =
     (if ps_adapter_source st then Inr (SourceAdapter True src)
      else if ps_adapter_sink st then Inr (SinkAdapter True (rq_output_spec rq))
      else if ps_index st \<ge> length (ps_candidates st)
      then Inl (i, NotFound, ''required stage has no candidate'')
      else case fc_create (ps_candidates st ! ps_index st) rq of
             Inl (s, why) \<Rightarrow> Inl (i, s, why)
           | Inr None \<Rightarrow> Inl (i, Internal, ''null node'')
           | Inr (Some e) \<Rightarrow> Inr (Other e))"

definition inputs :: "port list \<Rightarrow> nat" where
  "inputs ps = length (filter p_is_input ps)"

definition outputs :: "port list \<Rightarrow> nat" where
  "outputs ps = length (filter (\<lambda>p. \<not> p_is_input p) ps)"

definition arity_ok :: "nat \<Rightarrow> nat \<Rightarrow> port list \<Rightarrow> bool" where
  "arity_ok n i ps =
     (if i = 0 then inputs ps = 0 \<and> outputs ps = 1
      else if i + 1 = n then inputs ps = 1 \<and> outputs ps = 0
      else inputs ps = 1 \<and> outputs ps = 1)"

definition init_ports :: "port list \<Rightarrow> port list" where
  "init_ports ps = map (\<lambda>p. p\<lparr>p_resolved := p_desired p\<rparr>) ps"

fun make_nodes :: "'e node_class \<Rightarrow> request \<Rightarrow> spec \<Rightarrow> nat \<Rightarrow> nat \<Rightarrow> 'e option plan_step list
    \<Rightarrow> build_error + ('e node \<times> port list) list" where
  "make_nodes vt rq src n i [] = Inr []"
| "make_nodes vt rq src n i (st # sts) =
     (case step_node rq src i st of
        Inl e \<Rightarrow> Inl e
      | Inr nd \<Rightarrow>
          (let ps = init_ports (node_make_ports vt nd)
           in if \<not> arity_ok n i ps then Inl (i, Internal, ''node arity mismatch'')
              else case make_nodes vt rq src n (i + 1) sts of
                     Inl e \<Rightarrow> Inl e
                   | Inr rest \<Rightarrow> Inr ((nd, ps) # rest)))"

text \<open>The bridge loop from node \<open>i\<close> on.\<close>

fun splice :: "'e node_class \<Rightarrow> nat \<Rightarrow> ('e node \<times> port list) list
    \<Rightarrow> build_error + ('e node \<times> port list) list" where
  "splice vt i (a # b # rest) =
     (case (last_output (snd a), first_input (snd b)) of
        (Some out, Some inp) \<Rightarrow>
          if needs_download_bridge (p_resolved out) (p_resolved inp)
          then (case splice vt (i + 2) (b # rest) of
                  Inl e \<Rightarrow> Inl e
                | Inr r \<Rightarrow> Inr (a # (Download, init_ports (node_make_ports vt Download)) # r))
          else (case splice vt (i + 1) (b # rest) of Inl e \<Rightarrow> Inl e | Inr r \<Rightarrow> Inr (a # r))
      | _ \<Rightarrow> Inl (i + 1, Internal, ''missing edge port''))"
| "splice vt i ns = Inr ns"

text \<open>
  The negotiation loop. After the arity check both ports exist; the branch where one does not is
  out of reach.
\<close>

fun negotiate :: "nat \<Rightarrow> port list list \<Rightarrow> build_error + port list list" where
  "negotiate i (ps # qs # rest) =
     (case (last_output ps, last_input qs) of
        (Some out, Some inp) \<Rightarrow>
          (case unify (p_resolved out) (p_resolved inp) of
             Inl (s, why) \<Rightarrow> Inl (i + 1, s, why)
           | Inr r \<Rightarrow>
               (case negotiate (i + 1) (set_last True r qs # rest) of
                  Inl e \<Rightarrow> Inl e
                | Inr pss \<Rightarrow> Inr (set_last False r ps # pss)))
      | _ \<Rightarrow> Inl (i + 1, Internal, ''missing edge port''))"
| "negotiate i pss = Inr pss"

fun configure_all :: "'e node_class \<Rightarrow> nat \<Rightarrow> ('e node \<times> port list) list
    \<Rightarrow> build_error + ('e node \<times> port list) list" where
  "configure_all vt i [] = Inr []"
| "configure_all vt i ((nd, ps) # rest) =
     (case node_configure vt nd ps of
        (st, nd', ps') \<Rightarrow>
          if st \<noteq> Ok then Inl (i, st, ''configure rejected'')
          else case configure_all vt (i + 1) rest of
                 Inl e \<Rightarrow> Inl e
               | Inr r \<Rightarrow> Inr ((nd', ps') # r))"

definition request_model :: "'e option media_context \<Rightarrow> request \<Rightarrow> model option" where
  "request_model cx rq = (if rq_model_id rq = [] then first_model cx else find_model cx (rq_model_id rq))"

fun bind_all :: "'e node_class \<Rightarrow> model option \<Rightarrow> nat \<Rightarrow> 'e node list \<Rightarrow> build_error + 'e node list" where
  "bind_all vt m i [] = Inr []"
| "bind_all vt m i (nd # rest) =
     (let bound = (if \<not> node_wants_model vt nd then Inr nd
                   else case m of
                          None \<Rightarrow> Inl (i, Negotiate, ''no compatible model'')
                        | Some md \<Rightarrow> (case node_bind_model vt nd md of
                                        (st, nd') \<Rightarrow> if st \<noteq> Ok then Inl (i, st, []) else Inr nd'))
      in case bound of
           Inl e \<Rightarrow> Inl e
         | Inr nd' \<Rightarrow> (case bind_all vt m (i + 1) rest of Inl e \<Rightarrow> Inl e | Inr r \<Rightarrow> Inr (nd' # r)))"

text \<open>An emit delivers to the edge it names; the last node's emit has none.\<close>

record 'e graph =
  g_nodes :: "'e node list"
  g_ports :: "port list list"
  g_edges :: "frame bqueue list"
  g_emits :: "nat option list"
  g_failure_step :: nat

definition graph_build :: "'e node_class \<Rightarrow> 'e option plan \<Rightarrow> 'e option media_context \<Rightarrow> request
    \<Rightarrow> bool \<Rightarrow> bool \<Rightarrow> build_error + 'e graph" where
  "graph_build vt pl cx rq in_q out_q =
     (if \<not> in_q \<or> \<not> out_q then Inl (0, Invalid, ''null endpoint queue'')
      else if length (pn_steps pl) < 2 then Inl (0, Internal, ''plan too short'')
      else case source_spec rq of
        Inl e \<Rightarrow> Inl e
      | Inr src \<Rightarrow>
      (case make_nodes vt rq src (length (pn_steps pl)) 0 (pn_steps pl) of
        Inl e \<Rightarrow> Inl e
      | Inr made \<Rightarrow>
      (case splice vt 0 made of
        Inl e \<Rightarrow> Inl e
      | Inr ns \<Rightarrow>
      (case negotiate 0 (map snd ns) of
        Inl e \<Rightarrow> Inl e
      | Inr pss \<Rightarrow>
      (case configure_all vt 0 (zip (map fst ns) pss) of
        Inl e \<Rightarrow> Inl e
      | Inr cs \<Rightarrow>
      (case bind_all vt (request_model cx rq) 0 (map fst cs) of
        Inl e \<Rightarrow> Inl e
      | Inr bs \<Rightarrow>
          Inr \<lparr>g_nodes = bs, g_ports = map snd cs,
               g_edges = replicate (length ns - 1) (new_queue (unat (rq_queue_capacity rq))),
               g_emits = map (\<lambda>i. if i + 1 < length ns then Some i else None) [0..<length ns],
               g_failure_step = 0\<rparr>))))))"

section \<open>Opening and closing\<close>

text \<open>The calls on the nodes are recorded, in order, with the node's index.\<close>

datatype node_call = OpenCall nat | CloseCall nat

fun close_down :: "'e node_class \<Rightarrow> nat \<Rightarrow> 'e node list \<Rightarrow> 'e node list \<times> node_call list" where
  "close_down vt 0 ns = (ns, [])"
| "close_down vt (Suc j) ns =
     (case close_down vt j (ns[j := node_close vt (ns ! j)]) of (ns', cs) \<Rightarrow> (ns', CloseCall j # cs))"

fun open_loop :: "'e node_class \<Rightarrow> nat \<Rightarrow> nat \<Rightarrow> 'e node list \<Rightarrow> status \<times> nat \<times> 'e node list \<times> node_call list" where
  "open_loop vt 0 i ns = (Ok, 0, ns, [])"
| "open_loop vt (Suc k) i ns =
     (case node_open vt (ns ! i) True of
        (st, nd) \<Rightarrow>
          if st \<noteq> Ok
          then (case close_down vt i (ns[i := nd]) of (ns', cs) \<Rightarrow> (st, i, ns', OpenCall i # cs))
          else (case open_loop vt k (i + 1) (ns[i := nd]) of
                  (st', fl, ns', cs) \<Rightarrow> (st', fl, ns', OpenCall i # cs)))"

definition graph_open :: "'e node_class \<Rightarrow> 'e graph \<Rightarrow> status \<times> 'e graph \<times> node_call list" where
  "graph_open vt g =
     (case open_loop vt (length (g_nodes g)) 0 (g_nodes g) of
        (st, fl, ns, cs) \<Rightarrow>
          (st, g\<lparr>g_nodes := ns, g_failure_step := (if st = Ok then g_failure_step g else fl)\<rparr>, cs))"

definition close_nodes :: "'e node_class \<Rightarrow> 'e graph \<Rightarrow> 'e graph \<times> node_call list" where
  "close_nodes vt g =
     (case close_down vt (length (g_nodes g)) (g_nodes g) of (ns, cs) \<Rightarrow> (g\<lparr>g_nodes := ns\<rparr>, cs))"

end
