(* ===== verification/Graph_Claims.thy ===== *)
theory Graph_Claims
  imports Graph_Build
begin

text \<open>
  What \<open>Graph::build\<close> and \<open>Graph::open\<close> guarantee: negotiation decides every edge by \<open>unify\<close>, a built
  graph is a chain whose edges agree, an open that fails closes exactly the nodes it opened, in
  reverse; and where the bridges that \<open>build\<close> splices in break the contract with the planner.
\<close>

section \<open>Ports\<close>

lemma find_rev_set_first:
  "List.find (\<lambda>p. p_is_input p = b) (set_first b s ps) =
     map_option (\<lambda>p. p\<lparr>p_resolved := s\<rparr>) (List.find (\<lambda>p. p_is_input p = b) ps)"
  by (induction ps) auto

lemma find_other_set_first:
  "b \<noteq> c \<Longrightarrow> List.find (\<lambda>p. p_is_input p = c) (set_first b s ps) = List.find (\<lambda>p. p_is_input p = c) ps"
  by (induction ps) auto

definition last_port :: "bool \<Rightarrow> port list \<Rightarrow> port option" where
  "last_port b ps = List.find (\<lambda>p. p_is_input p = b) (rev ps)"

lemma last_port_simps: "last_output ps = last_port False ps" "last_input ps = last_port True ps"
  by (simp_all add: last_output_def last_input_def last_port_def)

lemma last_port_set_last [simp]:
  "last_port b (set_last b s ps) = map_option (\<lambda>p. p\<lparr>p_resolved := s\<rparr>) (last_port b ps)"
  "last_port (\<not> b) (set_last b s ps) = last_port (\<not> b) ps"
  by (simp_all add: last_port_def set_last_def find_rev_set_first find_other_set_first)

lemma last_port_set_other [simp]:
  "last_port False (set_last True s ps) = last_port False ps"
  "last_port True (set_last False s ps) = last_port True ps"
  using last_port_set_last(2)[of True s ps] last_port_set_last(2)[of False s ps] by simp_all

lemma last_port_exists: "last_port b ps = None \<longleftrightarrow> filter (\<lambda>p. p_is_input p = b) ps = []"
  by (auto simp: last_port_def find_None_iff filter_empty_conv)

section \<open>Negotiation\<close>

definition out_spec :: "port list \<Rightarrow> spec" where
  "out_spec ps = p_resolved (the (last_output ps))"

definition in_spec :: "port list \<Rightarrow> spec" where
  "in_spec ps = p_resolved (the (last_input ps))"

lemmas edge_spec_defs = out_spec_def in_spec_def last_port_simps

text \<open>Each list but the last has an output, each but the first an input.\<close>

fun chained :: "port list list \<Rightarrow> bool" where
  "chained (ps # qs # rest) \<longleftrightarrow> last_output ps \<noteq> None \<and> last_input qs \<noteq> None \<and> chained (qs # rest)"
| "chained _ \<longleftrightarrow> True"

lemma chained_set_last [simp]: "chained (set_last True r qs # rest) = chained (qs # rest)"
  by (cases rest) (simp_all add: last_port_simps)

lemma edge_specs_set_last [simp]:
  "out_spec (set_last True r qs) = out_spec qs"
  "in_spec (set_last False r ps) = in_spec ps"
  "last_input qs \<noteq> None \<Longrightarrow> in_spec (set_last True r qs) = r"
  "last_output ps \<noteq> None \<Longrightarrow> out_spec (set_last False r ps) = r"
  by (auto simp: edge_spec_defs)

lemma negotiate_length: "negotiate i pss = Inr qss \<Longrightarrow> length qss = length pss"
  by (induction i pss arbitrary: qss rule: negotiate.induct) (auto split: option.splits sum.splits)

lemma negotiate_head:
  "negotiate i (ps # rest) = Inr qss \<Longrightarrow> \<exists>q qs. qss = q # qs \<and> in_spec q = in_spec ps"
  by (cases rest) (auto split: option.splits sum.splits)

lemma negotiate_Inr:
  assumes "negotiate i pss = Inr qss" "chained pss" "Suc k < length pss"
  shows "unify (out_spec (pss ! k)) (in_spec (pss ! Suc k)) = Inr (out_spec (qss ! k)) \<and>
         in_spec (qss ! Suc k) = out_spec (qss ! k)"
  using assms
proof (induction i pss arbitrary: qss k rule: negotiate.induct)
  case (1 i ps qs rest)
  from 1(3) obtain out inp where port: "last_output ps = Some out" "last_input qs = Some inp" by auto
  then have specs: "out_spec ps = p_resolved out" "in_spec qs = p_resolved inp"
    by (simp_all add: out_spec_def in_spec_def)
  from 1(2) port obtain r pss' where
    r: "unify (p_resolved out) (p_resolved inp) = Inr r" and
    rec: "negotiate (i + 1) (set_last True r qs # rest) = Inr pss'" and
    qss: "qss = set_last False r ps # pss'"
    by (auto split: sum.splits)
  from negotiate_head[OF rec] obtain q qs' where q: "pss' = q # qs'" "in_spec q = r"
    using port by auto
  show ?case
  proof (cases k)
    case 0
    then show ?thesis using qss q r specs port by simp
  next
    case (Suc j)
    have "chained (set_last True r qs # rest)" "Suc j < length (set_last True r qs # rest)"
      using 1(3,4) Suc by simp_all
    from 1(1)[OF refl port r rec this] show ?thesis
      using qss Suc by (cases j) simp_all
  qed
qed auto

lemma negotiate_Inl:
  assumes "negotiate i pss = Inl (j, s, why)" "chained pss"
  shows "\<exists>k. j = i + k + 1 \<and> Suc k < length pss \<and>
             unify (out_spec (pss ! k)) (in_spec (pss ! Suc k)) = Inl (s, why) \<and>
             (\<forall>m < k. result_ok (unify (out_spec (pss ! m)) (in_spec (pss ! Suc m))))"
  using assms
proof (induction i pss arbitrary: j rule: negotiate.induct)
  case (1 i ps qs rest)
  from 1(3) obtain out inp where port: "last_output ps = Some out" "last_input qs = Some inp" by auto
  then have specs: "out_spec ps = p_resolved out" "in_spec qs = p_resolved inp"
    by (simp_all add: out_spec_def in_spec_def)
  show ?case
  proof (cases "unify (p_resolved out) (p_resolved inp)")
    case (Inl e)
    with 1(2) port have "j = i + 1" "e = (s, why)" by (auto split: prod.splits)
    then show ?thesis using Inl specs by (intro exI[of _ 0]) simp
  next
    case (Inr r)
    with 1(2) port have rec: "negotiate (i + 1) (set_last True r qs # rest) = Inl (j, s, why)"
      by (auto split: sum.splits)
    have "chained (set_last True r qs # rest)" using 1(3) by simp
    from 1(1)[OF refl port Inr rec this] obtain k where k:
      "j = i + 1 + k + 1" "Suc k < length (set_last True r qs # rest)"
      "unify (out_spec ((set_last True r qs # rest) ! k)) (in_spec ((set_last True r qs # rest) ! Suc k)) = Inl (s, why)"
      "\<forall>m < k. result_ok (unify (out_spec ((set_last True r qs # rest) ! m)) (in_spec ((set_last True r qs # rest) ! Suc m)))"
      by blast
    have at: "out_spec ((set_last True r qs # rest) ! m) = out_spec ((ps # qs # rest) ! Suc m)"
      "in_spec ((set_last True r qs # rest) ! Suc m) = in_spec ((ps # qs # rest) ! Suc (Suc m))" for m
      by (cases m; simp)+
    show ?thesis
    proof (intro exI[of _ "Suc k"] conjI allI impI)
      fix m assume "m < Suc k"
      then show "result_ok (unify (out_spec ((ps # qs # rest) ! m)) (in_spec ((ps # qs # rest) ! Suc m)))"
        using k(4) Inr specs at by (cases m) auto
    qed (use k at in \<open>auto\<close>)
  qed
qed auto

text \<open>
  C16. Negotiation decides each edge by \<open>unify\<close> alone. On success every edge carries one
  specification on both of its ends, the unification of what the two nodes asked for; on failure
  the reported index is that of the consumer of the first edge that has no unification, with the
  status and the reason of \<open>unify\<close>.
\<close>

theorem negotiate_exact:
  assumes "chained pss"
  shows "case negotiate 0 pss of
    Inr qss \<Rightarrow> length qss = length pss \<and>
      (\<forall>k. Suc k < length pss \<longrightarrow>
        unify (out_spec (pss ! k)) (in_spec (pss ! Suc k)) = Inr (out_spec (qss ! k)) \<and>
        in_spec (qss ! Suc k) = out_spec (qss ! k))
  | Inl (j, s, why) \<Rightarrow>
      \<exists>k. j = Suc k \<and> Suc k < length pss \<and>
        unify (out_spec (pss ! k)) (in_spec (pss ! Suc k)) = Inl (s, why) \<and>
        (\<forall>m < k. result_ok (unify (out_spec (pss ! m)) (in_spec (pss ! Suc m))))"
proof (cases "negotiate 0 pss")
  case (Inl e)
  obtain j s why where "e = (j, s, why)" by (cases e) auto
  with negotiate_Inl[of 0 pss j s why] Inl assms show ?thesis by simp
next
  case (Inr qss)
  with negotiate_length[OF Inr] negotiate_Inr[OF Inr assms] show ?thesis by simp
qed

definition nv12_spec :: "mem_domain \<Rightarrow> spec" where
  "nv12_spec d = default_spec\<lparr>s_fmt := Nv12, s_domain := d, s_width := 64, s_height := 48\<rparr>"

definition sample_ports :: "port list list" where
  "sample_ports = map init_ports
     [[make_port ''out'' False (default_spec\<lparr>s_fmt := Nv12, s_width := 64\<rparr>)],
      [make_port ''in'' True (default_spec\<lparr>s_fmt := Nv12, s_height := 48\<rparr>)]]"

theorem negotiate_exact_witness:
  "chained sample_ports \<and>
   (\<exists>qss. negotiate 0 sample_ports = Inr qss \<and> in_spec (qss ! 1) = out_spec (qss ! 0) \<and>
     out_spec (qss ! 0) = nv12_spec Host)"
proof -
  have c: "chained sample_ports" by code_simp
  have "\<not> isl (negotiate 0 sample_ports)" by code_simp
  then obtain qss where q: "negotiate 0 sample_ports = Inr qss" by (cases "negotiate 0 sample_ports") auto
  have u: "unify (out_spec (sample_ports ! 0)) (in_spec (sample_ports ! Suc 0)) = Inr (nv12_spec Host)"
    by code_simp
  have len: "Suc 0 < length sample_ports" by code_simp
  from negotiate_exact[OF c] q u len have "in_spec (qss ! Suc 0) = out_spec (qss ! 0)"
    "out_spec (qss ! 0) = nv12_spec Host" by auto
  then show ?thesis using c q by simp
qed

section \<open>The built graph\<close>

lemma make_nodes_spec:
  "make_nodes vt rq src n i sts = Inr ns \<Longrightarrow> length ns = length sts \<and>
     (\<forall>k < length sts. step_node rq src (i + k) (sts ! k) = Inr (fst (ns ! k)) \<and>
        snd (ns ! k) = init_ports (node_make_ports vt (fst (ns ! k))) \<and> arity_ok n (i + k) (snd (ns ! k)))"
proof (induction sts arbitrary: i ns)
  case (Cons st sts)
  from Cons.prems obtain nd rest where
    nd: "step_node rq src i st = Inr nd" and
    ar: "arity_ok n i (init_ports (node_make_ports vt nd))" and
    rec: "make_nodes vt rq src n (i + 1) sts = Inr rest" and
    ns: "ns = (nd, init_ports (node_make_ports vt nd)) # rest"
    by (auto simp: Let_def split: sum.splits if_splits)
  show ?case
  proof (intro conjI allI impI)
    fix k assume "k < length (st # sts)"
    with Cons.IH[OF rec] nd ar ns show "step_node rq src (i + k) ((st # sts) ! k) = Inr (fst (ns ! k))"
      "snd (ns ! k) = init_ports (node_make_ports vt (fst (ns ! k)))" "arity_ok n (i + k) (snd (ns ! k))"
      by (cases k; simp)+
  qed (use Cons.IH[OF rec] ns in simp)
qed simp

lemma step_node_no_bridge: "step_node rq src i st = Inr nd \<Longrightarrow> nd \<noteq> Download"
  by (auto simp: step_node_def split: if_splits sum.splits option.splits)

lemma splice_head: "splice vt i (a # rest) = Inr ms \<Longrightarrow> \<exists>ms'. ms = a # ms'"
  by (cases rest) (auto split: option.splits if_splits sum.splits)

lemma first_input_last: "first_input ps \<noteq> None \<longleftrightarrow> last_input ps \<noteq> None"
  by (induction ps) (auto simp: last_port_simps last_port_exists)

lemma download_ports:
  "last_output (init_ports (node_make_ports vt Download)) \<noteq> None"
  "last_input (init_ports (node_make_ports vt Download)) \<noteq> None"
  by (simp_all add: init_ports_def make_port_def last_output_def last_input_def)

lemma splice_chained:
  "splice vt i ns = Inr ms \<Longrightarrow> chained (map snd ms)"
proof (induction vt i ns arbitrary: ms rule: splice.induct)
  case (1 vt i a b rest)
  from 1(3) obtain out inp where port: "last_output (snd a) = Some out" "first_input (snd b) = Some inp"
    by (auto split: option.splits)
  with first_input_last[of "snd b"] have lin: "last_input (snd b) \<noteq> None" by simp
  show ?case
  proof (cases "needs_download_bridge (p_resolved out) (p_resolved inp)")
    case True
    with 1(3) port obtain r where r: "splice vt (i + 2) (b # rest) = Inr r" and
      ms: "ms = a # (Download, init_ports (node_make_ports vt Download)) # r"
      by (auto split: sum.splits)
    from splice_head[OF r] obtain r' where "r = b # r'" by blast
    then show ?thesis using 1(1)[OF refl port True r] ms port lin download_ports[of vt] by simp
  next
    case False
    with 1(3) port obtain r where r: "splice vt (i + 1) (b # rest) = Inr r" and ms: "ms = a # r"
      by (auto split: sum.splits)
    from splice_head[OF r] obtain r' where "r = b # r'" by blast
    then show ?thesis using 1(2)[OF refl port False r] ms port lin by simp
  qed
qed auto

lemma splice_nodes:
  "splice vt i ns = Inr ms \<Longrightarrow> filter (\<lambda>x. fst x \<noteq> Download) ms = filter (\<lambda>x. fst x \<noteq> Download) ns"
  by (induction vt i ns arbitrary: ms rule: splice.induct) (auto split: option.splits if_splits sum.splits)

definition asked_ports :: "'e node_class \<Rightarrow> ('e node \<times> port list) list \<Rightarrow> bool" where
  "asked_ports vt ns \<longleftrightarrow> (\<forall>x \<in> set ns. snd x = init_ports (node_make_ports vt (fst x)))"

lemma asked_ports_Cons [simp]:
  "asked_ports vt (x # xs) \<longleftrightarrow> snd x = init_ports (node_make_ports vt (fst x)) \<and> asked_ports vt xs"
  by (simp add: asked_ports_def)

lemma splice_asked: "splice vt i ns = Inr ms \<Longrightarrow> asked_ports vt ns \<Longrightarrow> asked_ports vt ms"
proof (induction vt i ns arbitrary: ms rule: splice.induct)
  case (1 vt i a b rest)
  from 1(3) obtain out inp where port: "last_output (snd a) = Some out" "first_input (snd b) = Some inp"
    by (auto split: option.splits)
  show ?case
  proof (cases "needs_download_bridge (p_resolved out) (p_resolved inp)")
    case True
    with 1(3) port obtain r where "splice vt (i + 2) (b # rest) = Inr r"
      "ms = a # (Download, init_ports (node_make_ports vt Download)) # r"
      by (auto split: sum.splits)
    then show ?thesis using 1(1)[OF refl port True] 1(4) by simp
  next
    case False
    with 1(3) port obtain r where "splice vt (i + 1) (b # rest) = Inr r" "ms = a # r"
      by (auto split: sum.splits)
    then show ?thesis using 1(2)[OF refl port False] 1(4) by simp
  qed
qed auto

lemma configure_all_spec:
  "configure_all vt i cs = Inr ds \<Longrightarrow> length ds = length cs \<and>
     (\<forall>k < length cs. node_configure vt (fst (cs ! k)) (snd (cs ! k)) = (Ok, fst (ds ! k), snd (ds ! k)))"
proof (induction cs arbitrary: i ds)
  case (Cons c cs)
  obtain nd ps where c: "c = (nd, ps)" by (cases c)
  from Cons.prems c obtain nd' ps' r where
    nd: "node_configure vt nd ps = (Ok, nd', ps')" and
    rec: "configure_all vt (i + 1) cs = Inr r" and ds: "ds = (nd', ps') # r"
    by (auto split: prod.splits if_splits sum.splits)
  show ?case
  proof (intro conjI allI impI)
    fix k assume "k < length (c # cs)"
    with Cons.IH[OF rec] nd ds c show
      "node_configure vt (fst ((c # cs) ! k)) (snd ((c # cs) ! k)) = (Ok, fst (ds ! k), snd (ds ! k))"
      by (cases k) simp_all
  qed (use Cons.IH[OF rec] ds in simp)
qed simp

lemma bind_all_length: "bind_all vt m i nds = Inr r \<Longrightarrow> length r = length nds"
  by (induction nds arbitrary: i r) (auto simp: Let_def split: if_splits sum.splits option.splits prod.splits)

text \<open>
  The node classes of the repository read their ports in \<open>configure\<close> and write none of them.
\<close>

definition keeps_ports :: "'e node_class \<Rightarrow> bool" where
  "keeps_ports vt \<longleftrightarrow> (\<forall>e ps. snd (snd (vt_configure vt e ps)) = ps)"

lemma node_configure_ports:
  assumes "keeps_ports vt" "node_configure vt nd ps = (st, nd', ps')"
  shows "ps' = ps"
proof (cases nd)
  case (Other e)
  have "snd (snd (vt_configure vt e ps)) = ps" using assms(1) by (simp add: keeps_ports_def)
  then show ?thesis using assms(2) Other by (auto split: prod.splits)
qed (use assms in auto)

lemma configure_all_ports:
  assumes "keeps_ports vt" "configure_all vt i cs = Inr ds"
  shows "map snd ds = map snd cs"
proof (rule nth_equalityI)
  show len: "length (map snd ds) = length (map snd cs)" using configure_all_spec[OF assms(2)] by simp
  fix k assume "k < length (map snd ds)"
  with len have k: "k < length cs" "k < length ds" by simp_all
  with configure_all_spec[OF assms(2)] have
    "node_configure vt (fst (cs ! k)) (snd (cs ! k)) = (Ok, fst (ds ! k), snd (ds ! k))" by simp
  from node_configure_ports[OF assms(1) this] show "map snd ds ! k = map snd cs ! k" using k by simp
qed

lemma download_configured:
  assumes "download_configure ps = Ok"
  shows "s_domain (in_spec ps) = Dmabuf \<and> s_domain (out_spec ps) = Host \<and>
         s_fmt (in_spec ps) = s_fmt (out_spec ps) \<and> s_fmt (in_spec ps) \<noteq> Unknown \<and> is_linear (in_spec ps)"
proof -
  from assms have "length ps = 2" by (auto simp: download_configure_def split: if_splits)
  then obtain a b where ps: "ps = [a, b]" by (auto simp: numeral_2_eq_2 length_Suc_conv)
  with assms show ?thesis
    by (auto simp: download_configure_def in_spec_def out_spec_def last_input_def last_output_def Let_def
             split: if_splits)
qed

text \<open>Everything \<open>build\<close> goes through on its way to a graph.\<close>

lemma graph_buildE:
  assumes "graph_build vt pl cx rq in_q out_q = Inr g"
  obtains src made ns pss cs bs where
    "in_q" "out_q" "2 \<le> length (pn_steps pl)" "source_spec rq = Inr src"
    "make_nodes vt rq src (length (pn_steps pl)) 0 (pn_steps pl) = Inr made"
    "splice vt 0 made = Inr ns" "negotiate 0 (map snd ns) = Inr pss"
    "configure_all vt 0 (zip (map fst ns) pss) = Inr cs"
    "bind_all vt (request_model cx rq) 0 (map fst cs) = Inr bs"
    "g = \<lparr>g_nodes = bs, g_ports = map snd cs,
          g_edges = replicate (length ns - 1) (new_queue (unat (rq_queue_capacity rq))),
          g_emits = map (\<lambda>i. if i + 1 < length ns then Some i else None) [0..<length ns],
          g_failure_step = 0\<rparr>"
  using assms unfolding graph_build_def by (auto split: if_splits sum.splits)

text \<open>
  The chain of a graph over its plan: \<open>ns\<close> holds the nodes with the ports they asked for
  (\<open>asked_ports\<close>), the bridges among them.
\<close>

definition plan_nodes :: "request \<Rightarrow> 'e option plan \<Rightarrow> 'e node list \<Rightarrow> bool" where
  "plan_nodes rq pl nds \<longleftrightarrow>
     (\<exists>src. source_spec rq = Inr src \<and> length nds = length (pn_steps pl) \<and>
       (\<forall>k < length nds. step_node rq src k (pn_steps pl ! k) = Inr (nds ! k)))"

definition graph_shape :: "request \<Rightarrow> 'e graph \<Rightarrow> bool" where
  "graph_shape rq g \<longleftrightarrow>
     length (g_ports g) = length (g_nodes g) \<and> length (g_emits g) = length (g_nodes g) \<and>
     Suc (length (g_edges g)) = length (g_nodes g) \<and>
     (\<forall>q \<in> set (g_edges g). q = new_queue (unat (rq_queue_capacity rq))) \<and>
     (\<forall>k < length (g_emits g). g_emits g ! k = (if k < length (g_edges g) then Some k else None))"

lemma made_plain:
  assumes "make_nodes vt rq src n i sts = Inr made"
  shows "filter (\<lambda>x. fst x \<noteq> Download) made = made"
proof (rule filter_True, rule ballI)
  fix x assume "x \<in> set made"
  then obtain k where "k < length sts" "x = made ! k"
    using make_nodes_spec[OF assms] by (auto simp: in_set_conv_nth)
  with make_nodes_spec[OF assms] step_node_no_bridge show "fst x \<noteq> Download" by fastforce
qed

lemma graph_build_shape:
  assumes "graph_build vt pl cx rq in_q out_q = Inr g"
  shows "graph_shape rq g"
  using assms
proof (rule graph_buildE)
  fix src made ns pss cs bs
  assume steps: "2 \<le> length (pn_steps pl)" and
    made: "make_nodes vt rq src (length (pn_steps pl)) 0 (pn_steps pl) = Inr made" and
    ns: "splice vt 0 made = Inr ns" and pss: "negotiate 0 (map snd ns) = Inr pss" and
    cs: "configure_all vt 0 (zip (map fst ns) pss) = Inr cs" and
    bs: "bind_all vt (request_model cx rq) 0 (map fst cs) = Inr bs" and
    g: "g = \<lparr>g_nodes = bs, g_ports = map snd cs,
          g_edges = replicate (length ns - 1) (new_queue (unat (rq_queue_capacity rq))),
          g_emits = map (\<lambda>i. if i + 1 < length ns then Some i else None) [0..<length ns],
          g_failure_step = 0\<rparr>"
  have "length pss = length ns" using negotiate_length[OF pss] by simp
  then have lcs: "length cs = length ns" using configure_all_spec[OF cs] by simp
  then have lbs: "length bs = length ns" using bind_all_length[OF bs] by simp
  have "ns \<noteq> []"
  proof -
    have "made \<noteq> []" using make_nodes_spec[OF made] steps by auto
    then obtain a r where "made = a # r" by (cases made) auto
    with splice_head[of vt 0 a r ns] ns show ?thesis by auto
  qed
  then show ?thesis using g lbs lcs by (auto simp: graph_shape_def neq_Nil_conv simp del: upt_Suc)
qed

lemma graph_build_chain:
  assumes built: "graph_build vt pl cx rq in_q out_q = Inr g" and keeps: "keeps_ports vt"
  obtains ns where
    "plan_nodes rq pl (filter (\<lambda>n. n \<noteq> Download) (map fst ns))"
    "asked_ports vt ns" "graph_shape rq g" "length ns = length (g_nodes g)" "2 \<le> length ns"
    "\<And>k. Suc k < length ns \<Longrightarrow>
       out_spec (g_ports g ! k) = in_spec (g_ports g ! Suc k) \<and>
       unify (out_spec (snd (ns ! k))) (in_spec (snd (ns ! Suc k))) = Inr (out_spec (g_ports g ! k))"
    "\<And>k. k < length ns \<Longrightarrow> fst (ns ! k) = Download \<Longrightarrow>
       s_domain (in_spec (g_ports g ! k)) = Dmabuf \<and> s_domain (out_spec (g_ports g ! k)) = Host \<and>
       s_fmt (in_spec (g_ports g ! k)) = s_fmt (out_spec (g_ports g ! k)) \<and>
       s_fmt (in_spec (g_ports g ! k)) \<noteq> Unknown"
proof -
  from built obtain src made ns pss cs bs where
    steps: "2 \<le> length (pn_steps pl)" and src: "source_spec rq = Inr src" and
    made: "make_nodes vt rq src (length (pn_steps pl)) 0 (pn_steps pl) = Inr made" and
    ns: "splice vt 0 made = Inr ns" and pss: "negotiate 0 (map snd ns) = Inr pss" and
    cs: "configure_all vt 0 (zip (map fst ns) pss) = Inr cs" and
    bs: "bind_all vt (request_model cx rq) 0 (map fst cs) = Inr bs" and
    g: "g = \<lparr>g_nodes = bs, g_ports = map snd cs,
          g_edges = replicate (length ns - 1) (new_queue (unat (rq_queue_capacity rq))),
          g_emits = map (\<lambda>i. if i + 1 < length ns then Some i else None) [0..<length ns],
          g_failure_step = 0\<rparr>"
    by (rule graph_buildE)
  note mk = make_nodes_spec[OF made]
  note plain = made_plain[OF made]
  have "map fst (filter (\<lambda>x. fst x \<noteq> Download) ns) = map fst made"
    using splice_nodes[OF ns] plain by simp
  then have kept: "filter (\<lambda>n. n \<noteq> Download) (map fst ns) = map fst made"
    by (simp add: filter_map o_def)
  have len: "length pss = length ns" using negotiate_length[OF pss] by simp
  have lcs: "length cs = length ns" using configure_all_spec[OF cs] len by simp
  have lbs: "length bs = length ns" using bind_all_length[OF bs] lcs by simp
  have ports: "g_ports g = pss" using configure_all_ports[OF keeps cs] g len by simp
  have long: "2 \<le> length ns"
  proof -
    have "length made \<le> length ns"
      using kept length_filter_le[of "\<lambda>n. n \<noteq> Download" "map fst ns"] by simp
    then show ?thesis using mk steps by simp
  qed
  show thesis
  proof (rule that[of ns])
    show "plan_nodes rq pl (filter (\<lambda>n. n \<noteq> Download) (map fst ns))"
      unfolding plan_nodes_def kept using src mk by (intro exI[of _ src]) simp
    have "asked_ports vt made" using mk unfolding asked_ports_def all_set_conv_all_nth by simp
    then show "asked_ports vt ns" by (rule splice_asked[OF ns])
    show "graph_shape rq g" by (rule graph_build_shape[OF built])
    show "length ns = length (g_nodes g)" "2 \<le> length ns" using g lbs long by simp_all
  next
    fix k assume k: "Suc k < length ns"
    from negotiate_Inr[OF pss splice_chained[OF ns], of k] k have
      u: "unify (out_spec (snd (ns ! k))) (in_spec (snd (ns ! Suc k))) = Inr (out_spec (pss ! k))" and
      e: "in_spec (pss ! Suc k) = out_spec (pss ! k)" by simp_all
    from u e ports show "out_spec (g_ports g ! k) = in_spec (g_ports g ! Suc k) \<and>
       unify (out_spec (snd (ns ! k))) (in_spec (snd (ns ! Suc k))) = Inr (out_spec (g_ports g ! k))" by simp
  next
    fix k assume k: "k < length ns" "fst (ns ! k) = Download"
    with configure_all_spec[OF cs] len have
      "node_configure vt Download (pss ! k) = (Ok, cs ! k)" by fastforce
    then have "download_configure (pss ! k) = Ok" by simp
    from download_configured[OF this] show
      "s_domain (in_spec (g_ports g ! k)) = Dmabuf \<and> s_domain (out_spec (g_ports g ! k)) = Host \<and>
       s_fmt (in_spec (g_ports g ! k)) = s_fmt (out_spec (g_ports g ! k)) \<and>
       s_fmt (in_spec (g_ports g ! k)) \<noteq> Unknown" unfolding ports by blast
  qed
qed



text \<open>
  Sample objects: a decoder (0) that produces Dmabuf pictures, a Host encoder that rejects its
  configuration (1) and one that accepts it (2).
\<close>

definition sample_class :: "nat node_class" where
  "sample_class =
     \<lparr>vt_id = (\<lambda>e. ''sample''),
      vt_make_ports = (\<lambda>e. if e = 0
        then [make_port ''bitstream'' True (default_spec\<lparr>s_fmt := Bitstream\<rparr>),
              make_port ''video'' False (nv12_spec Dmabuf)]
        else [make_port ''video'' True (nv12_spec Host),
              make_port ''bitstream'' False (default_spec\<lparr>s_fmt := Bitstream\<rparr>)]),
      vt_configure = (\<lambda>e ps. (if e = 1 then Negotiate else base_configure ps, e, ps)),
      vt_wants_model = (\<lambda>e. False),
      vt_bind_model = (\<lambda>e m. (Ok, e)),
      vt_open = (\<lambda>e b. (Ok, e)),
      vt_close = (\<lambda>e. e)\<rparr>"

definition object_factory :: "string \<Rightarrow> node_stage \<Rightarrow> int \<Rightarrow> nat \<Rightarrow> nat option factory" where
  "object_factory i st pr e = \<lparr>fc_id = i, fc_stage = st, fc_transport = InternalTransport, fc_priority = pr,
     fc_matches = (\<lambda>_ _. True), fc_score = (\<lambda>_ _. 0), fc_create = (\<lambda>_. Inr (Some e))\<rparr>"

definition sample_plan :: "nat \<Rightarrow> nat option plan" where
  "sample_plan k =
     \<lparr>pn_steps =
        [(make_step SourceStage [])\<lparr>ps_adapter_source := True\<rparr>,
         make_step DecodeStage [object_factory ''dec'' DecodeStage 0 0],
         (make_step EncodeStage [object_factory ''enc.a'' EncodeStage 1 1, object_factory ''enc.b'' EncodeStage 0 2])
           \<lparr>ps_index := k\<rparr>,
         (make_step SinkStage [])\<lparr>ps_adapter_sink := True\<rparr>],
      pn_fallbacks = k\<rparr>"

definition bitstream_spec :: spec where
  "bitstream_spec = default_spec\<lparr>s_fmt := Bitstream\<rparr>"

definition transcode_request :: request where
  "transcode_request = default_request\<lparr>rq_operation := Transcode, rq_input_spec := bitstream_spec,
     rq_output_spec := bitstream_spec\<rparr>"

definition object_context :: "nat option media_context" where
  "object_context =
     \<lparr>cx_registry = \<lparr>rg_owned = [object_factory ''dec'' DecodeStage 0 0,
        object_factory ''enc.a'' EncodeStage 1 1, object_factory ''enc.b'' EncodeStage 0 2], rg_borrowed = []\<rparr>,
      cx_models = [], cx_caps = no_caps, cx_caps_probed = False\<rparr>"

lemma sample_keeps: "keeps_ports sample_class"
  by (simp add: keeps_ports_def sample_class_def)


section \<open>Opening\<close>

lemma close_down_calls:
  "snd (close_down vt j ns) = map CloseCall (rev [0..<j])" "length (fst (close_down vt j ns)) = length ns"
  by (induction j arbitrary: ns) (auto split: prod.splits simp: prod_eq_iff)

lemma open_loop_calls:
  "open_loop vt k i ns = (st, fl, ns', cs) \<Longrightarrow>
     length ns' = length ns \<and>
     (if st = Ok then cs = map OpenCall [i..<i + k]
      else i \<le> fl \<and> fl < i + k \<and> cs = map OpenCall [i..<Suc fl] @ map CloseCall (rev [0..<fl]))"
proof (induction k arbitrary: i ns ns' cs)
  case (Suc k)
  obtain o_st nd where nd: "node_open vt (ns ! i) True = (o_st, nd)" by (cases "node_open vt (ns ! i) True")
  show ?case
  proof (cases "o_st = Ok")
    case True
    with Suc.prems nd obtain cs' where rec: "open_loop vt k (i + 1) (ns[i := nd]) = (st, fl, ns', cs')"
      and cs: "cs = OpenCall i # cs'" by (auto split: prod.splits)
    from Suc.IH[OF rec] cs show ?thesis by (auto simp: upt_conv_Cons split: if_splits)
  next
    case False
    with Suc.prems nd close_down_calls[of vt i "ns[i := nd]"] show ?thesis
      by (auto split: prod.splits)
  qed
qed simp

text \<open>
  C18. \<open>Graph::open\<close> opens the nodes in chain order. When node \<open>k\<close> refuses, \<open>failure_step\<close> is \<open>k\<close>,
  no later node is opened, and exactly the nodes opened before it are closed, in reverse order.
\<close>

theorem open_rolls_back:
  "case graph_open vt g of (st, g', calls) \<Rightarrow>
     length (g_nodes g') = length (g_nodes g) \<and> g_ports g' = g_ports g \<and> g_edges g' = g_edges g \<and>
     (if st = Ok then calls = map OpenCall [0..<length (g_nodes g)]
      else g_failure_step g' < length (g_nodes g) \<and>
           calls = map OpenCall [0..<Suc (g_failure_step g')] @ map CloseCall (rev [0..<g_failure_step g']))"
proof -
  obtain st fl ns cs where o: "open_loop vt (length (g_nodes g)) 0 (g_nodes g) = (st, fl, ns, cs)"
    by (cases "open_loop vt (length (g_nodes g)) 0 (g_nodes g)")
  from open_loop_calls[OF o] show ?thesis by (auto simp: graph_open_def o)
qed

section \<open>Bridges against the caller\<close>

lemma download_unresolved:
  "download_configure [a, b] = Negotiate" if "s_fmt (p_resolved b) = Unknown"
  using that by (simp add: download_configure_def base_configure_def)

text \<open>
  A node whose output is a linear Dmabuf picture of a known format, in front of a caller sink
  that leaves the output specification at its default, always gets a bridge, the bridge's output
  format stays Unknown, and \<open>build\<close> refuses the chain: with a node that accepts everything else
  the request fails with \<open>Negotiate\<close> at index 2.
\<close>

theorem dmabuf_to_default_sink_refused:
  assumes steps: "pn_steps pl = [src_st, st, snk_st]"
    and "ps_adapter_source src_st" "\<not> ps_adapter_source st" "\<not> ps_adapter_sink st"
    and "\<not> ps_adapter_source snk_st" "ps_adapter_sink snk_st"
    and cand: "ps_index st < length (ps_candidates st)"
      "fc_create (ps_candidates st ! ps_index st) rq = Inr (Some e)"
    and ports: "vt_make_ports vt e = [i, out]" "p_is_input i" "\<not> p_is_input out"
    and out: "s_domain (p_desired out) = Dmabuf" "s_fmt (p_desired out) \<noteq> Unknown" "is_linear (p_desired out)"
    and src: "source_spec rq = Inr s" "s_fmt s \<noteq> Unknown" "s_domain s = Host" "unify s (p_desired i) = Inr r"
    and accept: "\<And>ps. fst (vt_configure vt e ps) = Ok" "keeps_ports vt"
    and sink: "rq_output_spec rq = default_spec"
  shows "graph_build vt pl cx rq True True = Inl (2, Negotiate, ''configure rejected'')"
proof -
  have rf: "s_fmt r \<noteq> Unknown" using unify_known_sides[OF src(4)] src(2) by (auto simp: refines_def)
  have nb: "\<not> needs_download_bridge s (p_desired i)" using src(3) by (simp add: needs_download_bridge_def)
  have b: "needs_download_bridge (p_desired out) default_spec"
    using out by (simp add: needs_download_bridge_def default_spec_def unify_def)
  have bu: "unify (p_desired out) (default_spec\<lparr>s_domain := Dmabuf\<rparr>) = Inr (p_desired out)"
    "unify (default_spec\<lparr>s_domain := Host\<rparr>) default_spec = Inr default_spec"
    using out by (simp_all add: unify_def default_spec_def)
  have cfg: "\<And>ps. \<exists>e'. vt_configure vt e ps = (Ok, e', ps)"
    using accept by (metis keeps_ports_def prod.collapse)
  define src_p where "src_p = (make_port ''out'' False s)\<lparr>p_resolved := s\<rparr>"
  define snk_p where "snk_p = (make_port ''in'' True default_spec)\<lparr>p_resolved := default_spec\<rparr>"
  define in_p where "in_p = i\<lparr>p_resolved := p_desired i\<rparr>"
  define out_p where "out_p = out\<lparr>p_resolved := p_desired out\<rparr>"
  let ?dl = "init_ports (node_make_ports vt Download)"
  let ?made = "[(SourceAdapter True s, [src_p]), (Other e, [in_p, out_p]), (SinkAdapter True default_spec, [snk_p])]"
  let ?ns = "[(SourceAdapter True s, [src_p]), (Other e, [in_p, out_p]), (Download, ?dl),
              (SinkAdapter True default_spec, [snk_p])]"
  have dirs: "\<not> p_is_input src_p" "p_is_input in_p" "\<not> p_is_input out_p" "p_is_input snk_p"
    using ports by (simp_all add: src_p_def in_p_def out_p_def snk_p_def make_port_def)
  have res: "p_resolved src_p = s" "p_resolved in_p = p_desired i" "p_resolved out_p = p_desired out"
    "p_resolved snk_p = default_spec"
    by (simp_all add: src_p_def in_p_def out_p_def snk_p_def)
  have "step_node rq s 0 src_st = Inr (SourceAdapter True s)" "step_node rq s 1 st = Inr (Other e)"
    "step_node rq s 2 snk_st = Inr (SinkAdapter True default_spec)"
    using assms(2-6) cand sink by (simp_all add: step_node_def)
  then have made: "make_nodes vt rq s 3 0 [src_st, st, snk_st] = Inr ?made"
    using ports
    by (simp add: arity_ok_def inputs_def outputs_def init_ports_def make_port_def numeral_2_eq_2
        src_p_def in_p_def out_p_def snk_p_def)
  have splice: "splice vt 0 ?made = Inr ?ns"
    using dirs res nb b by (simp add: last_output_def)
  define dl_in where "dl_in = (make_port ''in'' True (default_spec\<lparr>s_domain := Dmabuf\<rparr>))\<lparr>p_resolved := p_desired out\<rparr>"
  define dl_out where "dl_out = (make_port ''out'' False (default_spec\<lparr>s_domain := Host\<rparr>))\<lparr>p_resolved := default_spec\<rparr>"
  have neg: "negotiate 0 (map snd ?ns) =
     Inr [[src_p\<lparr>p_resolved := r\<rparr>], [in_p\<lparr>p_resolved := r\<rparr>, out_p\<lparr>p_resolved := p_desired out\<rparr>],
          [dl_in, dl_out], [snk_p\<lparr>p_resolved := default_spec\<rparr>]]"
    using dirs res bu src(4)
    by (simp add: last_output_def last_input_def set_last_def init_ports_def make_port_def dl_in_def dl_out_def)
  obtain e' where e': "vt_configure vt e [in_p\<lparr>p_resolved := r\<rparr>, out_p\<lparr>p_resolved := p_desired out\<rparr>] =
      (Ok, e', [in_p\<lparr>p_resolved := r\<rparr>, out_p\<lparr>p_resolved := p_desired out\<rparr>])"
    using cfg by blast
  have "download_configure [dl_in, dl_out] = Negotiate"
    by (rule download_unresolved) (simp add: dl_out_def default_spec_def)
  then have conf: "configure_all vt 0 (zip (map fst ?ns)
      [[src_p\<lparr>p_resolved := r\<rparr>], [in_p\<lparr>p_resolved := r\<rparr>, out_p\<lparr>p_resolved := p_desired out\<rparr>],
       [dl_in, dl_out], [snk_p\<lparr>p_resolved := default_spec\<rparr>]]) = Inl (2, Negotiate, ''configure rejected'')"
    using rf e' by (simp add: base_configure_def)
  show ?thesis
    using made splice neg conf src(1) unfolding graph_build_def steps by (simp add: numeral_3_eq_3)
qed


definition decode_request :: request where
  "decode_request = default_request\<lparr>rq_operation := Decode, rq_input_spec := bitstream_spec\<rparr>"

definition decode_plan :: "nat option plan" where
  "decode_plan =
     \<lparr>pn_steps =
        [(make_step SourceStage [])\<lparr>ps_adapter_source := True\<rparr>,
         make_step DecodeStage [object_factory ''dec'' DecodeStage 0 0],
         (make_step SinkStage [])\<lparr>ps_adapter_sink := True\<rparr>],
      pn_fallbacks = 0\<rparr>"

definition open_class :: "nat node_class" where
  "open_class = sample_class\<lparr>vt_configure := (\<lambda>e ps. (Ok, e, ps))\<rparr>"

theorem dmabuf_to_default_sink_refused_witness:
  "graph_build open_class decode_plan object_context decode_request True True =
     Inl (2, Negotiate, ''configure rejected'')"
proof (rule dmabuf_to_default_sink_refused)
  show "pn_steps decode_plan =
    [(make_step SourceStage [])\<lparr>ps_adapter_source := True\<rparr>,
     make_step DecodeStage [object_factory ''dec'' DecodeStage 0 0],
     (make_step SinkStage [])\<lparr>ps_adapter_sink := True\<rparr>]" by (simp add: decode_plan_def)
  show "vt_make_ports open_class 0 =
    [make_port ''bitstream'' True bitstream_spec, make_port ''video'' False (nv12_spec Dmabuf)]"
    by (simp add: open_class_def sample_class_def bitstream_spec_def)
  show "source_spec decode_request = Inr bitstream_spec"
    by (simp add: source_spec_def decode_request_def default_request_def bitstream_spec_def)
  show "unify bitstream_spec (p_desired (make_port ''bitstream'' True bitstream_spec)) = Inr bitstream_spec"
    by (simp add: unify_def make_port_def bitstream_spec_def default_spec_def merge_dim_def)
qed (simp_all add: make_step_def object_factory_def make_port_def nv12_spec_def default_spec_def is_linear_def
  bitstream_spec_def open_class_def sample_class_def keeps_ports_def decode_request_def default_request_def)

end
