(* ===== verification/Pipeline_Executor.thy ===== *)
theory Pipeline_Executor
  imports Bounded_Queue
begin

text \<open>
  The executor, \<open>core/src/executor.cpp\<close>: one worker thread per node over the edge queues. A worker is
  a small state machine whose control state is its place in \<open>worker\<close> and \<open>fail\<close>; the threads interleave
  as steps of \<open>exec_step\<close>, and a step takes one mutex at most: recording the error, cancelling the
  input queue, cancelling each edge, ending the output queue and counting the exit are steps of their
  own, between which every other thread may run. \<open>shutdown\<close> cancels queue by queue in the same way. What a
  node does inside \<open>process\<close> and \<open>flush\<close> is arbitrary: it emits any frames and returns any status. A
  call that blocks on a queue is a step that is not enabled.
\<close>

section \<open>State\<close>

text \<open>
  \<open>Failing s\<close> has called \<open>fail (s)\<close>; \<open>CancelIn s\<close> has recorded the error and cancels the input queue next;
  \<open>CancelEdge s k\<close> cancels edge \<open>k\<close> next; \<open>CancelOut s\<close> is the sink back from \<open>fail\<close>; \<open>Ending\<close> has flushed
  and closes the queue after it next; \<open>Exiting\<close> is about to run its guard.
\<close>

datatype worker =
    Ready | Busy | Flushing | Failing status | CancelIn status | CancelEdge status nat | CancelOut status
  | Ending | Exiting | Done

text \<open>The place of the thread that is in \<open>shutdown\<close>.\<close>

datatype closer = Idle | CloseIn | CloseOut | CloseEdge nat | Joining

record 'a pipeline =
  px_in :: "'a bqueue"
  px_out :: "'a bqueue"
  px_edges :: "'a bqueue list"
  px_workers :: "worker list"
  px_error :: status
  px_active :: nat
  px_launched :: bool
  px_closer :: closer

definition new_pipeline :: "'a bqueue \<Rightarrow> 'a bqueue \<Rightarrow> 'a bqueue list \<Rightarrow> 'a pipeline" where
  "new_pipeline inq outq es =
     \<lparr>px_in = inq, px_out = outq, px_edges = es, px_workers = [], px_error = Ok, px_active = 0,
      px_launched = False, px_closer = Idle\<rparr>"

text \<open>\<open>n\<close> is the node count of the graph.\<close>

definition exec_launch :: "nat \<Rightarrow> bool \<Rightarrow> bool \<Rightarrow> 'a pipeline \<Rightarrow> status \<times> 'a pipeline" where
  "exec_launch n in_q out_q px =
     (if px_launched px \<or> \<not> in_q \<or> \<not> out_q \<or> n < 2 then (Invalid, px)
      else (Ok, px\<lparr>px_launched := True, px_active := n, px_workers := replicate n Ready\<rparr>))"

definition set_worker :: "nat \<Rightarrow> worker \<Rightarrow> 'a pipeline \<Rightarrow> 'a pipeline" where
  "set_worker i w px = px\<lparr>px_workers := (px_workers px)[i := w]\<rparr>"

definition set_edge :: "nat \<Rightarrow> 'a bqueue \<Rightarrow> 'a pipeline \<Rightarrow> 'a pipeline" where
  "set_edge k q px = px\<lparr>px_edges := (px_edges px)[k := q]\<rparr>"

text \<open>\<open>shutdown\<close>: its entry, one of its cancellations, and the joins, which wait for every worker.\<close>

definition exec_shutdown :: "'a pipeline \<Rightarrow> 'a pipeline" where
  "exec_shutdown px = (if px_launched px then px\<lparr>px_closer := CloseIn\<rparr> else px)"

definition exec_cancel_next :: "'a pipeline \<Rightarrow> 'a pipeline" where
  "exec_cancel_next px =
     (case px_closer px of
        CloseIn \<Rightarrow> px\<lparr>px_in := q_cancel Canceled (px_in px), px_closer := CloseOut\<rparr>
      | CloseOut \<Rightarrow> px\<lparr>px_out := q_cancel Canceled (px_out px), px_closer := CloseEdge 0\<rparr>
      | CloseEdge k \<Rightarrow>
          if k < length (px_edges px)
          then set_edge k (q_cancel Canceled (px_edges px ! k)) px\<lparr>px_closer := CloseEdge (Suc k)\<rparr>
          else px\<lparr>px_closer := Joining\<rparr>
      | _ \<Rightarrow> px)"

definition exec_join :: "'a pipeline \<Rightarrow> 'a pipeline option" where
  "exec_join px =
     (if \<not> px_launched px then Some px
      else if px_closer px = Joining \<and> (\<forall>w \<in> set (px_workers px). w = Done)
      then Some (px\<lparr>px_workers := [], px_launched := False, px_closer := Idle\<rparr>)
      else None)"

text \<open>\<open>wait\<close>: the error once no worker is active.\<close>

definition exec_wait :: "'a pipeline \<Rightarrow> status option" where
  "exec_wait px = (if px_active px = 0 then Some (px_error px) else None)"

section \<open>The last steps of a worker\<close>

definition is_sink :: "'a pipeline \<Rightarrow> nat \<Rightarrow> bool" where
  "is_sink px i \<longleftrightarrow> i \<ge> length (px_edges px)"

text \<open>Back from \<open>fail\<close>.\<close>

definition after_fail :: "'a pipeline \<Rightarrow> nat \<Rightarrow> status \<Rightarrow> worker" where
  "after_fail px i s = (if i \<noteq> 0 \<and> is_sink px i then CancelOut s else Exiting)"

text \<open>\<open>fail\<close> up to the end of its critical section: only the first error is kept.\<close>

definition exec_fail :: "nat \<Rightarrow> status \<Rightarrow> 'a pipeline \<Rightarrow> 'a pipeline" where
  "exec_fail i s px =
     (if s = Ok \<or> s = Again \<or> s = Eof \<or> px_error px \<noteq> Ok then set_worker i (after_fail px i s) px
      else set_worker i (CancelIn s) (px\<lparr>px_error := s\<rparr>))"

text \<open>One cancellation of \<open>fail\<close>.\<close>

definition fail_cancel :: "nat \<Rightarrow> 'a pipeline \<Rightarrow> 'a pipeline" where
  "fail_cancel i px =
     (case px_workers px ! i of
        CancelIn s \<Rightarrow> set_worker i (CancelEdge s 0) (px\<lparr>px_in := q_cancel s (px_in px)\<rparr>)
      | CancelEdge s k \<Rightarrow>
          if k < length (px_edges px)
          then set_worker i (CancelEdge s (Suc k)) (set_edge k (q_cancel s (px_edges px ! k)) px)
          else set_worker i (after_fail px i s) px
      | _ \<Rightarrow> px)"

text \<open>The sink ends the output queue with the error; the end of the input ends the queue after the node.\<close>

definition worker_error :: "nat \<Rightarrow> status \<Rightarrow> 'a pipeline \<Rightarrow> 'a pipeline" where
  "worker_error i s px = set_worker i Exiting (px\<lparr>px_out := q_cancel s (px_out px)\<rparr>)"

definition worker_end :: "nat \<Rightarrow> 'a pipeline \<Rightarrow> 'a pipeline" where
  "worker_end i px =
     set_worker i Exiting
       (if \<not> is_sink px i then set_edge i (q_close (px_edges px ! i)) px
        else if i = 0 then px
        else px\<lparr>px_out := q_close (px_out px)\<rparr>)"

text \<open>The guard object of a worker.\<close>

definition worker_exit :: "nat \<Rightarrow> 'a pipeline \<Rightarrow> 'a pipeline" where
  "worker_exit i px = set_worker i Done (px\<lparr>px_active := px_active px - 1\<rparr>)"

section \<open>Steps\<close>

text \<open>
  The events: a worker enters \<open>process\<close> (the source without a frame), takes a frame, learns the end
  of its input, emits onto its edge, the source adapter takes from the input queue, the sink
  adapter delivers to the output queue, \<open>process\<close> or \<open>flush\<close> returns, the steps of \<open>fail\<close> and of the exit;
  the caller calls on the two session queues, and shuts down.
\<close>

datatype 'a exec_event =
    Tick | Take nat 'a | InputEnd nat status | Emit nat 'a status | SourcePop "'a result"
  | SinkPush 'a status | Return nat status | Flushed nat status
  | Fail nat status | Cancels nat | OutCancel nat status | EndOutput nat | Exit nat
  | CallIn "'a q_call" | CallOut "'a q_call" | Shutdown | ShutdownCancel

inductive exec_step :: "'a pipeline \<Rightarrow> 'a exec_event \<Rightarrow> 'a pipeline \<Rightarrow> bool" where
  tick: "px_workers px = Ready # ws \<Longrightarrow> exec_step px Tick (set_worker 0 Busy px)"
| take: "0 < i \<Longrightarrow> i < length (px_workers px) \<Longrightarrow> px_workers px ! i = Ready \<Longrightarrow>
    q_pop (px_edges px ! (i - 1)) = Some (Inr f, q') \<Longrightarrow>
    exec_step px (Take i f) (set_worker i Busy (set_edge (i - 1) q' px))"
| input_eof: "0 < i \<Longrightarrow> i < length (px_workers px) \<Longrightarrow> px_workers px ! i = Ready \<Longrightarrow>
    q_pop (px_edges px ! (i - 1)) = Some (Inl (Eof, why), q') \<Longrightarrow>
    exec_step px (InputEnd i Eof) (set_worker i Flushing px)"
| input_error: "0 < i \<Longrightarrow> i < length (px_workers px) \<Longrightarrow> px_workers px ! i = Ready \<Longrightarrow>
    q_pop (px_edges px ! (i - 1)) = Some (Inl (s, why), q') \<Longrightarrow> s \<noteq> Eof \<Longrightarrow>
    exec_step px (InputEnd i s) (set_worker i (Failing s) px)"
| emit: "i < length (px_workers px) \<Longrightarrow> px_workers px ! i = Busy \<or> px_workers px ! i = Flushing \<Longrightarrow>
    i < length (px_edges px) \<Longrightarrow> q_push f (px_edges px ! i) = Some (s, q') \<Longrightarrow>
    exec_step px (Emit i f s) (set_edge i q' px)"
| source_pop: "px_workers px = Busy # ws \<Longrightarrow> q_pop (px_in px) = Some (r, q') \<Longrightarrow>
    exec_step px (SourcePop r) (px\<lparr>px_in := q'\<rparr>)"
| sink_push: "px_workers px ! length (px_edges px) = Busy \<Longrightarrow> length (px_edges px) < length (px_workers px) \<Longrightarrow>
    q_push f (px_out px) = Some (s, q') \<Longrightarrow>
    exec_step px (SinkPush f s) (px\<lparr>px_out := q'\<rparr>)"
| return_ok: "i < length (px_workers px) \<Longrightarrow> px_workers px ! i = Busy \<Longrightarrow>
    exec_step px (Return i Ok) (set_worker i Ready px)"
| return_eof: "px_workers px = Busy # ws \<Longrightarrow> exec_step px (Return 0 Eof) (set_worker 0 Flushing px)"
| return_error: "i < length (px_workers px) \<Longrightarrow> px_workers px ! i = Busy \<Longrightarrow> s \<noteq> Ok \<Longrightarrow> i \<noteq> 0 \<or> s \<noteq> Eof \<Longrightarrow>
    exec_step px (Return i s) (set_worker i (Failing s) px)"
| flush_ok: "i < length (px_workers px) \<Longrightarrow> px_workers px ! i = Flushing \<Longrightarrow>
    exec_step px (Flushed i Ok) (set_worker i Ending px)"
| flush_error: "i < length (px_workers px) \<Longrightarrow> px_workers px ! i = Flushing \<Longrightarrow> s \<noteq> Ok \<Longrightarrow>
    exec_step px (Flushed i s) (set_worker i (Failing s) px)"
| fail: "i < length (px_workers px) \<Longrightarrow> px_workers px ! i = Failing s \<Longrightarrow>
    exec_step px (Fail i s) (exec_fail i s px)"
| cancels: "i < length (px_workers px) \<Longrightarrow> (\<exists>s k. px_workers px ! i = CancelIn s \<or> px_workers px ! i = CancelEdge s k) \<Longrightarrow>
    exec_step px (Cancels i) (fail_cancel i px)"
| out_cancel: "i < length (px_workers px) \<Longrightarrow> px_workers px ! i = CancelOut s \<Longrightarrow>
    exec_step px (OutCancel i s) (worker_error i s px)"
| end_output: "i < length (px_workers px) \<Longrightarrow> px_workers px ! i = Ending \<Longrightarrow>
    exec_step px (EndOutput i) (worker_end i px)"
| exit: "i < length (px_workers px) \<Longrightarrow> px_workers px ! i = Exiting \<Longrightarrow>
    exec_step px (Exit i) (worker_exit i px)"
| call_in: "c = Close \<or> (\<exists>f s. c = TryPush f s) \<Longrightarrow> q_step (px_in px) c q' \<Longrightarrow>
    exec_step px (CallIn c) (px\<lparr>px_in := q'\<rparr>)"
| call_out: "(\<exists>r. c = Pop r \<or> c = TryPop r) \<Longrightarrow> q_step (px_out px) c q' \<Longrightarrow>
    exec_step px (CallOut c) (px\<lparr>px_out := q'\<rparr>)"
| shutdown: "px_closer px = Idle \<Longrightarrow> exec_step px Shutdown (exec_shutdown px)"
| shutdown_cancel: "px_closer px \<noteq> Idle \<Longrightarrow> px_closer px \<noteq> Joining \<Longrightarrow>
    exec_step px ShutdownCancel (exec_cancel_next px)"

inductive exec_run :: "'a pipeline \<Rightarrow> 'a exec_event list \<Rightarrow> 'a pipeline \<Rightarrow> bool" where
  exec_Nil: "exec_run px [] px"
| exec_snoc: "exec_run px evs px' \<Longrightarrow> exec_step px' e px'' \<Longrightarrow> exec_run px (evs @ [e]) px''"

inductive_cases exec_stepE: "exec_step px e px'"

text \<open>The worker that an event moves.\<close>

fun actor :: "'a exec_event \<Rightarrow> nat option" where
  "actor Tick = Some 0"
| "actor (Take i f) = Some i"
| "actor (InputEnd i s) = Some i"
| "actor (Return i s) = Some i"
| "actor (Flushed i s) = Some i"
| "actor (Fail i s) = Some i"
| "actor (Cancels i) = Some i"
| "actor (OutCancel i s) = Some i"
| "actor (EndOutput i) = Some i"
| "actor (Exit i) = Some i"
| "actor _ = None"

section \<open>Cancellations under way\<close>

text \<open>A status that \<open>fail\<close> and \<open>cancel\<close> do not ignore.\<close>

definition effective :: "status \<Rightarrow> bool" where
  "effective s \<longleftrightarrow> s \<noteq> Ok \<and> s \<noteq> Again \<and> s \<noteq> Eof"

fun cancels_in :: "worker \<Rightarrow> bool" where
  "cancels_in (CancelIn s) \<longleftrightarrow> effective s"
| "cancels_in w \<longleftrightarrow> False"

fun cancels_edge :: "nat \<Rightarrow> worker \<Rightarrow> bool" where
  "cancels_edge k (CancelIn s) \<longleftrightarrow> effective s"
| "cancels_edge k (CancelEdge s j) \<longleftrightarrow> effective s \<and> j \<le> k"
| "cancels_edge k w \<longleftrightarrow> False"

text \<open>Ended, or about to be cancelled by a worker inside \<open>fail\<close>.\<close>

definition in_settled :: "'a pipeline \<Rightarrow> bool" where
  "in_settled px \<longleftrightarrow> q_end (px_in px) \<or> (\<exists>w \<in> set (px_workers px). cancels_in w)"

definition edge_settled :: "'a pipeline \<Rightarrow> nat \<Rightarrow> bool" where
  "edge_settled px k \<longleftrightarrow> q_end (px_edges px ! k) \<or> (\<exists>w \<in> set (px_workers px). cancels_edge k w)"

definition exec_inv :: "'a pipeline \<Rightarrow> bool" where
  "exec_inv px \<longleftrightarrow>
     0 < length (px_edges px) \<and> length (px_workers px) = Suc (length (px_edges px)) \<and>
     px_active px = length (filter (\<lambda>w. w \<noteq> Done) (px_workers px)) \<and>
     q_inv (px_in px) \<and> q_inv (px_out px) \<and> (\<forall>q \<in> set (px_edges px). q_inv q) \<and>
     (px_error px \<noteq> Ok \<longrightarrow> effective (px_error px)) \<and>
     (px_error px \<noteq> Ok \<longrightarrow> in_settled px \<and> (\<forall>k < length (px_edges px). edge_settled px k))"

lemma q_inv_cancel: "q_inv q \<Longrightarrow> q_inv (q_cancel s q)"
  by (auto simp: q_inv_def q_cancel_def)

lemma q_inv_close: "q_inv q \<Longrightarrow> q_inv (q_close q)"
  by (auto simp: q_inv_def q_close_def)

lemma q_inv_pop: "q_inv q \<Longrightarrow> q_pop q = Some (r, q') \<Longrightarrow> q_inv q'"
  by (auto simp: q_inv_def q_pop_def split: if_splits list.splits)

lemma q_inv_push: "q_inv q \<Longrightarrow> q_push v q = Some (s, q') \<Longrightarrow> q_inv q'"
  by (auto simp: q_inv_def q_push_def split: if_splits)

lemma q_end_pop: "q_pop q = Some (r, q') \<Longrightarrow> q_end q' = q_end q"
  by (auto simp: q_pop_def split: if_splits list.splits)

lemma q_end_push: "q_push v q = Some (s, q') \<Longrightarrow> q_end q' = q_end q"
  by (auto simp: q_push_def split: if_splits)

lemma q_end_cancel: "q_end q \<Longrightarrow> q_end (q_cancel s q)"
  by (simp add: q_cancel_def)

lemma q_end_cancelled: "effective s \<Longrightarrow> q_end (q_cancel s q)"
  by (simp add: q_cancel_def effective_def)

lemma q_end_close: "q_end (q_close q)"
  by (simp add: q_close_def)

lemma q_end_step: "q_end q \<Longrightarrow> q_step q c q' \<Longrightarrow> q_end q'"
  by (cases c) (auto simp: queue_defs split: if_splits list.splits)

lemma q_end_step_eq: "(\<exists>r. c = Pop r \<or> c = TryPop r) \<Longrightarrow> q_step q c q' \<Longrightarrow> q_end q' = q_end q"
  by (auto simp: queue_defs split: if_splits list.splits)

lemma end_status: "q_inv q \<Longrightarrow> q_pop q = Some (Inl (s, why), q') \<Longrightarrow> s \<noteq> Ok \<and> s \<noteq> Again \<and> q_end q"
  by (auto simp: q_inv_def q_pop_def split: if_splits list.splits)

lemma active_update:
  "i < length ws \<Longrightarrow> ws ! i \<noteq> Done \<Longrightarrow>
     length (filter (\<lambda>w. w \<noteq> Done) (ws[i := w'])) =
       (if w' = Done then length (filter (\<lambda>w. w \<noteq> Done) ws) - 1 else length (filter (\<lambda>w. w \<noteq> Done) ws))"
proof (induction ws arbitrary: i)
  case (Cons w ws)
  show ?case
  proof (cases i)
    case (Suc j)
    with Cons have "filter (\<lambda>w. w \<noteq> Done) ws \<noteq> []"
      by (auto simp: filter_empty_conv)
    then show ?thesis using Cons Suc by (cases "length (filter (\<lambda>w. w \<noteq> Done) ws)") auto
  qed (use Cons in auto)
qed simp

lemma set_worker_fields [simp]:
  "px_workers (set_worker i w px) = (px_workers px)[i := w]" "px_edges (set_worker i w px) = px_edges px"
  "px_error (set_worker i w px) = px_error px" "px_out (set_worker i w px) = px_out px"
  "px_in (set_worker i w px) = px_in px" "px_active (set_worker i w px) = px_active px"
  "px_launched (set_worker i w px) = px_launched px" "px_closer (set_worker i w px) = px_closer px"
  by (simp_all add: set_worker_def)

lemma set_edge_fields [simp]:
  "px_workers (set_edge k q px) = px_workers px" "px_edges (set_edge k q px) = (px_edges px)[k := q]"
  "px_error (set_edge k q px) = px_error px" "px_out (set_edge k q px) = px_out px"
  "px_in (set_edge k q px) = px_in px" "px_active (set_edge k q px) = px_active px"
  "px_launched (set_edge k q px) = px_launched px" "px_closer (set_edge k q px) = px_closer px"
  by (simp_all add: set_edge_def)

lemma edge_mem: "exec_inv px \<Longrightarrow> k < length (px_edges px) \<Longrightarrow> q_inv (px_edges px ! k)"
  by (simp add: exec_inv_def)

section \<open>Invariant\<close>

text \<open>Nothing that was ended or about to be cancelled is lost in a step.\<close>

definition settles :: "'a pipeline \<Rightarrow> 'a pipeline \<Rightarrow> bool" where
  "settles px px' \<longleftrightarrow> length (px_edges px') = length (px_edges px) \<and> (in_settled px \<longrightarrow> in_settled px') \<and>
     (\<forall>k < length (px_edges px). edge_settled px k \<longrightarrow> edge_settled px' k) \<and>
     (\<forall>k < length (px_edges px). q_end (px_edges px ! k) \<longrightarrow> q_end (px_edges px' ! k)) \<and>
     (q_end (px_out px) \<longrightarrow> q_end (px_out px'))"

lemma settles_refl: "settles px px"
  by (simp add: settles_def)

lemma settles_trans: "settles px px' \<Longrightarrow> settles px' px'' \<Longrightarrow> settles px px''"
  by (simp add: settles_def)

lemma other_worker: "w \<in> set ws \<Longrightarrow> w \<noteq> ws ! i \<Longrightarrow> w \<in> set (ws[i := w'])"
  by (metis in_set_conv_nth length_list_update nth_list_update_neq)

lemma settles_worker:
  assumes "i < length (px_workers px)" "px_workers px' = (px_workers px)[i := w']"
    and "length (px_edges px') = length (px_edges px)" "q_end (px_in px) \<longrightarrow> q_end (px_in px')"
    and out: "q_end (px_out px) \<longrightarrow> q_end (px_out px')"
    and "\<forall>k < length (px_edges px). q_end (px_edges px ! k) \<longrightarrow> q_end (px_edges px' ! k)"
    and "cancels_in (px_workers px ! i) \<longrightarrow> cancels_in w' \<or> q_end (px_in px')"
    and "\<forall>k < length (px_edges px). cancels_edge k (px_workers px ! i) \<longrightarrow> cancels_edge k w' \<or> q_end (px_edges px' ! k)"
  shows "settles px px'"
proof -
  have w': "w' \<in> set (px_workers px')" using assms(1,2) by (simp add: set_update_memI)
  have keep: "(\<exists>w \<in> set (px_workers px'). P w) \<or> P (px_workers px ! i)" if "\<exists>w \<in> set (px_workers px). P w" for P
    using that other_worker [of _ "px_workers px" i w'] assms(2) by metis
  have "in_settled px \<longrightarrow> in_settled px'"
    using keep [of cancels_in] w' assms(4,7) unfolding in_settled_def by blast
  moreover have "\<forall>k < length (px_edges px). edge_settled px k \<longrightarrow> edge_settled px' k"
    using keep [of "cancels_edge _"] w' assms(6,8) unfolding edge_settled_def by blast
  ultimately show ?thesis using assms(3,6) out by (simp add: settles_def)
qed

lemma settles_queues:
  assumes "px_workers px' = px_workers px" "length (px_edges px') = length (px_edges px)"
    and "q_end (px_in px) \<longrightarrow> q_end (px_in px')" "q_end (px_out px) \<longrightarrow> q_end (px_out px')"
    and "\<forall>k < length (px_edges px). q_end (px_edges px ! k) \<longrightarrow> q_end (px_edges px' ! k)"
  shows "settles px px'"
  using assms by (auto simp: settles_def in_settled_def edge_settled_def)

text \<open>A worker that is not inside the cancellation loop of \<open>fail\<close>.\<close>

definition plain :: "worker \<Rightarrow> bool" where
  "plain w \<longleftrightarrow> \<not> cancels_in w \<and> (\<forall>k. \<not> cancels_edge k w)"

lemma plain_simps [simp]:
  "plain Ready" "plain Busy" "plain Flushing" "plain (Failing s)" "plain (CancelOut s)" "plain Ending" "plain Exiting" "plain Done"
  by (simp_all add: plain_def)

lemma settles_set_worker:
  "i < length (px_workers px) \<Longrightarrow> plain (px_workers px ! i) \<Longrightarrow> settles px (set_worker i w px)"
  by (rule settles_worker [of i _ _ w]) (simp_all add: plain_def)

lemma nth_update: "xs[i := y] ! j = (if i = j \<and> i < length xs then y else xs ! j)"
  by (cases "i < length xs") (auto simp: nth_list_update list_update_beyond not_less)

lemma settles_set_edge: "(q_end (px_edges px ! k) \<Longrightarrow> q_end q) \<Longrightarrow> settles px (set_edge k q px)"
  by (rule settles_queues) (auto simp: nth_update)

lemma settles_in: "(q_end (px_in px) \<Longrightarrow> q_end q) \<Longrightarrow> settles px (px\<lparr>px_in := q\<rparr>)"
  by (rule settles_queues) auto

lemma settles_out: "(q_end (px_out px) \<Longrightarrow> q_end q) \<Longrightarrow> settles px (px\<lparr>px_out := q\<rparr>)"
  by (rule settles_queues) auto

lemma settles_fail:
  assumes "i < length (px_workers px)" "px_workers px ! i = Failing s"
  shows "settles px (exec_fail i s px)"
proof -
  have "settles px (px\<lparr>px_error := s\<rparr>)" by (rule settles_queues) auto
  moreover have "settles (px\<lparr>px_error := s\<rparr>) (set_worker i (CancelIn s) (px\<lparr>px_error := s\<rparr>))"
    by (rule settles_set_worker) (use assms in simp_all)
  ultimately show ?thesis
    using settles_set_worker [of i px "after_fail px i s"] assms settles_trans by (auto simp: exec_fail_def)
qed

lemma settles_cancel:
  assumes "i < length (px_workers px)" "px_workers px ! i = CancelIn s \<or> px_workers px ! i = CancelEdge s k"
  shows "settles px (fail_cancel i px)"
  using assms(2)
proof
  assume w: "px_workers px ! i = CancelIn s"
  show ?thesis
    by (rule settles_worker [of i _ _ "CancelEdge s 0"])
      (use assms(1) w in \<open>auto simp: fail_cancel_def q_end_cancel q_end_cancelled\<close>)
next
  assume w: "px_workers px ! i = CancelEdge s k"
  show ?thesis
  proof (cases "k < length (px_edges px)")
    case True
    show ?thesis
      by (rule settles_worker [of i _ _ "CancelEdge s (Suc k)"])
        (use assms(1) w True in \<open>auto simp: fail_cancel_def nth_list_update q_end_cancel q_end_cancelled\<close>)
  next
    case False
    show ?thesis
      by (rule settles_worker [of i _ _ "after_fail px i s"])
        (use assms(1) w False in \<open>auto simp: fail_cancel_def\<close>)
  qed
qed

lemma settles_end:
  assumes "i < length (px_workers px)" "px_workers px ! i = Ending"
  shows "settles px (worker_end i px)"
  by (rule settles_worker [of i _ _ Exiting])
    (use assms in \<open>auto simp: worker_end_def nth_update q_end_close\<close>)

lemma settles_cancel_next: "settles px (exec_cancel_next px)"
proof (cases "px_closer px")
  case (CloseEdge k)
  then show ?thesis
    by (intro settles_queues) (auto simp: exec_cancel_next_def nth_list_update q_end_cancel)
qed (auto simp: exec_cancel_next_def q_end_cancel intro: settles_queues settles_refl)

lemma exec_step_settles: "exec_step px e px' \<Longrightarrow> settles px px'"
proof (induction rule: exec_step.induct)
  case (take i px f q')
  then have "settles px (set_edge (i - 1) q' px)" by (intro settles_set_edge) (simp add: q_end_pop)
  moreover have "settles (set_edge (i - 1) q' px) (set_worker i Busy (set_edge (i - 1) q' px))"
    by (rule settles_set_worker) (use take in simp_all)
  ultimately show ?case by (rule settles_trans)
next
  case (emit i px f s q')
  then show ?case by (intro settles_set_edge) (simp add: q_end_push)
next
  case (source_pop px ws r q')
  then show ?case by (intro settles_in) (simp add: q_end_pop)
next
  case (call_in c px q')
  then show ?case by (intro settles_in) (auto intro: q_end_step)
next
  case (sink_push px f s q')
  then show ?case by (intro settles_out) (simp add: q_end_push)
next
  case (call_out c px q')
  then show ?case by (intro settles_out) (auto intro: q_end_step)
next
  case (cancels i px)
  then show ?case using settles_cancel by blast
next
  case (out_cancel i px s)
  have "settles (px\<lparr>px_out := q_cancel s (px_out px)\<rparr>) (worker_error i s px)"
    unfolding worker_error_def by (rule settles_set_worker) (use out_cancel in simp_all)
  with settles_out [OF q_end_cancel] show ?case by (rule settles_trans)
next
  case (exit i px)
  have "settles px (px\<lparr>px_active := px_active px - 1\<rparr>)" by (rule settles_queues) auto
  moreover have "settles (px\<lparr>px_active := px_active px - 1\<rparr>) (worker_exit i px)"
    unfolding worker_exit_def by (rule settles_set_worker) (use exit in simp_all)
  ultimately show ?case by (rule settles_trans)
next
  case (shutdown px)
  show ?case by (rule settles_queues) (auto simp: exec_shutdown_def)
qed (auto intro!: settles_set_worker settles_fail settles_end settles_cancel_next)

text \<open>Queue states and the count of the workers that have not exited.\<close>

definition exec_wf :: "'a pipeline \<Rightarrow> bool" where
  "exec_wf px \<longleftrightarrow>
     0 < length (px_edges px) \<and> length (px_workers px) = Suc (length (px_edges px)) \<and>
     px_active px = length (filter (\<lambda>w. w \<noteq> Done) (px_workers px)) \<and>
     q_inv (px_in px) \<and> q_inv (px_out px) \<and> (\<forall>k < length (px_edges px). q_inv (px_edges px ! k))"

lemma exec_inv_wf:
  "exec_inv px \<longleftrightarrow> exec_wf px \<and> (px_error px \<noteq> Ok \<longrightarrow> effective (px_error px)) \<and>
     (px_error px \<noteq> Ok \<longrightarrow> in_settled px \<and> (\<forall>k < length (px_edges px). edge_settled px k))"
  by (auto simp: exec_inv_def exec_wf_def all_set_conv_all_nth)

lemma wf_set_worker:
  "exec_wf px \<Longrightarrow> i < length (px_workers px) \<Longrightarrow> px_workers px ! i \<noteq> Done \<Longrightarrow> w \<noteq> Done \<Longrightarrow> exec_wf (set_worker i w px)"
  using active_update [of i "px_workers px" w] by (simp add: exec_wf_def)

lemma wf_set_edge: "exec_wf px \<Longrightarrow> (k < length (px_edges px) \<Longrightarrow> q_inv q) \<Longrightarrow> exec_wf (set_edge k q px)"
  by (auto simp: exec_wf_def nth_update)

lemma wf_queue: "exec_wf px \<Longrightarrow> k < length (px_edges px) \<Longrightarrow> q_inv (px_edges px ! k)" "exec_wf px \<Longrightarrow> q_inv (px_in px)"
    "exec_wf px \<Longrightarrow> q_inv (px_out px)"
  by (simp_all add: exec_wf_def)

lemma wf_in: "exec_wf px \<Longrightarrow> q_inv q \<Longrightarrow> exec_wf (px\<lparr>px_in := q\<rparr>)"
  by (simp add: exec_wf_def)

lemma wf_out: "exec_wf px \<Longrightarrow> q_inv q \<Longrightarrow> exec_wf (px\<lparr>px_out := q\<rparr>)"
  by (simp add: exec_wf_def)

lemma after_fail_running [simp]: "after_fail px i s \<noteq> Done" "plain (after_fail px i s)"
  by (simp_all add: after_fail_def)

lemma wf_fail: "exec_wf px \<Longrightarrow> i < length (px_workers px) \<Longrightarrow> px_workers px ! i \<noteq> Done \<Longrightarrow> exec_wf (exec_fail i s px)"
  unfolding exec_fail_def by (auto intro!: wf_set_worker) (simp add: exec_wf_def)

lemma wf_cancel:
  assumes "exec_wf px" "i < length (px_workers px)"
  shows "exec_wf (fail_cancel i px)"
proof (cases "px_workers px ! i")
  case (CancelIn s)
  have "exec_wf (px\<lparr>px_in := q_cancel s (px_in px)\<rparr>)" by (intro wf_in q_inv_cancel wf_queue assms)
  then show ?thesis unfolding fail_cancel_def CancelIn worker.case by (rule wf_set_worker) (use assms CancelIn in simp_all)
next
  case (CancelEdge s k)
  have "exec_wf (set_edge k (q_cancel s (px_edges px ! k)) px)" by (intro wf_set_edge q_inv_cancel wf_queue assms)
  then have "exec_wf (set_worker i (CancelEdge s (Suc k)) (set_edge k (q_cancel s (px_edges px ! k)) px))"
    by (rule wf_set_worker) (use assms CancelEdge in simp_all)
  moreover have "exec_wf (set_worker i (after_fail px i s) px)" by (rule wf_set_worker) (use assms CancelEdge in simp_all)
  ultimately show ?thesis by (simp add: fail_cancel_def CancelEdge)
qed (simp_all add: fail_cancel_def assms)

lemma wf_end:
  assumes "exec_wf px" "i < length (px_workers px)" "px_workers px ! i \<noteq> Done"
  shows "exec_wf (worker_end i px)"
proof -
  have "exec_wf (set_edge i (q_close (px_edges px ! i)) px)" by (intro wf_set_edge q_inv_close wf_queue assms)
  moreover have "exec_wf (px\<lparr>px_out := q_close (px_out px)\<rparr>)" by (intro wf_out q_inv_close wf_queue assms)
  ultimately show ?thesis unfolding worker_end_def by (intro wf_set_worker) (use assms in auto)
qed

lemma wf_cancel_next:
  assumes "exec_wf px"
  shows "exec_wf (exec_cancel_next px)"
proof (cases "px_closer px")
  case (CloseEdge k)
  have "exec_wf (set_edge k (q_cancel Canceled (px_edges px ! k)) px)" by (intro wf_set_edge q_inv_cancel wf_queue assms)
  then have "exec_wf (set_edge k (q_cancel Canceled (px_edges px ! k)) px\<lparr>px_closer := CloseEdge (Suc k)\<rparr>)" by (simp add: exec_wf_def)
  moreover have "exec_wf (px\<lparr>px_closer := Joining\<rparr>)" using assms by (simp add: exec_wf_def)
  ultimately show ?thesis by (simp add: exec_cancel_next_def CloseEdge)
qed (use assms in \<open>simp_all add: exec_cancel_next_def exec_wf_def q_inv_cancel\<close>)

lemma exec_step_wf: "exec_step px e px' \<Longrightarrow> exec_wf px \<Longrightarrow> exec_wf px'"
proof (induction rule: exec_step.induct)
  case (tick px ws)
  then show ?case by (intro wf_set_worker) simp_all
next
  case (take i px f q')
  have "i - 1 < length (px_edges px)" using take by (simp add: exec_wf_def)
  then have "exec_wf (set_edge (i - 1) q' px)" using take by (intro wf_set_edge) (auto intro: q_inv_pop wf_queue)
  then show ?case by (rule wf_set_worker) (use take in simp_all)
next
  case (emit i px f s q')
  then show ?case by (intro wf_set_edge) (auto intro: q_inv_push wf_queue)
next
  case (source_pop px ws r q')
  then show ?case by (intro wf_in) (auto intro: q_inv_pop wf_queue)
next
  case (sink_push px f s q')
  then show ?case by (intro wf_out) (auto intro: q_inv_push wf_queue)
next
  case (call_in c px q')
  then show ?case by (intro wf_in) (auto intro: q_step_inv wf_queue)
next
  case (call_out c px q')
  then show ?case by (intro wf_out) (auto intro: q_step_inv wf_queue)
next
  case (return_eof px ws)
  then show ?case by (intro wf_set_worker) simp_all
next
  case (out_cancel i px s)
  have "exec_wf (px\<lparr>px_out := q_cancel s (px_out px)\<rparr>)" using out_cancel by (intro wf_out q_inv_cancel wf_queue)
  then show ?case unfolding worker_error_def by (rule wf_set_worker) (use out_cancel in simp_all)
next
  case (exit i px)
  then show ?case using active_update [of i "px_workers px" Done] by (simp add: exec_wf_def worker_exit_def)
next
  case (shutdown px)
  then show ?case by (simp add: exec_wf_def exec_shutdown_def)
next
  case (fail i px s)
  then show ?case by (intro wf_fail) simp_all
next
  case (end_output i px)
  then show ?case by (intro wf_end) simp_all
qed (auto intro: wf_set_worker wf_cancel wf_cancel_next)

text \<open>Only \<open>fail\<close> records an error, and it keeps the first.\<close>

lemma cancel_error [simp]: "px_error (fail_cancel i px) = px_error px" "px_error (exec_cancel_next px) = px_error px"
  "px_error (worker_error i s px) = px_error px" "px_error (worker_end i px) = px_error px"
  "px_error (worker_exit i px) = px_error px" "px_error (exec_shutdown px) = px_error px"
  by (simp_all add: fail_cancel_def exec_cancel_next_def worker_error_def worker_end_def worker_exit_def exec_shutdown_def
      split: worker.splits closer.splits)

lemma exec_step_error:
  "exec_step px e px' \<Longrightarrow> px_error px' = px_error px \<or>
     (\<exists>i s. e = Fail i s \<and> px_error px = Ok \<and> effective s \<and> px_error px' = s \<and> i < length (px_workers px') \<and> px_workers px' ! i = CancelIn s)"
  by (induction rule: exec_step.induct) (auto simp: exec_fail_def effective_def)

lemma recorded_settled:
  assumes "i < length (px_workers px)" "px_workers px ! i = CancelIn s" "effective s"
  shows "in_settled px" "edge_settled px k"
proof -
  have "CancelIn s \<in> set (px_workers px)" using assms(1,2) nth_mem by metis
  then show "in_settled px" "edge_settled px k" using assms(3) unfolding in_settled_def edge_settled_def
    by (metis cancels_in.simps(1), metis cancels_edge.simps(1))
qed

lemma exec_step_inv:
  assumes "exec_step px e px'" "exec_inv px"
  shows "exec_inv px'"
proof -
  have wf: "exec_wf px'" using exec_step_wf [OF assms(1)] assms(2) by (simp add: exec_inv_wf)
  note s = exec_step_settles [OF assms(1), unfolded settles_def]
  from exec_step_error [OF assms(1)] show ?thesis
  proof (elim disjE exE conjE)
    assume "px_error px' = px_error px"
    then show ?thesis using wf s assms(2) by (simp add: exec_inv_wf)
  next
    fix i st assume "effective st" "px_error px' = st" "i < length (px_workers px')" "px_workers px' ! i = CancelIn st"
    then show ?thesis using wf recorded_settled [of i px' st] by (simp add: exec_inv_wf)
  qed
qed

lemma exec_run_inv: "exec_run px evs px' \<Longrightarrow> exec_inv px \<Longrightarrow> exec_inv px'"
  by (induction rule: exec_run.induct) (auto intro: exec_step_inv)

lemma exec_run_error: "exec_run px evs px' \<Longrightarrow> px_error px \<noteq> Ok \<Longrightarrow> px_error px' = px_error px"
  by (induction rule: exec_run.induct) (auto dest: exec_step_error)

end
