(* ===== verification/Executor_Claims.thy ===== *)
theory Executor_Claims
  imports Pipeline_Executor
begin

text \<open>
  What the interleavings of \<open>Pipeline_Executor\<close> guarantee: who may end the output queue, what a worker
  leaves behind when it exits, that a cancellation under way comes to its end, and that the executor never
  stops while a worker has not exited; and the two properties of the executor that follow.
\<close>

section \<open>The output queue\<close>

text \<open>The sink has not yet ended the output queue.\<close>

definition sink_running :: "'a pipeline \<Rightarrow> bool" where
  "sink_running px \<longleftrightarrow> px_workers px ! length (px_edges px) \<noteq> Exiting \<and> px_workers px ! length (px_edges px) \<noteq> Done"

text \<open>Without a shutdown only the sink ends the output queue.\<close>

definition sink_inv :: "'a pipeline \<Rightarrow> bool" where
  "sink_inv px \<longleftrightarrow> exec_wf px \<and> px_closer px = Idle \<and>
     (\<forall>i s. i < length (px_workers px) \<and> px_workers px ! i = CancelOut s \<longrightarrow> i = length (px_edges px)) \<and>
     (sink_running px \<longrightarrow> \<not> q_end (px_out px))"

lemma sink_inv_worker:
  assumes "sink_inv px" "i < length (px_workers px)" "px_workers px' = (px_workers px)[i := w']"
    and "length (px_edges px') = length (px_edges px)" "exec_wf px'" "px_closer px' = px_closer px"
    and "\<And>s. w' = CancelOut s \<Longrightarrow> i = length (px_edges px)"
    and "px_workers px ! i = Exiting \<or> px_workers px ! i = Done \<Longrightarrow> w' = Exiting \<or> w' = Done"
    and "q_end (px_out px') = q_end (px_out px) \<or> i = length (px_edges px) \<and> w' = Exiting"
  shows "sink_inv px'"
proof -
  have "sink_running px' \<longrightarrow> \<not> q_end (px_out px')"
  proof
    assume r: "sink_running px'"
    then have "\<not> (i = length (px_edges px) \<and> (w' = Exiting \<or> w' = Done))"
      using assms(2-4) by (auto simp: sink_running_def)
    then have "sink_running px" "q_end (px_out px') = q_end (px_out px)"
      using r assms(3,4,8,9) by (auto simp: sink_running_def nth_update split: if_splits)
    then show "\<not> q_end (px_out px')" using assms(1) by (simp add: sink_inv_def)
  qed
  moreover have "i' = length (px_edges px')" if "i' < length (px_workers px')" "px_workers px' ! i' = CancelOut s" for i' s
    using that assms(1,2,3,4,7) by (auto simp: sink_inv_def nth_update split: if_splits)
  ultimately show ?thesis using assms(1,5,6) by (simp add: sink_inv_def)
qed

lemma sink_inv_set: "sink_inv px \<Longrightarrow> i < length (px_workers px) \<Longrightarrow> exec_wf (set_worker i w px) \<Longrightarrow>
    px_workers px ! i \<noteq> Exiting \<Longrightarrow> px_workers px ! i \<noteq> Done \<Longrightarrow> \<forall>s. w \<noteq> CancelOut s \<Longrightarrow> sink_inv (set_worker i w px)"
  by (rule sink_inv_worker [of px i _ w]) auto

lemma after_fail_sink:
  assumes "exec_wf px" "i < length (px_workers px)" "after_fail px i s = CancelOut t"
  shows "i = length (px_edges px)"
  using assms by (auto simp: after_fail_def is_sink_def exec_wf_def split: if_splits)

lemma sink_inv_queues:
  "sink_inv px \<Longrightarrow> exec_wf px' \<Longrightarrow> px_workers px' = px_workers px \<Longrightarrow> length (px_edges px') = length (px_edges px) \<Longrightarrow>
     px_closer px' = px_closer px \<Longrightarrow> q_end (px_out px') = q_end (px_out px) \<Longrightarrow> sink_inv px'"
  by (simp add: sink_inv_def sink_running_def)

lemma exec_step_sink:
  assumes "exec_step px e px'" "sink_inv px" "e \<noteq> Shutdown"
  shows "sink_inv px'"
proof -
  have wf: "exec_wf px" "exec_wf px'" "px_closer px = Idle"
    using exec_step_wf [OF assms(1)] assms(2) by (simp_all add: sink_inv_def)
  show ?thesis
    using assms(1)
  proof cases
    case (take i f q')
    have "sink_inv (set_edge (i - 1) q' px)"
      using take wf assms(2)
      by (intro sink_inv_queues [OF assms(2) wf_set_edge]) (auto intro: q_inv_pop wf_queue)
    then show ?thesis unfolding take(2) by (rule sink_inv_set) (use take wf in simp_all)
  next
    case (fail i s)
    show ?thesis
    proof (cases "s = Ok \<or> s = Again \<or> s = Eof \<or> px_error px \<noteq> Ok")
      case True
      then have "px' = set_worker i (after_fail px i s) px" using fail by (simp add: exec_fail_def)
      then show ?thesis
        by (intro sink_inv_worker [OF assms(2), of i _ "after_fail px i s"])
          (use fail wf in \<open>auto intro: after_fail_sink\<close>)
    next
      case False
      then have "px' = set_worker i (CancelIn s) (px\<lparr>px_error := s\<rparr>)" using fail by (simp add: exec_fail_def)
      then show ?thesis
        by (intro sink_inv_worker [OF assms(2), of i _ "CancelIn s"]) (use fail wf in auto)
    qed
  next
    case (cancels i)
    then obtain s k where w: "px_workers px ! i = CancelIn s \<or> px_workers px ! i = CancelEdge s k" by blast
    show ?thesis
    proof (cases "px_workers px ! i = CancelEdge s k \<and> \<not> k < length (px_edges px)")
      case True
      then show ?thesis
        by (intro sink_inv_worker [OF assms(2), of i _ "after_fail px i s"])
          (use cancels wf in \<open>auto simp: fail_cancel_def intro: after_fail_sink\<close>)
    next
      case False
      then show ?thesis
        by (intro sink_inv_worker [OF assms(2), of i _ "if px_workers px ! i = CancelIn s then CancelEdge s 0 else CancelEdge s (Suc k)"])
          (use cancels wf w in \<open>auto simp: fail_cancel_def split: if_splits\<close>)
    qed
  next
    case (out_cancel i s)
    then have "i = length (px_edges px)" using assms(2) by (simp add: sink_inv_def)
    then show ?thesis
      by (intro sink_inv_worker [OF assms(2), of i _ Exiting]) (use out_cancel wf in \<open>auto simp: worker_error_def\<close>)
  next
    case (end_output i)
    have "i = length (px_edges px) \<or> \<not> is_sink px i"
      using end_output wf(1) by (auto simp: is_sink_def exec_wf_def)
    then show ?thesis
      by (intro sink_inv_worker [OF assms(2), of i _ Exiting]) (use end_output wf in \<open>auto simp: worker_end_def\<close>)
  next
    case (exit i)
    then show ?thesis
      by (intro sink_inv_worker [OF assms(2), of i _ Done]) (use wf in \<open>auto simp: worker_exit_def\<close>)
  next
    case (call_out c q')
    then show ?thesis using q_end_step_eq [of c "px_out px" q'] wf by (intro sink_inv_queues [OF assms(2)]) auto
  next
    case (sink_push f s q')
    then show ?thesis using q_end_push [of f "px_out px" s q'] wf by (intro sink_inv_queues [OF assms(2)]) auto
  next
    case shutdown
    then show ?thesis using assms(3) by simp
  next
    case shutdown_cancel
    then show ?thesis using wf(3) by simp
  qed (use wf assms(2) in \<open>auto intro!: sink_inv_set intro: sink_inv_queues\<close>)
qed

section \<open>How a worker leaves\<close>

text \<open>
  Outside the source, \<open>process\<close> and \<open>flush\<close> may not return the flow statuses \<open>Again\<close> and \<open>Eof\<close>: \<open>fail\<close>
  ignores them. The source says \<open>Eof\<close> at the end of its input.
\<close>

fun clean_event :: "'a exec_event \<Rightarrow> bool" where
  "clean_event (Return i s) \<longleftrightarrow> \<not> is_flow s \<or> i = 0 \<and> s = Eof"
| "clean_event (Flushed i s) \<longleftrightarrow> \<not> is_flow s"
| "clean_event _ \<longleftrightarrow> True"

definition left_behind :: "'a pipeline \<Rightarrow> nat \<Rightarrow> bool" where
  "left_behind px i \<longleftrightarrow>
     (i < length (px_edges px) \<longrightarrow> edge_settled px i) \<and> (0 < i \<longrightarrow> edge_settled px (i - 1)) \<and>
     (i = length (px_edges px) \<longrightarrow> q_end (px_out px))"

fun worker_clean :: "'a pipeline \<Rightarrow> nat \<Rightarrow> worker \<Rightarrow> bool" where
  "worker_clean px i (Failing s) \<longleftrightarrow> effective s"
| "worker_clean px i (CancelIn s) \<longleftrightarrow> effective s \<and> px_error px \<noteq> Ok"
| "worker_clean px i (CancelEdge s k) \<longleftrightarrow> effective s \<and> px_error px \<noteq> Ok"
| "worker_clean px i (CancelOut s) \<longleftrightarrow> effective s \<and> px_error px \<noteq> Ok"
| "worker_clean px i Flushing \<longleftrightarrow> (0 < i \<longrightarrow> q_end (px_edges px ! (i - 1)))"
| "worker_clean px i Ending \<longleftrightarrow> (0 < i \<longrightarrow> q_end (px_edges px ! (i - 1)))"
| "worker_clean px i Exiting \<longleftrightarrow> left_behind px i"
| "worker_clean px i Done \<longleftrightarrow> left_behind px i"
| "worker_clean px i w \<longleftrightarrow> True"

definition clean_inv :: "'a pipeline \<Rightarrow> bool" where
  "clean_inv px \<longleftrightarrow> exec_inv px \<and> (\<forall>i < length (px_workers px). worker_clean px i (px_workers px ! i))"

lemma left_behind_later:
  assumes "settles px px'" "left_behind px i" "i \<le> length (px_edges px)"
  shows "left_behind px' i"
proof -
  have "i - 1 < length (px_edges px)" if "0 < i" using assms(3) that by simp
  then show ?thesis using assms by (auto simp: left_behind_def settles_def)
qed

lemma worker_clean_later:
  assumes "settles px px'" "px_error px \<noteq> Ok \<Longrightarrow> px_error px' \<noteq> Ok" "worker_clean px i w" "i \<le> length (px_edges px)"
  shows "worker_clean px' i w"
  using assms left_behind_later [of px px' i] by (cases w) (auto simp: settles_def)

lemma clean_inv_worker:
  assumes "clean_inv px" "settles px px'" "exec_inv px'" "px_error px \<noteq> Ok \<Longrightarrow> px_error px' \<noteq> Ok"
    and "px_workers px' = (px_workers px)[i := w']" "i < length (px_workers px) \<Longrightarrow> worker_clean px' i w'"
  shows "clean_inv px'"
  unfolding clean_inv_def
proof (intro conjI allI impI)
  fix j assume j: "j < length (px_workers px')"
  then have "j \<le> length (px_edges px)" using assms(1,5) by (simp add: clean_inv_def exec_inv_def)
  moreover have "worker_clean px j (px_workers px ! j)" using assms(1,5) j by (simp add: clean_inv_def)
  ultimately have "worker_clean px' j (px_workers px ! j)" by (intro worker_clean_later [OF assms(2,4)])
  then show "worker_clean px' j (px_workers px' ! j)" using assms(5,6) j by (auto simp: nth_update)
qed (rule assms(3))

lemma clean_inv_queues:
  assumes "clean_inv px" "settles px px'" "exec_inv px'" "px_error px' = px_error px" "px_workers px' = px_workers px"
  shows "clean_inv px'"
  by (rule clean_inv_worker [OF assms(1-3), of "length (px_workers px)" undefined]) (use assms(4,5) in \<open>simp_all add: list_update_beyond\<close>)

lemma after_fail_clean:
  assumes "exec_inv px'" "px_error px' \<noteq> Ok" "effective s" "i < length (px_workers px)"
    and "length (px_edges px') = length (px_edges px)" "length (px_workers px) = Suc (length (px_edges px))"
  shows "worker_clean px' i (after_fail px i s)"
proof -
  have "edge_settled px' k" if "k < length (px_edges px)" for k
    using that assms(1,2,5) by (simp add: exec_inv_def)
  moreover have "0 < length (px_edges px)" using assms(1,5) by (simp add: exec_inv_def)
  ultimately show ?thesis using assms by (auto simp: after_fail_def is_sink_def left_behind_def)
qed

lemma exec_step_clean:
  assumes step: "exec_step px e px'" and c: "clean_event e" "clean_inv px"
  shows "clean_inv px'"
proof -
  have inv: "exec_inv px" "exec_inv px'" using exec_step_inv [OF step] c(2) by (simp_all add: clean_inv_def)
  have at: "worker_clean px i (px_workers px ! i)" if "i < length (px_workers px)" for i using c(2) that by (simp add: clean_inv_def)
  have len: "length (px_workers px) = Suc (length (px_edges px))" "0 < length (px_edges px)" using inv(1) by (simp_all add: exec_inv_def)
  have err: "px_error px' \<noteq> Ok" if "px_error px \<noteq> Ok" using exec_step_error [OF step] that by auto
  have lens: "length (px_edges px') = length (px_edges px)" using exec_step_settles [OF step] by (simp add: settles_def)
  note by_worker = clean_inv_worker [OF c(2) exec_step_settles [OF step] inv(2) err]
  show ?thesis
    using step
  proof cases
    case tick
    then show ?thesis by (intro by_worker [of 0 Busy]) simp_all
  next
    case (take i f q')
    then show ?thesis by (intro by_worker [of i Busy]) simp_all
  next
    case (input_eof i why q')
    then have "q_inv (px_edges px ! (i - 1))" using len by (intro edge_mem [OF inv(1)]) simp
    then show ?thesis using input_eof end_status by (intro by_worker [of i Flushing]) auto
  next
    case (input_error i s why q')
    then have "q_inv (px_edges px ! (i - 1))" using len by (intro edge_mem [OF inv(1)]) simp
    then have "effective s" using end_status input_error by (auto simp: effective_def)
    then show ?thesis using input_error by (intro by_worker [of i "Failing s"]) simp_all
  next
    case (return_ok i)
    then show ?thesis by (intro by_worker [of i Ready]) simp_all
  next
    case return_eof
    then show ?thesis by (intro by_worker [of 0 Flushing]) simp_all
  next
    case (return_error i s)
    then have "effective s" using c(1) by (auto simp: effective_def is_flow_def)
    then show ?thesis using return_error by (intro by_worker [of i "Failing s"]) simp_all
  next
    case (flush_ok i)
    then show ?thesis using at [of i] by (intro by_worker [of i Ending]) simp_all
  next
    case (flush_error i s)
    then have "effective s" using c(1) by (auto simp: effective_def is_flow_def)
    then show ?thesis using flush_error by (intro by_worker [of i "Failing s"]) simp_all
  next
    case (fail i s)
    then have s: "effective s" using at [of i] by simp
    show ?thesis
    proof (cases "px_error px = Ok")
      case True
      then have "px' = set_worker i (CancelIn s) (px\<lparr>px_error := s\<rparr>)" using fail s by (simp add: exec_fail_def effective_def)
      then show ?thesis using s by (intro by_worker [of i "CancelIn s"]) (simp_all add: effective_def)
    next
      case False
      then have "px' = set_worker i (after_fail px i s) px" using fail by (simp add: exec_fail_def)
      then show ?thesis using fail s False len lens err inv(2)
        by (intro by_worker [of i "after_fail px i s"]) (auto intro: after_fail_clean)
    qed
  next
    case (cancels i)
    then obtain s k where w: "px_workers px ! i = CancelIn s \<or> px_workers px ! i = CancelEdge s k" by blast
    then have s: "effective s" "px_error px \<noteq> Ok" using at [of i] cancels by auto
    show ?thesis
    proof (cases "px_workers px ! i = CancelEdge s k \<and> \<not> k < length (px_edges px)")
      case True
      then have "px' = set_worker i (after_fail px i s) px" using cancels by (simp add: fail_cancel_def)
      then show ?thesis using cancels s len lens err inv(2)
        by (intro by_worker [of i "after_fail px i s"]) (auto intro: after_fail_clean)
    next
      case False
      then show ?thesis
        by (intro by_worker [of i "if px_workers px ! i = CancelIn s then CancelEdge s 0 else CancelEdge s (Suc k)"])
          (use cancels w s in \<open>auto simp: fail_cancel_def split: if_splits\<close>)
    qed
  next
    case (out_cancel i s)
    then have s: "effective s" "px_error px' \<noteq> Ok" using at [of i] err by auto
    then have "q_end (px_out px')" using out_cancel by (simp add: worker_error_def q_end_cancelled)
    moreover have "edge_settled px' k" if "k < length (px_edges px)" for k using s(2) inv(2) lens that by (simp add: exec_inv_def)
    ultimately have "left_behind px' i" using out_cancel len lens by (auto simp: left_behind_def)
    then show ?thesis using out_cancel by (intro by_worker [of i Exiting]) (simp_all add: worker_error_def)
  next
    case (end_output i)
    have "0 < i \<longrightarrow> q_end (px_edges px ! (i - 1))" using at [of i] end_output by simp
    then have "left_behind px' i"
      using end_output len by (auto simp: left_behind_def edge_settled_def worker_end_def is_sink_def nth_update q_end_close)
    then show ?thesis using end_output by (intro by_worker [of i Exiting]) (simp_all add: worker_end_def)
  next
    case (exit i)
    have "left_behind px i" using at [of i] exit by simp
    then have "left_behind px' i" using exit len by (intro left_behind_later [OF exec_step_settles [OF step]]) simp_all
    then show ?thesis using exit by (intro by_worker [of i Done]) (simp_all add: worker_exit_def)
  next
    case shutdown_cancel
    then show ?thesis using inv(2) c(2) exec_step_settles [OF step]
      by (intro clean_inv_queues [OF c(2)]) (simp_all add: exec_cancel_next_def split: closer.splits)
  next
    case shutdown
    then show ?thesis using inv(2) exec_step_settles [OF step]
      by (intro clean_inv_queues [OF c(2)]) (simp_all add: exec_shutdown_def)
  qed (use inv(2) c(2) exec_step_settles [OF step] in \<open>auto intro: clean_inv_queues\<close>)
qed

section \<open>Cancellations come to their end\<close>

lemma exec_run_cons: "exec_run px' evs px'' \<Longrightarrow> exec_step px e px' \<Longrightarrow> exec_run px (e # evs) px''"
proof (induction rule: exec_run.induct)
  case (exec_Nil px')
  then show ?case using exec_snoc [OF exec_run.exec_Nil] by fastforce
next
  case (exec_snoc px' evs p e' p')
  then show ?case using exec_run.exec_snoc [of px "e # evs" p e' p'] by simp
qed

lemma exec_run_step: "exec_run px evs px' \<Longrightarrow> exec_step px' e px'' \<Longrightarrow> exec_run px (evs @ [e]) px''"
  by (rule exec_snoc)

lemma exec_run_one: "exec_step px e px' \<Longrightarrow> exec_run px [e] px'"
  using exec_run_cons [OF exec_Nil] by blast

definition only_cancels :: "'a exec_event list \<Rightarrow> bool" where
  "only_cancels evs \<longleftrightarrow> (\<forall>e \<in> set evs. \<exists>i. e = Cancels i)"

lemma cancel_edge_run:
  assumes "i < length (px_workers px)" "px_workers px ! i = CancelEdge s j" "effective s" "j \<le> k" "k < length (px_edges px)"
  shows "\<exists>evs px'. exec_run px evs px' \<and> only_cancels evs \<and> length evs \<le> k - j + 1 \<and> q_end (px_edges px' ! k)"
  using assms
proof (induction "k - j" arbitrary: j px)
  case 0
  then have "j = k" by simp
  have "exec_step px (Cancels i) (fail_cancel i px)" using 0 by (intro exec_step.cancels) auto
  moreover have "q_end (px_edges (fail_cancel i px) ! k)"
    using 0 \<open>j = k\<close> by (simp add: fail_cancel_def q_end_cancelled)
  ultimately show ?case
    by (intro exI [of _ "[Cancels i]"] exI [of _ "fail_cancel i px"]) (simp add: exec_run_one only_cancels_def)
next
  case (Suc n)
  let ?p = "fail_cancel i px"
  have s: "exec_step px (Cancels i) ?p" using Suc by (intro exec_step.cancels) auto
  have f: "px_workers ?p = (px_workers px)[i := CancelEdge s (Suc j)]" "length (px_edges ?p) = length (px_edges px)"
    using Suc by (simp_all add: fail_cancel_def)
  have "n = k - Suc j" "Suc j \<le> k" using Suc(2) by simp_all
  from Suc(1) [OF this(1), of ?p] obtain evs px' where
    e: "exec_run ?p evs px'" "only_cancels evs" "length evs \<le> k - Suc j + 1" "q_end (px_edges px' ! k)"
    using Suc.prems f \<open>Suc j \<le> k\<close> by auto
  have "length (Cancels i # evs) \<le> k - j + 1" using e(3) \<open>Suc j \<le> k\<close> by simp
  moreover have "only_cancels (Cancels i # evs)" using e(2) by (simp add: only_cancels_def)
  ultimately show ?case using exec_run_cons [OF e(1) s] e(4) by blast
qed

lemma cancel_in_step:
  assumes "i < length (px_workers px)" "px_workers px ! i = CancelIn s" "effective s"
  shows "exec_step px (Cancels i) (fail_cancel i px)" "q_end (px_in (fail_cancel i px))"
    "px_workers (fail_cancel i px) = (px_workers px)[i := CancelEdge s 0]" "px_edges (fail_cancel i px) = px_edges px"
proof -
  show "exec_step px (Cancels i) (fail_cancel i px)" using assms by (intro exec_step.cancels) auto
qed (use assms in \<open>simp_all add: fail_cancel_def q_end_cancelled\<close>)

text \<open>What is settled can be ended by the cancelling worker alone.\<close>

lemma edge_settled_run:
  assumes "edge_settled px k" "k < length (px_edges px)"
  shows "\<exists>evs px'. exec_run px evs px' \<and> only_cancels evs \<and> length evs \<le> k + 2 \<and> q_end (px_edges px' ! k)"
proof (cases "q_end (px_edges px ! k)")
  case True
  then show ?thesis by (intro exI [of _ "[]"] exI [of _ px]) (simp add: exec_Nil only_cancels_def)
next
  case False
  then obtain i where i: "i < length (px_workers px)" "cancels_edge k (px_workers px ! i)"
    using assms(1) by (auto simp: edge_settled_def in_set_conv_nth)
  then show ?thesis
  proof (cases "px_workers px ! i")
    case (CancelIn s)
    then have e: "effective s" using i by simp
    note c = cancel_in_step [OF i(1) CancelIn e]
    have "i < length (px_workers (fail_cancel i px))" "px_workers (fail_cancel i px) ! i = CancelEdge s 0" using i c by simp_all
    from cancel_edge_run [OF this e, of k] obtain evs px' where
      r: "exec_run (fail_cancel i px) evs px'" "only_cancels evs" "length evs \<le> k + 1" "q_end (px_edges px' ! k)"
      using assms(2) c(4) by auto
    have "only_cancels (Cancels i # evs)" using r(2) by (simp add: only_cancels_def)
    then show ?thesis using exec_run_cons [OF r(1) c(1)] r(3,4) by (intro exI [of _ "Cancels i # evs"]) auto
  next
    case (CancelEdge s j)
    then have e: "effective s" "j \<le> k" using i by simp_all
    obtain evs px' where r: "exec_run px evs px'" "only_cancels evs" "length evs \<le> k - j + 1" "q_end (px_edges px' ! k)"
      using cancel_edge_run [OF i(1) CancelEdge e assms(2)] by blast
    have "length evs \<le> k + 2" using r(3) by simp
    then show ?thesis using r by blast
  qed simp_all
qed

lemma in_settled_run:
  assumes "in_settled px"
  shows "\<exists>evs px'. exec_run px evs px' \<and> only_cancels evs \<and> length evs \<le> 1 \<and> q_end (px_in px')"
proof (cases "q_end (px_in px)")
  case True
  then show ?thesis by (intro exI [of _ "[]"] exI [of _ px]) (simp add: exec_Nil only_cancels_def)
next
  case False
  then obtain i where i: "i < length (px_workers px)" "cancels_in (px_workers px ! i)"
    using assms by (auto simp: in_settled_def in_set_conv_nth)
  then obtain s where s: "px_workers px ! i = CancelIn s" "effective s" by (cases "px_workers px ! i") simp_all
  note c = cancel_in_step [OF i(1) s]
  show ?thesis
    using exec_run_one [OF c(1)] c(2) by (intro exI [of _ "[Cancels i]"] exI [of _ "fail_cancel i px"]) (simp add: only_cancels_def)
qed

section \<open>Runs of a launched pipeline\<close>

text \<open>A pipeline just launched on empty queues, with the capacities of its edges.\<close>

definition launched :: "nat \<Rightarrow> nat \<Rightarrow> nat list \<Rightarrow> 'a pipeline" where
  "launched a b cs = snd (exec_launch (Suc (length cs)) True True
     (new_pipeline (new_queue a) (new_queue b) (map new_queue cs)))"

lemma launched_fields:
  assumes "cs \<noteq> []"
  shows "px_workers (launched a b cs) = replicate (Suc (length cs)) Ready"
    "px_edges (launched a b cs) = map new_queue cs" "px_error (launched a b cs) = Ok"
    "px_out (launched a b cs) = new_queue b" "px_in (launched a b cs) = new_queue a"
    "px_active (launched a b cs) = Suc (length cs)" "px_closer (launched a b cs) = Idle"
  using assms by (auto simp: launched_def exec_launch_def new_pipeline_def neq_Nil_conv)

lemma launched_inv: "cs \<noteq> [] \<Longrightarrow> exec_inv (launched a b cs)"
  by (auto simp: exec_inv_def launched_fields q_inv_new)

lemma launched_sink: "cs \<noteq> [] \<Longrightarrow> sink_inv (launched a b cs)"
  using launched_inv [of cs a b]
  by (auto simp: sink_inv_def exec_inv_wf launched_fields new_queue_def simp del: replicate_Suc)

lemma launched_clean: "cs \<noteq> [] \<Longrightarrow> clean_inv (launched a b cs)"
  using launched_inv [of cs a b] by (auto simp: clean_inv_def launched_fields simp del: replicate_Suc)

lemma exec_run_sink: "exec_run px evs px' \<Longrightarrow> sink_inv px \<Longrightarrow> Shutdown \<notin> set evs \<Longrightarrow> sink_inv px'"
  by (induction rule: exec_run.induct) (auto intro: exec_step_sink)

lemma exec_run_clean: "exec_run px evs px' \<Longrightarrow> clean_inv px \<Longrightarrow> \<forall>e \<in> set evs. clean_event e \<Longrightarrow> clean_inv px'"
  by (induction rule: exec_run.induct) (auto intro: exec_step_clean)

lemma active_zero: "exec_inv px \<Longrightarrow> px_active px = 0 \<longleftrightarrow> (\<forall>w \<in> set (px_workers px). w = Done)"
  by (simp add: exec_inv_def filter_empty_conv)

lemma all_done_ended:
  assumes "clean_inv px" "\<forall>w \<in> set (px_workers px). w = Done"
  shows "\<forall>q \<in> set (px_edges px). q_end q" "q_end (px_out px)"
proof -
  have len: "length (px_workers px) = Suc (length (px_edges px))" using assms(1) by (simp add: clean_inv_def exec_inv_def)
  have l: "left_behind px i" if "i \<le> length (px_edges px)" for i
  proof -
    have "i < length (px_workers px)" using that len by simp
    then have "px_workers px ! i = Done" "worker_clean px i (px_workers px ! i)"
      using assms nth_mem by (blast, simp add: clean_inv_def)
    then show ?thesis by simp
  qed
  have "q_end (px_edges px ! k)" if "k < length (px_edges px)" for k
    using l [of k] that assms(2) by (auto simp: left_behind_def edge_settled_def)
  then show "\<forall>q \<in> set (px_edges px). q_end q" by (simp add: all_set_conv_all_nth)
  show "q_end (px_out px)" using l [of "length (px_edges px)"] by (simp add: left_behind_def)
qed

text \<open>While a worker has not exited, one of them is inside its node or can take a step.\<close>

lemma progress:
  assumes c: "clean_inv px" and a: "px_active px \<noteq> 0"
  shows "\<exists>i < length (px_workers px). px_workers px ! i = Busy \<or> px_workers px ! i = Flushing \<or>
    (\<exists>e px'. exec_step px e px' \<and> actor e = Some i)"
proof -
  let ?can = "\<lambda>i. px_workers px ! i = Busy \<or> px_workers px ! i = Flushing \<or> (\<exists>e px'. exec_step px e px' \<and> actor e = Some i)"
  have inv: "exec_inv px" and len: "length (px_workers px) = Suc (length (px_edges px))"
    using c by (simp_all add: clean_inv_def exec_inv_def)
  have other: "?can i" if i: "i < length (px_workers px)" "px_workers px ! i \<noteq> Ready" "px_workers px ! i \<noteq> Done" for i
  proof (cases "px_workers px ! i")
    case (Failing s)
    from exec_step.fail [OF i(1) this] show ?thesis by (intro disjI2 exI conjI) (assumption, simp)
  next
    case (CancelIn s)
    have "exec_step px (Cancels i) (fail_cancel i px)" using i(1) CancelIn by (intro exec_step.cancels) auto
    then show ?thesis by (intro disjI2 exI conjI) (assumption, simp)
  next
    case (CancelEdge s k)
    have "exec_step px (Cancels i) (fail_cancel i px)" using i(1) CancelEdge by (intro exec_step.cancels) auto
    then show ?thesis by (intro disjI2 exI conjI) (assumption, simp)
  next
    case (CancelOut s)
    from exec_step.out_cancel [OF i(1) this] show ?thesis by (intro disjI2 exI conjI) (assumption, simp)
  next
    case Ending
    from exec_step.end_output [OF i(1) this] show ?thesis by (intro disjI2 exI conjI) (assumption, simp)
  next
    case Exiting
    from exec_step.exit [OF i(1) this] show ?thesis by (intro disjI2 exI conjI) (assumption, simp)
  qed (use i in simp_all)
  define i where "i = (LEAST i. i < length (px_workers px) \<and> px_workers px ! i \<noteq> Done)"
  have ex: "\<exists>i. i < length (px_workers px) \<and> px_workers px ! i \<noteq> Done"
    using a active_zero [OF inv] by (auto simp: in_set_conv_nth)
  have i: "i < length (px_workers px)" "px_workers px ! i \<noteq> Done"
    using LeastI_ex [OF ex] by (simp_all add: i_def)
  have before: "px_workers px ! j = Done" if "j < i" for j
    using not_less_Least [of j "\<lambda>i. i < length (px_workers px) \<and> px_workers px ! i \<noteq> Done"] that i(1) by (simp add: i_def)
  show ?thesis
  proof (cases "px_workers px ! i = Ready")
    case False
    with other [OF i(1)] i show ?thesis by blast
  next
    case ready: True
    show ?thesis
    proof (cases "i = 0")
      case True
      then obtain ws where "px_workers px = Ready # ws" using ready i(1) by (cases "px_workers px") simp_all
      from exec_step.tick [OF this] show ?thesis using True i(1) by (intro exI [of _ 0]) (auto intro!: exI [of _ Tick])
    next
      case False
      then have k: "i - 1 < length (px_edges px)" "i - 1 < length (px_workers px)" "0 < i" using i(1) len by simp_all
      have "worker_clean px (i - 1) (px_workers px ! (i - 1))" using c k(2) unfolding clean_inv_def by blast
      moreover have "px_workers px ! (i - 1) = Done" by (rule before) (use k(3) in simp)
      ultimately have "left_behind px (i - 1)" by simp
      then have s: "edge_settled px (i - 1)" using k by (simp add: left_behind_def)
      show ?thesis
      proof (cases "q_end (px_edges px ! (i - 1))")
        case True
        then have "q_pop (px_edges px ! (i - 1)) \<noteq> None" by (simp add: q_pop_def split: list.splits)
        then obtain r q' where pop: "q_pop (px_edges px ! (i - 1)) = Some (r, q')" by fast
        have "\<exists>e px'. exec_step px e px' \<and> actor e = Some i"
        proof (cases r)
          case (Inr f)
          from exec_step.take [OF k(3) i(1) ready pop [unfolded Inr]] show ?thesis by (intro exI conjI) (assumption, simp)
        next
          case (Inl e)
          obtain st why where e: "e = (st, why)" by force
          show ?thesis
          proof (cases "st = Eof")
            case True
            from exec_step.input_eof [OF k(3) i(1) ready pop [unfolded Inl e True]] show ?thesis by (intro exI conjI) (assumption, simp)
          next
            case False
            from exec_step.input_error [OF k(3) i(1) ready pop [unfolded Inl e] False] show ?thesis by (intro exI conjI) (assumption, simp)
          qed
        qed
        then show ?thesis using i(1) by blast
      next
        case False
        then obtain j where "j < length (px_workers px)" "cancels_edge (i - 1) (px_workers px ! j)"
          using s by (auto simp: edge_settled_def in_set_conv_nth)
        then show ?thesis using other [of j] by (cases "px_workers px ! j") auto
      qed
    qed
  qed
qed

section \<open>Properties\<close>

text \<open>
  C20. Termination after an error has two phases. In every interleaving of the workers, the caller and a
  shutdown, once an error is recorded it stays the error that \<open>wait\<close> reports; from every such state the
  steps of the cancelling worker alone, none of which blocks, end the input queue (at most one step) and
  edge \<open>k\<close> (at most \<open>k + 2\<close>), so that no worker waits on them for ever; and without a shutdown the
  output queue is still open while the sink has not ended it itself, so that no frame on its way out is
  cut off.
\<close>

theorem error_two_phase:
  assumes "cs \<noteq> []" "exec_run (launched a b cs) evs px" "px_error px \<noteq> Ok"
  shows "(\<forall>evs' px'. exec_run px evs' px' \<longrightarrow> px_error px' = px_error px) \<and>
    (\<exists>evs' px'. exec_run px evs' px' \<and> only_cancels evs' \<and> length evs' \<le> 1 \<and> q_end (px_in px')) \<and>
    (\<forall>k < length (px_edges px). \<exists>evs' px'. exec_run px evs' px' \<and> only_cancels evs' \<and> length evs' \<le> k + 2 \<and>
       q_end (px_edges px' ! k)) \<and>
    (Shutdown \<notin> set evs \<longrightarrow> sink_running px \<longrightarrow> \<not> q_end (px_out px))"
proof -
  have "exec_inv px" by (rule exec_run_inv [OF assms(2) launched_inv [OF assms(1)]])
  then have "in_settled px" "\<forall>k < length (px_edges px). edge_settled px k" using assms(3) by (simp_all add: exec_inv_def)
  moreover have "Shutdown \<notin> set evs \<longrightarrow> sink_running px \<longrightarrow> \<not> q_end (px_out px)"
    using exec_run_sink [OF assms(2) launched_sink [OF assms(1)]] by (simp add: sink_inv_def)
  ultimately show ?thesis using exec_run_error assms(3) edge_settled_run in_settled_run by blast
qed

theorem error_two_phase_witness:
  "\<exists>evs px. exec_run (launched 2 2 [2] :: nat pipeline) evs px \<and> px_error px = Hw \<and> \<not> q_end (px_in px) \<and>
     sink_running px \<and> \<not> q_end (px_out px) \<and> (\<exists>evs' px'. exec_run px evs' px' \<and> q_end (px_in px'))"
proof -
  let ?p0 = "launched 2 2 [2] :: nat pipeline"
  let ?p1 = "set_worker 0 Busy ?p0"
  let ?p2 = "set_worker 0 (Failing Hw) ?p1"
  let ?p3 = "exec_fail 0 Hw ?p2"
  have w: "px_workers ?p0 = [Ready, Ready]" by (simp add: launched_fields)
  have s1: "exec_step ?p0 Tick ?p1" by (rule tick) (rule w)
  have s2: "exec_step ?p1 (Return 0 Hw) ?p2" by (rule return_error) (simp_all add: w)
  have s3: "exec_step ?p2 (Fail 0 Hw) ?p3" by (rule fail) (simp_all add: w)
  from exec_run_step [OF exec_run_step [OF exec_run_one [OF s1] s2] s3]
  have r: "exec_run ?p0 [Tick, Return 0 Hw, Fail 0 Hw] ?p3" by simp
  have e: "px_error ?p3 = Hw" "\<not> q_end (px_in ?p3)" by (simp_all add: exec_fail_def launched_fields new_queue_def)
  have run: "sink_running ?p3" by (simp add: sink_running_def exec_fail_def w launched_fields)
  from error_two_phase [OF _ r] e run have "\<not> q_end (px_out ?p3)" "\<exists>evs' px'. exec_run ?p3 evs' px' \<and> q_end (px_in px')" by auto
  with r e run show ?thesis by blast
qed

text \<open>
  C21. The stream always ends, as long as no node but the source returns a flow status (\<open>Again\<close>, \<open>Eof\<close>;
  the source may report the end of its input). A worker that has exited leaves nobody waiting: the queues
  before and after it are ended, or another worker is about to cancel them, and the sink has ended the
  output queue. While a worker has not exited, one of them is inside its node or can take a step; and when
  \<open>wait\<close> returns, with the recorded error, every edge and the output queue are ended and \<open>pull\<close> never
  blocks again.
\<close>

theorem stream_always_ends:
  assumes "cs \<noteq> []" "exec_run (launched a b cs) evs px" "\<forall>e \<in> set evs. clean_event e"
  shows "(\<forall>i < length (px_workers px). px_workers px ! i = Done \<longrightarrow> left_behind px i) \<and>
    (exec_wait px = None \<longrightarrow>
      (\<exists>i < length (px_workers px). px_workers px ! i = Busy \<or> px_workers px ! i = Flushing \<or>
         (\<exists>e px'. exec_step px e px' \<and> actor e = Some i))) \<and>
    (\<forall>st. exec_wait px = Some st \<longrightarrow>
      st = px_error px \<and> (\<forall>q \<in> set (px_edges px). q_end q) \<and> q_end (px_out px) \<and> q_pop (px_out px) \<noteq> None)"
proof -
  have c: "clean_inv px" by (rule exec_run_clean [OF assms(2) launched_clean [OF assms(1)] assms(3)])
  have "left_behind px i" if "i < length (px_workers px)" "px_workers px ! i = Done" for i
  proof -
    have "worker_clean px i (px_workers px ! i)" using c that(1) by (simp add: clean_inv_def)
    then show ?thesis using that(2) by simp
  qed
  moreover have "\<exists>i < length (px_workers px). px_workers px ! i = Busy \<or> px_workers px ! i = Flushing \<or>
         (\<exists>e px'. exec_step px e px' \<and> actor e = Some i)" if "exec_wait px = None"
  proof -
    have "px_active px \<noteq> 0" using that by (simp add: exec_wait_def split: if_splits)
    then show ?thesis by (rule progress [OF c])
  qed
  moreover have "st = px_error px \<and> (\<forall>q \<in> set (px_edges px). q_end q) \<and> q_end (px_out px) \<and> q_pop (px_out px) \<noteq> None"
    if "exec_wait px = Some st" for st
  proof -
    have a: "px_active px = 0" "st = px_error px" using that by (simp_all add: exec_wait_def split: if_splits)
    have "exec_inv px" using c by (simp add: clean_inv_def)
    then have d: "\<forall>w \<in> set (px_workers px). w = Done" using a(1) active_zero by blast
    have "q_pop (px_out px) \<noteq> None" using all_done_ended(2) [OF c d] by (simp add: q_pop_def split: list.splits)
    then show ?thesis using all_done_ended [OF c d] a(2) by blast
  qed
  ultimately show ?thesis by blast
qed

lemma worker_end_fields:
  "px_workers (worker_end i px) = (px_workers px)[i := Exiting]" "length (px_edges (worker_end i px)) = length (px_edges px)"
  "px_edges (worker_end i px) = (if i < length (px_edges px) then (px_edges px)[i := q_close (px_edges px ! i)] else px_edges px)"
  by (simp_all add: worker_end_def is_sink_def not_less)

lemma worker_exit_fields:
  "px_workers (worker_exit i px) = (px_workers px)[i := Done]" "px_edges (worker_exit i px) = px_edges px"
  by (simp_all add: worker_exit_def)

theorem stream_always_ends_witness:
  "\<exists>evs px. exec_run (launched 2 2 [2] :: nat pipeline) evs px \<and> exec_wait px = Some Ok \<and>
     q_end (px_out px)"
proof -
  let ?p0 = "launched 2 2 [2] :: nat pipeline"
  let ?p1 = "set_worker 0 Busy ?p0"
  let ?p2 = "set_worker 0 Flushing ?p1"
  let ?p3 = "set_worker 0 Ending ?p2"
  let ?p4 = "worker_end 0 ?p3"
  let ?p5 = "worker_exit 0 ?p4"
  let ?p6 = "set_worker 1 Flushing ?p5"
  let ?p7 = "set_worker 1 Ending ?p6"
  let ?p8 = "worker_end 1 ?p7"
  let ?p9 = "worker_exit 1 ?p8"
  note f = worker_end_fields worker_exit_fields launched_fields
  have w: "px_workers ?p0 = [Ready, Ready]" by (simp add: launched_fields)
  have q: "q_pop (px_edges ?p5 ! 0) = Some (Inl (Eof, []), px_edges ?p5 ! 0)"
    by (simp add: f new_queue_def q_close_def q_pop_def)
  have s1: "exec_step ?p0 Tick ?p1" by (rule tick) (rule w)
  have s2: "exec_step ?p1 (Return 0 Eof) ?p2" by (rule return_eof [where ws = "[Ready]"]) (simp add: w)
  have s3: "exec_step ?p2 (Flushed 0 Ok) ?p3" by (rule flush_ok) (simp_all add: w)
  have s4: "exec_step ?p3 (EndOutput 0) ?p4" by (rule end_output) (simp_all add: w)
  have s5: "exec_step ?p4 (Exit 0) ?p5" by (rule exit) (simp_all add: w f)
  have s6: "exec_step ?p5 (InputEnd 1 Eof) ?p6"
    by (rule input_eof [where why = "[]" and q' = "px_edges ?p5 ! 0"]) (use q in \<open>simp_all add: w f\<close>)
  have s7: "exec_step ?p6 (Flushed 1 Ok) ?p7" by (rule flush_ok) (simp_all add: w f)
  have s8: "exec_step ?p7 (EndOutput 1) ?p8" by (rule end_output) (simp_all add: w f)
  have s9: "exec_step ?p8 (Exit 1) ?p9" by (rule exit) (simp_all add: w f)
  let ?evs = "[Tick, Return 0 Eof, Flushed 0 Ok, EndOutput 0, Exit 0, InputEnd 1 Eof, Flushed 1 Ok, EndOutput 1, Exit 1] :: nat exec_event list"
  have r5: "exec_run ?p5 [InputEnd 1 Eof, Flushed 1 Ok, EndOutput 1, Exit 1] ?p9"
    by (rule exec_run_cons [OF _ s6], rule exec_run_cons [OF _ s7], rule exec_run_cons [OF _ s8], rule exec_run_one [OF s9])
  have r: "exec_run ?p0 ?evs ?p9"
    by (rule exec_run_cons [OF _ s1], rule exec_run_cons [OF _ s2], rule exec_run_cons [OF _ s3], rule exec_run_cons [OF _ s4],
      rule exec_run_cons [OF _ s5], rule r5)
  have inv: "exec_inv ?p9" by (rule exec_run_inv [OF r launched_inv]) simp
  have "px_active ?p9 = 0" unfolding active_zero [OF inv] by (simp add: f w)
  moreover have "px_error ?p9 = Ok" by (simp add: launched_fields)
  ultimately have x: "exec_wait ?p9 = Some Ok" by (simp add: exec_wait_def)
  have "\<forall>e \<in> set ?evs. clean_event e" by (simp add: is_flow_def)
  from stream_always_ends [OF _ r this] x have "q_end (px_out ?p9)" by simp
  with r x show ?thesis by blast
qed

end
