(* ===== verification/Session_Model.thy ===== *)
theory Session_Model
  imports Graph_Claims Executor_Claims
begin

text \<open>
  The session, \<open>core/src/session.cpp\<close>: \<open>create\<close> plans the request and builds the graph, falling back to
  the next candidate of the step that \<open>build\<close> blames; \<open>start\<close> opens the nodes, with the same
  fallback after a hardware error, and launches the executor; then the queue operations and
  \<open>close\<close>. The queues and the executor of a session are its \<open>pipeline\<close>.
\<close>

section \<open>Creation\<close>

record 'e session =
  ss_request :: request
  ss_plan :: "'e option plan"
  ss_graph :: "'e graph"
  ss_pipe :: "frame pipeline"
  ss_started :: bool
  ss_closed :: bool

lemma plan_advance_fallbacks:
  "plan_advance p j = (True, p') \<Longrightarrow> pn_fallbacks p < kMaxFallbacks \<and> pn_fallbacks p' = Suc (pn_fallbacks p)"
  by (auto simp: plan_advance_def Let_def split: if_splits)

text \<open>
  The build-and-fall-back loop, on the plan that \<open>advance\<close> updates. A failure carries the plan as
  the loop leaves it.
\<close>

function build_loop :: "'e node_class \<Rightarrow> 'e option media_context \<Rightarrow> request \<Rightarrow> 'e option plan
    \<Rightarrow> (status \<times> string \<times> 'e option plan) + ('e graph \<times> 'e option plan)" where
  "build_loop vt cx rq pl =
     (case graph_build vt pl cx rq True True of
        Inr g \<Rightarrow> Inr (g, pl)
      | Inl (j, st, why) \<Rightarrow>
          if st \<noteq> Negotiate \<and> st \<noteq> Internal then Inl (st, why, pl)
          else (case plan_advance pl j of
                  (True, pl') \<Rightarrow> build_loop vt cx rq pl'
                | (False, _) \<Rightarrow> Inl (st, why, pl)))"
  by pat_completeness auto
termination
  by (relation "measure (\<lambda>(vt, cx, rq, pl). kMaxFallbacks - pn_fallbacks pl)")
    (auto dest!: plan_advance_fallbacks [OF sym])

declare build_loop.simps [simp del]

definition session_create :: "platform \<Rightarrow> 'e node_class \<Rightarrow> 'e option media_context \<Rightarrow> request
    \<Rightarrow> 'e session result \<times> 'e option media_context" where
  "session_create pf vt cx rq =
     (case validate rq of
        Inl _ \<Rightarrow> (reject Invalid ''bad request'', cx)
      | Inr _ \<Rightarrow>
          (case context_plan pf cx rq of
             (Inl e, cx') \<Rightarrow> (Inl e, cx')
           | (Inr pl, cx') \<Rightarrow>
               (case build_loop vt cx' rq pl of
                  Inl (st, why, _) \<Rightarrow> (reject st why, cx')
                | Inr (g, pl') \<Rightarrow>
                    (Inr \<lparr>ss_request = rq, ss_plan = pl', ss_graph = g,
                          ss_pipe = new_pipeline (new_queue (unat (rq_queue_capacity rq)))
                                      (new_queue (unat (rq_queue_capacity rq))) [],
                          ss_started = False, ss_closed = False\<rparr>, cx'))))"

section \<open>Start\<close>

lemma build_loop_fallbacks: "build_loop vt cx rq pl = Inr (g, pl') \<Longrightarrow> pn_fallbacks pl \<le> pn_fallbacks pl'"
proof (induction vt cx rq pl rule: build_loop.induct)
  case (1 vt cx rq pl)
  show ?case
  proof (cases "graph_build vt pl cx rq True True")
    case (Inl e)
    obtain j st why where e: "e = (j, st, why)" by (cases e) auto
    with 1(2) Inl have st: "st = Negotiate \<or> st = Internal"
      by (subst (asm) build_loop.simps) (auto split: if_splits)
    obtain b p where adv: "plan_advance pl j = (b, p)" by (cases "plan_advance pl j")
    with 1(2) Inl e st have b: "b" and rec: "build_loop vt cx rq p = Inr (g, pl')"
      by (subst (asm) build_loop.simps, auto split: bool.splits)+
    have "\<not> (st \<noteq> Negotiate \<and> st \<noteq> Internal)" using st by blast
    from 1(1)[OF Inl e [symmetric] refl this adv [symmetric] _ rec] b
    have "pn_fallbacks p \<le> pn_fallbacks pl'" by simp
    then show ?thesis using plan_advance_fallbacks adv b by fastforce
  next
    case (Inr h)
    with 1(2) show ?thesis by (subst (asm) build_loop.simps) simp
  qed
qed

text \<open>
  The loop of \<open>start\<close>: open the graph, fall back after a hardware error. The value is the status, the
  graph and the plan of the session, and the calls made on the nodes.
\<close>

function start_loop :: "'e node_class \<Rightarrow> 'e option media_context \<Rightarrow> request \<Rightarrow> 'e option plan \<Rightarrow> 'e graph
    \<Rightarrow> status \<times> 'e graph \<times> 'e option plan \<times> node_call list" where
  "start_loop vt cx rq pl g =
     (case graph_open vt g of
        (st, g1, calls) \<Rightarrow>
          if st = Ok then (Ok, g1, pl, calls)
          else if st \<noteq> Hw then (st, g1, pl, calls)
          else (case plan_advance pl (g_failure_step g1) of
                  (False, _) \<Rightarrow> (st, g1, pl, calls)
                | (True, pl1) \<Rightarrow>
                    (case build_loop vt cx rq pl1 of
                       Inl (st', why, pl2) \<Rightarrow> (st', g1, pl2, calls)
                     | Inr (g2, pl2) \<Rightarrow>
                         (case start_loop vt cx rq pl2 g2 of
                            (st', g', pl', calls') \<Rightarrow> (st', g', pl', calls @ calls')))))"
  by pat_completeness auto
termination
  by (relation "measure (\<lambda>(vt, cx, rq, pl, g). kMaxFallbacks - pn_fallbacks pl)")
    (auto dest!: plan_advance_fallbacks [OF sym] build_loop_fallbacks)

declare start_loop.simps [simp del]

definition session_start :: "'e node_class \<Rightarrow> 'e option media_context \<Rightarrow> 'e session \<Rightarrow> status \<times> 'e session \<times> node_call list" where
  "session_start vt cx s =
     (if ss_closed s then (Invalid, s, [])
      else if ss_started s then (Ok, s, [])
      else case start_loop vt cx (ss_request s) (ss_plan s) (ss_graph s) of
             (st, g, pl, calls) \<Rightarrow>
               let s1 = s\<lparr>ss_graph := g, ss_plan := pl\<rparr>
               in if st \<noteq> Ok then (st, s1, calls)
                  else (case exec_launch (length (g_nodes g)) True True (ss_pipe s) of
                          (lst, px) \<Rightarrow>
                            if lst \<noteq> Ok then (lst, s1, calls)
                            else (Ok, s1\<lparr>ss_pipe := px\<lparr>px_edges := g_edges g\<rparr>, ss_started := True\<rparr>, calls)))"

section \<open>The queue operations\<close>

definition session_push :: "'e session \<Rightarrow> frame option \<Rightarrow> status \<times> 'e session" where
  "session_push s f =
     (if ss_closed s then (Canceled, s)
      else case f of
             None \<Rightarrow> (Invalid, s)
           | Some v \<Rightarrow> (case q_try_push v (px_in (ss_pipe s)) of
                         (st, q) \<Rightarrow> (st, s\<lparr>ss_pipe := (ss_pipe s)\<lparr>px_in := q\<rparr>\<rparr>)))"

definition session_push_eos :: "'e session \<Rightarrow> status \<times> 'e session" where
  "session_push_eos s =
     (if ss_closed s then (Canceled, s)
      else (Ok, s\<lparr>ss_pipe := (ss_pipe s)\<lparr>px_in := q_close (px_in (ss_pipe s))\<rparr>\<rparr>))"

definition session_try_pull :: "'e session \<Rightarrow> frame result \<times> 'e session" where
  "session_try_pull s =
     (case q_try_pop (px_out (ss_pipe s)) of
        (r, q) \<Rightarrow> (r, s\<lparr>ss_pipe := (ss_pipe s)\<lparr>px_out := q\<rparr>\<rparr>))"

text \<open>\<open>None\<close> while the call blocks.\<close>

definition session_pull :: "'e session \<Rightarrow> (frame result \<times> 'e session) option" where
  "session_pull s =
     (case q_pop (px_out (ss_pipe s)) of
        None \<Rightarrow> None
      | Some (r, q) \<Rightarrow> Some (r, s\<lparr>ss_pipe := (ss_pipe s)\<lparr>px_out := q\<rparr>\<rparr>))"

definition session_wait :: "'e session \<Rightarrow> status option" where
  "session_wait s = exec_wait (ss_pipe s)"

text \<open>
  \<open>close\<close>: the cancellations of \<open>shutdown\<close> and the steps of the workers interleave (\<open>evs\<close>) until all
  workers have exited, then the nodes are closed.
\<close>

inductive session_close :: "'e node_class \<Rightarrow> 'e session \<Rightarrow> status \<Rightarrow> 'e session \<Rightarrow> node_call list \<Rightarrow> bool" where
  close_again: "ss_closed s \<Longrightarrow> session_close vt s Ok s []"
| close_first: "\<not> ss_closed s \<Longrightarrow>
    exec_run (exec_shutdown ((ss_pipe s)\<lparr>px_in := q_close (px_in (ss_pipe s))\<rparr>)) evs px \<Longrightarrow>
    exec_join px = Some px' \<Longrightarrow> close_nodes vt (ss_graph s) = (g, calls) \<Longrightarrow>
    session_close vt s (px_error px') (s\<lparr>ss_closed := True, ss_pipe := px', ss_graph := g\<rparr>) calls"

inductive_cases session_closeE: "session_close vt s st s' calls"


section \<open>Creation falls back soundly\<close>

lemma advances_prepend: "advances p1 n p2 \<Longrightarrow> plan_advance p i = (True, p1) \<Longrightarrow> advances p (Suc n) p2"
proof (induction rule: advances.induct)
  case (adv_none p1)
  then show ?case using advances.adv_step[OF advances.adv_none] by blast
next
  case (adv_step p1 n p' j p'')
  then show ?case using advances.adv_step by blast
qed

lemma build_loop_sound:
  "build_loop vt cx rq pl = Inr (g, pl') \<Longrightarrow>
     graph_build vt pl' cx rq True True = Inr g \<and> (\<exists>n. advances pl n pl')"
proof (induction vt cx rq pl rule: build_loop.induct)
  case (1 vt cx rq pl)
  show ?case
  proof (cases "graph_build vt pl cx rq True True")
    case (Inl e)
    obtain j st why where e: "e = (j, st, why)" by (cases e) auto
    with 1(2) Inl have st: "\<not> (st \<noteq> Negotiate \<and> st \<noteq> Internal)"
      by (subst (asm) build_loop.simps) (auto split: if_splits)
    obtain b p where adv: "plan_advance pl j = (b, p)" by (cases "plan_advance pl j")
    with 1(2) Inl e st have b: "b" and rec: "build_loop vt cx rq p = Inr (g, pl')"
      by (subst (asm) build_loop.simps, auto split: bool.splits)+
    from 1(1)[OF Inl e [symmetric] refl st adv [symmetric] _ rec] b
    have "graph_build vt pl' cx rq True True = Inr g \<and> (\<exists>n. advances p n pl')" by simp
    then show ?thesis using advances_prepend adv b by fastforce
  next
    case (Inr h)
    with 1(2) show ?thesis by (subst (asm) build_loop.simps) (auto intro: adv_none)
  qed
qed

lemma context_plan_fresh: "context_plan pf cx rq = (Inr pl, cx') \<Longrightarrow> pn_fallbacks pl = 0"
  by (auto simp: context_plan_def split: sum.splits prod.splits option.splits)

lemma session_createE:
  assumes "session_create pf vt cx rq = (Inr s, cx')"
  obtains pl where "context_plan pf cx rq = (Inr pl, cx')"
    "build_loop vt cx' rq pl = Inr (ss_graph s, ss_plan s)"
    "s = \<lparr>ss_request = rq, ss_plan = ss_plan s, ss_graph = ss_graph s,
          ss_pipe = new_pipeline (new_queue (unat (rq_queue_capacity rq)))
                      (new_queue (unat (rq_queue_capacity rq))) [],
          ss_started = False, ss_closed = False\<rparr>"
  using assms unfolding session_create_def
  by (auto split: sum.splits prod.splits)

text \<open>
  C22. A session that \<open>create\<close> returns runs a graph built from its plan, and its plan is the
  context's plan after at most eight advances; it is neither started nor closed and its queues are
  empty with the requested capacity. The fallback loop terminates for every plan.
\<close>

theorem session_create_sound:
  assumes "session_create pf vt cx rq = (Inr s, cx')"
  shows "\<exists>pl n. context_plan pf cx rq = (Inr pl, cx') \<and> advances pl n (ss_plan s) \<and> n \<le> 8 \<and>
    graph_build vt (ss_plan s) cx' rq True True = Inr (ss_graph s) \<and> graph_shape rq (ss_graph s) \<and>
    \<not> ss_started s \<and> \<not> ss_closed s \<and>
    px_in (ss_pipe s) = new_queue (unat (rq_queue_capacity rq)) \<and>
    px_out (ss_pipe s) = new_queue (unat (rq_queue_capacity rq))"
  using assms
proof (rule session_createE)
  fix pl
  assume pl: "context_plan pf cx rq = (Inr pl, cx')" and
    b: "build_loop vt cx' rq pl = Inr (ss_graph s, ss_plan s)" and
    s: "s = \<lparr>ss_request = rq, ss_plan = ss_plan s, ss_graph = ss_graph s,
          ss_pipe = new_pipeline (new_queue (unat (rq_queue_capacity rq)))
                      (new_queue (unat (rq_queue_capacity rq))) [],
          ss_started = False, ss_closed = False\<rparr>"
  from build_loop_sound[OF b] obtain n where g: "graph_build vt (ss_plan s) cx' rq True True = Inr (ss_graph s)"
    and n: "advances pl n (ss_plan s)" by blast
  have "n \<le> 8" using advances_fallbacks[OF n] context_plan_fresh[OF pl] by (simp add: kMaxFallbacks_def)
  moreover have "\<not> ss_started s" "\<not> ss_closed s"
    "px_in (ss_pipe s) = new_queue (unat (rq_queue_capacity rq))"
    "px_out (ss_pipe s) = new_queue (unat (rq_queue_capacity rq))"
    by (subst s, simp add: new_pipeline_def)+
  moreover note graph_build_shape[OF g]
  ultimately show ?thesis using pl n g by blast
qed


definition decode_host_request :: request where
  "decode_host_request = decode_request\<lparr>rq_output_spec := nv12_spec Host\<rparr>"

lemma session_create_sample:
  "case session_create no_platform sample_class object_context decode_host_request of
     (Inr s, cx) \<Rightarrow> length (g_nodes (ss_graph s)) = 4 | _ \<Rightarrow> False"
  by code_simp


theorem session_create_sound_witness:
  "\<exists>s cx' pl n. session_create no_platform sample_class object_context decode_host_request = (Inr s, cx') \<and>
     context_plan no_platform object_context decode_host_request = (Inr pl, cx') \<and> advances pl n (ss_plan s)"
proof -
  obtain s cx' where s: "session_create no_platform sample_class object_context decode_host_request = (Inr s, cx')"
    using session_create_sample by (auto split: prod.splits sum.splits)
  from session_create_sound[OF s] s show ?thesis by blast
qed

section \<open>Bridges and the fallback\<close>

text \<open>
  C23. The step that \<open>build\<close> reports counts nodes, bridges included, while the planner advances
  plan steps. In the sample the transcoding plan has a second encoder that builds, and the plan
  could advance its encoder step 2; but the first encoder, behind a bridge, is reported as step 3,
  the sink adapter, so that \<open>create\<close> gives up without trying it.
\<close>

theorem bridge_breaks_fallback:
  "fst (context_plan no_platform object_context transcode_request) = Inr (sample_plan 0) \<and>
   plan_advance (sample_plan 0) 2 = (True, sample_plan 1) \<and>
   \<not> isl (graph_build sample_class (sample_plan 1) object_context transcode_request True True) \<and>
   graph_build sample_class (sample_plan 0) object_context transcode_request True True =
     Inl (3, Negotiate, ''configure rejected'') \<and>
   fst (session_create no_platform sample_class object_context transcode_request) =
     reject Negotiate ''configure rejected''"
proof (intro conjI)
  show "fst (context_plan no_platform object_context transcode_request) = Inr (sample_plan 0)"
    by (simp add: context_plan_def validate_def transcode_request_def default_request_def probe_device_def
        object_context_def no_platform_def endpoint_step_def candidates_def sort_by_def object_factory_def
        cand_before_def Let_def sample_plan_def make_step_def)
  show "plan_advance (sample_plan 0) 2 = (True, sample_plan 1)"
    by (simp add: plan_advance_def sample_plan_def kMaxFallbacks_def make_step_def object_factory_def Let_def)
  show "\<not> isl (graph_build sample_class (sample_plan 1) object_context transcode_request True True)"
    by code_simp
  show "graph_build sample_class (sample_plan 0) object_context transcode_request True True =
     Inl (3, Negotiate, ''configure rejected'')"
  proof -
    have "(case graph_build sample_class (sample_plan 0) object_context transcode_request True True of
      Inl e \<Rightarrow> e = (3, Negotiate, ''configure rejected'') | Inr _ \<Rightarrow> False)" by code_simp
    then show ?thesis by (auto split: sum.splits)
  qed
  have "(case fst (session_create no_platform sample_class object_context transcode_request) of
      Inl e \<Rightarrow> e = (Negotiate, ''configure rejected'') | Inr _ \<Rightarrow> False)" by code_simp
  then show "fst (session_create no_platform sample_class object_context transcode_request) =
     reject Negotiate ''configure rejected''"
    by (auto split: sum.splits)
qed

section \<open>From start to the end of the stream\<close>

lemma graph_open_fields:
  "graph_open vt g = (st, g', calls) \<Longrightarrow> g_edges g' = g_edges g \<and> length (g_nodes g') = length (g_nodes g)"
proof -
  assume "graph_open vt g = (st, g', calls)"
  moreover obtain st1 fl ns cs where o: "open_loop vt (length (g_nodes g)) 0 (g_nodes g) = (st1, fl, ns, cs)"
    by (cases "open_loop vt (length (g_nodes g)) 0 (g_nodes g)")
  ultimately show ?thesis using open_loop_calls[OF o] by (auto simp: graph_open_def)
qed

definition edges_fresh :: "request \<Rightarrow> 'e graph \<Rightarrow> bool" where
  "edges_fresh rq g \<longleftrightarrow> 2 \<le> length (g_nodes g) \<and>
     g_edges g = replicate (length (g_nodes g) - 1) (new_queue (unat (rq_queue_capacity rq)))"

lemma graph_build_fresh:
  assumes "graph_build vt pl cx rq in_q out_q = Inr g" shows "edges_fresh rq g"
proof -
  note graph_build_shape[OF assms]
  moreover have "2 \<le> length (g_nodes g)"
    using assms
  proof (rule graph_buildE)
    fix src made ns pss cs bs
    assume steps: "2 \<le> length (pn_steps pl)" and
      made: "make_nodes vt rq src (length (pn_steps pl)) 0 (pn_steps pl) = Inr made" and
      ns: "splice vt 0 made = Inr ns" and pss: "negotiate 0 (map snd ns) = Inr pss" and
      cs: "configure_all vt 0 (zip (map fst ns) pss) = Inr cs" and
      bs: "bind_all vt (request_model cx rq) 0 (map fst cs) = Inr bs" and
      g: "g = \<lparr>g_nodes = bs, g_ports = map snd cs,
          g_edges = replicate (length ns - 1) (new_queue (unat (rq_queue_capacity rq))),
          g_emits = map (\<lambda>i. if i + 1 < length ns then Some i else None) [0..<length ns],
          g_failure_step = 0\<rparr>"
    have "length pss = length ns" using negotiate_length[OF pss] by simp
    then have "length (g_nodes g) = length ns"
      using configure_all_spec[OF cs] bind_all_length[OF bs] g by simp
    moreover have "length made \<le> length ns"
    proof -
      have plain: "filter (\<lambda>x. fst x \<noteq> Download) made = made" by (rule made_plain[OF made])
      show ?thesis using splice_nodes[OF ns] plain length_filter_le[of "\<lambda>x. fst x \<noteq> Download" ns] by simp
    qed
    ultimately show ?thesis using make_nodes_spec[OF made] steps by simp
  qed
  ultimately show ?thesis
    by (auto simp: edges_fresh_def graph_shape_def intro!: replicate_eqI)
qed

lemma start_loop_fresh:
  "start_loop vt cx rq pl g = (st, g', pl', calls) \<Longrightarrow> edges_fresh rq g \<Longrightarrow> edges_fresh rq g'"
proof (induction vt cx rq pl g arbitrary: st g' pl' calls rule: start_loop.induct)
  case (1 vt cx rq pl g)
  obtain ost g1 ocalls where o: "graph_open vt g = (ost, g1, ocalls)" by (cases "graph_open vt g")
  have f1: "edges_fresh rq g1" using graph_open_fields[OF o] 1(3) by (simp add: edges_fresh_def)
  obtain b pl1 where adv: "plan_advance pl (g_failure_step g1) = (b, pl1)"
    by (cases "plan_advance pl (g_failure_step g1)")
  show ?case
  proof (cases "ost = Hw \<and> b \<and> \<not> isl (build_loop vt cx rq pl1)")
    case False
    then have "g' = g1"
      using 1(2) o adv
      by (subst (asm) start_loop.simps) (auto split: if_splits bool.splits sum.splits prod.splits)
    then show ?thesis using f1 by simp
  next
    case True
    then obtain g2 pl2 where bl: "build_loop vt cx rq pl1 = Inr (g2, pl2)"
      by (cases "build_loop vt cx rq pl1") auto
    obtain st3 g3 pl3 calls3 where rec: "start_loop vt cx rq pl2 g2 = (st3, g3, pl3, calls3)"
      by (cases "start_loop vt cx rq pl2 g2")
    have f2: "edges_fresh rq g2" using build_loop_sound[OF bl] graph_build_fresh by blast
    have "g' = g3"
      using 1(2) o adv True bl rec by (subst (asm) start_loop.simps) simp
    moreover have "edges_fresh rq g3"
      by (rule 1(1)[OF o [symmetric] refl _ _ adv [symmetric] _ bl refl rec f2]) (use True in auto)
    ultimately show ?thesis by simp
  qed
qed


lemma launched_eq:
  assumes "es = map new_queue cs" "n = Suc (length cs)" "cs \<noteq> []"
  shows "exec_launch n True True (new_pipeline (new_queue a) (new_queue b) []) =
    (Ok, px) \<Longrightarrow> px\<lparr>px_edges := es\<rparr> = launched a b cs"
  using assms by (auto simp: launched_def exec_launch_def new_pipeline_def neq_Nil_conv split: if_splits)

lemma session_start_launched:
  assumes "session_create pf vt cx rq = (Inr s, cx')" "session_start vt cx' s = (Ok, s', calls)"
  shows "ss_started s' \<and> \<not> ss_closed s' \<and> (\<exists>k. Suc (Suc k) = length (g_nodes (ss_graph s')) \<and>
    ss_pipe s' = launched (unat (rq_queue_capacity rq)) (unat (rq_queue_capacity rq))
                   (replicate (Suc k) (unat (rq_queue_capacity rq))))"
  using assms(1)
proof (rule session_createE)
  let ?c = "unat (rq_queue_capacity rq)"
  fix pl
  assume b: "build_loop vt cx' rq pl = Inr (ss_graph s, ss_plan s)" and
    s: "s = \<lparr>ss_request = rq, ss_plan = ss_plan s, ss_graph = ss_graph s,
          ss_pipe = new_pipeline (new_queue ?c) (new_queue ?c) [],
          ss_started = False, ss_closed = False\<rparr>"
  then have fields: "\<not> ss_closed s" "\<not> ss_started s" "ss_request s = rq"
    "ss_pipe s = new_pipeline (new_queue ?c) (new_queue ?c) []"
    by (metis session.select_convs(6), metis session.select_convs(5), metis session.select_convs(1),
        metis session.select_convs(4))
  have fresh: "edges_fresh rq (ss_graph s)" using build_loop_sound[OF b] graph_build_fresh by blast
  obtain st g pl' cs where l: "start_loop vt cx' rq (ss_plan s) (ss_graph s) = (st, g, pl', cs)"
    by (cases "start_loop vt cx' rq (ss_plan s) (ss_graph s)")
  obtain lst px where "exec_launch (length (g_nodes g)) True True (ss_pipe s) = (lst, px)"
    by (cases "exec_launch (length (g_nodes g)) True True (ss_pipe s)")
  then have x: "exec_launch (length (g_nodes g)) True True
      (new_pipeline (new_queue ?c) (new_queue ?c) []) = (lst, px)" unfolding fields(4) .
  have g: "edges_fresh rq g" by (rule start_loop_fresh[OF l fresh])
  from assms(2) fields l x have s': "lst = Ok"
    "s' = s\<lparr>ss_graph := g, ss_plan := pl', ss_pipe := px\<lparr>px_edges := g_edges g\<rparr>, ss_started := True\<rparr>"
    by (auto simp: session_start_def Let_def split: if_splits)
  from g have "2 \<le> length (g_nodes g)" by (simp add: edges_fresh_def)
  then obtain k where k: "length (g_nodes g) = Suc (Suc k)"
    using le_Suc_ex[of 2 "length (g_nodes g)"] by auto
  have "px\<lparr>px_edges := g_edges g\<rparr> = launched ?c ?c (replicate (Suc k) ?c)"
    by (rule launched_eq[of _ _ "length (g_nodes g)"])
      (use g k x s'(1) in \<open>simp_all add: edges_fresh_def\<close>)
  then show ?thesis using s'(2) k fields(1) by simp
qed

text \<open>
  C24. From \<open>create\<close> to the last frame: a session that was created and started runs one worker per
  node of its graph. In every interleaving of the workers and the caller in which no node but the source
  returns a flow status (\<open>Again\<close>, \<open>Eof\<close>; the source may report the end of its input), some worker is
  inside its node or can take a step until \<open>wait\<close> returns, and once it returns \<open>pull\<close> does not block.
\<close>

theorem session_stream_ends:
  assumes "session_create pf vt cx rq = (Inr s, cx')" "session_start vt cx' s = (Ok, s', calls)"
    and "exec_run (ss_pipe s') evs px" "\<forall>e \<in> set evs. clean_event e"
  shows "length (px_workers (ss_pipe s')) = length (g_nodes (ss_graph s')) \<and>
    (case session_wait (s'\<lparr>ss_pipe := px\<rparr>) of
       None \<Rightarrow> \<exists>i < length (px_workers px). px_workers px ! i = Busy \<or> px_workers px ! i = Flushing \<or>
         (\<exists>e px'. exec_step px e px' \<and> actor e = Some i)
     | Some st \<Rightarrow> st = px_error px \<and> session_pull (s'\<lparr>ss_pipe := px\<rparr>) \<noteq> None)"
proof -
  let ?c = "unat (rq_queue_capacity rq)"
  from session_start_launched[OF assms(1,2)] obtain k where
    k: "Suc (Suc k) = length (g_nodes (ss_graph s'))" and
    pipe: "ss_pipe s' = launched ?c ?c (replicate (Suc k) ?c)" by blast
  have ne: "replicate (Suc k) ?c \<noteq> []" by simp
  have c: "clean_inv px" by (rule exec_run_clean[OF assms(3)[unfolded pipe] launched_clean[OF ne] assms(4)])
  have len: "length (px_workers (ss_pipe s')) = length (g_nodes (ss_graph s'))"
    unfolding pipe launched_fields(1)[OF ne] using k by simp
  show ?thesis
  proof (cases "px_active px = 0")
    case True
    have "exec_inv px" using c by (simp add: clean_inv_def)
    then have "\<forall>w \<in> set (px_workers px). w = Done" using True active_zero by blast
    then have "q_end (px_out px)" by (rule all_done_ended(2)[OF c])
    then show ?thesis using True len
      by (simp add: session_wait_def exec_wait_def session_pull_def q_pop_def split: list.splits)
  next
    case False
    then show ?thesis using progress[OF c False] len by (simp add: session_wait_def exec_wait_def)
  qed
qed

lemma session_start_sample:
  "case session_create no_platform sample_class object_context decode_host_request of
     (Inr s, cx) \<Rightarrow> fst (session_start sample_class cx s) = Ok | _ \<Rightarrow> False"
  by code_simp

theorem session_stream_ends_witness:
  "\<exists>s cx s' calls. session_create no_platform sample_class object_context decode_host_request = (Inr s, cx) \<and>
     session_start sample_class cx s = (Ok, s', calls) \<and>
     length (px_workers (ss_pipe s')) = length (g_nodes (ss_graph s'))"
proof -
  obtain s cx s' calls where
    s: "session_create no_platform sample_class object_context decode_host_request = (Inr s, cx)" and
    s': "session_start sample_class cx s = (Ok, s', calls)"
    using session_start_sample by (auto split: prod.splits sum.splits) (metis prod.collapse)
  from session_stream_ends[OF s s' exec_Nil] s s' show ?thesis by auto
qed

section \<open>Closing a session that never started\<close>

lemma run_out_unlaunched:
  "exec_run px evs px' \<Longrightarrow> px_workers px = [] \<Longrightarrow> \<not> px_launched px \<Longrightarrow> px_closer px = Idle \<Longrightarrow> q_items (px_out px) = [] \<Longrightarrow>
     \<not> q_end (px_out px) \<Longrightarrow>
     px_workers px' = [] \<and> \<not> px_launched px' \<and> px_closer px' = Idle \<and> q_items (px_out px') = [] \<and> \<not> q_end (px_out px')"
proof (induction rule: exec_run.induct)
  case (exec_snoc px evs px' e px'')
  then have "px_workers px' = []" "\<not> px_launched px'" "px_closer px' = Idle" "q_items (px_out px') = []" "\<not> q_end (px_out px')"
    by simp_all
  with exec_snoc.hyps(2) show ?case
    by (cases rule: exec_step.cases) (auto simp: exec_shutdown_def q_pop_def q_try_pop_def)
qed simp

text \<open>
  C25. \<open>close\<close> on a session that was created but never started leaves the output queue open: the
  executor's \<open>shutdown\<close> returns at once. A \<open>pull\<close> then blocks, and no later call can end it: \<open>start\<close>
  is refused, pushes are refused, a second \<open>close\<close> does nothing.
\<close>

theorem unstarted_close_blocks_pull:
  assumes "session_create pf vt cx rq = (Inr s, cx')" "session_close vt s st s' calls"
  shows "session_pull s' = None \<and> session_start vt cx' s' = (Invalid, s', []) \<and>
    (\<forall>f. session_push s' f = (Canceled, s')) \<and> session_push_eos s' = (Canceled, s') \<and>
    (\<forall>st'' s'' calls''. session_close vt s' st'' s'' calls'' \<longrightarrow> s'' = s')"
  using assms(1)
proof (rule session_createE)
  let ?c = "unat (rq_queue_capacity rq)"
  fix pl
  assume s: "s = \<lparr>ss_request = rq, ss_plan = ss_plan s, ss_graph = ss_graph s,
          ss_pipe = new_pipeline (new_queue ?c) (new_queue ?c) [],
          ss_started = False, ss_closed = False\<rparr>"
  then have fields: "\<not> ss_closed s" "ss_pipe s = new_pipeline (new_queue ?c) (new_queue ?c) []"
    by (metis session.select_convs(6), metis session.select_convs(4))
  from assms(2) fields(1) obtain evs px px' where
    run: "exec_run (exec_shutdown ((ss_pipe s)\<lparr>px_in := q_close (px_in (ss_pipe s))\<rparr>)) evs px" and
    join: "exec_join px = Some px'" and s': "ss_closed s'" "ss_pipe s' = px'"
    by (elim session_closeE) auto
  have "px_workers px = [] \<and> \<not> px_launched px \<and> px_closer px = Idle \<and> q_items (px_out px) = [] \<and> \<not> q_end (px_out px)"
    by (rule run_out_unlaunched[OF run])
      (simp_all add: fields(2) exec_shutdown_def new_pipeline_def new_queue_def)
  with join have "q_items (px_out px') = []" "\<not> q_end (px_out px')" by (auto simp: exec_join_def)
  moreover have "s'' = s'" if "session_close vt s' st'' s'' calls''" for st'' s'' calls''
    using that s'(1) by (elim session_closeE) simp_all
  ultimately show ?thesis
    using s' by (auto simp: session_pull_def q_pop_def session_start_def session_push_def session_push_eos_def)
qed

theorem unstarted_close_blocks_pull_witness:
  "\<exists>s cx s'. session_create no_platform sample_class object_context decode_host_request = (Inr s, cx) \<and>
     session_close sample_class s Ok s' (snd (close_nodes sample_class (ss_graph s))) \<and> session_pull s' = None"
proof -
  obtain s cx where s: "session_create no_platform sample_class object_context decode_host_request = (Inr s, cx)"
    using session_create_sample by (auto split: prod.splits sum.splits)
  obtain g calls where g: "close_nodes sample_class (ss_graph s) = (g, calls)" by (cases "close_nodes sample_class (ss_graph s)")
  from s have p: "\<not> ss_closed s" "\<not> px_launched (ss_pipe s)" "px_error (ss_pipe s) = Ok"
    by (auto elim!: session_createE) (metis session.select_convs new_pipeline_def pipeline.select_convs)+
  let ?px = "(ss_pipe s)\<lparr>px_in := q_close (px_in (ss_pipe s))\<rparr>"
  have "session_close sample_class s (px_error ?px)
      (s\<lparr>ss_closed := True, ss_pipe := ?px, ss_graph := g\<rparr>) calls"
    by (rule close_first[OF p(1) _ _ g, where evs = "[]" and px = ?px])
      (use p in \<open>simp_all add: exec_shutdown_def exec_join_def exec_Nil\<close>)
  then have c: "session_close sample_class s Ok (s\<lparr>ss_closed := True, ss_pipe := ?px, ss_graph := g\<rparr>) calls"
    using p by simp
  from unstarted_close_blocks_pull[OF s c] s c g show ?thesis by auto
qed

end
