(* ===== verification/Ps_Model.thy ===== *)
theory Ps_Model
  imports Status
begin

text \<open>
  The program stream packer, \<open>codecs/pspack/src/ps.cpp\<close>: the bit writer, the multiplexer that cuts an
  access unit into PES packets behind pack headers, and the demultiplexer that finds the packets in
  a growing buffer and puts the access units together again. Positions are natural numbers; the
  buffer is bounded far below the range of \<open>size_t\<close>.
\<close>

unbundle bit_operations_syntax

section \<open>Bits and integers\<close>

record bit_writer =
  bw_out :: bytes
  bw_cur :: u8
  bw_bits :: nat

definition new_writer :: "bytes \<Rightarrow> bit_writer" where
  "new_writer out = \<lparr>bw_out = out, bw_cur = 0, bw_bits = 0\<rparr>"

definition bw_bit :: "bit_writer \<Rightarrow> bool \<Rightarrow> bit_writer" where
  "bw_bit w b =
     (let cur = push_bit 1 (bw_cur w) OR of_bool b
      in if bw_bits w + 1 = 8 then \<lparr>bw_out = bw_out w @ [cur], bw_cur = 0, bw_bits = 0\<rparr>
         else w\<lparr>bw_cur := cur, bw_bits := bw_bits w + 1\<rparr>)"

primrec bw_put :: "u32 \<Rightarrow> nat \<Rightarrow> bit_writer \<Rightarrow> bit_writer" where
  "bw_put v 0 w = w"
| "bw_put v (Suc i) w = bw_put v i (bw_bit w (bit v i))"

text \<open>A sequence of \<open>put\<close> calls.\<close>

definition put_fields :: "(u32 \<times> nat) list \<Rightarrow> bytes \<Rightarrow> bytes" where
  "put_fields fs out = bw_out (foldl (\<lambda>w (v, n). bw_put v n w) (new_writer out) fs)"

definition wr_start :: "bytes \<Rightarrow> u8 \<Rightarrow> bytes" where
  "wr_start out i = out @ [0, 0, 1, i]"

definition wr_u16 :: "bytes \<Rightarrow> u16 \<Rightarrow> bytes" where
  "wr_u16 out v = out @ [ucast (drop_bit 8 v), ucast v]"

definition wr_u32be :: "bytes \<Rightarrow> u32 \<Rightarrow> bytes" where
  "wr_u32be out v = out @ [ucast (drop_bit 24 v), ucast (drop_bit 16 v), ucast (drop_bit 8 v), ucast v]"

text \<open>A clock value: negative times are 0, the others keep their low 33 bits.\<close>

definition clock33 :: "int \<Rightarrow> u64" where
  "clock33 pts = (if pts < 0 then 0 else of_int pts) AND 0x1FFFFFFFF"

definition wr_pts :: "bytes \<Rightarrow> int \<Rightarrow> bytes" where
  "wr_pts out pts =
     (let p = clock33 pts
      in put_fields [(2, 4), (ucast (drop_bit 30 p), 3), (1, 1), (ucast (drop_bit 15 p), 15), (1, 1),
           (ucast p, 15), (1, 1)] out)"

definition rd_u16 :: "bytes \<Rightarrow> nat \<Rightarrow> u16" where
  "rd_u16 d p = push_bit 8 (ucast (d ! p)) OR ucast (d ! (p + 1))"

definition rd_pts :: "bytes \<Rightarrow> nat \<Rightarrow> u64" where
  "rd_pts d p =
     push_bit 30 (ucast (drop_bit 1 (d ! p)) AND 7) OR
     push_bit 15 (drop_bit 1 (ucast (rd_u16 d (p + 1)))) OR
     drop_bit 1 (ucast (rd_u16 d (p + 3)))"

section \<open>The CRC\<close>

definition crc_bit :: "u32 \<Rightarrow> u32" where
  "crc_bit c = (if bit c 0 then drop_bit 1 c XOR 0xEDB88320 else drop_bit 1 c)"

definition crc_byte :: "u32 \<Rightarrow> u8 \<Rightarrow> u32" where
  "crc_byte c b = (crc_bit ^^ 8) (c XOR ucast b)"

definition crc32 :: "bytes \<Rightarrow> u32" where
  "crc32 d = foldl crc_byte 0xFFFFFFFF d XOR 0xFFFFFFFF"

section \<open>NAL units\<close>

datatype video_codec = AvcVideo | HevcVideo

definition stream_type :: "video_codec \<Rightarrow> u8" where
  "stream_type c = (if c = AvcVideo then 0x1B else 0x24)"

text \<open>The bytes \<open>for_each_nal\<close> hands to its callback, from position \<open>i\<close> on.\<close>

function nal_headers :: "bytes \<Rightarrow> nat \<Rightarrow> u8 list" where
  "nal_headers d i =
     (if \<not> i + 3 < length d then []
      else if d ! i = 0 \<and> d ! (i + 1) = 0 \<and> d ! (i + 2) = 1 then d ! (i + 3) # nal_headers d (i + 3)
      else if i + 4 < length d \<and> d ! i = 0 \<and> d ! (i + 1) = 0 \<and> d ! (i + 2) = 0 \<and> d ! (i + 3) = 1
      then d ! (i + 4) # nal_headers d (i + 4)
      else nal_headers d (i + 1))"
  by pat_completeness auto
termination by (relation "measure (\<lambda>(d, i). length d - i)") auto

declare nal_headers.simps [simp del]

definition hevc_key :: "u8 \<Rightarrow> bool" where
  "hevc_key b = (let t = drop_bit 1 b AND 0x3F in t = 32 \<or> t = 19 \<or> t = 20)"

definition avc_key :: "u8 \<Rightarrow> bool" where
  "avc_key b = (let t = b AND 0x1F in t = 5 \<or> t = 7)"

definition sniff :: "bytes \<Rightarrow> video_codec" where
  "sniff d =
     (if \<exists>b \<in> set (nal_headers d 0). hevc_key b then HevcVideo
      else if \<exists>b \<in> set (nal_headers d 0). avc_key b then AvcVideo else HevcVideo)"

definition is_keyframe :: "video_codec \<Rightarrow> bytes option \<Rightarrow> bool" where
  "is_keyframe c data =
     (case data of
        None \<Rightarrow> False
      | Some d \<Rightarrow> d \<noteq> [] \<and> (\<exists>b \<in> set (nal_headers d 0). if c = AvcVideo then avc_key b else hevc_key b))"

text \<open>\<open>None\<close> is \<open>kNpos\<close>.\<close>

function find_sc :: "bytes \<Rightarrow> nat \<Rightarrow> nat option" where
  "find_sc d i =
     (if \<not> i + 2 < length d then None
      else if d ! i = 0 \<and> d ! (i + 1) = 0 \<and> d ! (i + 2) = 1 then Some i
      else find_sc d (i + 1))"
  by pat_completeness auto
termination by (relation "measure (\<lambda>(d, i). length d - i)") auto

declare find_sc.simps [simp del]

lemma find_sc_Some: "find_sc d i = Some s \<Longrightarrow> i \<le> s \<and> s + 2 < length d"
proof (induction d i rule: find_sc.induct)
  case (1 d i)
  then show ?case by (subst (asm) (2) find_sc.simps) (auto split: if_splits)
qed

section \<open>Multiplexing\<close>

definition kMaxPayload :: nat where "kMaxPayload = 64 * 2 ^ 20"
definition kMaxBuffered :: nat where "kMaxBuffered = kMaxPayload + 2 ^ 20"
definition kPesChunk :: nat where "kPesChunk = 60000"
definition kVideoStreamId :: u8 where "kVideoStreamId = 0xE0"

definition wr_pack :: "u64 \<Rightarrow> u32 \<Rightarrow> bytes \<Rightarrow> bytes" where
  "wr_pack scr rate out =
     put_fields [(1, 2), (ucast (drop_bit 30 scr), 3), (1, 1), (ucast (drop_bit 15 scr), 15), (1, 1),
       (ucast scr, 15), (1, 1), (0, 9), (1, 1), (rate, 22), (1, 1), (1, 1), (0x1F, 5), (0, 3)]
       (wr_start out 0xBA)"

definition wr_system :: "u32 \<Rightarrow> bytes \<Rightarrow> bytes" where
  "wr_system rate out =
     put_fields [(1, 1), (rate, 22), (1, 1), (0, 6), (0, 1), (0, 1), (0, 1), (0, 1), (1, 1), (1, 5), (0, 1),
       (0x7F, 7), (ucast kVideoStreamId, 8), (3, 2), (1, 1), (230, 13)]
       (wr_u16 (wr_start out 0xBB) 9)"

definition es_map :: "video_codec \<Rightarrow> bytes" where
  "es_map c = [0xC0, 0xFF, 0x00, 0x00, 0x00, 0x04, stream_type c, kVideoStreamId, 0x00, 0x00]"

definition wr_psm :: "video_codec \<Rightarrow> bytes \<Rightarrow> bytes" where
  "wr_psm c out =
     wr_u32be (wr_u16 (wr_start out 0xBC) (of_nat (length (es_map c) + 4)) @ es_map c) (crc32 (es_map c))"

definition wr_pes :: "bool \<Rightarrow> int \<Rightarrow> bytes \<Rightarrow> bytes \<Rightarrow> bytes" where
  "wr_pes first pts chunk out =
     (let o1 = wr_start out kVideoStreamId
      in if first then wr_pts (wr_u16 o1 (of_nat (3 + 5 + length chunk)) @ [0x84, 0x80, 5]) pts
         else wr_u16 o1 (of_nat (3 + length chunk)) @ [0x80, 0x00, 0]) @ chunk"

text \<open>The loop over the chunks, on the part of the access unit that remains.\<close>

function mux_loop :: "video_codec \<Rightarrow> bool \<Rightarrow> u32 \<Rightarrow> int \<Rightarrow> bool \<Rightarrow> bytes \<Rightarrow> bytes \<Rightarrow> bytes" where
  "mux_loop c keyframe rate pts first es out =
     (if es = [] then out
      else let chunk = take kPesChunk es;
               o1 = wr_pack (clock33 pts) rate out;
               o2 = (if keyframe \<and> first then wr_psm c (wr_system rate o1) else o1)
      in mux_loop c keyframe rate pts False (drop kPesChunk es) (wr_pes first pts chunk o2))"
  by pat_completeness auto
termination by (relation "measure (\<lambda>(c, k, r, p, f, es, out). length es)") (auto simp: kPesChunk_def)

declare mux_loop.simps [simp del]

definition mux_frame :: "video_codec \<Rightarrow> bytes option \<Rightarrow> nat \<Rightarrow> int \<Rightarrow> bool \<Rightarrow> u32 \<Rightarrow> bytes result" where
  "mux_frame c annexb n pts keyframe mux_rate =
     (case annexb of
        None \<Rightarrow> reject Invalid []
      | Some es \<Rightarrow>
          if n = 0 then reject Invalid []
          else if n > kMaxPayload then reject Format []
          else Inr (mux_loop c keyframe (mux_rate AND 0x3FFFFF) pts True (take n es) []))"

section \<open>Demultiplexing\<close>

record ps_frame =
  pf_annexb :: bytes
  pf_pts90 :: int
  pf_keyframe :: bool
  pf_codec :: video_codec

record demux =
  dx_buf :: bytes
  dx_cursor :: nat
  dx_au :: bytes
  dx_au_pts :: int
  dx_au_open :: bool
  dx_have_psm :: bool
  dx_psm_codec :: video_codec

definition new_demux :: demux where
  "new_demux = \<lparr>dx_buf = [], dx_cursor = 0, dx_au = [], dx_au_pts = 0, dx_au_open = False,
     dx_have_psm = False, dx_psm_codec = HevcVideo\<rparr>"

definition ps_append :: "demux \<Rightarrow> bytes option \<Rightarrow> nat \<Rightarrow> status \<times> demux" where
  "ps_append dx data n =
     (if n \<noteq> 0 \<and> data = None then (Format, dx)
      else if n = 0 then (Ok, dx)
      else if length (dx_buf dx) + n > kMaxBuffered then (Format, dx)
      else (Ok, dx\<lparr>dx_buf := dx_buf dx @ take n (the data)\<rparr>))"

definition emit_au :: "demux \<Rightarrow> ps_frame result \<times> demux" where
  "emit_au dx =
     (if \<not> dx_au_open dx \<or> dx_au dx = [] then (reject Eof [], dx)
      else let c = (if dx_have_psm dx then dx_psm_codec dx else sniff (dx_au dx))
           in (Inr \<lparr>pf_annexb = dx_au dx, pf_pts90 = dx_au_pts dx,
                   pf_keyframe = is_keyframe c (Some (dx_au dx)), pf_codec = c\<rparr>,
               dx\<lparr>dx_au := [], dx_au_open := False\<rparr>))"

definition ps_flush :: "demux \<Rightarrow> ps_frame result \<times> demux" where
  "ps_flush dx = emit_au dx"

text \<open>The elementary stream map of a PSM.\<close>

function psm_loop :: "bytes \<Rightarrow> nat \<Rightarrow> nat \<Rightarrow> demux \<Rightarrow> demux" where
  "psm_loop d q es_end dx =
     (if \<not> q + 4 \<le> es_end then dx
      else let ty = d ! q; sid = d ! (q + 1); ilen = rd_u16 d (q + 2);
               dx1 = (if sid \<ge> 0xE0 \<and> sid \<le> 0xEF
                      then (if ty = 0x1B then dx\<lparr>dx_psm_codec := AvcVideo, dx_have_psm := True\<rparr>
                            else if ty = 0x24 then dx\<lparr>dx_psm_codec := HevcVideo, dx_have_psm := True\<rparr>
                            else dx)
                      else dx)
      in psm_loop d (q + 4 + unat ilen) es_end dx1)"
  by pat_completeness auto
termination by (relation "measure (\<lambda>(d, q, es_end, dx). es_end - q)") auto

declare psm_loop.simps [simp del]

definition parse_psm :: "bytes \<Rightarrow> nat \<Rightarrow> nat \<Rightarrow> demux \<Rightarrow> demux" where
  "parse_psm d sc stop dx =
     (let p = sc + 6; map_end = stop - 4; ps_info = unat (rd_u16 d (p + 2) AND 0x7FFF);
          q = p + 4 + ps_info
      in if q + 2 \<le> map_end
         then let es_len = unat (rd_u16 d q); es_end = q + 2 + es_len
              in if es_end \<le> map_end then psm_loop d (q + 2) es_end dx else dx
         else dx)"

text \<open>The loop of \<open>next\<close> over the buffer \<open>d\<close> from position \<open>pos\<close> on.\<close>

function next_loop :: "bytes \<Rightarrow> nat \<Rightarrow> demux \<Rightarrow> ps_frame result \<times> demux" where
  "next_loop d pos dx =
     (let n = length d
      in case find_sc d pos of
        None \<Rightarrow> (reject Again [], dx\<lparr>dx_cursor := (if n > 3 then n - 3 else 0)\<rparr>)
      | Some sc \<Rightarrow>
      (let again = (reject Again [], dx\<lparr>dx_cursor := sc\<rparr>)
      in if sc + 4 > n then again
      else let i = d ! (sc + 3)
      in if i = 0xBA then (if sc + 14 > n then again else next_loop d (sc + 14) dx)
      else if i = 0xBB \<or> i = 0xBC then
        (if sc + 6 > n then again
         else let stop = sc + 6 + unat (rd_u16 d (sc + 4))
              in if stop > n then again
                 else next_loop d stop (if i = 0xBC \<and> stop \<ge> sc + 10 then parse_psm d sc stop dx else dx))
      else if i = 0xB7 \<or> i = 0xB9 then next_loop d (sc + 4) dx
      else if \<not> ((i \<ge> 0xBD \<and> i \<le> 0xBF) \<or> (i \<ge> 0xC0 \<and> i \<le> 0xEF)) then next_loop d (sc + 4) dx
      else if sc + 9 > n then again
      else let len = unat (rd_u16 d (sc + 4)); flags2 = d ! (sc + 7); hlen = unat (d ! (sc + 8));
               pay = sc + 9 + hlen
      in if pay > n then again
      else if bit flags2 7 \<and> sc + 14 > n then again
      else let pts = (if bit flags2 7 then int (unat (rd_pts d (sc + 9))) else 0)
      in if len = 0 then
        (if i \<ge> 0xE0 then (reject Format [], dx)
         else case find_sc d pay of
                None \<Rightarrow> again
              | Some nx \<Rightarrow> next_loop d nx dx)
      else if len < 3 + hlen then (reject Format [], dx)
      else let plen = len - 3 - hlen; stop = pay + plen
      in if stop > n then again
      else if i < 0xE0 \<or> plen = 0 then next_loop d stop dx
      else let chunk = slice_of d pay stop
      in if d ! (sc + 6) AND 0x04 \<noteq> 0 then
        (case emit_au dx of
           (r, dx1) \<Rightarrow>
             let dx2 = dx1\<lparr>dx_au := chunk, dx_au_pts := (if bit flags2 7 then pts else 0),
                           dx_au_open := True, dx_cursor := stop\<rparr>
             in case r of Inr f \<Rightarrow> (Inr f, dx2) | Inl _ \<Rightarrow> next_loop d stop dx2)
      else if \<not> dx_au_open dx then next_loop d stop dx
      else if length (dx_au dx) + plen > kMaxPayload then (reject Format [], dx)
      else next_loop d stop (dx\<lparr>dx_au := dx_au dx @ chunk, dx_cursor := stop\<rparr>)))"
  by pat_completeness auto
termination
  by (relation "measure (\<lambda>(d, pos, dx). length d - pos)") (auto dest!: find_sc_Some)

declare next_loop.simps [simp del]

definition ps_next :: "demux \<Rightarrow> ps_frame result \<times> demux" where
  "ps_next dx =
     (let dx1 = (if dx_cursor dx > 0 then dx\<lparr>dx_buf := drop (dx_cursor dx) (dx_buf dx), dx_cursor := 0\<rparr> else dx)
      in next_loop (dx_buf dx1) 0 dx1)"

end
