(* ===== verification/Ps_Bits.thy ===== *)
theory Ps_Bits
  imports Ps_Model
begin

text \<open>
  The bit writer against bit lists: what \<open>put\<close> appends are the bits of its fields, packed into bytes
  with the most significant bit first. From it the layout of every structure the multiplexer
  writes, and the time stamps that the demultiplexer reads back.
\<close>

definition byte_of :: "bool list \<Rightarrow> u8" where
  "byte_of bs = foldl (\<lambda>c b. push_bit 1 c OR of_bool b) 0 bs"

fun pack_bits :: "bool list \<Rightarrow> bytes" where
  "pack_bits (a # b # c # d # e # f # g # h # bs) = byte_of [a, b, c, d, e, f, g, h] # pack_bits bs"
| "pack_bits _ = []"

lemma bw_put_bits: "bw_put v n w = foldl bw_bit w (map (bit v) (rev [0..<n]))"
  by (induction n arbitrary: w) simp_all

definition field_bits :: "(u32 \<times> nat) list \<Rightarrow> bool list" where
  "field_bits fs = concat (map (\<lambda>(v, n). map (bit v) (rev [0..<n])) fs)"

lemma bw_fields: "foldl (\<lambda>w (v, n). bw_put v n w) w fs = foldl bw_bit w (field_bits fs)"
  by (induction fs arbitrary: w) (auto simp: bw_put_bits field_bits_def)

lemma bw_bits_out: "bw_out (foldl bw_bit (new_writer out) bs) = out @ pack_bits bs"
  by (induction bs arbitrary: out rule: pack_bits.induct)
    (simp_all add: new_writer_def bw_bit_def byte_of_def Let_def)

lemma put_fields_bits: "put_fields fs out = out @ pack_bits (field_bits fs)"
  by (simp add: put_fields_def bw_fields bw_bits_out)

lemma length_pack_bits: "length (pack_bits bs) = length bs div 8"
  by (induction bs rule: pack_bits.induct) simp_all

lemma length_field_bits: "length (field_bits fs) = sum_list (map snd fs)"
  by (induction fs) (auto simp: field_bits_def)

lemma length_put_fields: "length (put_fields fs out) = length out + sum_list (map snd fs) div 8"
  by (simp add: put_fields_bits length_pack_bits length_field_bits)

lemma bit_byte_of:
  "bit (byte_of [a, b, c, d, e, f, g, h]) n \<longleftrightarrow>
     (n = 7 \<and> a \<or> n = 6 \<and> b \<or> n = 5 \<and> c \<or> n = 4 \<and> d \<or> n = 3 \<and> e \<or> n = 2 \<and> f \<or> n = 1 \<and> g \<or> n = 0 \<and> h)"
proof (cases "n < 8")
  case True
  then have "7 = n \<or> 6 = n \<or> 5 = n \<or> 4 = n \<or> 3 = n \<or> 2 = n \<or> 1 = n \<or> 0 = n" by linarith
  then show ?thesis by (elim disjE) (simp_all add: byte_of_def bit_simps)
next
  case False
  then have "\<not> bit (byte_of [a, b, c, d, e, f, g, h]) n"
    using bit_imp_le_length[of "byte_of [a, b, c, d, e, f, g, h]" n] by auto
  then show ?thesis using False by auto
qed

section \<open>Time stamps\<close>

lemma clock33_take_bit: "clock33 pts = take_bit 33 (if pts < 0 then 0 else of_int pts)"
proof -
  have "(0x1FFFFFFFF :: u64) = mask 33" by (simp add: mask_eq_exp_minus_1)
  then show ?thesis by (simp only: clock33_def take_bit_eq_mask)
qed

lemma bit_clock33: "bit (clock33 pts) n \<longleftrightarrow> n < 33 \<and> bit (clock33 pts) n"
  by (auto simp: clock33_take_bit bit_simps)

definition pts_bytes :: "u64 \<Rightarrow> bytes" where
  "pts_bytes p = pack_bits (field_bits [(2, 4), (ucast (drop_bit 30 p), 3), (1, 1),
     (ucast (drop_bit 15 p), 15), (1, 1), (ucast p, 15), (1, 1)])"

lemma wr_pts_bytes: "wr_pts out pts = out @ pts_bytes (clock33 pts)"
  by (simp add: wr_pts_def Let_def put_fields_bits pts_bytes_def)

lemma length_pts_bytes [simp]: "length (pts_bytes p) = 5"
  by (simp add: pts_bytes_def length_pack_bits length_field_bits)

lemma bits_15: "[0..<15] = [0, 1, 2, 3, 4, 5, 6, 7, 8, 9, 10, 11, 12, 13, 14 :: nat]"
  by (simp add: upt_rec eval_nat_numeral)

lemma pts_bytes_explicit:
  "pts_bytes p =
     [byte_of [False, False, True, False, bit p 32, bit p 31, bit p 30, True],
      byte_of [bit p 29, bit p 28, bit p 27, bit p 26, bit p 25, bit p 24, bit p 23, bit p 22],
      byte_of [bit p 21, bit p 20, bit p 19, bit p 18, bit p 17, bit p 16, bit p 15, True],
      byte_of [bit p 14, bit p 13, bit p 12, bit p 11, bit p 10, bit p 9, bit p 8, bit p 7],
      byte_of [bit p 6, bit p 5, bit p 4, bit p 3, bit p 2, bit p 1, bit p 0, True]]"
  by (simp add: pts_bytes_def field_bits_def bits_15 upt_rec[of 0 3] upt_rec[of _ 3] upt_rec[of _ 4] bit_simps)


lemma rd_pts_take_bit:
  "rd_pts d p =
     push_bit 30 (take_bit 3 (ucast (drop_bit 1 (d ! p)))) OR
     push_bit 15 (drop_bit 1 (ucast (rd_u16 d (p + 1)))) OR
     drop_bit 1 (ucast (rd_u16 d (p + 3)))"
proof -
  have "(7 :: u64) = mask 3" by (simp add: mask_eq_exp_minus_1)
  then show ?thesis unfolding rd_pts_def by (simp only: take_bit_eq_mask)
qed

lemma below_33:
  assumes "n < (33 :: nat)"
  shows "32 = n \<or> 31 = n \<or> 30 = n \<or> 29 = n \<or> 28 = n \<or> 27 = n \<or> 26 = n \<or> 25 = n \<or>
    24 = n \<or> 23 = n \<or> 22 = n \<or> 21 = n \<or> 20 = n \<or> 19 = n \<or> 18 = n \<or> 17 = n \<or>
    16 = n \<or> 15 = n \<or> 14 = n \<or> 13 = n \<or> 12 = n \<or> 11 = n \<or> 10 = n \<or> 9 = n \<or>
    8 = n \<or> 7 = n \<or> 6 = n \<or> 5 = n \<or> 4 = n \<or> 3 = n \<or> 2 = n \<or> 1 = n \<or>
    0 = n"
  using assms by (auto simp: eval_nat_numeral less_Suc_eq)

lemma rd_pts_bytes:
  assumes "length pre = k" "\<And>n. bit p n \<Longrightarrow> n < 33"
  shows "rd_pts (pre @ pts_bytes p @ post) k = p"
proof (rule bit_word_eqI)
  fix n assume "n < LENGTH(64)"
  then have n: "n < 64" by simp
  have eq: "bit (rd_pts (pre @ pts_bytes p @ post) k) n =
    (30 \<le> n \<and> n - 30 < 3 \<and> (n - 29 = 3 \<and> bit p 32 \<or> n - 29 = 2 \<and> bit p 31 \<or> n - 29 = 1 \<and> bit p 30) \<or>
     n < 30 \<and> bit p n)"
  proof (cases "n < 33")
    case True
    from below_33[OF this] show ?thesis
      using assms(1)
      by (elim disjE)
        (simp_all add: rd_pts_take_bit rd_u16_def pts_bytes_explicit nth_append bit_simps bit_byte_of)
  qed (use assms(1) in \<open>auto simp: rd_pts_take_bit rd_u16_def pts_bytes_explicit bit_simps\<close>)
  show "bit (rd_pts (pre @ pts_bytes p @ post) k) n \<longleftrightarrow> bit p n"
  proof (cases "n < 33")
    case True
    from below_33[OF this] show ?thesis unfolding eq by (elim disjE) simp_all
  next
    case False
    with assms(2)[of n] show ?thesis unfolding eq by auto
  qed
qed

end
