(* ===== verification/Ps_Claims.thy ===== *)
theory Ps_Claims
  imports Ps_Bits
begin

text \<open>
  The demultiplexer on the packets of the multiplexer: each unit is consumed in one turn of the loop,
  and a stream of access units comes back frame by frame.
\<close>

section \<open>The layout of the units\<close>

definition pack_unit :: "int \<Rightarrow> u32 \<Rightarrow> bytes" where
  "pack_unit pts rate = wr_pack (clock33 pts) rate []"

lemma wr_pack_unit: "wr_pack (clock33 pts) rate out = out @ pack_unit pts rate"
  by (simp add: wr_pack_def pack_unit_def put_fields_bits wr_start_def)

lemma pack_unit_shape: "\<exists>body. pack_unit pts rate = [0, 0, 1, 0xBA] @ body \<and> length body = 10"
proof -
  have "length (pack_unit pts rate) = 14"
    by (simp add: pack_unit_def wr_pack_def length_put_fields wr_start_def)
  then show ?thesis
    by (auto simp: pack_unit_def wr_pack_def put_fields_bits wr_start_def)
qed

definition system_unit :: "u32 \<Rightarrow> bytes" where
  "system_unit rate = wr_system rate []"

lemma wr_system_unit: "wr_system rate out = out @ system_unit rate"
  by (simp add: wr_system_def system_unit_def put_fields_bits wr_start_def wr_u16_def)

lemma system_unit_shape: "\<exists>body. system_unit rate = [0, 0, 1, 0xBB, 0, 9] @ body \<and> length body = 9"
proof -
  have "length (system_unit rate) = 15"
    by (simp add: system_unit_def wr_system_def length_put_fields wr_start_def wr_u16_def)
  then show ?thesis
    by (auto simp: system_unit_def wr_system_def put_fields_bits wr_start_def wr_u16_def)
qed

definition psm_unit :: "video_codec \<Rightarrow> bytes" where
  "psm_unit c = wr_psm c []"

lemma wr_psm_unit: "wr_psm c out = out @ psm_unit c"
  by (simp add: wr_psm_def psm_unit_def wr_start_def wr_u16_def wr_u32be_def)

lemma psm_unit_shape:
  "\<exists>crc. psm_unit c = [0, 0, 1, 0xBC, 0, 14, 0xC0, 0xFF, 0, 0, 0, 4, stream_type c, 0xE0, 0, 0] @ crc \<and> length crc = 4"
  by (simp add: psm_unit_def wr_psm_def wr_start_def wr_u16_def wr_u32be_def es_map_def kVideoStreamId_def)

lemma wr_pes_unit: "wr_pes first pts chunk out = out @ wr_pes first pts chunk []"
  by (simp add: wr_pes_def Let_def wr_start_def wr_u16_def wr_pts_bytes)

definition len_bytes :: "nat \<Rightarrow> bytes" where
  "len_bytes n = [ucast (drop_bit 8 (of_nat n :: u16)), ucast (of_nat n :: u16)]"

lemma wr_pes_first:
  "wr_pes True pts chunk [] = [0, 0, 1, 0xE0] @ len_bytes (8 + length chunk) @ [0x84, 0x80, 5] @
     pts_bytes (clock33 pts) @ chunk"
  by (simp add: wr_pes_def Let_def wr_start_def wr_u16_def wr_pts_bytes kVideoStreamId_def len_bytes_def)

lemma wr_pes_next:
  "wr_pes False pts chunk [] = [0, 0, 1, 0xE0] @ len_bytes (3 + length chunk) @ [0x80, 0, 0] @ chunk"
  by (simp add: wr_pes_def Let_def wr_start_def wr_u16_def kVideoStreamId_def len_bytes_def)

lemma len_bytes_two: "\<exists>a b. len_bytes n = [a, b]"
  by (simp add: len_bytes_def)

lemma u16_bytes:
  fixes v :: u16
  shows "push_bit 8 (ucast (ucast (drop_bit 8 v) :: u8) :: u16) OR ucast (ucast v :: u8) = v"
proof (rule bit_word_eqI)
  fix n assume "n < LENGTH(16)"
  then show "bit (push_bit 8 (ucast (ucast (drop_bit 8 v) :: u8) :: u16) OR ucast (ucast v :: u8)) n = bit v n"
    by (cases "n < 8") (auto simp: bit_simps)
qed

lemma rd_u16_len:
  assumes "length pre = k" "n < 2 ^ 16"
  shows "unat (rd_u16 (pre @ len_bytes n @ post) k) = n"
proof -
  have "rd_u16 (pre @ len_bytes n @ post) k = of_nat n"
    using assms(1) by (simp add: rd_u16_def len_bytes_def nth_append u16_bytes)
  then show ?thesis using assms(2) by (simp add: unat_of_nat_small)
qed

section \<open>One turn of the loop per unit\<close>

lemma find_sc_here: "length pre = pos \<Longrightarrow> find_sc (pre @ 0 # 0 # 1 # post) pos = Some pos"
  by (subst find_sc.simps) (simp add: nth_append)

lemma next_pack:
  assumes "length pre = pos"
  shows "next_loop (pre @ pack_unit pts rate @ post) pos dx = next_loop (pre @ pack_unit pts rate @ post) (pos + 14) dx"
proof -
  obtain body where b: "pack_unit pts rate = [0, 0, 1, 0xBA] @ body" "length body = 10"
    using pack_unit_shape by blast
  have "find_sc (pre @ pack_unit pts rate @ post) pos = Some pos"
    using find_sc_here[OF assms, of "0xBA # body @ post"] b by simp
  then show ?thesis
    using assms b by (subst next_loop.simps) (simp add: nth_append)
qed

lemma next_system:
  assumes "length pre = pos"
  shows "next_loop (pre @ system_unit rate @ post) pos dx = next_loop (pre @ system_unit rate @ post) (15 + pos) dx"
proof -
  obtain body where b: "system_unit rate = [0, 0, 1, 0xBB, 0, 9] @ body" "length body = 9"
    using system_unit_shape by blast
  have "find_sc (pre @ system_unit rate @ post) pos = Some pos"
    using find_sc_here[OF assms, of "0xBB # 0 # 9 # body @ post"] b by simp
  then show ?thesis
    using assms b by (subst next_loop.simps) (simp add: nth_append rd_u16_def)
qed

lemma psm_one:
  assumes "d ! q = ty" "d ! (q + 1) = 0xE0" "rd_u16 d (q + 2) = 0" "ty = 0x1B \<or> ty = 0x24"
  shows "psm_loop d q (q + 4) dx =
    dx\<lparr>dx_psm_codec := (if ty = 0x1B then AvcVideo else HevcVideo), dx_have_psm := True\<rparr>"
proof -
  have fin: "psm_loop d (q + 4) (q + 4) dx' = dx'" for dx' by (subst psm_loop.simps) simp
  have "psm_loop d q (q + 4) dx = psm_loop d (q + 4) (q + 4)
    (if ty = 0x1B then dx\<lparr>dx_psm_codec := AvcVideo, dx_have_psm := True\<rparr>
     else dx\<lparr>dx_psm_codec := HevcVideo, dx_have_psm := True\<rparr>)"
    using assms by (subst psm_loop.simps) auto
  then show ?thesis unfolding fin by simp
qed

lemma next_psm:
  assumes "length pre = pos"
  shows "next_loop (pre @ psm_unit c @ post) pos dx =
    next_loop (pre @ psm_unit c @ post) (20 + pos) (dx\<lparr>dx_psm_codec := c, dx_have_psm := True\<rparr>)"
proof -
  obtain crc where b: "psm_unit c = [0, 0, 1, 0xBC, 0, 14, 0xC0, 0xFF, 0, 0, 0, 4, stream_type c, 0xE0, 0, 0] @ crc"
    "length crc = 4" using psm_unit_shape by blast
  define d where "d = pre @ psm_unit c @ post"
  have at: "d ! (pos + 3) = 0xBC" "d ! (pos + 4) = 0" "d ! (pos + 5) = 14" "d ! (pos + 8) = 0" "d ! (pos + 9) = 0"
    "d ! (pos + 10) = 0" "d ! (pos + 11) = 4" "d ! (pos + 12) = stream_type c" "d ! (pos + 13) = 0xE0"
    "d ! (pos + 14) = 0" "d ! (pos + 15) = 0"
    using assms b by (simp_all add: d_def nth_append)
  note at = at at [unfolded add.commute [of pos]]
  have len: "pos + 20 \<le> length d" using assms b by (simp add: d_def)
  have sc: "find_sc d pos = Some pos"
    using find_sc_here[OF assms, of "0xBC # 0 # 14 # 0xC0 # 0xFF # 0 # 0 # 0 # 4 # stream_type c # 0xE0 # 0 # 0 # crc @ post"] b
    by (simp add: d_def)
  have "psm_loop d (pos + 12) (pos + 12 + 4) dx = dx\<lparr>dx_psm_codec := c, dx_have_psm := True\<rparr>"
    using psm_one[of d "pos + 12" "stream_type c" dx] at
    by (cases c) (simp_all add: rd_u16_def stream_type_def add.assoc)
  then have "parse_psm d pos (20 + pos) dx = dx\<lparr>dx_psm_codec := c, dx_have_psm := True\<rparr>"
    using at by (simp add: parse_psm_def Let_def rd_u16_def add.assoc) (simp only: add.commute)
  then show ?thesis
    using at len sc unfolding d_def [symmetric]
    by (subst next_loop.simps) (simp add: rd_u16_def)
qed


lemma next_pes_first:
  assumes "length pre = pos" "chunk \<noteq> []" "length chunk \<le> 60000"
  shows "next_loop (pre @ wr_pes True pts chunk [] @ post) pos dx =
    (case emit_au dx of
       (r, dx1) \<Rightarrow>
         let dx2 = dx1\<lparr>dx_au := chunk, dx_au_pts := int (unat (clock33 pts)), dx_au_open := True,
                       dx_cursor := pos + 14 + length chunk\<rparr>
         in case r of Inr f \<Rightarrow> (Inr f, dx2)
            | Inl _ \<Rightarrow> next_loop (pre @ wr_pes True pts chunk [] @ post) (pos + 14 + length chunk) dx2)"
proof -
  define d where "d = pre @ wr_pes True pts chunk [] @ post"
  obtain a b where ab: "len_bytes (8 + length chunk) = [a, b]" using len_bytes_two by blast
  note unit = wr_pes_first[of pts chunk, unfolded ab]
  have sc: "find_sc d pos = Some pos"
    using find_sc_here[OF assms(1), of "0xE0 # a # b # 0x84 # 0x80 # 5 # pts_bytes (clock33 pts) @ chunk @ post"]
    by (simp add: d_def unit)
  have at: "d ! (pos + 3) = 0xE0" "d ! (pos + 6) = 0x84" "d ! (pos + 7) = 0x80" "d ! (pos + 8) = 5"
    using assms(1) by (simp_all add: d_def unit nth_append)
  have "d = (pre @ [0, 0, 1, 0xE0]) @ len_bytes (8 + length chunk) @ ([0x84, 0x80, 5] @ pts_bytes (clock33 pts) @ chunk @ post)"
    by (simp add: d_def wr_pes_first)
  then have len: "unat (rd_u16 d (pos + 4)) = 8 + length chunk"
    using rd_u16_len[of "pre @ [0, 0, 1, 0xE0]" "pos + 4" "8 + length chunk"] assms by simp
  have "d = (pre @ [0, 0, 1, 0xE0, a, b, 0x84, 0x80, 5]) @ pts_bytes (clock33 pts) @ (chunk @ post)"
    by (simp add: d_def unit)
  moreover have "\<And>n. bit (clock33 pts) n \<Longrightarrow> n < 33" using bit_clock33 by blast
  ultimately have pts: "rd_pts d (pos + 9) = clock33 pts"
    using rd_pts_bytes[of "pre @ [0, 0, 1, 0xE0, a, b, 0x84, 0x80, 5]" "pos + 9"] assms(1) by simp
  have chunk: "slice_of d (pos + 14) (pos + 14 + length chunk) = chunk"
    using assms(1) by (simp add: d_def unit slice_of_def)
  have n: "pos + 14 + length chunk \<le> length d" using assms(1) by (simp add: d_def unit)
  have bits: "bit (0x80 :: u8) 7" "(0x84 :: u8) AND 4 \<noteq> 0" by simp_all
  have ids: "(0xE0 :: u8) \<noteq> 0xBA" "(0xE0 :: u8) \<noteq> 0xBB" "(0xE0 :: u8) \<noteq> 0xBC" "(0xE0 :: u8) \<noteq> 0xB7"
    "(0xE0 :: u8) \<noteq> 0xB9" "(0xE0 :: u8) \<ge> 0xC0" "(0xE0 :: u8) \<le> 0xEF" "\<not> (0xE0 :: u8) < 0xE0" "unat (5 :: u8) = 5"
    by simp_all
  have stop: "pos + 9 + 5 + (8 + length chunk - 3 - 5) = pos + 14 + length chunk" "pos + 9 + 5 = pos + 14" by simp_all
  show ?thesis
    unfolding d_def [symmetric]
    using n assms(2)
    by (subst next_loop.simps) (simp add: sc at len pts bits ids stop chunk Let_def split: prod.split sum.split)
qed

lemma next_pes_more:
  assumes "length pre = pos" "chunk \<noteq> []" "length chunk \<le> 60000"
    and "dx_au_open dx" "length (dx_au dx) + length chunk \<le> kMaxPayload"
  shows "next_loop (pre @ wr_pes False pts chunk [] @ post) pos dx =
    next_loop (pre @ wr_pes False pts chunk [] @ post) (pos + 9 + length chunk)
      (dx\<lparr>dx_au := dx_au dx @ chunk, dx_cursor := pos + 9 + length chunk\<rparr>)"
proof -
  define d where "d = pre @ wr_pes False pts chunk [] @ post"
  obtain a b where ab: "len_bytes (3 + length chunk) = [a, b]" using len_bytes_two by blast
  note unit = wr_pes_next[of pts chunk, unfolded ab]
  have sc: "find_sc d pos = Some pos"
    using find_sc_here[OF assms(1), of "0xE0 # a # b # 0x80 # 0 # 0 # chunk @ post"]
    by (simp add: d_def unit)
  have at: "d ! (pos + 3) = 0xE0" "d ! (pos + 6) = 0x80" "d ! (pos + 7) = 0" "d ! (pos + 8) = 0"
    using assms(1) by (simp_all add: d_def unit nth_append)
  have "d = (pre @ [0, 0, 1, 0xE0]) @ len_bytes (3 + length chunk) @ ([0x80, 0, 0] @ chunk @ post)"
    by (simp add: d_def wr_pes_next)
  then have len: "unat (rd_u16 d (pos + 4)) = 3 + length chunk"
    using rd_u16_len[of "pre @ [0, 0, 1, 0xE0]" "pos + 4" "3 + length chunk"] assms by simp
  have chunk: "slice_of d (pos + 9) (pos + 9 + length chunk) = chunk"
    using assms(1) by (simp add: d_def unit slice_of_def)
  have n: "pos + 9 + length chunk \<le> length d" using assms(1) by (simp add: d_def unit)
  have bits: "\<not> bit (0 :: u8) 7" "(0x80 :: u8) AND 4 = 0" by simp_all
  have ids: "(0xE0 :: u8) \<noteq> 0xBA" "(0xE0 :: u8) \<noteq> 0xBB" "(0xE0 :: u8) \<noteq> 0xBC" "(0xE0 :: u8) \<noteq> 0xB7"
    "(0xE0 :: u8) \<noteq> 0xB9" "(0xE0 :: u8) \<ge> 0xC0" "(0xE0 :: u8) \<le> 0xEF" "\<not> (0xE0 :: u8) < 0xE0" "unat (0 :: u8) = 0"
    by simp_all
  have stop: "pos + 9 + 0 + (3 + length chunk - 3 - 0) = pos + 9 + length chunk" "pos + 9 + 0 = pos + 9"
    "3 + length chunk - 3 - 0 = length chunk" by simp_all
  show ?thesis
    unfolding d_def [symmetric]
    using n assms(2,4,5)
    by (subst next_loop.simps) (simp add: sc at len bits ids stop chunk Let_def split: prod.split sum.split)
qed


section \<open>One access unit\<close>

definition chunk_unit :: "video_codec \<Rightarrow> bool \<Rightarrow> u32 \<Rightarrow> int \<Rightarrow> bool \<Rightarrow> bytes \<Rightarrow> bytes" where
  "chunk_unit c k r p first chunk =
     pack_unit p r @ (if k \<and> first then system_unit r @ psm_unit c else []) @ wr_pes first p chunk []"

lemma mux_loop_Nil [simp]: "mux_loop c k r p first [] out = out"
  by (simp add: mux_loop.simps)

lemma mux_loop_step:
  assumes "es \<noteq> []"
  shows "mux_loop c k r p first es out =
    mux_loop c k r p False (drop kPesChunk es) (out @ chunk_unit c k r p first (take kPesChunk es))"
proof -
  have "wr_pes first p (take kPesChunk es)
      (if k \<and> first then wr_psm c (wr_system r (wr_pack (clock33 p) r out)) else wr_pack (clock33 p) r out) =
    out @ chunk_unit c k r p first (take kPesChunk es)"
    by (subst wr_pes_unit) (simp add: wr_pack_unit wr_psm_unit[of c "_ @ _"] wr_system_unit[of r "_ @ _"] chunk_unit_def)
  then show ?thesis using assms by (subst mux_loop.simps) (simp add: Let_def)
qed

lemma mux_loop_out: "mux_loop c k r p first es out = out @ mux_loop c k r p first es []"
proof (induction es arbitrary: first out rule: measure_induct_rule [where f = length])
  case (less es)
  show ?case
  proof (cases "es = []")
    case False
    then have s: "length (drop kPesChunk es) < length es" by (simp add: kPesChunk_def)
    from less[OF s, of False "out @ chunk_unit c k r p first (take kPesChunk es)"]
      less[OF s, of False "chunk_unit c k r p first (take kPesChunk es)"]
    show ?thesis by (simp add: mux_loop_step[OF False, of c k r p first])
  qed simp
qed

definition mux_units :: "video_codec \<Rightarrow> bool \<Rightarrow> u32 \<Rightarrow> int \<Rightarrow> bool \<Rightarrow> bytes \<Rightarrow> bytes" where
  "mux_units c k r p first es = mux_loop c k r p first es []"

lemma mux_units_Nil [simp]: "mux_units c k r p first [] = []"
  by (simp add: mux_units_def)

lemma mux_units_step:
  assumes "es \<noteq> []"
  shows "mux_units c k r p first es =
    chunk_unit c k r p first (take kPesChunk es) @ mux_units c k r p False (drop kPesChunk es)"
  unfolding mux_units_def mux_loop_step[OF assms] by (subst mux_loop_out) simp

lemma length_pack_unit: "length (pack_unit p r) = 14"
  using pack_unit_shape[of p r] by auto

lemma length_wr_pes_next: "length (wr_pes False p chunk []) = 9 + length chunk"
  using len_bytes_two[of "3 + length chunk"] by (auto simp: wr_pes_next)

lemma length_wr_pes_first: "length (wr_pes True p chunk []) = 14 + length chunk"
  using len_bytes_two[of "8 + length chunk"] by (auto simp: wr_pes_first)

lemma next_more:
  assumes "dx_au_open dx" "length (dx_au dx) + length es \<le> kMaxPayload"
  shows "next_loop (pre @ mux_units c k r p False es @ post) (length pre) dx =
    next_loop (pre @ mux_units c k r p False es @ post) (length pre + length (mux_units c k r p False es))
      (dx\<lparr>dx_au := dx_au dx @ es,
          dx_cursor := (if es = [] then dx_cursor dx else length pre + length (mux_units c k r p False es))\<rparr>)"
  using assms
proof (induction es arbitrary: pre dx rule: measure_induct_rule [where f = length])
  case (less es)
  show ?case
  proof (cases "es = []")
    case False
    let ?ch = "take kPesChunk es" and ?rest = "drop kPesChunk es"
    let ?u = "mux_units c k r p False ?rest"
    let ?pk = "pack_unit p r" and ?pes = "wr_pes False p ?ch []"
    let ?dx = "dx\<lparr>dx_au := dx_au dx @ ?ch, dx_cursor := length pre + 14 + 9 + length ?ch\<rparr>"
    have split: "mux_units c k r p False es = ?pk @ ?pes @ ?u"
      unfolding mux_units_step[OF False] chunk_unit_def by simp
    have ch: "?ch \<noteq> []" "length ?ch \<le> 60000" using False by (simp_all add: kPesChunk_def)
    have room: "length (dx_au dx) + length ?ch \<le> kMaxPayload" using less.prems(2) by simp
    have "next_loop (pre @ ?pk @ (?pes @ ?u @ post)) (length pre) dx =
        next_loop (pre @ ?pk @ (?pes @ ?u @ post)) (length pre + 14) dx"
      by (rule next_pack) simp
    also have "\<dots> = next_loop ((pre @ ?pk) @ ?pes @ (?u @ post)) (length pre + 14) dx" by simp
    also have "\<dots> = next_loop ((pre @ ?pk) @ ?pes @ (?u @ post)) (length pre + 14 + 9 + length ?ch) ?dx"
      by (rule next_pes_more) (use ch less.prems(1) room in \<open>simp_all add: length_pack_unit\<close>)
    also have "\<dots> = next_loop ((pre @ ?pk @ ?pes) @ ?u @ post) (length (pre @ ?pk @ ?pes)) ?dx"
      by (simp add: length_pack_unit length_wr_pes_next add.assoc)
    also have "\<dots> = next_loop ((pre @ ?pk @ ?pes) @ ?u @ post) (length (pre @ ?pk @ ?pes) + length ?u)
      (?dx\<lparr>dx_au := dx_au ?dx @ ?rest,
           dx_cursor := (if ?rest = [] then dx_cursor ?dx else length (pre @ ?pk @ ?pes) + length ?u)\<rparr>)"
    proof (rule less.IH)
      show "length ?rest < length es" using False by (simp add: kPesChunk_def)
      show "dx_au_open ?dx" using less.prems(1) by simp
      have "length ?ch + length ?rest = length es" by simp
      then show "length (dx_au ?dx) + length ?rest \<le> kMaxPayload" using less.prems(2) by simp
    qed
    also have "(?dx\<lparr>dx_au := dx_au ?dx @ ?rest,
           dx_cursor := (if ?rest = [] then dx_cursor ?dx else length (pre @ ?pk @ ?pes) + length ?u)\<rparr>) =
      dx\<lparr>dx_au := dx_au dx @ es, dx_cursor := length pre + length (?pk @ ?pes @ ?u)\<rparr>"
      by (simp add: length_pack_unit length_wr_pes_next)
    finally show ?thesis using False unfolding split by (simp add: add.assoc)
  qed simp
qed


text \<open>The first chunk of an access unit: the unit before it, when there is one, comes out.\<close>

definition seen_psm :: "bool \<Rightarrow> video_codec \<Rightarrow> demux \<Rightarrow> demux" where
  "seen_psm k c dx = (if k then dx\<lparr>dx_psm_codec := c, dx_have_psm := True\<rparr> else dx)"

definition opened :: "bytes \<Rightarrow> int \<Rightarrow> nat \<Rightarrow> demux \<Rightarrow> demux" where
  "opened chunk p cur dx =
     dx\<lparr>dx_au := chunk, dx_au_pts := int (unat (clock33 p)), dx_au_open := True, dx_cursor := cur\<rparr>"

lemma next_head:
  assumes "chunk \<noteq> []" "length chunk \<le> 60000"
  shows "next_loop (pre @ chunk_unit c k r p True chunk @ post) (length pre) dx =
    (case emit_au (seen_psm k c dx) of
       (res, dx1) \<Rightarrow>
         let cur = length pre + length (chunk_unit c k r p True chunk); dx2 = opened chunk p cur dx1
         in case res of Inr f \<Rightarrow> (Inr f, dx2)
            | Inl _ \<Rightarrow> next_loop (pre @ chunk_unit c k r p True chunk @ post) cur dx2)"
proof -
  let ?pk = "pack_unit p r" and ?pes = "wr_pes True p chunk []"
  let ?sys = "if k then system_unit r @ psm_unit c else []"
  have sys: "next_loop ((pre @ ?pk) @ ?sys @ ?pes @ post) (length (pre @ ?pk)) dx =
    next_loop ((pre @ ?pk @ ?sys) @ ?pes @ post) (length (pre @ ?pk @ ?sys)) (seen_psm k c dx)"
  proof (cases k)
    case True
    have "next_loop ((pre @ ?pk) @ system_unit r @ (psm_unit c @ ?pes @ post)) (length (pre @ ?pk)) dx =
      next_loop ((pre @ ?pk) @ system_unit r @ (psm_unit c @ ?pes @ post)) (15 + length (pre @ ?pk)) dx"
      by (rule next_system) simp
    also have "\<dots> = next_loop ((pre @ ?pk @ system_unit r) @ psm_unit c @ (?pes @ post))
        (length (pre @ ?pk @ system_unit r)) dx"
      using system_unit_shape[of r] by (auto simp: add.commute add.left_commute)
    also have "\<dots> = next_loop ((pre @ ?pk @ system_unit r) @ psm_unit c @ (?pes @ post))
        (20 + length (pre @ ?pk @ system_unit r)) (seen_psm k c dx)"
      unfolding seen_psm_def using True by (simp only: if_True) (rule next_psm, simp)
    also have "20 + length (pre @ ?pk @ system_unit r) = length (pre @ ?pk @ ?sys)"
      using psm_unit_shape[of c] True by auto
    finally show ?thesis using True by simp
  qed (simp add: seen_psm_def)
  have "next_loop (pre @ chunk_unit c k r p True chunk @ post) (length pre) dx =
      next_loop (pre @ ?pk @ (?sys @ ?pes @ post)) (length pre) dx"
    by (simp add: chunk_unit_def)
  also have "\<dots> = next_loop (pre @ ?pk @ (?sys @ ?pes @ post)) (length pre + 14) dx"
    by (rule next_pack) simp
  also have "\<dots> = next_loop ((pre @ ?pk) @ ?sys @ ?pes @ post) (length (pre @ ?pk)) dx"
    by (simp add: length_pack_unit)
  also note sys
  also note next_pes_first[OF refl assms]
  finally have run: "next_loop (pre @ chunk_unit c k r p True chunk @ post) (length pre) dx =
    (case emit_au (seen_psm k c dx) of
       (res, dx1) \<Rightarrow>
         let dx2 = opened chunk p (length (pre @ ?pk @ ?sys) + 14 + length chunk) dx1
         in case res of Inr f \<Rightarrow> (Inr f, dx2)
            | Inl _ \<Rightarrow> next_loop ((pre @ ?pk @ ?sys) @ ?pes @ post) (length (pre @ ?pk @ ?sys) + 14 + length chunk) dx2)"
    unfolding opened_def .
  have cur: "length (pre @ ?pk @ ?sys) + 14 + length chunk = length pre + length (chunk_unit c k r p True chunk)"
    by (simp add: chunk_unit_def length_wr_pes_first)
  have buf: "(pre @ ?pk @ ?sys) @ ?pes @ post = pre @ chunk_unit c k r p True chunk @ post"
    by (simp add: chunk_unit_def)
  show ?thesis unfolding run cur buf Let_def ..
qed


section \<open>The stream\<close>

type_synonym access_unit = "bytes \<times> int \<times> bool"

fun mux_stream :: "video_codec \<Rightarrow> u32 \<Rightarrow> access_unit list \<Rightarrow> bytes result" where
  "mux_stream c rate [] = Inr []"
| "mux_stream c rate ((es, p, k) # aus) =
     (case mux_frame c (Some es) (length es) p k rate of
        Inl e \<Rightarrow> Inl e
      | Inr b \<Rightarrow> (case mux_stream c rate aus of Inl e \<Rightarrow> Inl e | Inr s \<Rightarrow> Inr (b @ s)))"

fun demux_all :: "nat \<Rightarrow> demux \<Rightarrow> ps_frame list \<times> demux" where
  "demux_all 0 dx = ([], dx)"
| "demux_all (Suc n) dx =
     (case ps_next dx of
        (Inl e, dx') \<Rightarrow> ([], dx')
      | (Inr f, dx') \<Rightarrow> (case demux_all n dx' of (fs, dx'') \<Rightarrow> (f # fs, dx'')))"

definition frame_of :: "video_codec \<Rightarrow> access_unit \<Rightarrow> ps_frame" where
  "frame_of c au =
     (case au of (es, p, k) \<Rightarrow> \<lparr>pf_annexb = es, pf_pts90 = int (unat (clock33 p)),
        pf_keyframe = is_keyframe c (Some es), pf_codec = c\<rparr>)"

definition au_units :: "video_codec \<Rightarrow> u32 \<Rightarrow> access_unit \<Rightarrow> bytes" where
  "au_units c r au = (case au of (es, p, k) \<Rightarrow> mux_units c k r p True es)"

definition au_ok :: "access_unit \<Rightarrow> bool" where
  "au_ok au \<longleftrightarrow> fst au \<noteq> [] \<and> length (fst au) \<le> kMaxPayload"

lemma mux_stream_units:
  "mux_stream c rate aus = Inr s \<Longrightarrow>
     s = concat (map (au_units c (rate AND 0x3FFFFF)) aus) \<and> (\<forall>au \<in> set aus. au_ok au)"
  by (induction c rate aus arbitrary: s rule: mux_stream.induct)
    (auto simp: mux_frame_def au_units_def mux_units_def au_ok_def split: if_splits sum.splits)

text \<open>
  Between two calls of \<open>next\<close>: an access unit is open, the rest of its chunks and the later access
  units are still in the buffer.
\<close>

definition between :: "video_codec \<Rightarrow> u32 \<Rightarrow> access_unit \<Rightarrow> access_unit list \<Rightarrow> demux \<Rightarrow> bool" where
  "between c r au aus dx \<longleftrightarrow>
     (\<exists>k p got rest. fst au = got @ rest \<and> got \<noteq> [] \<and> dx_au dx = got \<and> dx_au_open dx \<and>
       dx_au_pts dx = int (unat (clock33 (fst (snd au)))) \<and> dx_have_psm dx \<and> dx_psm_codec dx = c \<and>
       drop (dx_cursor dx) (dx_buf dx) = mux_units c k r p False rest @ concat (map (au_units c r) aus))"

lemma find_sc_end: "find_sc d (length d) = None"
  by (subst find_sc.simps) simp

lemma next_loop_end:
  "next_loop d (length d) dx = (reject Again [], dx\<lparr>dx_cursor := (if length d > 3 then length d - 3 else 0)\<rparr>)"
  by (subst next_loop.simps) (simp add: find_sc_end Let_def)

lemma au_units_step:
  assumes "es \<noteq> []"
  shows "au_units c r (es, p, k) =
    chunk_unit c k r p True (take kPesChunk es) @ mux_units c k r p False (drop kPesChunk es)"
  unfolding au_units_def by (simp add: mux_units_step[OF assms])

lemma emit_between:
  assumes "dx_au_open dx" "dx_au dx \<noteq> []" "dx_have_psm dx" "dx_psm_codec dx = c"
    and "dx_au_pts dx = int (unat (clock33 p))"
  shows "emit_au (seen_psm k' c dx) =
    (Inr (frame_of c (dx_au dx, p, k)), (seen_psm k' c dx)\<lparr>dx_au := [], dx_au_open := False\<rparr>)"
  using assms by (simp add: emit_au_def seen_psm_def frame_of_def Let_def)

lemma loop_between:
  assumes dx: "dx_au_open dx" "dx_au dx \<noteq> []" "dx_have_psm dx" "dx_psm_codec dx = c"
      "dx_au_pts dx = int (unat (clock33 p))"
    and room: "length (dx_au dx) + length rest \<le> kMaxPayload" and oks: "\<forall>au \<in> set aus. au_ok au"
    and d: "d = pre @ mux_units c k0 r p0 False rest @ concat (map (au_units c r) aus)"
    and buf: "dx_buf dx = d"
  shows "case aus of
      [] \<Rightarrow> \<exists>dx'. next_loop d (length pre) dx = (reject Again [], dx') \<and>
              emit_au dx' = (Inr (frame_of c (dx_au dx @ rest, p, k)), dx'\<lparr>dx_au := [], dx_au_open := False\<rparr>)
    | au # aus' \<Rightarrow> \<exists>dx'. next_loop d (length pre) dx = (Inr (frame_of c (dx_au dx @ rest, p, k)), dx') \<and>
              between c r au aus' dx'"
proof -
  let ?u = "mux_units c k0 r p0 False rest"
  define dx1 where "dx1 = dx\<lparr>dx_au := dx_au dx @ rest,
    dx_cursor := (if rest = [] then dx_cursor dx else length pre + length ?u)\<rparr>"
  have more: "next_loop d (length pre) dx = next_loop d (length (pre @ ?u)) dx1"
    unfolding d dx1_def next_more[OF dx(1) room] by simp
  have dx1: "dx_au_open dx1" "dx_au dx1 \<noteq> []" "dx_have_psm dx1" "dx_psm_codec dx1 = c"
    "dx_au_pts dx1 = int (unat (clock33 p))" "dx_au dx1 = dx_au dx @ rest" "dx_buf dx1 = d"
    using dx buf by (simp_all add: dx1_def)
  show ?thesis
  proof (cases aus)
    case Nil
    then have "length (pre @ ?u) = length d" by (simp add: d)
    with more have "next_loop d (length pre) dx =
        (reject Again [], dx1\<lparr>dx_cursor := (if length d > 3 then length d - 3 else 0)\<rparr>)"
      by (simp only: next_loop_end)
    then show ?thesis using dx1 Nil by (simp add: emit_au_def frame_of_def Let_def)
  next
    case (Cons au aus')
    obtain es p' k' where au: "au = (es, p', k')" by (cases au)
    have es: "es \<noteq> []" using oks Cons au by (simp add: au_ok_def)
    let ?ch = "take kPesChunk es"
    let ?post = "mux_units c k' r p' False (drop kPesChunk es) @ concat (map (au_units c r) aus')"
    have ch: "?ch \<noteq> []" "length ?ch \<le> 60000" using es by (simp_all add: kPesChunk_def)
    have d': "d = (pre @ ?u) @ chunk_unit c k' r p' True ?ch @ ?post"
      unfolding d Cons au by (simp add: au_units_step[OF es])
    define dx2 where "dx2 = opened ?ch p' (length (pre @ ?u) + length (chunk_unit c k' r p' True ?ch))
      ((seen_psm k' c dx1)\<lparr>dx_au := [], dx_au_open := False\<rparr>)"
    have "next_loop d (length (pre @ ?u)) dx1 = (Inr (frame_of c (dx_au dx1, p, k)), dx2)"
      unfolding d' next_head[OF ch] emit_between[OF dx1(1-5), of k' k] by (simp add: dx2_def Let_def)
    then have run: "next_loop d (length pre) dx = (Inr (frame_of c (dx_au dx @ rest, p, k)), dx2)"
      using more dx1(6) by simp
    have "between c r au aus' dx2"
      unfolding between_def au
    proof (intro exI conjI)
      show "fst (es, p', k') = ?ch @ drop kPesChunk es" by simp
      have "dx_buf dx2 = d" using dx1(7) by (simp add: dx2_def opened_def seen_psm_def)
      moreover have "dx_cursor dx2 = length (pre @ ?u) + length (chunk_unit c k' r p' True ?ch)"
        by (simp add: dx2_def opened_def)
      ultimately show "drop (dx_cursor dx2) (dx_buf dx2) = ?post" unfolding d' by simp
    qed (use ch dx1 in \<open>simp_all add: dx2_def opened_def seen_psm_def\<close>)
    with run Cons show ?thesis by simp
  qed
qed


lemma frame_of_flag: "frame_of c (es, p, k) = frame_of c (es, p, k')"
  by (simp add: frame_of_def)

lemma next_between:
  assumes "between c r au aus dx" "au_ok au" "\<forall>a \<in> set aus. au_ok a"
  shows "case aus of
      [] \<Rightarrow> \<exists>dx'. ps_next dx = (reject Again [], dx') \<and> fst (emit_au dx') = Inr (frame_of c au)
    | a # aus' \<Rightarrow> \<exists>dx'. ps_next dx = (Inr (frame_of c au), dx') \<and> between c r a aus' dx'"
proof -
  obtain es p k where au: "au = (es, p, k)" by (cases au)
  from assms(1) obtain k0 p0 got rest where b: "es = got @ rest" "got \<noteq> []" "dx_au dx = got" "dx_au_open dx"
    "dx_au_pts dx = int (unat (clock33 p))" "dx_have_psm dx" "dx_psm_codec dx = c"
    "drop (dx_cursor dx) (dx_buf dx) = mux_units c k0 r p0 False rest @ concat (map (au_units c r) aus)"
    unfolding between_def au by auto
  define dx1 where "dx1 = (if dx_cursor dx > 0
    then dx\<lparr>dx_buf := drop (dx_cursor dx) (dx_buf dx), dx_cursor := 0\<rparr> else dx)"
  have dx1: "dx_au_open dx1" "dx_au dx1 = got" "dx_have_psm dx1" "dx_psm_codec dx1 = c"
    "dx_au_pts dx1 = int (unat (clock33 p))"
    "dx_buf dx1 = [] @ mux_units c k0 r p0 False rest @ concat (map (au_units c r) aus)"
    using b by (auto simp: dx1_def)
  have nx: "ps_next dx = next_loop (dx_buf dx1) (length ([] :: bytes)) dx1"
    by (simp add: ps_next_def dx1_def Let_def)
  have room: "length (dx_au dx1) + length rest \<le> kMaxPayload"
    using assms(2) b(1) dx1(2) by (simp add: au_ok_def au)
  have au': "frame_of c au = frame_of c (dx_au dx1 @ rest, p, k)" using b(1) dx1(2) by (simp add: au)
  from loop_between[OF dx1(1) _ dx1(3-5) room assms(3) dx1(6) refl, of k] b(2) dx1(2)
  show ?thesis unfolding nx au' by (cases aus) auto
qed

lemma demux_between:
  assumes "between c r au aus dx" "au_ok au" "\<forall>a \<in> set aus. au_ok a"
  shows "\<exists>dx'. demux_all (Suc (length aus)) dx = (map (frame_of c) (butlast (au # aus)), dx') \<and>
    fst (ps_flush dx') = Inr (frame_of c (last (au # aus)))"
  using assms
proof (induction aus arbitrary: au dx)
  case Nil
  from next_between[OF Nil] show ?case by (auto simp: ps_flush_def)
next
  case (Cons a aus)
  from next_between[OF Cons.prems] obtain dx1 where
    n: "ps_next dx = (Inr (frame_of c au), dx1)" and b: "between c r a aus dx1" by auto
  from Cons.IH[OF b] Cons.prems(3) obtain dx2 where
    "demux_all (Suc (length aus)) dx1 = (map (frame_of c) (butlast (a # aus)), dx2)"
    "fst (ps_flush dx2) = Inr (frame_of c (last (a # aus)))" by auto
  with n show ?case by (auto split: prod.splits)
qed

lemma demux_stream:
  assumes "\<forall>a \<in> set (au # aus). au_ok a" "snd (snd au)"
    and dx: "dx = new_demux\<lparr>dx_buf := concat (map (au_units c r) (au # aus))\<rparr>"
  shows "\<exists>dx'. demux_all (Suc (length aus)) dx = (map (frame_of c) (butlast (au # aus)), dx') \<and>
    fst (ps_flush dx') = Inr (frame_of c (last (au # aus)))"
proof -
  obtain es p where au: "au = (es, p, True)" using assms(2) by (cases au) auto
  have es: "es \<noteq> []" "length es \<le> kMaxPayload" using assms(1) au by (simp_all add: au_ok_def)
  let ?ch = "take kPesChunk es" and ?rest = "drop kPesChunk es"
  let ?u = "chunk_unit c True r p True ?ch"
  let ?post = "mux_units c True r p False ?rest @ concat (map (au_units c r) aus)"
  have ch: "?ch \<noteq> []" "length ?ch \<le> 60000" using es by (simp_all add: kPesChunk_def)
  define d where "d = dx_buf dx"
  have d: "d = [] @ ?u @ ?post" unfolding d_def dx au by (simp add: au_units_step[OF es(1)])
  define dx1 where "dx1 = opened ?ch p (length ?u) (seen_psm True c dx)"
  have dx1: "dx_au_open dx1" "dx_au dx1 = ?ch" "dx_have_psm dx1" "dx_psm_codec dx1 = c"
    "dx_au_pts dx1 = int (unat (clock33 p))" "dx_buf dx1 = d" "dx_cursor dx1 = length ?u"
    by (simp_all add: dx1_def opened_def seen_psm_def d_def)
  have "emit_au (seen_psm True c dx) = (reject Eof [], seen_psm True c dx)"
    by (simp add: emit_au_def seen_psm_def dx new_demux_def)
  moreover have "ps_next dx = next_loop d (length ([] :: bytes)) dx"
    by (simp add: ps_next_def d_def dx new_demux_def)
  ultimately have n: "ps_next dx = next_loop d (length ?u) dx1"
    unfolding d next_head[OF ch] dx1_def by (simp add: Let_def)
  have room: "length (dx_au dx1) + length ?rest \<le> kMaxPayload" using es(2) dx1(2) by simp
  have d2: "d = ?u @ mux_units c True r p False ?rest @ concat (map (au_units c r) aus)" using d by simp
  note loop = loop_between[OF dx1(1) _ dx1(3-5) room _ d2 dx1(6), of True]
  show ?thesis
  proof (cases aus)
    case Nil
    with loop obtain dx2 where "ps_next dx = (reject Again [], dx2)" "fst (emit_au dx2) = Inr (frame_of c au)"
      using n dx1(2) ch(1) by (auto simp: au)
    with Nil show ?thesis by (simp add: ps_flush_def)
  next
    case (Cons a aus')
    with loop obtain dx2 where r: "ps_next dx = (Inr (frame_of c au), dx2)" and b: "between c r a aus' dx2"
      using n dx1(2) ch(1) assms(1) by (auto simp: au)
    from demux_between[OF b] assms(1) Cons obtain dx3 where
      "demux_all (Suc (length aus')) dx2 = (map (frame_of c) (butlast (a # aus')), dx3)"
      "fst (ps_flush dx3) = Inr (frame_of c (last (a # aus')))" by auto
    with r Cons show ?thesis by (auto split: prod.splits)
  qed
qed

text \<open>
  C26. Multiplexing and demultiplexing lose nothing. For every sequence of access units of one codec,
  of any content up to 64 MiB, the first of which is muxed as a key frame, the program streams of
  \<open>mux_frame\<close> appended to a new demultiplexer come back from \<open>next\<close> and, for the last unit, \<open>flush\<close>
  as the same payloads in the same order, with the time stamps modulo \<open>2^33\<close> and the codec of
  the map; fragmentation into PES packets and start codes inside the payload change nothing.
\<close>

theorem ps_roundtrip:
  assumes "mux_stream c rate aus = Inr s" "aus \<noteq> []" "snd (snd (hd aus))" "length s \<le> kMaxBuffered"
  shows "\<exists>dx dx'. ps_append new_demux (Some s) (length s) = (Ok, dx) \<and>
    demux_all (length aus) dx = (map (frame_of c) (butlast aus), dx') \<and>
    fst (ps_flush dx') = Inr (frame_of c (last aus))"
proof -
  obtain au aus' where aus: "aus = au # aus'" using assms(2) by (cases aus) auto
  note s = mux_stream_units[OF assms(1)]
  obtain es p k where au: "au = (es, p, k)" by (cases au)
  have "es \<noteq> []" using s by (simp add: aus au au_ok_def)
  moreover have "pack_unit p' r' \<noteq> []" for p' r' using length_pack_unit[of p' r'] by auto
  ultimately have "s \<noteq> []" using s by (simp add: aus au au_units_step chunk_unit_def)
  then have app: "ps_append new_demux (Some s) (length s) = (Ok, new_demux\<lparr>dx_buf := s\<rparr>)"
    using assms(4) by (simp add: ps_append_def new_demux_def)
  have flag: "snd (snd au)" using assms(3) aus by simp
  have oks: "\<forall>a \<in> set (au # aus'). au_ok a" using s aus by simp
  have buf: "new_demux\<lparr>dx_buf := s\<rparr> =
      new_demux\<lparr>dx_buf := concat (map (au_units c (rate AND 0x3FFFFF)) (au # aus'))\<rparr>"
    using s aus by simp
  from demux_stream[OF oks flag buf] app show ?thesis unfolding aus by auto
qed


lemma length_au_units:
  assumes "es \<noteq> []" "length es \<le> 60000"
  shows "length (au_units c r (es, p, k)) = 28 + (if k then 35 else 0) + length es"
proof -
  have "take kPesChunk es = es" "drop kPesChunk es = []" using assms(2) by (simp_all add: kPesChunk_def)
  moreover have "length (system_unit r @ psm_unit c) = 35"
    using system_unit_shape[of r] psm_unit_shape[of c] by auto
  ultimately show ?thesis
    by (simp add: au_units_step[OF assms(1)] chunk_unit_def length_pack_unit length_wr_pes_first)
qed

definition sample_aus :: "access_unit list" where
  "sample_aus = [([0, 0, 1, 0x65, 7], 90000, True), ([0, 0, 1, 0x41, 0, 0, 1], -1, False)]"

theorem ps_roundtrip_witness:
  "\<exists>s dx dx'. mux_stream AvcVideo 25000 sample_aus = Inr s \<and>
    ps_append new_demux (Some s) (length s) = (Ok, dx) \<and>
    demux_all 2 dx = ([frame_of AvcVideo ([0, 0, 1, 0x65, 7], 90000, True)], dx') \<and>
    fst (ps_flush dx') = Inr (frame_of AvcVideo ([0, 0, 1, 0x41, 0, 0, 1], -1, False))"
proof -
  obtain s where s: "mux_stream AvcVideo 25000 sample_aus = Inr s"
    by (simp add: sample_aus_def mux_frame_def kMaxPayload_def)
  from mux_stream_units[OF s] have "length s \<le> kMaxBuffered"
    by (simp add: sample_aus_def length_au_units kMaxBuffered_def kMaxPayload_def)
  from ps_roundtrip[OF s _ _ this] s show ?thesis
    by (simp add: sample_aus_def numeral_2_eq_2)
qed

text \<open>
  C27. Without a stream map the codec is guessed from the NAL header bytes, HEVC first. The header
  \<open>0x41\<close> of an H.264 slice reads as the HEVC parameter set type 32: every such access unit comes
  out as an HEVC key frame, although as H.264 it holds no key unit at all.
\<close>

theorem sniff_avc_slice_as_hevc:
  "sniff (0 # 0 # 1 # 0x41 # rest) = HevcVideo \<and>
   is_keyframe (sniff (0 # 0 # 1 # 0x41 # rest)) (Some (0 # 0 # 1 # 0x41 # rest)) \<and>
   \<not> is_keyframe AvcVideo (Some [0, 0, 1, 0x41])"
proof -
  have first: "0x41 \<in> set (nal_headers (0 # 0 # 1 # 0x41 # rest) 0)"
    by (subst nal_headers.simps) simp
  have key: "hevc_key 0x41" by (simp add: hevc_key_def)
  from first key have s: "sniff (0 # 0 # 1 # 0x41 # rest) = HevcVideo" by (auto simp: sniff_def)
  have "nal_headers [0, 0, 1, 0x41] 0 = [0x41]"
    by (subst nal_headers.simps) (simp add: nal_headers.simps[of _ 3])
  then have "\<not> is_keyframe AvcVideo (Some [0, 0, 1, 0x41])" by (simp add: is_keyframe_def avc_key_def)
  moreover have "is_keyframe HevcVideo (Some (0 # 0 # 1 # 0x41 # rest))"
    using first key by (auto simp: is_keyframe_def)
  ultimately show ?thesis using s by simp
qed

end
