(* ===== verification/Sha256.thy ===== *)
theory Sha256
  imports Prelude
begin

text \<open>
  The digest of the core, \<open>core/src/sha256.cpp\<close>: the compression function over a 64-word array, the
  loop over the whole blocks and the padding of the tail in a stack buffer of 128 bytes, whose
  initial contents are the argument \<open>buf\<close>. The second half states the digest of FIPS 180-4 and shows
  that the two agree.
\<close>

section \<open>The code\<close>

definition rotr :: "u32 \<Rightarrow> nat \<Rightarrow> u32" where
  "rotr x n = drop_bit n x OR push_bit (32 - n) x"

text \<open>The table, row by row.\<close>

definition sha_K :: "u32 list" where
  "sha_K =
     [0x428a2f98, 0x71374491, 0xb5c0fbcf, 0xe9b5dba5, 0x3956c25b, 0x59f111f1] @
     [0x923f82a4, 0xab1c5ed5, 0xd807aa98, 0x12835b01, 0x243185be, 0x550c7dc3] @
     [0x72be5d74, 0x80deb1fe, 0x9bdc06a7, 0xc19bf174, 0xe49b69c1, 0xefbe4786] @
     [0x0fc19dc6, 0x240ca1cc, 0x2de92c6f, 0x4a7484aa, 0x5cb0a9dc, 0x76f988da] @
     [0x983e5152, 0xa831c66d, 0xb00327c8, 0xbf597fc7, 0xc6e00bf3, 0xd5a79147] @
     [0x06ca6351, 0x14292967, 0x27b70a85, 0x2e1b2138, 0x4d2c6dfc, 0x53380d13] @
     [0x650a7354, 0x766a0abb, 0x81c2c92e, 0x92722c85, 0xa2bfe8a1, 0xa81a664b] @
     [0xc24b8b70, 0xc76c51a3, 0xd192e819, 0xd6990624, 0xf40e3585, 0x106aa070] @
     [0x19a4c116, 0x1e376c08, 0x2748774c, 0x34b0bcb5, 0x391c0cb3, 0x4ed8aa4a] @
     [0x5b9cca4f, 0x682e6ff3, 0x748f82ee, 0x78a5636f, 0x84c87814, 0x8cc70208] @
     [0x90befffa, 0xa4506ceb, 0xbef9a3f7, 0xc67178f2]"

definition sha_init :: "u32 list" where
  "sha_init = [0x6a09e667, 0xbb67ae85, 0x3c6ef372, 0xa54ff53a, 0x510e527f, 0x9b05688c, 0x1f83d9ab, 0x5be0cd19]"

definition rd_be32 :: "bytes \<Rightarrow> nat \<Rightarrow> u32" where
  "rd_be32 p i =
     push_bit 24 (ucast (p ! i)) OR push_bit 16 (ucast (p ! (i + 1))) OR
     push_bit 8 (ucast (p ! (i + 2))) OR ucast (p ! (i + 3))"

text \<open>One turn of the loop that extends the message schedule.\<close>

definition sched_step :: "u32 list \<Rightarrow> nat \<Rightarrow> u32 list" where
  "sched_step w i =
     (let s0 = rotr (w ! (i - 15)) 7 XOR rotr (w ! (i - 15)) 18 XOR drop_bit 3 (w ! (i - 15));
          s1 = rotr (w ! (i - 2)) 17 XOR rotr (w ! (i - 2)) 19 XOR drop_bit 10 (w ! (i - 2))
      in w @ [w ! (i - 16) + s0 + w ! (i - 7) + s1])"

definition sha_sched :: "bytes \<Rightarrow> nat \<Rightarrow> u32 list" where
  "sha_sched p off = foldl sched_step (map (\<lambda>i. rd_be32 p (off + i * 4)) [0..<16]) [16..<64]"

type_synonym sha_vars = "u32 \<times> u32 \<times> u32 \<times> u32 \<times> u32 \<times> u32 \<times> u32 \<times> u32"

fun sha_round :: "u32 list \<Rightarrow> sha_vars \<Rightarrow> nat \<Rightarrow> sha_vars" where
  "sha_round w (a, b, c, d, e, f, g, k) i =
     (let s1 = rotr e 6 XOR rotr e 11 XOR rotr e 25;
          ch = (e AND f) XOR (NOT e AND g);
          t1 = k + s1 + ch + sha_K ! i + w ! i;
          s0 = rotr a 2 XOR rotr a 13 XOR rotr a 22;
          mj = (a AND b) XOR (a AND c) XOR (b AND c);
          t2 = s0 + mj
      in (t1 + t2, a, b, c, d + t1, e, f, g))"

definition vars_of :: "u32 list \<Rightarrow> sha_vars" where
  "vars_of h = (h ! 0, h ! 1, h ! 2, h ! 3, h ! 4, h ! 5, h ! 6, h ! 7)"

fun add_vars :: "u32 list \<Rightarrow> sha_vars \<Rightarrow> u32 list" where
  "add_vars h (a, b, c, d, e, f, g, k) =
     [h ! 0 + a, h ! 1 + b, h ! 2 + c, h ! 3 + d, h ! 4 + e, h ! 5 + f, h ! 6 + g, h ! 7 + k]"

text \<open>The lambda \<open>block\<close>, applied to the pointer \<open>p + off\<close>.\<close>

definition sha_block :: "u32 list \<Rightarrow> bytes \<Rightarrow> nat \<Rightarrow> u32 list" where
  "sha_block h p off = add_vars h (foldl (sha_round (sha_sched p off)) (vars_of h) [0..<64])"

function sha_loop :: "bytes \<Rightarrow> u32 list \<Rightarrow> nat \<Rightarrow> u32 list \<times> nat" where
  "sha_loop d h pos = (if length d - pos \<ge> 64 then sha_loop d (sha_block h d pos) (pos + 64) else (h, pos))"
  by auto
termination by (relation "measure (\<lambda>(d, h, pos). length d - pos)") auto

declare sha_loop.simps [simp del]

text \<open>The loops that fill the buffer: a copy, zeroes on \<open>[i, j)\<close>, and the length in bits.\<close>

definition copy_tail :: "bytes \<Rightarrow> nat \<Rightarrow> nat \<Rightarrow> bytes \<Rightarrow> bytes" where
  "copy_tail d pos rem buf = foldl (\<lambda>b i. b[i := d ! (pos + i)]) buf [0..<rem]"

definition zero_fill :: "nat \<Rightarrow> nat \<Rightarrow> bytes \<Rightarrow> bytes" where
  "zero_fill i j buf = foldl (\<lambda>b i. b[i := 0]) buf [i..<j]"

definition put_bit_len :: "nat \<Rightarrow> u64 \<Rightarrow> bytes \<Rightarrow> bytes" where
  "put_bit_len off n buf = foldl (\<lambda>b i. b[off + i := ucast (drop_bit (56 - i * 8) n)]) buf [0..<8]"

definition sha_tail :: "bytes \<Rightarrow> nat \<Rightarrow> u64 \<Rightarrow> bytes \<Rightarrow> u32 list \<Rightarrow> u32 list" where
  "sha_tail d pos bit_len buf h =
     (let rem = length d - pos;
          buf = (copy_tail d pos rem buf)[rem := 0x80]
      in if rem + 1 + 8 \<le> 64
         then sha_block h (put_bit_len 56 bit_len (zero_fill (rem + 1) 56 buf)) 0
         else let buf = zero_fill (rem + 1) 128 buf;
                  h = sha_block h buf 0;
                  buf = put_bit_len 120 bit_len (zero_fill 0 120 buf)
              in sha_block h buf 64)"

definition sha_out :: "u32 list \<Rightarrow> bytes" where
  "sha_out h = concat (map (\<lambda>i. [ucast (drop_bit 24 (h ! i)), ucast (drop_bit 16 (h ! i)),
     ucast (drop_bit 8 (h ! i)), ucast (h ! i)]) [0..<8])"

definition sha256 :: "bytes \<Rightarrow> bytes \<Rightarrow> bytes" where
  "sha256 buf d =
     (let bit_len = of_nat (length d) * 8 :: u64; (h, pos) = sha_loop d sha_init 0
      in sha_out (sha_tail d pos bit_len buf h))"

section \<open>FIPS 180-4\<close>

fun fips_W :: "(nat \<Rightarrow> u32) \<Rightarrow> nat \<Rightarrow> u32" where
  "fips_W m t =
     (if t < 16 then m t
      else (word_rotr 17 (fips_W m (t - 2)) XOR word_rotr 19 (fips_W m (t - 2)) XOR drop_bit 10 (fips_W m (t - 2)))
         + fips_W m (t - 7)
         + (word_rotr 7 (fips_W m (t - 15)) XOR word_rotr 18 (fips_W m (t - 15)) XOR drop_bit 3 (fips_W m (t - 15)))
         + fips_W m (t - 16))"

declare fips_W.simps [simp del]

definition Ch :: "u32 \<Rightarrow> u32 \<Rightarrow> u32 \<Rightarrow> u32" where
  "Ch x y z = (x AND y) XOR (NOT x AND z)"

definition Maj :: "u32 \<Rightarrow> u32 \<Rightarrow> u32 \<Rightarrow> u32" where
  "Maj x y z = (x AND y) XOR (x AND z) XOR (y AND z)"

definition Sum0 :: "u32 \<Rightarrow> u32" where
  "Sum0 x = word_rotr 2 x XOR word_rotr 13 x XOR word_rotr 22 x"

definition Sum1 :: "u32 \<Rightarrow> u32" where
  "Sum1 x = word_rotr 6 x XOR word_rotr 11 x XOR word_rotr 25 x"

text \<open>The working variables after \<open>t\<close> rounds.\<close>

fun fips_vars :: "(nat \<Rightarrow> u32) \<Rightarrow> sha_vars \<Rightarrow> nat \<Rightarrow> sha_vars" where
  "fips_vars m v 0 = v"
| "fips_vars m v (Suc t) =
     (case fips_vars m v t of (a, b, c, d, e, f, g, h) \<Rightarrow>
        let T1 = h + Sum1 e + Ch e f g + sha_K ! t + fips_W m t; T2 = Sum0 a + Maj a b c
        in (T1 + T2, a, b, c, d + T1, e, f, g))"

text \<open>One block of 64 bytes, and a message of whole blocks.\<close>

definition fips_block :: "u32 list \<Rightarrow> bytes \<Rightarrow> u32 list" where
  "fips_block h m = add_vars h (fips_vars (\<lambda>t. rd_be32 m (4 * t)) (vars_of h) 64)"

function fips_blocks :: "u32 list \<Rightarrow> bytes \<Rightarrow> u32 list" where
  "fips_blocks h m = (if length m < 64 then h else fips_blocks (fips_block h (take 64 m)) (drop 64 m))"
  by auto
termination by (relation "measure (\<lambda>(h, m). length m)") auto

declare fips_blocks.simps [simp del]

text \<open>A number in eight bytes, most significant first.\<close>

definition be64 :: "nat \<Rightarrow> bytes" where
  "be64 n = map (\<lambda>i. of_nat (n div 256 ^ (7 - i))) [0..<8]"

definition fips_pad :: "nat \<Rightarrow> bytes" where
  "fips_pad n = [0x80] @ replicate ((119 - n mod 64) mod 64) 0 @ be64 (8 * n)"

definition fips_sha256 :: "bytes \<Rightarrow> bytes" where
  "fips_sha256 d = sha_out (fips_blocks sha_init (d @ fips_pad (length d)))"

text \<open>
  The constants are the first 32 bits of the fractional parts of the cube and square roots of the
  first primes.
\<close>

definition first_primes :: "int list" where
  "first_primes = [2, 3, 5, 7, 11, 13, 17, 19, 23, 29, 31, 37, 41, 43, 47, 53, 59, 61, 67, 71, 73, 79, 83, 89, 97, 101, 103, 107, 109, 113, 127, 131, 137,
     139, 149, 151, 157, 163, 167, 173, 179, 181, 191, 193, 197, 199, 211, 223, 227, 229, 233, 239, 241, 251, 257, 263, 269, 271, 277, 281, 283, 293, 307, 311]"

definition is_root_fraction :: "nat \<Rightarrow> int \<Rightarrow> int \<Rightarrow> u32 \<Rightarrow> bool" where
  "is_root_fraction n p whole k \<longleftrightarrow>
     (let x = whole * 2 ^ 32 + uint k in x ^ n \<le> p * 2 ^ (32 * n) \<and> p * 2 ^ (32 * n) < (x + 1) ^ n)"

lemma sha_K_roots: "list_all2 (\<lambda>p k. list_ex (\<lambda>w. is_root_fraction 3 p w k) [1..6]) first_primes sha_K"
  by code_simp

lemma sha_init_roots: "list_all2 (\<lambda>p k. list_ex (\<lambda>w. is_root_fraction 2 p w k) [1..6]) (take 8 first_primes) sha_init"
  by code_simp

section \<open>The compression function\<close>

lemma rotr_word_rotr: "0 < n \<Longrightarrow> n < 32 \<Longrightarrow> rotr x n = word_rotr n x"
proof (rule bit_word_eqI)
  fix i assume n: "0 < n" "n < 32" and i: "i < LENGTH(32)"
  show "bit (rotr x n) i = bit (word_rotr n x) i"
  proof (cases "i + n < 32")
    case True
    then show ?thesis using n i by (auto simp: rotr_def bit_simps bit_word_rotr_iff ac_simps)
  next
    case False
    then have "(i + n) mod 32 = i + n - 32" using n i by (simp add: le_mod_geq)
    moreover have "\<not> bit x (n + i)" using False bit_imp_le_length[of x "n + i"] by auto
    ultimately show ?thesis using n i False by (auto simp: rotr_def bit_simps bit_word_rotr_iff ac_simps)
  qed
qed

lemma sched_prefix:
  assumes "n \<le> 48"
  shows "foldl sched_step (map (\<lambda>i. rd_be32 p (off + i * 4)) [0..<16]) [16..<16 + n] =
    map (fips_W (\<lambda>t. rd_be32 p (off + 4 * t))) [0..<16 + n]"
  using assms
proof (induction n)
  case 0
  have "fips_W m t = m t" if "t < 16" for m t using that by (simp add: fips_W.simps)
  then show ?case by (simp add: mult.commute)
next
  case (Suc n)
  let ?W = "fips_W (\<lambda>t. rd_be32 p (off + 4 * t))"
  have "?W (16 + n) = ?W n + (word_rotr 7 (?W (1 + n)) XOR word_rotr 18 (?W (1 + n)) XOR drop_bit 3 (?W (1 + n)))
      + ?W (9 + n) + (word_rotr 17 (?W (14 + n)) XOR word_rotr 19 (?W (14 + n)) XOR drop_bit 10 (?W (14 + n)))"
    by (subst fips_W.simps) (simp add: ac_simps)
  moreover define xs where "xs = map ?W [0..<16 + n]"
  have "xs ! n = ?W n" "xs ! Suc n = ?W (1 + n)" "xs ! (9 + n) = ?W (9 + n)" "xs ! (14 + n) = ?W (14 + n)"
    unfolding xs_def by (simp_all add: nth_append del: upt_Suc)
  ultimately have "sched_step xs (16 + n) = xs @ [?W (16 + n)]"
    by (simp add: sched_step_def Let_def rotr_word_rotr)
  moreover have "[16..<16 + Suc n] = [16..<16 + n] @ [16 + n]" "[0..<16 + Suc n] = [0..<16 + n] @ [16 + n]"
    by (simp_all only: add_Suc_right upt_Suc_append le_add1 le0)
  moreover have "foldl sched_step (map (\<lambda>i. rd_be32 p (off + i * 4)) [0..<16]) [16..<16 + n] = xs"
    unfolding xs_def using Suc by simp
  ultimately show ?case unfolding xs_def by (simp only: foldl_append foldl_Cons foldl_Nil map_append list.map)
qed

lemma sha_sched_fips: "sha_sched p off = map (fips_W (\<lambda>t. rd_be32 p (off + 4 * t))) [0..<64]"
  using sched_prefix[of 48 p off] by (simp add: sha_sched_def)

lemma rounds_fips:
  "n \<le> 64 \<Longrightarrow> foldl (sha_round (map (fips_W m) [0..<64])) v [0..<n] = fips_vars m v n"
proof (induction n)
  case (Suc n)
  obtain a b c d e f g k where v: "fips_vars m v n = (a, b, c, d, e, f, g, k)" by (cases "fips_vars m v n") auto
  have "map (fips_W m) [0..<64] ! n = fips_W m n" using Suc.prems by simp
  then show ?case using Suc v
    by (simp add: Let_def rotr_word_rotr Sum0_def Sum1_def Ch_def Maj_def)
qed simp

lemma fips_W_cong: "(\<And>t. t < 16 \<Longrightarrow> m t = m' t) \<Longrightarrow> fips_W m t = fips_W m' t"
proof (induction t rule: less_induct)
  case (less t)
  show ?case
  proof (cases "t < 16")
    case True
    with less.prems show ?thesis by (simp add: fips_W.simps)
  next
    case False
    with less.IH[of "t - 2"] less.IH[of "t - 7"] less.IH[of "t - 15"] less.IH[of "t - 16"] less.prems
    show ?thesis using False by (simp add: fips_W.simps[of m t] fips_W.simps[of m' t])
  qed
qed

lemma fips_vars_cong: "(\<And>t. fips_W m t = fips_W m' t) \<Longrightarrow> fips_vars m v n = fips_vars m' v n"
  by (induction n) (auto split: prod.split)

lemma sha_block_fips:
  assumes "off + 64 \<le> length p"
  shows "sha_block h p off = fips_block h (take 64 (drop off p))"
proof -
  have "rd_be32 p (off + 4 * t) = rd_be32 (take 64 (drop off p)) (4 * t)" if "t < 16" for t
    using that assms by (simp add: rd_be32_def add.assoc)
  then have "fips_vars (\<lambda>t. rd_be32 p (off + 4 * t)) v 64 = fips_vars (\<lambda>t. rd_be32 (take 64 (drop off p)) (4 * t)) v 64" for v
    by (intro fips_vars_cong fips_W_cong) simp
  then show ?thesis by (simp add: sha_block_def fips_block_def sha_sched_fips rounds_fips)
qed


section \<open>The blocks of the message\<close>

lemma sha_loop_blocks:
  assumes "sha_loop d h pos = (h', pos')" "pos \<le> length d"
  shows "fips_blocks h (drop pos d @ x) = fips_blocks h' (drop pos' d @ x) \<and> pos' \<le> length d \<and>
    length d - pos' < 64 \<and> pos' mod 64 = pos mod 64"
  using assms
proof (induction d h pos rule: sha_loop.induct)
  case (1 d h pos)
  show ?case
  proof (cases "length d - pos \<ge> 64")
    case True
    then have "sha_loop d (sha_block h d pos) (pos + 64) = (h', pos')"
      using 1(2) by (simp add: sha_loop.simps)
    note IH = 1(1)[OF True this]
    have "fips_blocks h (drop pos d @ x) = fips_blocks (sha_block h d pos) (drop (pos + 64) d @ x)"
      using True by (subst fips_blocks.simps) (auto simp: sha_block_fips add.commute)
    then show ?thesis using IH True by simp
  next
    case False
    with 1(2,3) show ?thesis by (simp add: sha_loop.simps)
  qed
qed

lemma foldl_update:
  "off + n \<le> length buf \<Longrightarrow> foldl (\<lambda>b i. b[off + i := f i]) buf [0..<n] = put_at buf off (map f [0..<n])"
proof (induction n)
  case (Suc n)
  then have "foldl (\<lambda>b i. b[off + i := f i]) buf [0..<n] = put_at buf off (map f [0..<n])" by simp
  then show ?case using Suc.prems
    by (intro nth_equalityI) (auto simp: nth_list_update nth_put_at nth_append less_Suc_eq)
qed simp

lemma copy_tail_put: "pos \<le> length d \<Longrightarrow> length d - pos \<le> length buf \<Longrightarrow>
  copy_tail d pos (length d - pos) buf = put_at buf 0 (drop pos d)"
proof -
  assume p: "pos \<le> length d" "length d - pos \<le> length buf"
  have "map (\<lambda>i. d ! (pos + i)) [0..<length d - pos] = drop pos d"
    using p by (intro nth_equalityI) auto
  then show ?thesis using foldl_update[of 0 "length d - pos" buf "\<lambda>i. d ! (pos + i)"] p by (simp add: copy_tail_def)
qed

lemma zero_fill_put: "i \<le> j \<Longrightarrow> j \<le> length buf \<Longrightarrow> zero_fill i j buf = put_at buf i (replicate (j - i) 0)"
proof -
  assume ij: "i \<le> j" "j \<le> length buf"
  have m: "[i..<j] = map (\<lambda>k. i + k) [0..<j - i]" using ij by (intro nth_equalityI) auto
  have "zero_fill i j buf = foldl (\<lambda>b k. b[i + k := 0]) buf [0..<j - i]"
    unfolding zero_fill_def m by (simp add: foldl_map)
  also have "\<dots> = put_at buf i (map (\<lambda>k. 0) [0..<j - i])" using ij by (intro foldl_update) simp
  also have "map (\<lambda>k. 0 :: u8) [0..<j - i] = replicate (j - i) 0" by (simp add: map_replicate_const)
  finally show ?thesis .
qed

lemma put_bit_len_put: "off + 8 \<le> length buf \<Longrightarrow> 8 * n < 2 ^ 64 \<Longrightarrow>
  put_bit_len off (of_nat n * 8) buf = put_at buf off (be64 (8 * n))"
proof -
  assume off: "off + 8 \<le> length buf" and n: "8 * n < 2 ^ 64"
  have "(ucast (drop_bit (56 - i * 8) (of_nat n * 8 :: u64)) :: u8) = of_nat (8 * n div 256 ^ (7 - i))" if "i < 8" for i
  proof -
    have e: "56 - i * 8 = 8 * (7 - i)" by simp
    have w: "(of_nat n * 8 :: u64) = of_nat (8 * n)" by simp
    have "drop_bit (56 - i * 8) (of_nat (8 * n) :: u64) = of_nat (8 * n div 2 ^ (56 - i * 8))"
      using n by (intro drop_bit_of_nat_word) simp
    also have "(2::nat) ^ (56 - i * 8) = 256 ^ (7 - i)" unfolding e power_mult by simp
    finally have d: "drop_bit (56 - i * 8) (of_nat n * 8 :: u64) = of_nat (8 * n div 256 ^ (7 - i))" unfolding w .
    have "8 * n div 256 ^ (7 - i) < 2 ^ 64"
      by (rule le_less_trans[OF div_le_dividend n])
    then show ?thesis unfolding d by (simp add: unsigned_of_nat take_bit_nat_eq_self)
  qed
  then have "map (\<lambda>i. ucast (drop_bit (56 - i * 8) (of_nat n * 8 :: u64)) :: u8) [0..<8] = be64 (8 * n)"
    unfolding be64_def by simp
  then show ?thesis using foldl_update[OF off] by (simp add: put_bit_len_def)
qed


lemma length_be64 [simp]: "length (be64 n) = 8"
  by (simp add: be64_def)

lemma fips_blocks_one: "length m = 64 \<Longrightarrow> fips_blocks h m = fips_block h m"
  by (simp add: fips_blocks.simps)

lemma fips_blocks_two: "length m = 128 \<Longrightarrow> fips_blocks h m = fips_block (fips_block h (take 64 m)) (drop 64 m)"
  by (subst fips_blocks.simps) (simp add: fips_blocks_one)

lemma copy_tail_mark:
  assumes "length t < length buf"
  shows "(put_at buf 0 t)[length t := v] = t @ v # drop (Suc (length t)) buf"
proof -
  have "put_at buf 0 t = t @ buf ! length t # drop (Suc (length t)) buf"
    using assms by (simp add: put_at_def Cons_nth_drop_Suc)
  then show ?thesis by simp
qed

lemma take_length_append: "length a = n \<Longrightarrow> take n (a @ c) = a"
  by auto

lemma put_at_behind:
  "length a = n \<Longrightarrow> put_at (a @ c) n ys = a @ ys @ drop (length ys) c"
  by (auto simp: put_at_def)

lemma sha_tail_fips:
  assumes pos: "pos \<le> length d" "length d - pos < 64" "pos mod 64 = 0"
    and buf: "length buf = 128" and len: "8 * length d < 2 ^ 64"
  shows "sha_tail d pos (of_nat (length d) * 8) buf h = fips_blocks h (drop pos d @ fips_pad (length d))"
proof -
  define t where "t = drop pos d"
  define L where "L = be64 (8 * length d)"
  have lt: "length d - pos = length t" "length t < 64" using pos by (simp_all add: t_def)
  have "length d = pos + length t" using pos by (simp add: t_def)
  then have md: "length d mod 64 = length t"
    using mod_add_left_eq[of pos 64 "length t"] pos(3) lt(2) by (simp only: add_0 mod_less)
  define b1 where "b1 = (copy_tail d pos (length t) buf)[length t := 0x80]"
  have c: "copy_tail d pos (length t) buf = put_at buf 0 t"
    using copy_tail_put[OF pos(1), of buf] pos(2) buf by (simp add: t_def)
  have b1: "b1 = t @ 0x80 # drop (Suc (length t)) buf"
    unfolding b1_def c using lt(2) buf by (intro copy_tail_mark) linarith
  show ?thesis
  proof (cases "length t \<le> 55")
    case True
    have k: "(119 - length t) mod 64 = 55 - length t"
    proof -
      have "119 - length t = (55 - length t) + 64" using True by simp
      then show ?thesis by (simp only: mod_add_self2) (simp add: mod_less)
    qed
    have z: "zero_fill (length t + 1) 56 b1 = t @ [0x80] @ replicate (55 - length t) 0 @ drop 56 buf"
    proof -
      have "zero_fill (length t + 1) 56 b1 = put_at ((t @ [0x80]) @ drop (Suc (length t)) buf) (length t + 1)
          (replicate (55 - length t) 0)"
        using True buf unfolding b1 by (subst zero_fill_put) simp_all
      also have "\<dots> = (t @ [0x80]) @ replicate (55 - length t) 0 @ drop 56 buf"
        using True by (subst put_at_behind) simp_all
      finally show ?thesis by simp
    qed
    have p: "put_bit_len 56 (of_nat (length d) * 8) (zero_fill (length t + 1) 56 b1) =
        t @ [0x80] @ replicate (55 - length t) 0 @ L @ drop 64 buf"
    proof -
      have "put_bit_len 56 (of_nat (length d) * 8) (zero_fill (length t + 1) 56 b1) =
          put_at ((t @ [0x80] @ replicate (55 - length t) 0) @ drop 56 buf) 56 L"
        using True buf len unfolding z L_def by (subst put_bit_len_put) simp_all
      also have "\<dots> = (t @ [0x80] @ replicate (55 - length t) 0) @ L @ drop 64 buf"
        using True by (subst put_at_behind) (simp_all add: L_def)
      finally show ?thesis by simp
    qed
    have "sha_tail d pos (of_nat (length d) * 8) buf h =
        sha_block h (t @ [0x80] @ replicate (55 - length t) 0 @ L @ drop 64 buf) 0"
      using True unfolding sha_tail_def Let_def lt b1_def[symmetric] p by simp
    also have "\<dots> = fips_block h (t @ [0x80] @ replicate (55 - length t) 0 @ L)"
    proof -
      have "length (t @ [0x80] @ replicate (55 - length t) 0 @ L) = 64" using True by (simp add: L_def)
      then have "take 64 ((t @ [0x80] @ replicate (55 - length t) 0 @ L) @ drop 64 buf) =
          t @ [0x80] @ replicate (55 - length t) 0 @ L" by (rule take_length_append)
      then show ?thesis using True buf by (subst sha_block_fips) (simp_all add: L_def)
    qed
    also have "\<dots> = fips_blocks h (t @ fips_pad (length d))"
      using True by (subst fips_blocks_one) (simp_all add: fips_pad_def md k L_def)
    finally show ?thesis unfolding t_def .
  next
    case False
    have k: "(119 - length t) mod 64 = 119 - length t" using False by (intro mod_less) simp
    have z: "zero_fill (length t + 1) 128 b1 = t @ [0x80] @ replicate (127 - length t) 0"
    proof -
      have "zero_fill (length t + 1) 128 b1 = put_at ((t @ [0x80]) @ drop (Suc (length t)) buf) (length t + 1)
          (replicate (127 - length t) 0)"
        using lt buf unfolding b1 by (subst zero_fill_put) simp_all
      also have "\<dots> = (t @ [0x80]) @ replicate (127 - length t) 0 @ drop 128 buf"
        using lt by (subst put_at_behind) simp_all
      finally show ?thesis using buf by simp
    qed
    define b2 where "b2 = t @ [0x80 :: u8] @ replicate (127 - length t) 0"
    have l2: "length b2 = 128" using lt by (simp add: b2_def)
    have p: "put_bit_len 120 (of_nat (length d) * 8) (zero_fill 0 120 b2) = replicate 120 0 @ L"
    proof -
      have "zero_fill 0 120 b2 = put_at ([] @ b2) 0 (replicate 120 0)"
        using l2 by (subst zero_fill_put) simp_all
      also have "\<dots> = replicate 120 0 @ drop 120 b2" by (subst put_at_behind) simp_all
      finally have "put_bit_len 120 (of_nat (length d) * 8) (zero_fill 0 120 b2) =
          put_at (replicate 120 0 @ drop 120 b2) 120 L"
        using l2 len unfolding L_def by (subst put_bit_len_put) simp_all
      also have "\<dots> = replicate 120 0 @ L" using l2 by (subst put_at_behind) (simp_all add: L_def)
      finally show ?thesis .
    qed
    have "sha_tail d pos (of_nat (length d) * 8) buf h = sha_block (sha_block h b2 0) (replicate 120 0 @ L) 64"
      using False unfolding sha_tail_def Let_def lt b1_def[symmetric] z b2_def[symmetric] p by simp
    also have "\<dots> = fips_block (fips_block h (take 64 b2)) (replicate 56 0 @ L)"
      using l2 by (simp add: sha_block_fips L_def)
    also have "\<dots> = fips_blocks h (t @ fips_pad (length d))"
    proof -
      define x where "x = t @ [0x80 :: u8] @ replicate (63 - length t) 0"
      have lx: "length x = 64" using lt by (simp add: x_def)
      have "119 - length t = (63 - length t) + 56" "127 - length t = (63 - length t) + 64" using lt by simp_all
      then have r: "replicate (119 - length t) 0 = replicate (63 - length t) 0 @ replicate 56 (0 :: u8)"
        and b: "b2 = x @ replicate 64 0"
        by (simp_all only: b2_def x_def replicate_add append_assoc)
      have "t @ fips_pad (length d) = x @ replicate 56 0 @ L"
        unfolding fips_pad_def md k r by (simp only: x_def L_def append_assoc)
      then show ?thesis using lx b by (simp add: fips_blocks_two L_def)
    qed
    finally show ?thesis unfolding t_def .
  qed
qed

text \<open>
  C29. The digest is the one of FIPS 180-4 for every input of less than 2\^61 bytes: whole blocks
  straight from the input, the tail, the padding and the length through the stack buffer, whatever
  the buffer held, in one block or in two.
\<close>

theorem sha256_fips:
  assumes "length buf = 128" and "length d < 2 ^ 61"
  shows "sha256 buf d = fips_sha256 d"
proof -
  obtain h pos where l: "sha_loop d sha_init 0 = (h, pos)" by (cases "sha_loop d sha_init 0")
  from sha_loop_blocks[OF l, of "fips_pad (length d)"] have
    "fips_blocks sha_init (d @ fips_pad (length d)) = fips_blocks h (drop pos d @ fips_pad (length d))"
    "pos \<le> length d" "length d - pos < 64" "pos mod 64 = 0" by simp_all
  then show ?thesis using l assms by (simp add: sha256_def fips_sha256_def sha_tail_fips)
qed

lemma sha256_fips_witness:
  "sha256 (replicate 128 0xAA) [0x61, 0x62, 0x63] =
     sha_out (fips_block sha_init ([0x61, 0x62, 0x63, 0x80] @ replicate 52 0 @ be64 24))"
  using sha256_fips[of "replicate 128 0xAA" "[0x61, 0x62, 0x63]"]
  by (simp add: fips_sha256_def fips_pad_def fips_blocks_one)

end
