(* ===== verification/Table_Files.thy ===== *)
theory Table_Files
  imports Status
begin

text \<open>
  The table files of the codec: the entropy tables (\<open>codecs/mlvc/src/pmf.cpp\<close>) and the quantiser rows
  (\<open>codecs/mlvc/src/qptab.cpp\<close>), with the two formats they accept stated as serialisers. A pointer of
  the code with the number of bytes left is the list of these bytes; a null pointer is \<open>None\<close>.
  Floating-point fields are kept as the bit patterns that \<open>memcpy\<close> moves, signed 32-bit fields as words.
\<close>

section \<open>Arrays of little-endian words\<close>

definition rd_le16 :: "bytes \<Rightarrow> nat \<Rightarrow> u16" where
  "rd_le16 d p = ucast (d ! p) OR push_bit 8 (ucast (d ! (p + 1)))"

definition le16 :: "u16 \<Rightarrow> bytes" where
  "le16 v = [ucast v, ucast (drop_bit 8 v)]"

definition le64 :: "u64 \<Rightarrow> bytes" where
  "le64 v = le32 (ucast v) @ le32 (ucast (drop_bit 32 v))"

definition rd_f64 :: "bytes \<Rightarrow> nat \<Rightarrow> u64" where
  "rd_f64 d p = ucast (rd_u32 d p) OR push_bit 32 (ucast (rd_u32 d (p + 4)))"

definition u32_array :: "bytes \<Rightarrow> nat \<Rightarrow> nat \<Rightarrow> u32 list" where
  "u32_array d p n = map (\<lambda>i. rd_u32 d (p + 4 * i)) [0..<n]"

definition u16_array :: "bytes \<Rightarrow> nat \<Rightarrow> nat \<Rightarrow> u16 list" where
  "u16_array d p n = map (\<lambda>i. rd_le16 d (p + 2 * i)) [0..<n]"

section \<open>Entropy tables\<close>

record pmf =
  pmf_lengths :: "u32 list"
  pmf_offsets :: "u32 list"
  pmf_table :: "u32 list"
  pmf_scale_min :: u64
  pmf_scale_max :: u64
  pmf_scale_levels :: u32
  pmf_index_space :: u32
  pmf_qp_num :: u32
  pmf_channels :: u32
  pmf_gaussian :: bool

definition kMaxLen :: nat where "kMaxLen = 2 ^ 20"
definition kMaxTab :: nat where "kMaxTab = 16 * 2 ^ 20"

text \<open>The tagged fields behind the arrays; \<open>cur\<close> is the position of the tag.\<close>

definition load_tail :: "bytes \<Rightarrow> pmf \<Rightarrow> nat \<Rightarrow> pmf result" where
  "load_tail d p cur =
     (let tag = rd_u32 d cur; cur = cur + 4
      in if tag = 1 then
           if length d - cur < 24 then reject Format ''truncated gaussian tail''
           else Inr (p\<lparr> pmf_scale_min := rd_f64 d cur, pmf_scale_max := rd_f64 d (cur + 8),
               pmf_scale_levels := rd_u32 d (cur + 16), pmf_index_space := rd_u32 d (cur + 20),
               pmf_gaussian := True \<rparr>)
         else if tag = 2 then
           if length d - cur < 8 then reject Format ''truncated bitest tail''
           else Inr (p\<lparr> pmf_qp_num := rd_u32 d cur, pmf_channels := rd_u32 d (cur + 4) \<rparr>)
         else reject Format ''unknown tag'')"

definition load_arrays :: "bytes \<Rightarrow> nat \<Rightarrow> nat \<Rightarrow> nat \<Rightarrow> pmf" where
  "load_arrays d nL nO nT =
     \<lparr> pmf_lengths = u32_array d 16 nL, pmf_offsets = u32_array d (16 + nL * 4) nO,
       pmf_table = u32_array d (16 + (nL + nO) * 4) nT, pmf_scale_min = 0, pmf_scale_max = 0,
       pmf_scale_levels = 0, pmf_index_space = 0, pmf_qp_num = 0, pmf_channels = 0, pmf_gaussian = False \<rparr>"

definition load_pmf :: "bytes option \<Rightarrow> pmf result" where
  "load_pmf data =
     (case data of None \<Rightarrow> reject Format ''bad magic'' | Some d \<Rightarrow>
      if length d < 20 \<or> take 4 d \<noteq> [0x50, 0x4D, 0x46, 0x31] then reject Format ''bad magic''
      else let nL = unat (rd_u32 d 4); nO = unat (rd_u32 d 8); nT = unat (rd_u32 d 12) in
        if nL = 0 \<or> nL > kMaxLen \<or> nO = 0 \<or> nO > kMaxLen \<or> nT = 0 \<or> nT > kMaxTab
        then reject Format ''bad counts''
        else if (nL + nO + nT) * 4 + 4 > length d - 16 then reject Format ''truncated arrays''
        else load_tail d (load_arrays d nL nO nT) (16 + (nL + nO + nT) * 4))"

section \<open>Quantiser rows\<close>

record qp_table =
  qt_name :: bytes
  qt_rows :: u32
  qt_cols :: u32
  qt_data :: "u16 list"

definition kQptabMaxTables :: nat where "kQptabMaxTables = 8"
definition kQptabNameMax :: nat where "kQptabNameMax = 32"
definition kMaxElems :: nat where "kMaxElems = 2 ^ 20"

definition find_table :: "qp_table list \<Rightarrow> bytes \<Rightarrow> qp_table option" where
  "find_table ts name = List.find (\<lambda>t. qt_name t = name) ts"

text \<open>The pointer to a row is the rest of the array from its first element on.\<close>

definition qptab_row :: "qp_table \<Rightarrow> u32 \<Rightarrow> u16 list option" where
  "qptab_row t q =
     (if qt_data t = [] \<or> qt_cols t = 0 then None
      else let q = (if q \<ge> qt_rows t then qt_rows t - 1 else q)
           in Some (drop (unat q * unat (qt_cols t)) (qt_data t)))"

text \<open>\<open>k\<close> more tables from the remaining bytes \<open>r\<close>.\<close>

fun load_tables :: "nat \<Rightarrow> bytes \<Rightarrow> qp_table list \<Rightarrow> qp_table list result" where
  "load_tables 0 r out = (if r \<noteq> [] then reject Format ''trailing bytes'' else Inr out)"
| "load_tables (Suc k) r out =
     (if length r < 4 then reject Format ''truncated name len''
      else let n = unat (rd_u32 r 0); r = drop 4 r in
        if n = 0 \<or> n > kQptabNameMax \<or> length r < n + 8 then reject Format ''bad name''
        else let name = take n r; r = drop n r; rows = rd_u32 r 0; cols = rd_u32 r 4; r = drop 8 r in
          if rows = 0 \<or> cols = 0 \<or> unat rows * unat cols > kMaxElems then reject Format ''bad dims''
          else let m = unat rows * unat cols * 2 in
            if length r < m then reject Format ''truncated rows''
            else load_tables k (drop m r)
              (out @ [\<lparr> qt_name = name, qt_rows = rows, qt_cols = cols, qt_data = u16_array r 0 (unat rows * unat cols) \<rparr>]))"

definition load_qptab :: "bytes option \<Rightarrow> qp_table list result" where
  "load_qptab data =
     (case data of None \<Rightarrow> reject Format ''bad magic'' | Some d \<Rightarrow>
      if length d < 8 \<or> take 4 d \<noteq> [0x51, 0x50, 0x54, 0x31] then reject Format ''bad magic''
      else let count = unat (rd_u32 d 4) in
        if count = 0 \<or> count > kQptabMaxTables then reject Format ''bad table count''
        else load_tables count (drop 8 d) [])"

section \<open>The formats\<close>

definition pmf_bytes :: "pmf \<Rightarrow> bytes" where
  "pmf_bytes p = [0x50, 0x4D, 0x46, 0x31] @ le32 (of_nat (length (pmf_lengths p))) @
     le32 (of_nat (length (pmf_offsets p))) @ le32 (of_nat (length (pmf_table p))) @
     concat (map le32 (pmf_lengths p)) @ concat (map le32 (pmf_offsets p)) @ concat (map le32 (pmf_table p)) @
     (if pmf_gaussian p
      then le32 1 @ le64 (pmf_scale_min p) @ le64 (pmf_scale_max p) @ le32 (pmf_scale_levels p) @ le32 (pmf_index_space p)
      else le32 2 @ le32 (pmf_qp_num p) @ le32 (pmf_channels p))"

definition pmf_wf :: "pmf \<Rightarrow> bool" where
  "pmf_wf p \<longleftrightarrow>
     pmf_lengths p \<noteq> [] \<and> length (pmf_lengths p) \<le> kMaxLen \<and>
     pmf_offsets p \<noteq> [] \<and> length (pmf_offsets p) \<le> kMaxLen \<and>
     pmf_table p \<noteq> [] \<and> length (pmf_table p) \<le> kMaxTab \<and>
     (if pmf_gaussian p then pmf_qp_num p = 0 \<and> pmf_channels p = 0
      else pmf_scale_min p = 0 \<and> pmf_scale_max p = 0 \<and> pmf_scale_levels p = 0 \<and> pmf_index_space p = 0)"

definition table_bytes :: "qp_table \<Rightarrow> bytes" where
  "table_bytes t = le32 (of_nat (length (qt_name t))) @ qt_name t @ le32 (qt_rows t) @ le32 (qt_cols t) @
     concat (map le16 (qt_data t))"

definition table_wf :: "qp_table \<Rightarrow> bool" where
  "table_wf t \<longleftrightarrow> qt_name t \<noteq> [] \<and> length (qt_name t) \<le> kQptabNameMax \<and> qt_rows t \<noteq> 0 \<and> qt_cols t \<noteq> 0 \<and>
     length (qt_data t) = unat (qt_rows t) * unat (qt_cols t) \<and> length (qt_data t) \<le> kMaxElems"

definition qptab_bytes :: "qp_table list \<Rightarrow> bytes" where
  "qptab_bytes ts = [0x51, 0x50, 0x54, 0x31] @ le32 (of_nat (length ts)) @ concat (map table_bytes ts)"

section \<open>Words and their bytes\<close>

lemma no_high_bit: "LENGTH('a) \<le> k \<Longrightarrow> \<not> bit (b :: 'a::len word) (k + n)"
  using bit_imp_le_length[of b "k + n"] by auto

lemma le32_rd_u32: "p + 4 \<le> length d \<Longrightarrow> le32 (rd_u32 d p) = take 4 (drop p d)"
proof -
  assume p: "p + 4 \<le> length d"
  have "take 4 (drop p d) = [d ! p, d ! (p + 1), d ! (p + 2), d ! (p + 3)]"
    using p by (intro nth_equalityI) (auto simp: less_Suc_eq numeral_eq_Suc)
  moreover have "ucast (rd_u32 d p) = d ! p" "ucast (drop_bit 8 (rd_u32 d p)) = d ! (p + 1)"
    "ucast (drop_bit 16 (rd_u32 d p)) = d ! (p + 2)" "ucast (drop_bit 24 (rd_u32 d p)) = d ! (p + 3)"
    by (auto simp: rd_u32_def bit_simps no_high_bit intro!: bit_word_eqI)
  ultimately show ?thesis by (simp add: le32_def)
qed

lemma le16_rd_le16: "p + 2 \<le> length d \<Longrightarrow> le16 (rd_le16 d p) = take 2 (drop p d)"
proof -
  assume p: "p + 2 \<le> length d"
  have "take 2 (drop p d) = [d ! p, d ! (p + 1)]"
    using p by (intro nth_equalityI) (auto simp: less_Suc_eq numeral_eq_Suc)
  moreover have "ucast (rd_le16 d p) = d ! p" "ucast (drop_bit 8 (rd_le16 d p)) = d ! (p + 1)"
    by (auto simp: rd_le16_def bit_simps no_high_bit intro!: bit_word_eqI)
  ultimately show ?thesis by (simp add: le16_def)
qed

lemma length_le16 [simp]: "length (le16 v) = 2"
  by (simp add: le16_def)

lemma length_le64 [simp]: "length (le64 v) = 8"
  by (simp add: le64_def)

lemma rd_le16_le16: "length pre = p \<Longrightarrow> rd_le16 (pre @ le16 v @ post) p = v"
proof -
  assume "length pre = p"
  moreover have "ucast (ucast v :: u8) OR push_bit 8 (ucast (ucast (drop_bit 8 v) :: u8)) = (v :: u16)" (is "?l = _")
  proof (rule bit_word_eqI)
    fix n assume "n < LENGTH(16)"
    then have "n < 8 \<or> 8 \<le> n \<and> n < 16" by auto
    then show "bit ?l n = bit v n"
      by (elim disjE conjE) (auto simp: bit_simps)
  qed
  ultimately show ?thesis by (simp add: rd_le16_def le16_def nth_append)
qed

lemma rd_f64_le64: "length pre = p \<Longrightarrow> rd_f64 (pre @ le64 v @ post) p = v"
proof -
  assume p: "length pre = p"
  have "rd_u32 (pre @ le64 v @ post) p = ucast v"
    using rd_u32_le32[OF p, of "ucast v" "le32 (ucast (drop_bit 32 v)) @ post"] by (simp add: le64_def)
  moreover have "rd_u32 (pre @ le64 v @ post) (p + 4) = ucast (drop_bit 32 v)"
    using rd_u32_le32[of "pre @ le32 (ucast v)" "p + 4" "ucast (drop_bit 32 v)" post] p by (simp add: le64_def)
  moreover have "ucast (ucast v :: u32) OR push_bit 32 (ucast (ucast (drop_bit 32 v) :: u32)) = (v :: u64)" (is "?l = _")
  proof (rule bit_word_eqI)
    fix n assume "n < LENGTH(64)"
    then have "n < 32 \<or> 32 \<le> n \<and> n < 64" by auto
    then show "bit ?l n = bit v n"
      by (elim disjE conjE) (auto simp: bit_simps)
  qed
  ultimately show ?thesis by (simp add: rd_f64_def)
qed

lemma le64_rd_f64: "p + 8 \<le> length d \<Longrightarrow> le64 (rd_f64 d p) = take 8 (drop p d)"
proof -
  assume p: "p + 8 \<le> length d"
  have "ucast (rd_f64 d p) = rd_u32 d p" "ucast (drop_bit 32 (rd_f64 d p)) = rd_u32 d (p + 4)"
    by (auto simp: rd_f64_def bit_simps no_high_bit intro!: bit_word_eqI)
  then have "le64 (rd_f64 d p) = take 4 (drop p d) @ take 4 (drop (p + 4) d)"
    using p by (simp add: le64_def le32_rd_u32)
  also have "\<dots> = take 8 (drop p d)" using take_add[of 4 4 "drop p d"] by (simp add: add.commute)
  finally show ?thesis .
qed

lemma u32_array_Suc: "u32_array d p (Suc n) = rd_u32 d p # u32_array d (p + 4) n"
  unfolding u32_array_def upt_conv_Cons[OF zero_less_Suc] list.map map_Suc_upt[symmetric] map_map
  by (auto simp: add.assoc)

lemma u16_array_Suc: "u16_array d p (Suc n) = rd_le16 d p # u16_array d (p + 2) n"
  unfolding u16_array_def upt_conv_Cons[OF zero_less_Suc] list.map map_Suc_upt[symmetric] map_map
  by (auto simp: add.assoc)

lemma length_u32_array [simp]: "length (u32_array d p n) = n"
  by (simp add: u32_array_def)

lemma length_u16_array [simp]: "length (u16_array d p n) = n"
  by (simp add: u16_array_def)

lemma length_concat_le32 [simp]: "length (concat (map le32 ws)) = 4 * length ws"
  by (induction ws) auto

lemma length_concat_le16 [simp]: "length (concat (map le16 ws)) = 2 * length ws"
  by (induction ws) auto

lemma u32_array_bytes:
  "p + 4 * n \<le> length d \<Longrightarrow> concat (map le32 (u32_array d p n)) = take (4 * n) (drop p d)"
proof (induction n arbitrary: p)
  case (Suc n)
  then show ?case using take_add[of 4 "4 * n" "drop p d"]
    by (simp add: u32_array_Suc le32_rd_u32 add.commute)
qed (simp add: u32_array_def)

lemma u16_array_bytes:
  "p + 2 * n \<le> length d \<Longrightarrow> concat (map le16 (u16_array d p n)) = take (2 * n) (drop p d)"
proof (induction n arbitrary: p)
  case (Suc n)
  then show ?case using take_add[of 2 "2 * n" "drop p d"]
    by (simp add: u16_array_Suc le16_rd_le16 add.commute)
qed (simp add: u16_array_def)

lemma u32_array_concat:
  "length pre = p \<Longrightarrow> length ws = n \<Longrightarrow> u32_array (pre @ concat (map le32 ws) @ post) p n = ws"
proof (induction ws arbitrary: pre p n)
  case (Cons w ws)
  have "u32_array ((pre @ le32 w) @ concat (map le32 ws) @ post) (p + 4) (length ws) = ws"
    using Cons.prems by (intro Cons.IH) auto
  then show ?case using Cons.prems rd_u32_le32[of pre p w "concat (map le32 ws) @ post"]
    by (auto simp: u32_array_Suc)
qed (simp add: u32_array_def)

lemma u16_array_concat:
  "length pre = p \<Longrightarrow> length ws = n \<Longrightarrow> u16_array (pre @ concat (map le16 ws) @ post) p n = ws"
proof (induction ws arbitrary: pre p n)
  case (Cons w ws)
  have "u16_array ((pre @ le16 w) @ concat (map le16 ws) @ post) (p + 2) (length ws) = ws"
    using Cons.prems by (intro Cons.IH) auto
  then show ?case using Cons.prems rd_le16_le16[of pre p w "concat (map le16 ws) @ post"]
    by (auto simp: u16_array_Suc)
qed (simp add: u16_array_def)

lemma le32_head: "4 \<le> length r \<Longrightarrow> r = le32 (rd_u32 r 0) @ drop 4 r"
  by (simp add: le32_rd_u32)

lemma rd_u32_head [simp]: "rd_u32 (le32 v @ r) 0 = v"
  using rd_u32_le32[of "[]" 0 v r] by simp

lemma rd_u32_second [simp]: "rd_u32 (le32 v @ le32 w @ r) 4 = w"
  using rd_u32_le32[of "le32 v" 4 w r] by simp


section \<open>Loading is the inverse of writing\<close>

lemma u16_array_head: "length ws = n \<Longrightarrow> u16_array (concat (map le16 ws) @ post) 0 n = ws"
  using u16_array_concat[of "[]" 0 ws n post] by simp

lemma load_tables_written:
  "list_all table_wf ts \<Longrightarrow> load_tables (length ts) (concat (map table_bytes ts)) out = Inr (out @ ts)"
proof (induction ts arbitrary: out)
  case (Cons t ts)
  then have wf: "qt_name t \<noteq> []" "length (qt_name t) \<le> kQptabNameMax" "qt_rows t \<noteq> 0" "qt_cols t \<noteq> 0"
    "length (qt_data t) = unat (qt_rows t) * unat (qt_cols t)" "unat (qt_rows t) * unat (qt_cols t) \<le> kMaxElems"
    by (auto simp: table_wf_def)
  define R where "R = concat (map table_bytes ts)"
  have n: "unat (of_nat (length (qt_name t)) :: u32) = length (qt_name t)"
    using wf(2) by (intro unat_of_nat_small) (simp add: kQptabNameMax_def)
  have len: "length (concat (map le16 (qt_data t))) = unat (qt_rows t) * unat (qt_cols t) * 2"
    using wf(5) by simp
  have t: "\<lparr> qt_name = qt_name t, qt_rows = qt_rows t, qt_cols = qt_cols t, qt_data = qt_data t \<rparr> = t" by simp
  have "load_tables (length (t # ts)) (concat (map table_bytes (t # ts))) out = load_tables (length ts) R (out @ [t])"
    using wf(1-4,6) u16_array_head[OF wf(5), of R] len n
    by (simp add: table_bytes_def R_def[symmetric] Let_def t)
  then show ?case using Cons by (simp add: R_def)
qed simp

lemma load_tables_read:
  "load_tables k r out = Inr res \<Longrightarrow>
     \<exists>ts. res = out @ ts \<and> length ts = k \<and> list_all table_wf ts \<and> r = concat (map table_bytes ts)"
proof (induction k arbitrary: r out)
  case (Suc k)
  define n where "n = unat (rd_u32 r 0)"
  define r1 where "r1 = drop 4 r"
  define r2 where "r2 = drop n r1"
  define rows where "rows = rd_u32 r2 0"
  define cols where "cols = rd_u32 r2 4"
  define r3 where "r3 = drop 8 r2"
  define m where "m = unat rows * unat cols"
  define t where "t = \<lparr> qt_name = take n r1, qt_rows = rows, qt_cols = cols, qt_data = u16_array r3 0 m \<rparr>"
  note defs = n_def r1_def r2_def rows_def cols_def r3_def m_def t_def
  have checks: "4 \<le> length r" "n \<noteq> 0" "n \<le> kQptabNameMax" "n + 8 \<le> length r1" "rows \<noteq> 0" "cols \<noteq> 0"
    "m \<le> kMaxElems" "m * 2 \<le> length r3" and rec: "load_tables k (drop (m * 2) r3) (out @ [t]) = Inr res"
    using Suc.prems by (auto simp: Let_def defs split: if_splits)
  from Suc.IH[OF rec] obtain ts where ts: "res = (out @ [t]) @ ts" "length ts = k" "list_all table_wf ts"
    "drop (m * 2) r3 = concat (map table_bytes ts)" by blast
  have "table_wf t" using checks by (auto simp: table_wf_def t_def m_def)
  moreover have "r = table_bytes t @ concat (map table_bytes ts)"
  proof -
    have a: "r = le32 (of_nat n) @ r1" using le32_head[OF checks(1)] by (simp add: n_def r1_def)
    have b: "r1 = take n r1 @ r2" by (simp add: r2_def)
    have l2: "8 \<le> length r2" using checks(4) by (simp add: r2_def)
    have "r2 = le32 rows @ drop 4 r2" using l2 le32_head[of r2] by (simp add: rows_def)
    also have "drop 4 r2 = le32 cols @ r3"
      using l2 le32_rd_u32[of 4 r2] append_take_drop_id[of 4 "drop 4 r2"] by (simp add: cols_def r3_def)
    finally have c: "r2 = le32 rows @ le32 cols @ r3" .
    have d: "r3 = concat (map le16 (u16_array r3 0 m)) @ drop (m * 2) r3"
      using checks(8) by (simp add: u16_array_bytes mult.commute)
    have "length (take n r1) = n" using checks(4) by simp
    then have "table_bytes t = le32 (of_nat n) @ take n r1 @ le32 rows @ le32 cols @ concat (map le16 (u16_array r3 0 m))"
      by (simp add: table_bytes_def t_def)
    then show ?thesis using a b c d ts(4) by (metis append_assoc)
  qed
  ultimately show ?case using ts by (intro exI[of _ "t # ts"]) simp
qed (auto split: if_splits)

lemma load_tables_Format: "load_tables k r out = Inl e \<Longrightarrow> fst e = Format"
  by (induction k arbitrary: r out) (auto simp: Let_def split: if_splits)

definition qptab_wf :: "qp_table list \<Rightarrow> bool" where
  "qptab_wf ts \<longleftrightarrow> ts \<noteq> [] \<and> length ts \<le> kQptabMaxTables \<and> list_all table_wf ts"

lemma load_qptab_written: "qptab_wf ts \<Longrightarrow> load_qptab (Some (qptab_bytes ts)) = Inr ts"
proof -
  assume wf: "qptab_wf ts"
  then have n: "unat (of_nat (length ts) :: u32) = length ts"
    by (intro unat_of_nat_small) (simp add: qptab_wf_def kQptabMaxTables_def)
  have "rd_u32 ([0x51, 0x50, 0x54, 0x31] @ le32 (of_nat (length ts)) @ concat (map table_bytes ts)) 4 = of_nat (length ts)"
    by (rule rd_u32_le32) simp
  then show ?thesis using wf n load_tables_written[of ts "[]"]
    by (simp add: load_qptab_def qptab_bytes_def qptab_wf_def Let_def)
qed

lemma load_qptab_read: "load_qptab (Some d) = Inr ts \<Longrightarrow> qptab_wf ts \<and> d = qptab_bytes ts"
proof -
  assume l: "load_qptab (Some d) = Inr ts"
  define k where "k = unat (rd_u32 d 4)"
  from l have d: "8 \<le> length d" "take 4 d = [0x51, 0x50, 0x54, 0x31]" "k \<noteq> 0" "k \<le> kQptabMaxTables"
    "load_tables k (drop 8 d) [] = Inr ts"
    by (auto simp: load_qptab_def Let_def k_def split: if_splits)
  from load_tables_read[OF d(5)] have ts: "length ts = k" "list_all table_wf ts" "drop 8 d = concat (map table_bytes ts)"
    by auto
  have "d = take 4 d @ le32 (rd_u32 d 4) @ drop 8 d"
    using d(1) le32_rd_u32[of 4 d] append_take_drop_id[of 4 "drop 4 d"] by simp
  also have "rd_u32 d 4 = of_nat (length ts)" using ts(1) by (simp add: k_def)
  finally have "d = qptab_bytes ts" unfolding d(2) ts(3) by (simp add: qptab_bytes_def)
  moreover have "qptab_wf ts" using ts d by (auto simp: qptab_wf_def)
  ultimately show ?thesis by blast
qed

text \<open>
  C30. The loader accepts exactly the byte strings that the format gives to well-formed tables, and
  gives back these tables; everything else is refused with \<open>Format\<close>. Every row of a loaded table,
  clamped or not, points to at least a whole row inside the table's data.
\<close>

theorem load_qptab_exact:
  "(load_qptab (Some d) = Inr ts \<longleftrightarrow> qptab_wf ts \<and> d = qptab_bytes ts) \<and>
   (\<forall>e. load_qptab (Some d) = Inl e \<longrightarrow> fst e = Format) \<and>
   (load_qptab (Some d) = Inr ts \<longrightarrow> (\<forall>t \<in> set ts. \<forall>q. \<exists>row. qptab_row t q = Some row \<and>
      unat (qt_cols t) \<le> length row \<and> row = drop (unat (min q (qt_rows t - 1)) * unat (qt_cols t)) (qt_data t)))"
proof (intro conjI allI impI ballI)
  show "load_qptab (Some d) = Inr ts \<longleftrightarrow> qptab_wf ts \<and> d = qptab_bytes ts"
    using load_qptab_written load_qptab_read by blast
  show "fst e = Format" if "load_qptab (Some d) = Inl e" for e
    using that load_tables_Format by (auto simp: load_qptab_def Let_def split: if_splits)
  fix t q assume "load_qptab (Some d) = Inr ts" "t \<in> set ts"
  then have wf: "table_wf t" using load_qptab_read by (auto simp: qptab_wf_def list_all_iff)
  let ?r = "min q (qt_rows t - 1)"
  have pos: "0 < unat (qt_rows t)" "0 < unat (qt_cols t)" using wf by (auto simp: table_wf_def unat_gt_0)
  have le: "qt_rows t - 1 < qt_rows t" using wf pos by (simp add: table_wf_def word_less_nat_alt unat_minus_one)
  have "unat ?r < unat (qt_rows t)" using le by (simp add: word_less_nat_alt[symmetric] min_less_iff_disj)
  then have "(unat ?r + 1) * unat (qt_cols t) \<le> unat (qt_rows t) * unat (qt_cols t)" by (intro mult_le_mono1) simp
  then have "unat (qt_cols t) \<le> length (drop (unat ?r * unat (qt_cols t)) (qt_data t))"
    using wf by (simp add: table_wf_def)
  moreover have "(if q \<ge> qt_rows t then qt_rows t - 1 else q) = ?r"
    using wf pos by (auto simp: min_def table_wf_def word_le_nat_alt unat_minus_one)
  moreover have "qt_data t \<noteq> []" "qt_cols t \<noteq> 0" using wf pos by (auto simp: table_wf_def)
  ultimately show "\<exists>row. qptab_row t q = Some row \<and> unat (qt_cols t) \<le> length row \<and>
      row = drop (unat ?r * unat (qt_cols t)) (qt_data t)"
    by (simp add: qptab_row_def Let_def)
qed


lemma load_qptab_exact_witness:
  "load_qptab (Some ([0x51, 0x50, 0x54, 0x31, 1, 0, 0, 0, 1, 0, 0, 0, 0x66, 2, 0, 0, 0, 1, 0, 0, 0, 5, 0, 6, 1])) =
     Inr [\<lparr> qt_name = [0x66], qt_rows = 2, qt_cols = 1, qt_data = [5, 0x106] \<rparr>]"
proof -
  let ?ts = "[\<lparr> qt_name = [0x66], qt_rows = 2, qt_cols = 1, qt_data = [5, 0x106] \<rparr>]"
  have "qptab_wf ?ts" by (simp add: qptab_wf_def table_wf_def kQptabMaxTables_def kQptabNameMax_def kMaxElems_def)
  moreover have "qptab_bytes ?ts = [0x51, 0x50, 0x54, 0x31, 1, 0, 0, 0, 1, 0, 0, 0, 0x66, 2, 0, 0, 0, 1, 0, 0, 0, 5, 0, 6, 1]"
    by code_simp
  ultimately show ?thesis using load_qptab_exact[of "qptab_bytes ?ts" ?ts] by simp
qed

section \<open>The entropy tables\<close>

lemma drop_le32: "p + 4 \<le> length d \<Longrightarrow> drop p d = le32 (rd_u32 d p) @ drop (p + 4) d"
  by (simp add: le32_rd_u32) (metis append_take_drop_id drop_drop add.commute)

lemma drop_le64: "p + 8 \<le> length d \<Longrightarrow> drop p d = le64 (rd_f64 d p) @ drop (p + 8) d"
  by (simp add: le64_rd_f64) (metis append_take_drop_id drop_drop add.commute)

lemma drop_u32_array:
  "p + n * 4 \<le> length d \<Longrightarrow> drop p d = concat (map le32 (u32_array d p n)) @ drop (p + n * 4) d"
  by (simp add: u32_array_bytes mult.commute) (metis append_take_drop_id drop_drop add.commute)

definition pmf_head :: "pmf \<Rightarrow> bytes" where
  "pmf_head p = [0x50, 0x4D, 0x46, 0x31] @ le32 (of_nat (length (pmf_lengths p))) @
     le32 (of_nat (length (pmf_offsets p))) @ le32 (of_nat (length (pmf_table p)))"

definition pmf_arrays :: "pmf \<Rightarrow> bytes" where
  "pmf_arrays p = concat (map le32 (pmf_lengths p)) @ concat (map le32 (pmf_offsets p)) @ concat (map le32 (pmf_table p))"

definition pmf_tail :: "pmf \<Rightarrow> bytes" where
  "pmf_tail p = (if pmf_gaussian p
      then le32 1 @ le64 (pmf_scale_min p) @ le64 (pmf_scale_max p) @ le32 (pmf_scale_levels p) @ le32 (pmf_index_space p)
      else le32 2 @ le32 (pmf_qp_num p) @ le32 (pmf_channels p))"

lemma pmf_bytes_parts: "pmf_bytes p = pmf_head p @ pmf_arrays p @ pmf_tail p"
  by (simp add: pmf_bytes_def pmf_head_def pmf_arrays_def pmf_tail_def)

lemma pmf_fields:
  assumes "d = pmf_head p @ pmf_arrays p @ pmf_tail p @ rest"
  defines "nL \<equiv> length (pmf_lengths p)" and "nO \<equiv> length (pmf_offsets p)" and "nT \<equiv> length (pmf_table p)"
  defines "cur \<equiv> 16 + (nL + nO + nT) * 4"
  shows "rd_u32 d 4 = of_nat nL" "rd_u32 d 8 = of_nat nO" "rd_u32 d 12 = of_nat nT"
    "u32_array d 16 nL = pmf_lengths p" "u32_array d (16 + nL * 4) nO = pmf_offsets p"
    "u32_array d (16 + (nL + nO) * 4) nT = pmf_table p" "rd_u32 d cur = (if pmf_gaussian p then 1 else 2)"
    "take 4 d = [0x50, 0x4D, 0x46, 0x31]" "length d = cur + (if pmf_gaussian p then 28 else 12) + length rest"
proof -
  have lh: "length (pmf_head p) = 16" by (simp add: pmf_head_def)
  show "rd_u32 d 4 = of_nat nL" unfolding assms(1) pmf_head_def nL_def by (simp only: append_assoc) (rule rd_u32_le32, simp)
  show "rd_u32 d 8 = of_nat nO"
    using rd_u32_le32[of "[0x50, 0x4D, 0x46, 0x31] @ le32 (of_nat nL)" 8 "of_nat nO"
        "le32 (of_nat nT) @ pmf_arrays p @ pmf_tail p @ rest"]
    unfolding assms(1) pmf_head_def nL_def nO_def nT_def by simp
  show "rd_u32 d 12 = of_nat nT"
    using rd_u32_le32[of "[0x50, 0x4D, 0x46, 0x31] @ le32 (of_nat nL) @ le32 (of_nat nO)" 12 "of_nat nT"
        "pmf_arrays p @ pmf_tail p @ rest"]
    unfolding assms(1) pmf_head_def nL_def nO_def nT_def by simp
  show "u32_array d 16 nL = pmf_lengths p"
    unfolding assms(1) pmf_arrays_def append_assoc by (rule u32_array_concat[OF lh]) (simp add: nL_def)
  show "u32_array d (16 + nL * 4) nO = pmf_offsets p"
    using u32_array_concat[of "pmf_head p @ concat (map le32 (pmf_lengths p))" "16 + nL * 4" "pmf_offsets p" nO
        "concat (map le32 (pmf_table p)) @ pmf_tail p @ rest"] lh
    unfolding assms(1) pmf_arrays_def by (simp add: nL_def nO_def)
  show "u32_array d (16 + (nL + nO) * 4) nT = pmf_table p"
    using u32_array_concat[of "pmf_head p @ concat (map le32 (pmf_lengths p)) @ concat (map le32 (pmf_offsets p))"
        "16 + (nL + nO) * 4" "pmf_table p" nT "pmf_tail p @ rest"] lh
    unfolding assms(1) pmf_arrays_def by (simp add: nL_def nO_def nT_def)
  have "length (pmf_head p @ pmf_arrays p) = cur"
    using lh by (simp add: cur_def pmf_arrays_def nL_def nO_def nT_def)
  then show "rd_u32 d cur = (if pmf_gaussian p then 1 else 2)"
    using rd_u32_le32[of "pmf_head p @ pmf_arrays p" cur] by (simp add: assms(1) pmf_tail_def)
  show "take 4 d = [0x50, 0x4D, 0x46, 0x31]" by (simp add: assms(1) pmf_head_def)
  show "length d = cur + (if pmf_gaussian p then 28 else 12) + length rest"
    using lh by (simp add: assms(1) cur_def pmf_arrays_def pmf_tail_def nL_def nO_def nT_def)
qed


lemma pmf_tail_fields:
  assumes "length pre = cur"
  shows "pmf_gaussian p \<Longrightarrow> rd_f64 (pre @ pmf_tail p @ rest) (cur + 4) = pmf_scale_min p"
    "pmf_gaussian p \<Longrightarrow> rd_f64 (pre @ pmf_tail p @ rest) (cur + 12) = pmf_scale_max p"
    "pmf_gaussian p \<Longrightarrow> rd_u32 (pre @ pmf_tail p @ rest) (cur + 20) = pmf_scale_levels p"
    "pmf_gaussian p \<Longrightarrow> rd_u32 (pre @ pmf_tail p @ rest) (cur + 24) = pmf_index_space p"
    "\<not> pmf_gaussian p \<Longrightarrow> rd_u32 (pre @ pmf_tail p @ rest) (cur + 4) = pmf_qp_num p"
    "\<not> pmf_gaussian p \<Longrightarrow> rd_u32 (pre @ pmf_tail p @ rest) (cur + 8) = pmf_channels p"
  using assms rd_f64_le64[of "pre @ le32 1" "cur + 4"] rd_f64_le64[of "pre @ le32 1 @ le64 (pmf_scale_min p)" "cur + 12"]
    rd_u32_le32[of "pre @ le32 1 @ le64 (pmf_scale_min p) @ le64 (pmf_scale_max p)" "cur + 20"]
    rd_u32_le32[of "pre @ le32 1 @ le64 (pmf_scale_min p) @ le64 (pmf_scale_max p) @ le32 (pmf_scale_levels p)" "cur + 24"]
    rd_u32_le32[of "pre @ le32 2" "cur + 4"] rd_u32_le32[of "pre @ le32 2 @ le32 (pmf_qp_num p)" "cur + 8"]
  by (simp_all add: pmf_tail_def)

lemma load_tail_Format: "load_tail d p cur = Inl (st, why) \<Longrightarrow> st = Format"
  by (auto simp: load_tail_def Let_def split: if_splits)

lemma load_pmf_written:
  assumes wf: "pmf_wf p"
  shows "load_pmf (Some (pmf_bytes p @ rest)) = Inr p"
proof -
  define d where "d = pmf_head p @ pmf_arrays p @ pmf_tail p @ rest"
  define nL where "nL = length (pmf_lengths p)"
  define nO where "nO = length (pmf_offsets p)"
  define nT where "nT = length (pmf_table p)"
  define cur where "cur = 16 + (nL + nO + nT) * 4"
  note ns = nL_def[symmetric] nO_def[symmetric] nT_def[symmetric]
  note f = pmf_fields[OF d_def, unfolded ns, folded cur_def]
  have bounds: "nL \<noteq> 0" "nL \<le> kMaxLen" "nO \<noteq> 0" "nO \<le> kMaxLen" "nT \<noteq> 0" "nT \<le> kMaxTab"
    using wf by (auto simp: pmf_wf_def nL_def nO_def nT_def)
  have n: "unat (of_nat nL :: u32) = nL" "unat (of_nat nO :: u32) = nO" "unat (of_nat nT :: u32) = nT"
    using bounds by (auto intro!: unat_of_nat_small simp: kMaxLen_def kMaxTab_def)
  have "length (pmf_head p @ pmf_arrays p) = cur"
    by (simp add: cur_def pmf_arrays_def pmf_head_def nL_def nO_def nT_def)
  note t = pmf_tail_fields[OF this, of p rest, unfolded append_assoc, folded d_def]
  have len: "20 \<le> length d" "(nL + nO + nT) * 4 + 4 \<le> length d - 16" using f(9) by (auto simp: cur_def)
  have "load_pmf (Some d) = load_tail d (load_arrays d nL nO nT) cur"
    using bounds len f(1-3) f(8) n unfolding load_pmf_def cur_def by (simp add: Let_def)
  also have "\<dots> = Inr p"
  proof -
    have "cur + 4 + 8 = cur + 12" "cur + 4 + 16 = cur + 20" "cur + 4 + 20 = cur + 24" "cur + 4 + 4 = cur + 8" by simp_all
    note e = this
    show ?thesis
    proof (cases "pmf_gaussian p")
      case True
      have l: "\<not> length d - (cur + 4) < 24" using f(9) True by simp
      show ?thesis unfolding load_tail_def Let_def f(7) t(1-4)[OF True] e
        using l f(4-6) True wf by (simp add: load_arrays_def pmf_wf_def)
    next
      case False
      have l: "\<not> length d - (cur + 4) < 8" using f(9) False by simp
      show ?thesis unfolding load_tail_def Let_def f(7) t(5-6)[OF False] e
        using l f(4-6) False wf by (simp add: load_arrays_def pmf_wf_def)
    qed
  qed
  finally have "load_pmf (Some d) = Inr p" .
  then show ?thesis by (simp add: d_def pmf_bytes_parts)
qed

lemma load_pmf_read:
  assumes l: "load_pmf (Some d) = Inr p"
  shows "pmf_wf p \<and> (\<exists>rest. d = pmf_bytes p @ rest)"
proof -
  define nL where "nL = unat (rd_u32 d 4)"
  define nO where "nO = unat (rd_u32 d 8)"
  define nT where "nT = unat (rd_u32 d 12)"
  define cur where "cur = 16 + (nL + nO + nT) * 4"
  from l have d: "20 \<le> length d" "take 4 d = [0x50, 0x4D, 0x46, 0x31]"
    and bounds: "nL \<noteq> 0" "nL \<le> kMaxLen" "nO \<noteq> 0" "nO \<le> kMaxLen" "nT \<noteq> 0" "nT \<le> kMaxTab"
    and len: "(nL + nO + nT) * 4 + 4 \<le> length d - 16"
    and tl: "load_tail d (load_arrays d nL nO nT) cur = Inr p"
    unfolding load_pmf_def Let_def option.case nL_def[symmetric] nO_def[symmetric] nT_def[symmetric] cur_def[symmetric]
    by (auto split: if_splits)
  have lc: "cur + 4 \<le> length d" using len d(1) by (simp add: cur_def)
  have arr: "drop 16 d = concat (map le32 (u32_array d 16 nL)) @ concat (map le32 (u32_array d (16 + nL * 4) nO)) @
      concat (map le32 (u32_array d (16 + (nL + nO) * 4) nT)) @ drop cur d"
  proof -
    have "drop 16 d = concat (map le32 (u32_array d 16 nL)) @ drop (16 + nL * 4) d"
      using lc by (intro drop_u32_array) (simp add: cur_def)
    also have "drop (16 + nL * 4) d = concat (map le32 (u32_array d (16 + nL * 4) nO)) @ drop (16 + nL * 4 + nO * 4) d"
      using lc by (intro drop_u32_array) (simp add: cur_def)
    also have "16 + nL * 4 + nO * 4 = 16 + (nL + nO) * 4" by simp
    also have "drop (16 + (nL + nO) * 4) d =
        concat (map le32 (u32_array d (16 + (nL + nO) * 4) nT)) @ drop (16 + (nL + nO) * 4 + nT * 4) d"
      using lc by (intro drop_u32_array) (simp add: cur_def)
    also have "16 + (nL + nO) * 4 + nT * 4 = cur" by (simp add: cur_def)
    finally show ?thesis .
  qed
  have head: "d = [0x50, 0x4D, 0x46, 0x31] @ le32 (of_nat nL) @ le32 (of_nat nO) @ le32 (of_nat nT) @ drop 16 d"
    using drop_le32[of 4 d] drop_le32[of 8 d] drop_le32[of 12 d] d append_take_drop_id[of 4 d]
    by (simp add: nL_def nO_def nT_def)
  define q where "q = load_arrays d nL nO nT"
  have q: "length (pmf_lengths q) = nL" "length (pmf_offsets q) = nO" "length (pmf_table q) = nT"
    by (simp_all add: q_def load_arrays_def)
  have cases: "rd_u32 d cur = 1 \<and> 28 \<le> length d - cur \<and>
      p = q\<lparr> pmf_scale_min := rd_f64 d (cur + 4), pmf_scale_max := rd_f64 d (cur + 12),
        pmf_scale_levels := rd_u32 d (cur + 20), pmf_index_space := rd_u32 d (cur + 24), pmf_gaussian := True \<rparr> \<or>
    rd_u32 d cur = 2 \<and> 12 \<le> length d - cur \<and>
      p = q\<lparr> pmf_qp_num := rd_u32 d (cur + 4), pmf_channels := rd_u32 d (cur + 8) \<rparr>"
    using tl by (auto simp: load_tail_def Let_def q_def add.commute split: if_splits)
  have da: "d = pmf_head q @ pmf_arrays q @ drop cur d"
    using head unfolding arr by (simp add: pmf_head_def pmf_arrays_def q_def load_arrays_def)
  from cases show ?thesis
  proof (elim disjE conjE)
    assume c: "rd_u32 d cur = 1" "28 \<le> length d - cur" and p: "p = q\<lparr> pmf_scale_min := rd_f64 d (cur + 4),
      pmf_scale_max := rd_f64 d (cur + 12), pmf_scale_levels := rd_u32 d (cur + 20),
      pmf_index_space := rd_u32 d (cur + 24), pmf_gaussian := True \<rparr>"
    have "drop cur d = pmf_tail p @ drop (cur + 28) d"
      using c drop_le32[of cur d] drop_le64[of "cur + 4" d] drop_le64[of "cur + 12" d] drop_le32[of "cur + 20" d]
        drop_le32[of "cur + 24" d] by (simp add: pmf_tail_def p add.commute)
    moreover have "pmf_head p = pmf_head q" "pmf_arrays p = pmf_arrays q" by (simp_all add: p pmf_head_def pmf_arrays_def)
    moreover have "pmf_wf p" using bounds q by (auto simp: pmf_wf_def p q_def load_arrays_def u32_array_def)
    ultimately show ?thesis using da pmf_bytes_parts[of p] by (metis append_assoc)
  next
    assume c: "rd_u32 d cur = 2" "12 \<le> length d - cur"
      and p: "p = q\<lparr> pmf_qp_num := rd_u32 d (cur + 4), pmf_channels := rd_u32 d (cur + 8) \<rparr>"
    have "drop cur d = pmf_tail p @ drop (cur + 12) d"
      using c drop_le32[of cur d] drop_le32[of "cur + 4" d] drop_le32[of "cur + 8" d] by (simp add: pmf_tail_def p q_def load_arrays_def add.commute)
    moreover have "pmf_head p = pmf_head q" "pmf_arrays p = pmf_arrays q" by (simp_all add: p pmf_head_def pmf_arrays_def)
    moreover have "pmf_wf p" using bounds q by (auto simp: pmf_wf_def p q_def load_arrays_def u32_array_def)
    ultimately show ?thesis using da pmf_bytes_parts[of p] by (metis append_assoc)
  qed
qed

text \<open>
  C31. The loader of the entropy tables accepts exactly the byte strings that begin with the format of
  well-formed tables, whatever follows, and gives back these tables; everything else is \<open>Format\<close>.
\<close>

theorem load_pmf_exact:
  "(load_pmf (Some d) = Inr p \<longleftrightarrow> pmf_wf p \<and> (\<exists>rest. d = pmf_bytes p @ rest)) \<and>
   (case load_pmf (Some d) of Inl e \<Rightarrow> fst e = Format | Inr _ \<Rightarrow> True)"
proof
  show "load_pmf (Some d) = Inr p \<longleftrightarrow> pmf_wf p \<and> (\<exists>rest. d = pmf_bytes p @ rest)"
    using load_pmf_written load_pmf_read by blast
  show "case load_pmf (Some d) of Inl e \<Rightarrow> fst e = Format | Inr _ \<Rightarrow> True"
    using load_tail_Format by (auto simp: load_pmf_def Let_def split: sum.split)
qed

end
