(* ===== verification/Qp_Patch.thy ===== *)
theory Qp_Patch
  imports Ps_Model
begin

text \<open>
  The quantiser patches, \<open>codecs/mlvc/src/qppatch.cpp\<close>: the table-driven CRC and \<open>apply_qppatch\<close>, which
  overwrites byte ranges of a base model after checking every field of the patch. The result is
  paired with the base buffer as the call leaves it. \<open>size_t\<close> is 64 bits wide.
\<close>

section \<open>The table-driven CRC\<close>

definition crc_step :: "u32 \<Rightarrow> u32" where
  "crc_step r = drop_bit 1 r XOR (0xEDB88320 AND (0 - (r AND 1)))"

definition kCrcTable :: "u32 list" where
  "kCrcTable = map (\<lambda>i. (crc_step ^^ 8) (of_nat i)) [0..<256]"

definition crc_table_byte :: "u32 \<Rightarrow> u8 \<Rightarrow> u32" where
  "crc_table_byte c b = kCrcTable ! unat ((c XOR ucast b) AND 0xFF) XOR drop_bit 8 c"

definition table_crc32 :: "bytes \<Rightarrow> u32" where
  "table_crc32 d = foldl crc_table_byte 0xFFFFFFFF d XOR 0xFFFFFFFF"

section \<open>The patch\<close>

definition rd_u64 :: "bytes \<Rightarrow> nat \<Rightarrow> u64" where
  "rd_u64 d p = ucast (rd_u32 d p) OR push_bit 32 (ucast (rd_u32 d (p + 4)))"

definition kHeaderSize :: nat where "kHeaderSize = 48"
definition kRangeSize :: nat where "kRangeSize = 8"

definition range_off :: "bytes \<Rightarrow> nat \<Rightarrow> nat" where
  "range_off patch i = unat (rd_u32 patch (kHeaderSize + i * kRangeSize))"

definition range_len :: "bytes \<Rightarrow> nat \<Rightarrow> nat" where
  "range_len patch i = unat (rd_u32 patch (kHeaderSize + i * kRangeSize + 4))"

text \<open>The check of the ranges from \<open>i\<close> on, \<open>k\<close> of them; the value is the total length.\<close>

fun check_ranges :: "bytes \<Rightarrow> nat \<Rightarrow> nat \<Rightarrow> nat \<Rightarrow> nat \<Rightarrow> nat result" where
  "check_ranges patch base_size i 0 need = Inr need"
| "check_ranges patch base_size i (Suc k) need =
     (if range_off patch i + range_len patch i > base_size then reject Format ''range out of bounds''
      else if range_len patch i > 2 ^ 64 - 1 - need then reject Format ''payload size overflow''
      else check_ranges patch base_size (i + 1) k (need + range_len patch i))"

fun copy_ranges :: "bytes \<Rightarrow> bytes \<Rightarrow> nat \<Rightarrow> nat \<Rightarrow> nat \<Rightarrow> bytes \<Rightarrow> bytes" where
  "copy_ranges patch payload i 0 cursor base = base"
| "copy_ranges patch payload i (Suc k) cursor base =
     (let n = range_len patch i
      in copy_ranges patch payload (i + 1) k (cursor + n)
           (if n \<noteq> 0 then put_at base (range_off patch i) (slice_of payload cursor (cursor + n)) else base))"

definition apply_qppatch :: "bytes option \<Rightarrow> bytes option \<Rightarrow> int \<Rightarrow> unit result \<times> bytes option" where
  "apply_qppatch base patch expected_qp =
     (case (base, patch) of
        (Some b, Some p) \<Rightarrow>
     (let bad = (\<lambda>why. (reject Format why, base)); n = length p;
          qp = rd_u32 p 16; ranges = unat (rd_u32 p 20); base_crc = rd_u32 p 28; payload_crc = rd_u32 p 32;
          ranges_bytes = ranges * kRangeSize; payload = drop (kHeaderSize + ranges_bytes) p
      in if n < kHeaderSize \<or> take 4 p \<noteq> [0x51, 0x50, 0x50, 0x31] then bad ''bad magic''
         else if rd_u32 p 4 \<noteq> 1 then bad ''bad version''
         else if unat (rd_u64 p 8) \<noteq> length b then bad ''base size mismatch''
         else if rd_u32 p 24 \<noteq> 0 then bad ''bad flags''
         else if expected_qp \<ge> 0 \<and> qp \<noteq> of_int expected_qp then bad ''qp mismatch''
         else if table_crc32 b \<noteq> base_crc then bad ''base crc mismatch''
         else if ranges > (2 ^ 32 - 1 - kHeaderSize) div kRangeSize then bad ''range count overflow''
         else if n < kHeaderSize + ranges_bytes then bad ''truncated ranges''
         else case check_ranges p (length b) 0 ranges 0 of
                Inl e \<Rightarrow> (Inl e, base)
              | Inr need \<Rightarrow>
                  if need \<noteq> length payload \<or> table_crc32 payload \<noteq> payload_crc then bad ''payload crc mismatch''
                  else (Inr (), Some (copy_ranges p payload 0 ranges 0 b)))
      | _ \<Rightarrow> (reject Invalid [], base))"

section \<open>The table against the bits\<close>

lemma crc_step_bit: "crc_step = crc_bit"
proof
  fix r :: u32
  show "crc_step r = crc_bit r"
  proof (cases "bit r 0")
    case True
    then have "r AND 1 = 1" by (simp add: and_one_eq odd_iff_mod_2_eq_one bit_0)
    with True show ?thesis by (simp add: crc_step_def crc_bit_def)
  next
    case False
    then have "r AND 1 = 0" by (simp add: and_one_eq even_iff_mod_2_eq_zero bit_0)
    with False show ?thesis by (simp add: crc_step_def crc_bit_def)
  qed
qed

lemma crc_bit_xor: "crc_bit (x XOR y) = crc_bit x XOR crc_bit y"
  by (auto simp: crc_bit_def bit_simps bit_eq_iff)

lemma crc_bits_xor: "(crc_bit ^^ n) (x XOR y) = (crc_bit ^^ n) x XOR (crc_bit ^^ n) y"
  by (induction n) (simp_all add: crc_bit_xor)

lemma crc_bits_shift:
  assumes "\<And>i. i < n \<Longrightarrow> \<not> bit x i"
  shows "(crc_bit ^^ n) x = drop_bit n x"
  using assms
proof (induction n)
  case (Suc n)
  then have "(crc_bit ^^ n) x = drop_bit n x" by simp
  moreover have "\<not> bit (drop_bit n x) 0" using Suc.prems[of n] by (simp add: bit_simps)
  then have "crc_bit (drop_bit n x) = drop_bit 1 (drop_bit n x)" by (simp add: crc_bit_def)
  ultimately show ?case by simp
qed simp

lemma kCrcTable_nth: "v < 256 \<Longrightarrow> kCrcTable ! v = (crc_bit ^^ 8) (of_nat v)"
  by (simp add: kCrcTable_def crc_step_bit)

lemma crc_table_byte_eq: "crc_table_byte c b = crc_byte c b"
proof -
  define x where "x = c XOR ucast b"
  let ?low = "x AND 0xFF" and ?high = "push_bit 8 (drop_bit 8 x)"
  have mask: "(0xFF :: u32) = mask 8" by (simp add: mask_eq_exp_minus_1)
  have low: "?low = take_bit 8 x" unfolding mask by (simp add: take_bit_eq_mask)
  have split: "x = ?low XOR ?high" unfolding low by (rule bit_word_eqI) (auto simp: bit_simps)
  have "drop_bit 8 x = drop_bit 8 c"
  proof (rule bit_word_eqI)
    fix n assume "n < LENGTH(32)"
    have "\<not> bit b (8 + n)" using bit_imp_le_length[of b "8 + n"] by auto
    then show "bit (drop_bit 8 x) n = bit (drop_bit 8 c) n" by (auto simp: x_def bit_simps)
  qed
  moreover have "drop_bit 8 ?high = drop_bit 8 x"
    by (rule bit_word_eqI) (auto simp: bit_simps dest: bit_imp_le_length)
  ultimately have high: "(crc_bit ^^ 8) ?high = drop_bit 8 c"
    by (subst crc_bits_shift) (auto simp: bit_simps)
  have "unat ?low < 256"
  proof -
    have "unat (take_bit 8 x) < 2 ^ 8" by (simp add: unsigned_take_bit_eq take_bit_nat_less_exp del: power_numeral)
    then show ?thesis unfolding low by simp
  qed
  then have "kCrcTable ! unat ?low = (crc_bit ^^ 8) ?low" by (simp add: kCrcTable_nth)
  then have "crc_table_byte c b = (crc_bit ^^ 8) ?low XOR drop_bit 8 c"
    by (simp add: crc_table_byte_def x_def)
  also have "\<dots> = (crc_bit ^^ 8) (?low XOR ?high)" by (simp only: crc_bits_xor high)
  also have "\<dots> = crc_byte c b" unfolding crc_byte_def x_def [symmetric] by (simp only: split [symmetric])
  finally show ?thesis .
qed

lemma crc_table_function: "table_crc32 d = crc32 d"
proof -
  have "crc_table_byte = crc_byte" using crc_table_byte_eq by blast
  then show ?thesis by (simp add: table_crc32_def crc32_def)
qed

text \<open>
  The CRC of the patches, computed by table, and the CRC of the program stream packer, computed
  bit by bit, are the same function on all inputs.
\<close>

theorem crc_table_equiv: "table_crc32 d = crc32 d"
  by (rule crc_table_function)

section \<open>What a patch does\<close>

definition in_range :: "bytes \<Rightarrow> nat \<Rightarrow> nat \<Rightarrow> bool" where
  "in_range patch i j \<longleftrightarrow> range_off patch i \<le> j \<and> j < range_off patch i + range_len patch i"

text \<open>Where the payload of range \<open>m\<close> starts, counted from range \<open>i\<close>.\<close>

definition payload_pos :: "bytes \<Rightarrow> nat \<Rightarrow> nat \<Rightarrow> nat" where
  "payload_pos patch i m = sum_list (map (range_len patch) [i..<m])"

lemma payload_pos_self [simp]: "payload_pos patch i i = 0"
  by (simp add: payload_pos_def)

lemma payload_pos_Suc: "i < m \<Longrightarrow> payload_pos patch i m = range_len patch i + payload_pos patch (Suc i) m"
  by (simp add: payload_pos_def upt_conv_Cons)

lemma check_ranges_Inr:
  "check_ranges patch n i k need = Inr r \<Longrightarrow>
     r = need + payload_pos patch i (i + k) \<and>
     (\<forall>m. i \<le> m \<longrightarrow> m < i + k \<longrightarrow> range_off patch m + range_len patch m \<le> n)"
proof (induction k arbitrary: i need)
  case (Suc k)
  then have b: "range_off patch i + range_len patch i \<le> n"
    and rec: "check_ranges patch n (i + 1) k (need + range_len patch i) = Inr r"
    by (auto split: if_splits)
  from Suc.IH[OF rec] have r: "r = need + range_len patch i + payload_pos patch (Suc i) (Suc i + k)"
    and bs: "\<And>m. Suc i \<le> m \<Longrightarrow> m < Suc i + k \<Longrightarrow> range_off patch m + range_len patch m \<le> n" by auto
  show ?case
  proof (intro conjI allI impI)
    show "r = need + payload_pos patch i (i + Suc k)" using r by (simp add: payload_pos_Suc)
    fix m assume "i \<le> m" "m < i + Suc k"
    then show "range_off patch m + range_len patch m \<le> n" using b bs[of m] by (cases "m = i") auto
  qed
qed simp

lemma check_ranges_Inl: "check_ranges patch n i k need = Inl e \<Longrightarrow> fst e = Format"
  by (induction k arbitrary: i need) (auto split: if_splits)

lemma copy_ranges_spec:
  assumes "\<And>m. i \<le> m \<Longrightarrow> m < i + k \<Longrightarrow> range_off patch m + range_len patch m \<le> length base"
    and "cursor + payload_pos patch i (i + k) \<le> length payload"
  shows "length (copy_ranges patch payload i k cursor base) = length base \<and>
    (\<forall>j < length base. (\<forall>m. i \<le> m \<longrightarrow> m < i + k \<longrightarrow> \<not> in_range patch m j) \<longrightarrow>
       copy_ranges patch payload i k cursor base ! j = base ! j) \<and>
    (\<forall>m j. i \<le> m \<longrightarrow> m < i + k \<longrightarrow> in_range patch m j \<longrightarrow>
       (\<forall>l. m < l \<longrightarrow> l < i + k \<longrightarrow> \<not> in_range patch l j) \<longrightarrow>
       copy_ranges patch payload i k cursor base ! j =
         payload ! (cursor + payload_pos patch i m + (j - range_off patch m)))"
  using assms
proof (induction k arbitrary: i cursor base)
  case (Suc k)
  let ?n = "range_len patch i" and ?o = "range_off patch i"
  define base1 where "base1 = put_at base ?o (slice_of payload cursor (cursor + ?n))"
  have fit: "?o + ?n \<le> length base" using Suc.prems(1)[of i] by simp
  have pos: "payload_pos patch i (i + Suc k) = ?n + payload_pos patch (Suc i) (Suc i + k)"
    by (simp add: payload_pos_Suc)
  have room: "cursor + ?n \<le> length payload" using Suc.prems(2) pos by simp
  have ls: "length (slice_of payload cursor (cursor + ?n)) = ?n" using room by simp
  have len1: "length base1 = length base" unfolding base1_def by (rule length_put_at) (simp only: ls fit)
  have step: "copy_ranges patch payload i (Suc k) cursor base =
      copy_ranges patch payload (Suc i) k (cursor + ?n) base1"
    by (simp add: base1_def Let_def slice_of_def)
  have at1: "base1 ! j = (if in_range patch i j then payload ! (cursor + (j - ?o)) else base ! j)" if "j < length base" for j
  proof -
    have "base1 ! j = (if j < ?o then base ! j else if j < ?o + ?n then slice_of payload cursor (cursor + ?n) ! (j - ?o)
        else base ! j)"
      unfolding base1_def by (subst nth_put_at) (simp_all only: ls fit)
    moreover have "slice_of payload cursor (cursor + ?n) ! (j - ?o) = payload ! (cursor + (j - ?o))"
      if "?o \<le> j" "j < ?o + ?n"
      using that room by (simp add: slice_of_def)
    ultimately show ?thesis by (auto simp: in_range_def)
  qed
  have inb: "in_range patch i j \<Longrightarrow> j < length base" for j using fit by (simp add: in_range_def)
  have b1: "\<And>m. Suc i \<le> m \<Longrightarrow> m < Suc i + k \<Longrightarrow> range_off patch m + range_len patch m \<le> length base1"
    using Suc.prems(1) len1 by simp
  have c1: "cursor + ?n + payload_pos patch (Suc i) (Suc i + k) \<le> length payload"
    using Suc.prems(2) pos by simp
  from Suc.IH[OF b1 c1]
  have IH1: "length (copy_ranges patch payload (Suc i) k (cursor + ?n) base1) = length base1" and
    IH2: "\<And>j. j < length base1 \<Longrightarrow> (\<forall>m. Suc i \<le> m \<longrightarrow> m < Suc i + k \<longrightarrow> \<not> in_range patch m j) \<Longrightarrow>
       copy_ranges patch payload (Suc i) k (cursor + ?n) base1 ! j = base1 ! j" and
    IH3: "\<And>m j. Suc i \<le> m \<Longrightarrow> m < Suc i + k \<Longrightarrow> in_range patch m j \<Longrightarrow>
       (\<forall>l. m < l \<longrightarrow> l < Suc i + k \<longrightarrow> \<not> in_range patch l j) \<Longrightarrow>
       copy_ranges patch payload (Suc i) k (cursor + ?n) base1 ! j =
         payload ! (cursor + ?n + payload_pos patch (Suc i) m + (j - range_off patch m))"
    by blast+
  show ?case
    unfolding step
  proof (intro conjI allI impI)
    show "length (copy_ranges patch payload (Suc i) k (cursor + ?n) base1) = length base" using IH1 len1 by simp
  next
    fix j assume j: "j < length base" "\<forall>m. i \<le> m \<longrightarrow> m < i + Suc k \<longrightarrow> \<not> in_range patch m j"
    then show "copy_ranges patch payload (Suc i) k (cursor + ?n) base1 ! j = base ! j"
      using IH2[of j] len1 at1[OF j(1)] by auto
  next
    fix m j
    assume m: "i \<le> m" "m < i + Suc k" "in_range patch m j"
      "\<forall>l. m < l \<longrightarrow> l < i + Suc k \<longrightarrow> \<not> in_range patch l j"
    show "copy_ranges patch payload (Suc i) k (cursor + ?n) base1 ! j =
      payload ! (cursor + payload_pos patch i m + (j - range_off patch m))"
    proof (cases "m = i")
      case True
      then have "copy_ranges patch payload (Suc i) k (cursor + ?n) base1 ! j = base1 ! j"
        using IH2[of j] m inb len1 by auto
      then show ?thesis using at1[OF inb] m True by simp
    next
      case False
      then have "copy_ranges patch payload (Suc i) k (cursor + ?n) base1 ! j =
          payload ! (cursor + ?n + payload_pos patch (Suc i) m + (j - range_off patch m))"
        using IH3[of m j] m by auto
      then show ?thesis using False m(1) by (simp add: payload_pos_Suc add.assoc)
    qed
  qed
qed simp

definition patch_ranges :: "bytes \<Rightarrow> nat" where
  "patch_ranges p = unat (rd_u32 p 20)"

definition patch_payload :: "bytes \<Rightarrow> bytes" where
  "patch_payload p = drop (kHeaderSize + patch_ranges p * kRangeSize) p"

lemma apply_qppatch_Inr:
  assumes "apply_qppatch (Some b) (Some p) q = (Inr u, b')"
  shows "table_crc32 b = rd_u32 p 28 \<and> table_crc32 (patch_payload p) = rd_u32 p 32 \<and>
    check_ranges p (length b) 0 (patch_ranges p) 0 = Inr (length (patch_payload p)) \<and>
    b' = Some (copy_ranges p (patch_payload p) 0 (patch_ranges p) 0 b)"
  using assms unfolding apply_qppatch_def Let_def patch_payload_def patch_ranges_def
  by (auto split: if_splits sum.splits)

lemma apply_qppatch_Inl:
  assumes "apply_qppatch (Some b) (Some p) q = (Inl e, b')"
  shows "fst e = Format \<and> b' = Some b"
  using assms unfolding apply_qppatch_def Let_def
  by (auto split: if_splits sum.splits dest: check_ranges_Inl)

text \<open>
  C28. A patch is applied as a whole or not at all. A refused patch leaves the base as it was. An
  accepted one has matching checksums and ranges inside the base; the patched base has the length
  of the base, every byte outside the ranges keeps its value, and every byte inside one holds the
  payload byte of the last range that covers it.
\<close>

theorem qppatch_exact:
  "case apply_qppatch (Some b) (Some p) q of
     (Inl e, b') \<Rightarrow> fst e = Format \<and> b' = Some b
   | (Inr _, b') \<Rightarrow> \<exists>c. b' = Some c \<and> length c = length b \<and>
       crc32 b = rd_u32 p 28 \<and> crc32 (patch_payload p) = rd_u32 p 32 \<and>
       (\<forall>j < length b. (\<forall>m < patch_ranges p. \<not> in_range p m j) \<longrightarrow> c ! j = b ! j) \<and>
       (\<forall>m < patch_ranges p. \<forall>j. in_range p m j \<longrightarrow>
          j < length b \<and>
          ((\<forall>l. m < l \<longrightarrow> l < patch_ranges p \<longrightarrow> \<not> in_range p l j) \<longrightarrow>
           c ! j = patch_payload p ! (payload_pos p 0 m + (j - range_off p m))))"
proof -
  obtain r b' where a: "apply_qppatch (Some b) (Some p) q = (r, b')" by (cases "apply_qppatch (Some b) (Some p) q")
  show ?thesis
  proof (cases r)
    case (Inl e)
    with apply_qppatch_Inl a show ?thesis by simp
  next
    case (Inr u)
    with apply_qppatch_Inr a have
      crc: "crc32 b = rd_u32 p 28" "crc32 (patch_payload p) = rd_u32 p 32" and
      chk: "check_ranges p (length b) 0 (patch_ranges p) 0 = Inr (length (patch_payload p))" and
      b': "b' = Some (copy_ranges p (patch_payload p) 0 (patch_ranges p) 0 b)"
      by (simp_all add: crc_table_function)
    from check_ranges_Inr[OF chk] have
      ranges: "\<And>m. 0 \<le> m \<Longrightarrow> m < 0 + patch_ranges p \<Longrightarrow> range_off p m + range_len p m \<le> length b" and
      pay: "0 + payload_pos p 0 (0 + patch_ranges p) \<le> length (patch_payload p)" by auto
    note spec = copy_ranges_spec[OF ranges pay]
    have inb: "j < length b" if "m < patch_ranges p" "in_range p m j" for m j
      using ranges[of m] that by (auto simp: in_range_def)
    show ?thesis
      unfolding a Inr b' using crc spec inb by (auto simp del: copy_ranges.simps)
  qed
qed


definition sample_patch :: bytes where
  "sample_patch = [0x51, 0x50, 0x50, 0x31, 1, 0, 0, 0, 2, 0, 0, 0, 0, 0, 0, 0, 2, 0, 0, 0, 1, 0, 0, 0, 0, 0, 0, 0,
   143, 67, 205, 213, 46, 122, 102, 76, 0, 0, 0, 0, 0, 0, 0, 0, 0, 0, 0, 0, 1, 0, 0, 0, 1, 0, 0, 0, 7]"

lemma sample_patch_fields:
  "patch_ranges sample_patch = 1" "patch_payload sample_patch = [7]"
  "range_off sample_patch 0 = 1" "range_len sample_patch 0 = 1"
  by code_simp+

lemma sample_patch_words:
  "rd_u32 sample_patch 4 = 1" "rd_u64 sample_patch 8 = 2" "rd_u32 sample_patch 16 = 2"
  "rd_u32 sample_patch 20 = 1" "rd_u32 sample_patch 24 = 0"
  "take 4 sample_patch = [0x51, 0x50, 0x50, 0x31]" "length sample_patch = 57" "drop 56 sample_patch = [7]"
  by code_simp+

lemma sample_patch_crcs:
  "crc32 [5, 6] = rd_u32 sample_patch 28" "crc32 [7] = rd_u32 sample_patch 32"
  by code_simp+

lemma sample_patch_applies: "fst (apply_qppatch (Some [5, 6]) (Some sample_patch) 2) = Inr ()"
  by (simp add: apply_qppatch_def Let_def crc_table_function sample_patch_words sample_patch_fields
      sample_patch_crcs kHeaderSize_def kRangeSize_def)

lemma qppatch_exact_witness:
  "\<exists>c. apply_qppatch (Some [5, 6]) (Some sample_patch) 2 = (Inr (), Some c) \<and> length c = 2 \<and> c ! 0 = 5 \<and> c ! 1 = 7"
proof -
  obtain b' where a: "apply_qppatch (Some [5, 6]) (Some sample_patch) 2 = (Inr (), b')"
    using sample_patch_applies by (metis prod.collapse)
  show ?thesis
    using qppatch_exact[of "[5, 6]" sample_patch 2]
    by (simp add: a sample_patch_fields in_range_def payload_pos_def less_Suc_eq) auto
qed

end
