(* ===== verification/Tensor_Layout.thy ===== *)
theory Tensor_Layout
  imports Status
begin

text \<open>
  The tensor conversions of \<open>codecs/mlvc/src/pixel.cpp\<close> that move values without arithmetic on them,
  the expansion of the scale indices (\<open>extract_scales\<close>), and the SIMD paths of both beside their
  portable ones. A loop nest that stores into an array is the list of its stores in order, and
  \<open>writes\<close> performs them; source and destination do not overlap. Offsets (\<open>size_t\<close>) do not wrap.
\<close>

section \<open>Stores\<close>

definition writes :: "(nat \<times> 'a) list \<Rightarrow> 'a list \<Rightarrow> 'a list" where
  "writes ws dst = foldl (\<lambda>d (i, v). d[i := v]) dst ws"

definition for_each :: "nat list \<Rightarrow> (nat \<Rightarrow> 'b list) \<Rightarrow> 'b list" where
  "for_each is f = concat (map f is)"

section \<open>Reordering without SIMD\<close>

definition nchw_f16_to_nhwc :: "u16 list \<Rightarrow> u16 list \<Rightarrow> nat \<Rightarrow> nat \<Rightarrow> nat \<Rightarrow> u16 list" where
  "nchw_f16_to_nhwc src dst C H W =
     writes (for_each [0..<H] (\<lambda>y. for_each [0..<W] (\<lambda>x. map (\<lambda>c.
       ((y * W + x) * C + c, src ! ((c * H + y) * W + x))) [0..<C]))) dst"

definition nchw_d2s_dcr_f16 :: "u16 list \<Rightarrow> u16 list \<Rightarrow> nat \<Rightarrow> nat \<Rightarrow> nat \<Rightarrow> nat \<Rightarrow> u16 list" where
  "nchw_d2s_dcr_f16 src dst OC H W bs =
     (let OH = H * bs; OW = W * bs
      in writes (for_each [0..<OC] (\<lambda>c. for_each [0..<OH] (\<lambda>y. map (\<lambda>x.
           let dy = y mod bs; dx = x mod bs
           in ((c * OH + y) * OW + x, src ! ((((dy * bs + dx) * OC + c) * H + y div bs) * W + x div bs))) [0..<OW]))) dst)"

text \<open>
  The offsets of one row of a block go to the array \<open>choff\<close> of 16 elements; storing beyond it, which the
  code does not prevent, is \<open>None\<close>.
\<close>

primrec choff_fill :: "(nat \<Rightarrow> nat) \<Rightarrow> nat \<Rightarrow> nat list option" where
  "choff_fill off 0 = Some (replicate 16 0)"
| "choff_fill off (Suc dx) =
     (case choff_fill off dx of
        None \<Rightarrow> None
      | Some choff \<Rightarrow> if dx < length choff then Some (choff[dx := off dx]) else None)"

definition d2s_group :: "u16 list \<Rightarrow> nat \<Rightarrow> nat \<Rightarrow> nat \<Rightarrow> nat \<Rightarrow> nat \<Rightarrow> nat \<times> nat \<Rightarrow> (nat \<times> u16) list option" where
  "d2s_group src oc H W C2 bs = (\<lambda>(c, dy).
     let oh = H * bs; ow = W * bs
     in map_option (\<lambda>choff. for_each [0..<H] (\<lambda>h.
            let orow = (c * oh + h * bs + dy) * ow; srow = h * W * C2
            in for_each [0..<W] (\<lambda>w. map (\<lambda>dx.
                 (orow + (w * bs + dx), src ! (srow + (w * C2 + choff ! dx)))) [0..<bs])))
          (choff_fill (\<lambda>dx. let ic = dy * (bs * oc) + dx * oc + c
                           in (ic div C2) * H * W * C2 + ic mod C2) bs))"

definition nc1hwc2_d2s_dcr_f16 :: "u16 list \<Rightarrow> u16 list \<Rightarrow> nat \<Rightarrow> nat \<Rightarrow> nat \<Rightarrow> nat \<Rightarrow> nat \<Rightarrow> u16 list option" where
  "nc1hwc2_d2s_dcr_f16 src out C1 H W C2 bs =
     (let C = C1 * C2; oc = C div (bs * bs)
      in map_option (\<lambda>groups. writes (concat groups) out)
           (those (map (d2s_group src oc H W C2 bs) (List.product [0..<oc] [0..<bs]))))"

section \<open>The transpose by pairwise interleaving\<close>

text \<open>
  \<open>vtrn1q\<close> and \<open>vtrn2q\<close> on eight 16-bit lanes read as elements of \<open>k\<close> lanes: the even, or the odd,
  elements of both operands alternate.
\<close>

definition vtrn1 :: "nat \<Rightarrow> 'a list \<Rightarrow> 'a list \<Rightarrow> 'a list" where
  "vtrn1 k a b = concat (map (\<lambda>i. take k (drop (2 * i * k) a) @ take k (drop (2 * i * k) b)) [0..<4 div k])"

definition vtrn2 :: "nat \<Rightarrow> 'a list \<Rightarrow> 'a list \<Rightarrow> 'a list" where
  "vtrn2 k a b = concat (map (\<lambda>i. take k (drop ((2 * i + 1) * k) a) @ take k (drop ((2 * i + 1) * k) b)) [0..<4 div k])"

definition transpose_8x8_u16 :: "'a list list \<Rightarrow> 'a list list" where
  "transpose_8x8_u16 r =
     (let t0 = vtrn1 1 (r ! 0) (r ! 1); t1 = vtrn2 1 (r ! 0) (r ! 1);
          t2 = vtrn1 1 (r ! 2) (r ! 3); t3 = vtrn2 1 (r ! 2) (r ! 3);
          t4 = vtrn1 1 (r ! 4) (r ! 5); t5 = vtrn2 1 (r ! 4) (r ! 5);
          t6 = vtrn1 1 (r ! 6) (r ! 7); t7 = vtrn2 1 (r ! 6) (r ! 7);
          v0 = vtrn1 2 t0 t2; v1 = vtrn2 2 t0 t2; v2 = vtrn1 2 t1 t3; v3 = vtrn2 2 t1 t3;
          v4 = vtrn1 2 t4 t6; v5 = vtrn2 2 t4 t6; v6 = vtrn1 2 t5 t7; v7 = vtrn2 2 t5 t7
      in [vtrn1 4 v0 v4, vtrn1 4 v2 v6, vtrn1 4 v1 v5, vtrn1 4 v3 v7,
          vtrn2 4 v0 v4, vtrn2 4 v2 v6, vtrn2 4 v1 v5, vtrn2 4 v3 v7])"

section \<open>Into the layout of the NPU\<close>

text \<open>Eight lanes loaded from position \<open>p\<close>, and eight lanes stored at position \<open>p\<close>.\<close>

definition vld1q_u16 :: "u16 list \<Rightarrow> nat \<Rightarrow> u16 list" where
  "vld1q_u16 src p = map (\<lambda>j. src ! (p + j)) [0..<8]"

definition vst1q_u16 :: "nat \<Rightarrow> u16 list \<Rightarrow> (nat \<times> u16) list" where
  "vst1q_u16 p v = map (\<lambda>j. (p + j, v ! j)) [0..<8]"

text \<open>The two inner loops over a row of \<open>W\<close> columns, from column \<open>x\<close> on.\<close>

function neon_row :: "u16 list \<Rightarrow> (nat \<Rightarrow> nat) \<Rightarrow> nat \<Rightarrow> nat \<Rightarrow> nat \<Rightarrow> (nat \<times> u16) list" where
  "neon_row src sp dp W x =
     (if x + 8 \<le> W
      then (let r = transpose_8x8_u16 (map (\<lambda>k. vld1q_u16 src (sp k + x)) [0..<8])
            in for_each [0..<8] (\<lambda>k. vst1q_u16 (dp + (x + k) * 8) (r ! k))) @ neon_row src sp dp W (x + 8)
      else for_each [x..<W] (\<lambda>x. map (\<lambda>k. (dp + (x * 8 + k), src ! (sp k + x))) [0..<8]))"
  by auto
termination by (relation "measure (\<lambda>(_, _, _, W, x). W - x)") auto

declare neon_row.simps [simp del]

definition pack_neon :: "u16 list \<Rightarrow> nat \<Rightarrow> nat \<Rightarrow> nat \<Rightarrow> nat \<Rightarrow> (nat \<times> u16) list" where
  "pack_neon src C1 H W w_stride =
     for_each [0..<C1] (\<lambda>c1. for_each [0..<H] (\<lambda>y.
       neon_row src (\<lambda>k. ((c1 * 8 + k) * H + y) * W) ((c1 * H + y) * w_stride * 8) W 0))"

definition pack_scalar :: "u16 list \<Rightarrow> nat \<Rightarrow> nat \<Rightarrow> nat \<Rightarrow> nat \<Rightarrow> nat \<Rightarrow> (nat \<times> u16) list" where
  "pack_scalar src C H W C2 w_stride =
     for_each [0..<C] (\<lambda>c. for_each [0..<H] (\<lambda>y. map (\<lambda>x.
       (((c div C2 * H + y) * w_stride + x) * C2 + c mod C2, src ! ((c * H + y) * W + x))) [0..<W]))"

definition nchw_f16_to_nc1hwc2 ::
  "bool \<Rightarrow> u16 list option \<Rightarrow> u16 list option \<Rightarrow> int \<Rightarrow> int \<Rightarrow> int \<Rightarrow> int \<Rightarrow> int \<Rightarrow> u16 list option" where
  "nchw_f16_to_nc1hwc2 neon src dst C H W C2 w_stride =
     (case (src, dst) of
        (Some s, Some d) \<Rightarrow>
          if C \<le> 0 \<or> H \<le> 0 \<or> W \<le> 0 \<or> C2 \<le> 0 then dst
          else let w_stride = (if w_stride \<le> 0 then W else w_stride)
            in if w_stride < W then dst
            else let C1 = (C + C2 - 1) div C2;
                     n = nat C1 * nat H * nat w_stride * nat C2;
                     d = put_at d 0 (replicate n 0)
              in if neon \<and> C2 = 8 \<and> C mod 8 = 0
                 then Some (writes (pack_neon s (nat C1) (nat H) (nat W) (nat w_stride)) d)
                 else Some (writes (pack_scalar s (nat C) (nat H) (nat W) (nat C2) (nat w_stride)) d)
      | _ \<Rightarrow> dst)"

section \<open>Scale indices\<close>

definition clamp_abs_scale :: "int \<Rightarrow> int \<Rightarrow> int" where
  "clamp_abs_scale value max_index =
     (let mag = (if value < 0 then - value else value) in if mag > max_index then max_index else mag)"

text \<open>
  The stores of one row segment, as triples of the column and of the values for \<open>s0\<close> and \<open>s1\<close>:
  portable, and four lanes at a time.
\<close>

definition chk_cells :: "nat \<Rightarrow> int \<Rightarrow> int \<Rightarrow> nat \<Rightarrow> nat \<Rightarrow> (nat \<times> int \<times> int) list" where
  "chk_cells y v0 v1 x xe =
     map (\<lambda>x. let chk = (y mod 2 = x mod 2) in (x, if chk then v0 else v1, if chk then v1 else v0)) [x..<xe]"

definition vst1q_s32 :: "nat \<Rightarrow> int list \<Rightarrow> int list \<Rightarrow> (nat \<times> int \<times> int) list" where
  "vst1q_s32 x a b = map (\<lambda>j. (x + j, a ! j, b ! j)) [0..<4]"

function neon_cells :: "nat \<Rightarrow> int \<Rightarrow> int \<Rightarrow> nat \<Rightarrow> nat \<Rightarrow> (nat \<times> int \<times> int) list" where
  "neon_cells y v0 v1 x xe =
     (if x + 4 \<le> xe
      then (let pat01 = [v0, v1, v0, v1]; pat10 = [v1, v0, v1, v0]
            in if (y XOR x) AND 1 = 0 then vst1q_s32 x pat01 pat10 else vst1q_s32 x pat10 pat01)
           @ neon_cells y v0 v1 (x + 4) xe
      else chk_cells y v0 v1 x xe)"
  by auto
termination by (relation "measure (\<lambda>(_, _, _, x, xe). xe - x)") auto

declare neon_cells.simps [simp del]

text \<open>The starts of the steps of \<open>s\<close> below \<open>n\<close>.\<close>

definition tiles :: "nat \<Rightarrow> nat \<Rightarrow> nat list" where
  "tiles n s = map (\<lambda>k. k * s) [0..<(n + s - 1) div s]"

text \<open>All stores as triples of the position and of the values for \<open>s0\<close> and \<open>s1\<close>.\<close>

definition scale_stores ::
  "bool \<Rightarrow> int list \<Rightarrow> nat \<Rightarrow> nat \<Rightarrow> nat \<Rightarrow> nat \<Rightarrow> nat \<Rightarrow> nat \<Rightarrow> nat \<Rightarrow> int \<Rightarrow> (nat \<times> int \<times> int) list" where
  "scale_stores neon z YC YH YW ZH ZW cr sr max_index =
     for_each [0..<YC] (\<lambda>c.
       let z0 = c div cr * ZH * ZW; z1 = (c + YC) div cr * ZH * ZW; p = c * YH * YW
       in for_each (tiles YH sr) (\<lambda>y0.
         let zy = y0 div sr; ye = (if y0 + sr > YH then YH else y0 + sr);
             zy = (if zy \<ge> ZH then ZH - 1 else zy)
         in for_each (tiles YW sr) (\<lambda>x0.
           let zx = x0 div sr; xe = (if x0 + sr > YW then YW else x0 + sr);
               zx = (if zx \<ge> ZW then ZW - 1 else zx);
               v0 = clamp_abs_scale (z ! (z0 + zy * ZW + zx)) max_index;
               v1 = clamp_abs_scale (z ! (z1 + zy * ZW + zx)) max_index
           in for_each [y0..<ye] (\<lambda>y.
                map (\<lambda>(x, a, b). (p + y * YW + x, a, b))
                  ((if neon then neon_cells else chk_cells) y v0 v1 x0 xe)))))"

definition extract_scales ::
  "bool \<Rightarrow> int list option \<Rightarrow> int list option \<Rightarrow> int list option \<Rightarrow> int \<Rightarrow> int \<Rightarrow> int \<Rightarrow> int \<Rightarrow> int \<Rightarrow> int \<Rightarrow>
   int \<Rightarrow> int \<Rightarrow> int \<Rightarrow> status \<times> int list option \<times> int list option" where
  "extract_scales neon z_r s0 s1 YC YH YW ZC ZH ZW channel_repeat spatial_repeat scale_max_index =
     (case (z_r, s0, s1) of
        (Some z, Some p0, Some p1) \<Rightarrow>
          if YC \<le> 0 \<or> YH \<le> 0 \<or> YW \<le> 0 \<or> ZC \<le> 0 \<or> ZH \<le> 0 \<or> ZW \<le> 0 \<or> channel_repeat \<le> 0 \<or>
             spatial_repeat \<le> 0 \<or> scale_max_index < 0
          then (Invalid, s0, s1)
          else if (2 * YC + channel_repeat - 1) div channel_repeat > ZC then (Invalid, s0, s1)
          else let st = scale_stores neon z (nat YC) (nat YH) (nat YW) (nat ZH) (nat ZW)
                 (nat channel_repeat) (nat spatial_repeat) scale_max_index
            in (Ok, Some (writes (map (\<lambda>(i, a, b). (i, a)) st) p0), Some (writes (map (\<lambda>(i, a, b). (i, b)) st) p1))
      | _ \<Rightarrow> (Invalid, s0, s1))"

section \<open>Stores as sets\<close>

lemma length_writes [simp]: "length (writes ws d) = length d"
proof -
  have "length (foldl (\<lambda>d (i, v). d[i := v]) d ws) = length d" for d
    by (induction ws arbitrary: d) auto
  then show ?thesis by (simp add: writes_def)
qed

lemma writes_Nil [simp]: "writes [] d = d"
  by (simp add: writes_def)

lemma writes_Cons [simp]: "writes ((i, v) # ws) d = writes ws (d[i := v])"
  by (simp add: writes_def)

lemma writes_other: "j \<notin> fst ` set ws \<Longrightarrow> writes ws d ! j = d ! j"
proof (induction ws arbitrary: d)
  case (Cons w ws)
  then show ?case by (cases w) auto
qed simp

lemma writes_nth:
  assumes "j < length d" and "(j, w) \<in> set ws" and "\<And>v. (j, v) \<in> set ws \<Longrightarrow> v = w"
  shows "writes ws d ! j = w"
  using assms
proof (induction ws arbitrary: d)
  case (Cons x ws)
  obtain i v where x: "x = (i, v)" by (cases x)
  show ?case
  proof (cases "(j, w) \<in> set ws")
    case True
    have "writes ws (d[i := v]) ! j = w"
    proof (rule Cons.IH)
      show "j < length (d[i := v])" using Cons.prems(1) by simp
      show "(j, w) \<in> set ws" by (rule True)
      show "v' = w" if "(j, v') \<in> set ws" for v' using Cons.prems(3) that by simp
    qed
    then show ?thesis by (simp add: x)
  next
    case False
    have "j \<notin> fst ` set ws"
    proof
      assume "j \<in> fst ` set ws"
      then obtain v' where "(j, v') \<in> set ws" by auto
      with Cons.prems(3)[of v'] False show False by simp
    qed
    moreover have "i = j" "v = w" using Cons.prems(2) False x by simp_all
    ultimately show ?thesis using Cons.prems(1) by (simp add: x writes_other)
  qed
qed simp

text \<open>The same stores, in whatever order, leave the same array.\<close>

lemma writes_set_cong:
  assumes "set ws = set ws'" and "\<And>j v w. (j, v) \<in> set ws \<Longrightarrow> (j, w) \<in> set ws \<Longrightarrow> v = w"
  shows "writes ws d = writes ws' d"
proof (rule nth_equalityI)
  fix j assume "j < length (writes ws d)"
  then have j: "j < length d" by simp
  show "writes ws d ! j = writes ws' d ! j"
  proof (cases "j \<in> fst ` set ws")
    case True
    then obtain w where w: "(j, w) \<in> set ws" by auto
    then have "writes ws d ! j = w" using assms j by (intro writes_nth) auto
    moreover have "writes ws' d ! j = w" using assms j w by (intro writes_nth) auto
    ultimately show ?thesis by simp
  next
    case False
    then show ?thesis using assms(1) by (simp add: writes_other)
  qed
qed simp

lemma set_for_each [simp]: "set (for_each is f) = (\<Union>i \<in> set is. set (f i))"
  by (simp add: for_each_def)

section \<open>The interleaving steps transpose\<close>

lemma upt_8: "[0..<8] = [0, 1, 2, 3, 4, 5, 6, 7 :: nat]"
  by (simp add: upt_rec)

lemma upt_4_2_1: "[0..<4] = [0, 1, 2, 3 :: nat]" "[0..<2] = [0, 1 :: nat]" "[0..<1] = [0 :: nat]" "[0..<Suc 0] = [0]"
  by (simp_all add: upt_rec)

lemma vtrn_lanes:
  shows "vtrn1 1 [a0, a1, a2, a3, a4, a5, a6, a7] [b0, b1, b2, b3, b4, b5, b6, b7] =
     [a0, b0, a2, b2, a4, b4, a6, b6]"
    and "vtrn2 1 [a0, a1, a2, a3, a4, a5, a6, a7] [b0, b1, b2, b3, b4, b5, b6, b7] =
     [a1, b1, a3, b3, a5, b5, a7, b7]"
    and "vtrn1 2 [a0, a1, a2, a3, a4, a5, a6, a7] [b0, b1, b2, b3, b4, b5, b6, b7] =
     [a0, a1, b0, b1, a4, a5, b4, b5]"
    and "vtrn2 2 [a0, a1, a2, a3, a4, a5, a6, a7] [b0, b1, b2, b3, b4, b5, b6, b7] =
     [a2, a3, b2, b3, a6, a7, b6, b7]"
    and "vtrn1 4 [a0, a1, a2, a3, a4, a5, a6, a7] [b0, b1, b2, b3, b4, b5, b6, b7] =
     [a0, a1, a2, a3, b0, b1, b2, b3]"
    and "vtrn2 4 [a0, a1, a2, a3, a4, a5, a6, a7] [b0, b1, b2, b3, b4, b5, b6, b7] =
     [a4, a5, a6, a7, b4, b5, b6, b7]"
  by (simp_all add: vtrn1_def vtrn2_def upt_4_2_1)

lemma transpose_8x8:
  "transpose_8x8_u16 (map (\<lambda>k. map (m k) [0..<8]) [0..<8]) = map (\<lambda>i. map (\<lambda>j. m j i) [0..<8]) [0..<8]"
proof -
  have nth: "(a # b # c # d # e # f # g # h # []) ! 0 = a" "(a # b # c # d # e # f # g # h # []) ! 1 = b"
    "(a # b # c # d # e # f # g # h # []) ! 2 = c" "(a # b # c # d # e # f # g # h # []) ! 3 = d"
    "(a # b # c # d # e # f # g # h # []) ! 4 = e" "(a # b # c # d # e # f # g # h # []) ! 5 = f"
    "(a # b # c # d # e # f # g # h # []) ! 6 = g" "(a # b # c # d # e # f # g # h # []) ! 7 = h" for a b c d e f g h :: "'a list"
    by simp_all
  show ?thesis
    unfolding upt_8 list.map transpose_8x8_u16_def Let_def nth vtrn_lanes by (rule refl)
qed

lemma neon_row_stores:
  "set (neon_row src sp dp W x) = {(dp + (x' * 8 + k), src ! (sp k + x')) | x' k. x \<le> x' \<and> x' < W \<and> k < 8}"
proof (induction src sp dp W x rule: neon_row.induct)
  case (1 src sp dp W x)
  show ?case
  proof (cases "x + 8 \<le> W")
    case True
    have "transpose_8x8_u16 (map (\<lambda>k. vld1q_u16 src (sp k + x)) [0..<8]) =
        map (\<lambda>i. map (\<lambda>j. src ! (sp j + x + i)) [0..<8]) [0..<8]"
      unfolding vld1q_u16_def by (rule transpose_8x8)
    then have st: "for_each [0..<8] (\<lambda>k. vst1q_u16 (dp + (x + k) * 8) (transpose_8x8_u16 (map (\<lambda>k. vld1q_u16 src (sp k + x)) [0..<8]) ! k)) =
        for_each [0..<8] (\<lambda>i. map (\<lambda>j. (dp + ((x + i) * 8 + j), src ! (sp j + (x + i)))) [0..<8])"
      by (auto simp: for_each_def vst1q_u16_def add.assoc intro!: arg_cong[of _ _ concat] map_cong)
    have "set (neon_row src sp dp W x) =
        (\<Union>i \<in> {0..<8}. (\<lambda>j. (dp + ((x + i) * 8 + j), src ! (sp j + (x + i)))) ` {0..<8}) \<union> set (neon_row src sp dp W (x + 8))"
      unfolding neon_row.simps[of src sp dp W x] using True
      by (simp only: if_True Let_def st set_append set_for_each set_map set_upt)
    also have "\<dots> = {(dp + (x' * 8 + k), src ! (sp k + x')) | x' k. x \<le> x' \<and> x' < W \<and> k < 8}" (is "?a \<union> _ = ?b")
    proof
      show "?a \<union> set (neon_row src sp dp W (x + 8)) \<subseteq> ?b"
        unfolding 1[OF True] using True by fastforce
      show "?b \<subseteq> ?a \<union> set (neon_row src sp dp W (x + 8))"
      proof
        fix s assume "s \<in> ?b"
        then obtain x' k where s: "s = (dp + (x' * 8 + k), src ! (sp k + x'))" "x \<le> x'" "x' < W" "k < 8" by blast
        show "s \<in> ?a \<union> set (neon_row src sp dp W (x + 8))"
        proof (cases "x' < x + 8")
          case True
          then obtain i where "x' = x + i" "i < 8" using s(2) by (metis le_iff_add nat_add_left_cancel_less)
          then have "(x', k) = (x + i, k)" "i \<in> {0..<8}" "k \<in> {0..<8}" using s(4) by simp_all
          then show ?thesis using s(1) by blast
        next
          case False
          then show ?thesis unfolding 1[OF \<open>x + 8 \<le> W\<close>] using s by auto
        qed
      qed
    qed
    finally show ?thesis .
  next
    case False
    then have "set (neon_row src sp dp W x) = (\<Union>x' \<in> {x..<W}. (\<lambda>k. (dp + (x' * 8 + k), src ! (sp k + x'))) ` {0..<8})"
      unfolding neon_row.simps[of src sp dp W x] by (simp only: if_False set_for_each set_map set_upt)
    also have "\<dots> = {(dp + (x' * 8 + k), src ! (sp k + x')) | x' k. x' \<in> {x..<W} \<and> k \<in> {0..<8}}" by blast
    finally show ?thesis by simp
  qed
qed


section \<open>Packing for the NPU\<close>

lemma pack_scalar_stores:
  "set (pack_scalar s C H W C2 ws) =
     {(((c div C2 * H + y) * ws + x) * C2 + c mod C2, s ! ((c * H + y) * W + x)) | c y x. c < C \<and> y < H \<and> x < W}"
proof -
  have "set (pack_scalar s C H W C2 ws) = (\<Union>c \<in> {0..<C}. \<Union>y \<in> {0..<H}.
      (\<lambda>x. (((c div C2 * H + y) * ws + x) * C2 + c mod C2, s ! ((c * H + y) * W + x))) ` {0..<W})"
    by (simp add: pack_scalar_def)
  also have "\<dots> = {(((c div C2 * H + y) * ws + x) * C2 + c mod C2, s ! ((c * H + y) * W + x)) | c y x.
      c \<in> {0..<C} \<and> y \<in> {0..<H} \<and> x \<in> {0..<W}}" by blast
  finally show ?thesis by simp
qed

lemma pack_neon_stores: "set (pack_neon s C1 H W ws) = set (pack_scalar s (C1 * 8) H W 8 ws)"
proof -
  have "set (pack_neon s C1 H W ws) =
      {((c1 * H + y) * ws * 8 + (x * 8 + k), s ! (((c1 * 8 + k) * H + y) * W + x)) | c1 y x k.
         c1 < C1 \<and> y < H \<and> x < W \<and> k < 8}"
    unfolding pack_neon_def set_for_each neon_row_stores by fastforce
  also have "\<dots> = {(((c div 8 * H + y) * ws + x) * 8 + c mod 8, s ! ((c * H + y) * W + x)) | c y x.
      c < C1 * 8 \<and> y < H \<and> x < W}" (is "?a = ?b")
  proof (intro equalityI subsetI)
    fix e assume "e \<in> ?a"
    then obtain c1 y x k where e: "e = ((c1 * H + y) * ws * 8 + (x * 8 + k), s ! (((c1 * 8 + k) * H + y) * W + x))"
      "c1 < C1" "y < H" "x < W" "k < 8" by blast
    define c where "c = c1 * 8 + k"
    have c: "c div 8 = c1" "c mod 8 = k" "c < C1 * 8" using e(2,5) idx2_less[of c1 C1 k 8] by (simp_all add: c_def)
    have "e = (((c div 8 * H + y) * ws + x) * 8 + c mod 8, s ! ((c * H + y) * W + x))"
      unfolding e(1) c by (simp add: c_def algebra_simps)
    then show "e \<in> ?b" using c(3) e(3,4) by blast
  next
    fix e assume "e \<in> ?b"
    then obtain c y x where e: "e = (((c div 8 * H + y) * ws + x) * 8 + c mod 8, s ! ((c * H + y) * W + x))"
      "c < C1 * 8" "y < H" "x < W" by blast
    have "c = c div 8 * 8 + c mod 8" by simp
    then have "e = ((c div 8 * H + y) * ws * 8 + (x * 8 + c mod 8), s ! (((c div 8 * 8 + c mod 8) * H + y) * W + x))"
      unfolding e(1) by (simp add: algebra_simps)
    moreover have "c div 8 < C1" using e(2) by (simp add: less_mult_imp_div_less)
    moreover have "c mod 8 < 8" by simp
    ultimately show "e \<in> ?a" using e(3,4) by blast
  qed
  finally show ?thesis unfolding pack_scalar_stores .
qed

lemma pack_pos_inj:
  assumes "y < H" "y' < H" "x < ws" "x' < ws" "0 < C2"
  shows "((c div C2 * H + y) * ws + x) * C2 + c mod C2 = ((c' div C2 * H + y') * ws + x') * C2 + c' mod C2 \<longleftrightarrow>
    c = c' \<and> y = y' \<and> x = (x' :: nat)"
proof -
  have "c div C2 = c' div C2 \<and> c mod C2 = c' mod C2 \<longleftrightarrow> c = c'"
    by (metis div_mult_mod_eq)
  then show ?thesis using assms by (auto simp: idx2_inj idx3_inj)
qed

lemma pack_scalar_nth:
  assumes d: "C1 * H * ws * C2 \<le> length d" and ws: "W \<le> ws" and C2: "0 < C2"
    and p: "c1 < C1" "y < H" "x < ws" "c2 < C2"
  shows "writes (pack_scalar s C H W C2 ws) (put_at d 0 (replicate (C1 * H * ws * C2) 0)) ! (((c1 * H + y) * ws + x) * C2 + c2) =
    (if c1 * C2 + c2 < C \<and> x < W then s ! (((c1 * C2 + c2) * H + y) * W + x) else 0)"
proof -
  define c where "c = c1 * C2 + c2"
  define j where "j = ((c div C2 * H + y) * ws + x) * C2 + c mod C2"
  have c: "c div C2 = c1" "c mod C2 = c2" using p(4) by (simp_all add: c_def)
  have "j < C1 * H * ws * C2" unfolding j_def c using p by (intro idx2_less idx3_less)
  then have j: "j < length (put_at d 0 (replicate (C1 * H * ws * C2) 0))"
    and zero: "put_at d 0 (replicate (C1 * H * ws * C2) 0) ! j = 0"
    using d by (simp_all add: nth_put_at)
  have uniq: "v = s ! ((c * H + y) * W + x) \<and> c < C \<and> x < W" if "(j, v) \<in> set (pack_scalar s C H W C2 ws)" for v
  proof -
    from that obtain c' y' x' where e: "j = ((c' div C2 * H + y') * ws + x') * C2 + c' mod C2"
      "v = s ! ((c' * H + y') * W + x')" "c' < C" "y' < H" "x' < W" unfolding pack_scalar_stores by blast
    have "c = c' \<and> y = y' \<and> x = x'"
      using e(1,4,5) ws p(2,3) C2 pack_pos_inj[of y H y' x ws x' C2 c c'] by (simp add: j_def)
    with e show ?thesis by simp
  qed
  have "writes (pack_scalar s C H W C2 ws) (put_at d 0 (replicate (C1 * H * ws * C2) 0)) ! j =
      (if c < C \<and> x < W then s ! ((c * H + y) * W + x) else 0)"
  proof (cases "c < C \<and> x < W")
    case True
    have "(j, s ! ((c * H + y) * W + x)) \<in> set (pack_scalar s C H W C2 ws)"
      unfolding pack_scalar_stores j_def using True p(2) by blast
    from writes_nth[OF j this] uniq True show ?thesis by auto
  next
    case False
    then have "j \<notin> fst ` set (pack_scalar s C H W C2 ws)" using uniq by auto
    then show ?thesis using False zero by (auto simp: writes_other)
  qed
  from this[unfolded j_def c] show ?thesis unfolding c_def .
qed

lemma pack_scalar_outside:
  assumes "C1 * H * ws * C2 \<le> length d" and ws: "W \<le> ws" and C2: "0 < C2" and C: "C \<le> C1 * C2"
    and j: "C1 * H * ws * C2 \<le> j" "j < length d"
  shows "writes (pack_scalar s C H W C2 ws) (put_at d 0 (replicate (C1 * H * ws * C2) 0)) ! j = d ! j"
proof -
  have "j \<notin> fst ` set (pack_scalar s C H W C2 ws)"
  proof
    assume "j \<in> fst ` set (pack_scalar s C H W C2 ws)"
    then obtain c y x where e: "j = ((c div C2 * H + y) * ws + x) * C2 + c mod C2" "c < C" "y < H" "x < W"
      unfolding pack_scalar_stores by auto
    have "c div C2 < C1" using e(2) C by (simp add: less_mult_imp_div_less)
    then have "j < C1 * H * ws * C2" unfolding e(1) using e(3,4) ws C2 by (intro idx2_less idx3_less) auto
    then show False using j by simp
  qed
  then show ?thesis using assms by (simp add: writes_other nth_put_at)
qed

lemma pack_paths:
  assumes "W \<le> ws"
  shows "writes (pack_neon s C1 H W ws) d = writes (pack_scalar s (C1 * 8) H W 8 ws) d"
proof (rule writes_set_cong[OF pack_neon_stores])
  fix j v w assume "(j, v) \<in> set (pack_neon s C1 H W ws)" "(j, w) \<in> set (pack_neon s C1 H W ws)"
  then obtain c y x c' y' x' where
    "j = ((c div 8 * H + y) * ws + x) * 8 + c mod 8" "v = s ! ((c * H + y) * W + x)" "y < H" "x < W"
    "j = ((c' div 8 * H + y') * ws + x') * 8 + c' mod 8" "w = s ! ((c' * H + y') * W + x')" "y' < H" "x' < W"
    unfolding pack_neon_stores pack_scalar_stores by blast
  then show "v = w" using assms pack_pos_inj[of y H y' x ws x' 8 c c'] by simp
qed


lemma pack_result:
  assumes "0 < C" "0 < H" "0 < W" "0 < C2" and "ws = (if w_stride \<le> 0 then W else nat w_stride)" and "W \<le> ws"
    and "C1 = (C + C2 - 1) div C2"
  shows "nchw_f16_to_nc1hwc2 neon (Some s) (Some d) (int C) (int H) (int W) (int C2) w_stride =
    Some (writes (pack_scalar s C H W C2 ws) (put_at d 0 (replicate (C1 * H * ws * C2) 0)))"
proof -
  have "int C + int C2 - 1 = int (C + C2 - 1)" using assms(1) by simp
  then have C1: "nat ((int C + int C2 - 1) div int C2) = C1"
    unfolding assms(7) by (simp only: zdiv_int[symmetric] nat_int)
  have ws: "nat (if w_stride \<le> 0 then int W else w_stride) = ws" "\<not> (if w_stride \<le> 0 then int W else w_stride) < int W"
    using assms(5,6) by (auto simp: le_nat_iff)
  have paths: "writes (pack_neon s C1 H W ws) e = writes (pack_scalar s C H W C2 ws) e"
    if "int C2 = 8" "int C mod 8 = 0" for e
  proof -
    from that have c: "C2 = 8" "C mod 8 = 0" by presburger+
    have "(C + 8 - 1) div 8 * 8 = C" using c(2) by presburger
    then have "C1 * 8 = C" unfolding assms(7) c(1) .
    then show ?thesis using pack_paths[OF assms(6), of s C1 H e] c(1) by simp
  qed
  have "nchw_f16_to_nc1hwc2 neon (Some s) (Some d) (int C) (int H) (int W) (int C2) w_stride =
      (if neon \<and> int C2 = 8 \<and> int C mod 8 = 0
       then Some (writes (pack_neon s C1 H W ws) (put_at d 0 (replicate (C1 * H * ws * C2) 0)))
       else Some (writes (pack_scalar s C H W C2 ws) (put_at d 0 (replicate (C1 * H * ws * C2) 0))))"
    unfolding nchw_f16_to_nc1hwc2_def option.case prod.case Let_def C1 ws(1) nat_int using assms(1-4) ws(2) by simp
  then show ?thesis using paths by simp
qed

text \<open>
  C32. Both paths pack a tensor into the layout of the NPU in the same way: every element of the
  destination tensor is the source element of its channel, row and column, or zero when its channel
  or column is padding, and nothing behind the tensor changes.
\<close>

theorem pack_exact:
  fixes C H W C2 :: nat
  assumes "0 < C" "0 < H" "0 < W" "0 < C2" and "ws = (if w_stride \<le> 0 then W else nat w_stride)" and "W \<le> ws"
    and "C1 = (C + C2 - 1) div C2" and "C1 * H * ws * C2 \<le> length d"
  shows "\<exists>r. nchw_f16_to_nc1hwc2 neon (Some s) (Some d) (int C) (int H) (int W) (int C2) w_stride = Some r \<and>
    length r = length d \<and>
    (\<forall>c1 < C1. \<forall>y < H. \<forall>x < ws. \<forall>c2 < C2. r ! (((c1 * H + y) * ws + x) * C2 + c2) =
       (if c1 * C2 + c2 < C \<and> x < W then s ! (((c1 * C2 + c2) * H + y) * W + x) else 0)) \<and>
    (\<forall>j. C1 * H * ws * C2 \<le> j \<longrightarrow> j < length d \<longrightarrow> r ! j = d ! j)"
proof -
  let ?r = "writes (pack_scalar s C H W C2 ws) (put_at d 0 (replicate (C1 * H * ws * C2) 0))"
  have "(C1 - 1) * C2 + C2 = C1 * C2" if "0 < C1" using that by (cases C1) auto
  have "C \<le> C1 * C2"
  proof -
    have "C + C2 - 1 = C1 * C2 + (C + C2 - 1) mod C2" unfolding assms(7) by simp
    moreover have "(C + C2 - 1) mod C2 < C2" using assms(4) by simp
    ultimately show ?thesis using assms(1) by linarith
  qed
  with assms show ?thesis
    using pack_scalar_nth[of C1 H ws C2 d W] pack_scalar_outside[of C1 H ws C2 d W C]
    by (intro exI[of _ ?r]) (simp add: pack_result)
qed

lemma pack_exact_witness:
  "\<exists>r. nchw_f16_to_nc1hwc2 True (Some [1, 2, 3]) (Some [9, 9, 9, 9, 9]) (int 3) (int 1) (int 1) (int 2) 0 = Some r \<and>
     r ! 0 = 1 \<and> r ! 1 = 2 \<and> r ! 2 = 3 \<and> r ! 3 = 0 \<and> r ! 4 = 9"
proof -
  obtain r where r: "nchw_f16_to_nc1hwc2 True (Some [1, 2, 3]) (Some [9, 9, 9, 9, 9]) (int 3) (int 1) (int 1) (int 2) 0 = Some r"
    and v: "\<And>c1 c2. c1 < 2 \<Longrightarrow> c2 < 2 \<Longrightarrow> r ! (c1 * 2 + c2) = (if c1 * 2 + c2 < 3 then [1, 2, 3] ! (c1 * 2 + c2) else 0)"
    and o: "r ! 4 = 9"
    using pack_exact[of 3 1 1 2 1 0 2 "[9, 9, 9, 9, 9]" True "[1, 2, 3]"] by force
  show ?thesis using r o v[of 0 0] v[of 0 1] v[of 1 0] v[of 1 1] by simp
qed


section \<open>Depth to space\<close>

lemma d2s_stores:
  "nchw_d2s_dcr_f16 src dst OC H W bs =
     writes (for_each [0..<OC] (\<lambda>c. for_each [0..<H * bs] (\<lambda>y. map (\<lambda>x.
       ((c * (H * bs) + y) * (W * bs) + x,
        src ! ((((y mod bs * bs + x mod bs) * OC + c) * H + y div bs) * W + x div bs))) [0..<W * bs]))) dst"
  by (simp add: nchw_d2s_dcr_f16_def Let_def)

text \<open>The same stores with the offsets in place of their array, and when the array holds them.\<close>

definition d2s_plain :: "u16 list \<Rightarrow> u16 list \<Rightarrow> nat \<Rightarrow> nat \<Rightarrow> nat \<Rightarrow> nat \<Rightarrow> nat \<Rightarrow> u16 list" where
  "d2s_plain src out C1 H W C2 bs =
     (let oc = C1 * C2 div (bs * bs); oh = H * bs; ow = W * bs
      in writes (for_each [0..<oc] (\<lambda>c. for_each [0..<bs] (\<lambda>dy.
           for_each [0..<H] (\<lambda>h. for_each [0..<W] (\<lambda>w. map (\<lambda>dx.
             let ic = dy * (bs * oc) + dx * oc + c
             in ((c * oh + h * bs + dy) * ow + (w * bs + dx),
                 src ! (h * W * C2 + (w * C2 + ((ic div C2) * H * W * C2 + ic mod C2))))) [0..<bs]))))) out)"

lemma choff_fill_fits:
  "n \<le> 16 \<Longrightarrow> \<exists>t. choff_fill off n = Some t \<and> length t = 16 \<and> (\<forall>i < n. t ! i = off i)"
proof (induction n)
  case (Suc n)
  then obtain t where t: "choff_fill off n = Some t" "length t = 16" "\<forall>i < n. t ! i = off i" by auto
  then have "\<forall>i < Suc n. t[n := off n] ! i = off i" using Suc.prems by (auto simp: less_Suc_eq nth_list_update)
  then show ?case using t Suc.prems by simp
qed simp

lemma choff_fill_overflow: "16 < n \<Longrightarrow> choff_fill off n = None"
proof (induction n)
  case (Suc n)
  show ?case
  proof (cases "16 < n")
    case False
    then have "n = 16" using Suc.prems by simp
    moreover obtain t where "choff_fill off 16 = Some t" "length t = 16" using choff_fill_fits [of 16 off] by auto
    ultimately show ?thesis unfolding choff_fill.simps(2) by simp
  qed (simp add: Suc.IH)
qed simp

lemma those_map_Some: "(\<And>x. x \<in> set xs \<Longrightarrow> f x = Some (g x)) \<Longrightarrow> those (map f xs) = Some (map g xs)"
  by (induction xs) simp_all

lemma those_None: "x \<in> set xs \<Longrightarrow> f x = None \<Longrightarrow> those (map f xs) = None"
  by (induction xs) (auto split: option.splits)

lemma for_each_product: "concat (map g (List.product xs ys)) = for_each xs (\<lambda>x. for_each ys (\<lambda>y. g (x, y)))"
  by (induction xs) (simp_all add: for_each_def o_def)

lemma nc1hwc2_d2s_plain:
  "nc1hwc2_d2s_dcr_f16 src out C1 H W C2 bs =
     (if bs \<le> 16 \<or> C1 * C2 div (bs * bs) = 0 then Some (d2s_plain src out C1 H W C2 bs) else None)"
proof -
  define oc where "oc = C1 * C2 div (bs * bs)"
  define g where "g = (\<lambda>(c, dy). for_each [0..<H] (\<lambda>h. for_each [0..<W] (\<lambda>w. map (\<lambda>dx.
             let ic = dy * (bs * oc) + dx * oc + c
             in ((c * (H * bs) + h * bs + dy) * (W * bs) + (w * bs + dx),
                 src ! (h * W * C2 + (w * C2 + ((ic div C2) * H * W * C2 + ic mod C2))))) [0..<bs])))"
  have plain: "d2s_plain src out C1 H W C2 bs = writes (concat (map g (List.product [0..<oc] [0..<bs]))) out"
    unfolding for_each_product g_def prod.case d2s_plain_def Let_def oc_def ..
  show ?thesis
  proof (cases "bs \<le> 16 \<or> oc = 0")
    case True
    have "d2s_group src oc H W C2 bs x = Some (g x)" if "x \<in> set (List.product [0..<oc] [0..<bs])" for x
    proof -
      obtain c dy where x: "x = (c, dy)" by force
      have "bs \<le> 16" using True that by (auto simp: x)
      from choff_fill_fits [OF this, of "\<lambda>dx. let ic = dy * (bs * oc) + dx * oc + c in (ic div C2) * H * W * C2 + ic mod C2"]
      obtain t where t: "choff_fill (\<lambda>dx. let ic = dy * (bs * oc) + dx * oc + c in (ic div C2) * H * W * C2 + ic mod C2) bs = Some t"
        "\<forall>i < bs. t ! i = (let ic = dy * (bs * oc) + i * oc + c in (ic div C2) * H * W * C2 + ic mod C2)" by blast
      show ?thesis
        unfolding x d2s_group_def g_def prod.case Let_def t(1) [unfolded Let_def] option.map for_each_def
        by (intro arg_cong [of _ _ Some] arg_cong [of _ _ concat] map_cong refl) (simp add: t(2) Let_def)
    qed
    then have "those (map (d2s_group src oc H W C2 bs) (List.product [0..<oc] [0..<bs])) = Some (map g (List.product [0..<oc] [0..<bs]))"
      by (rule those_map_Some)
    then show ?thesis
      using True unfolding nc1hwc2_d2s_dcr_f16_def Let_def oc_def [symmetric] plain by simp
  next
    case False
    then have "(0, 0) \<in> set (List.product [0..<oc] [0..<bs])" "d2s_group src oc H W C2 bs (0, 0) = None"
      by (auto simp: d2s_group_def Let_def choff_fill_overflow)
    then have "those (map (d2s_group src oc H W C2 bs) (List.product [0..<oc] [0..<bs])) = None" by (rule those_None)
    then show ?thesis
      using False unfolding nc1hwc2_d2s_dcr_f16_def Let_def oc_def [symmetric] by simp
  qed
qed

lemma fused_stores:
  fixes C1 C2 bs :: nat
  assumes "oc = C1 * C2 div (bs * bs)" and C2: "0 < C2" and ws: "\<And>c y x. c < C1 * C2 \<Longrightarrow> y < H \<Longrightarrow> x < W \<Longrightarrow>
      mid ! (((c div C2 * H + y) * W + x) * C2 + c mod C2) = s ! ((c * H + y) * W + x)"
    and div: "oc * (bs * bs) = C1 * C2"
  shows "d2s_plain mid out C1 H W C2 bs =
     writes (for_each [0..<oc] (\<lambda>c. for_each [0..<bs] (\<lambda>dy. for_each [0..<H] (\<lambda>h. for_each [0..<W] (\<lambda>w. map (\<lambda>dx.
       ((c * (H * bs) + h * bs + dy) * (W * bs) + (w * bs + dx),
        s ! ((((dy * bs + dx) * oc + c) * H + h) * W + w))) [0..<bs]))))) out"
proof -
  have src: "mid ! (h * W * C2 + (w * C2 + ((dy * (bs * oc) + dx * oc + c) div C2 * H * W * C2 +
        (dy * (bs * oc) + dx * oc + c) mod C2))) =
      s ! ((((dy * bs + dx) * oc + c) * H + h) * W + w)"
    if "c < oc" "dy < bs" "h < H" "w < W" "dx < bs" for c dy h w dx
  proof -
    define ic where "ic = (dy * bs + dx) * oc + c"
    have ic': "dy * (bs * oc) + dx * oc + c = ic" by (simp add: ic_def algebra_simps)
    have "ic < bs * bs * oc" unfolding ic_def using that by (intro idx2_less)
    then have ic: "ic < C1 * C2" using div by (simp add: mult.commute)
    have "h * W * C2 + (w * C2 + (ic div C2 * H * W * C2 + ic mod C2)) = ((ic div C2 * H + h) * W + w) * C2 + ic mod C2"
      by (simp add: algebra_simps)
    then show ?thesis using ws[OF ic that(3,4)] unfolding ic' by (simp only: ic_def[symmetric])
  qed
  show ?thesis
    unfolding d2s_plain_def Let_def assms(1)[symmetric] for_each_def
    by (intro arg_cong[of _ _ "\<lambda>l. writes l out"] arg_cong[of _ _ concat] map_cong refl)
      (simp add: src)
qed

lemma d2s_pair: "dy < bs \<Longrightarrow> (h * bs + dy) div bs = h \<and> (h * bs + dy) mod bs = (dy :: nat)"
  by simp

lemma d2s_unpair: "y < H * bs \<Longrightarrow> y div bs < H \<and> y mod bs < bs \<and> y div bs * bs + y mod bs = (y :: nat)"
proof -
  assume y: "y < H * bs"
  then have "0 < bs" by (cases bs) auto
  then show ?thesis using y by (simp add: less_mult_imp_div_less)
qed

lemma d2s_fused_eq:
  fixes H W bs OC C2 :: nat
  assumes pos: "0 < C2" "0 < bs" and C: "C1 * C2 = OC * (bs * bs)"
    and mid: "\<And>c y x. c < C1 * C2 \<Longrightarrow> y < H \<Longrightarrow> x < W \<Longrightarrow>
      mid ! (((c div C2 * H + y) * W + x) * C2 + c mod C2) = s ! ((c * H + y) * W + x)"
  shows "d2s_plain mid out C1 H W C2 bs = nchw_d2s_dcr_f16 s out OC H W bs"
proof -
  have oc: "OC = C1 * C2 div (bs * bs)" using C pos(2) by simp
  let ?val = "\<lambda>c y x. s ! ((((y mod bs * bs + x mod bs) * OC + c) * H + y div bs) * W + x div bs)"
  let ?plain = "for_each [0..<OC] (\<lambda>c. for_each [0..<H * bs] (\<lambda>y. map (\<lambda>x.
      ((c * (H * bs) + y) * (W * bs) + x, ?val c y x)) [0..<W * bs]))"
  let ?fused = "for_each [0..<OC] (\<lambda>c. for_each [0..<bs] (\<lambda>dy. for_each [0..<H] (\<lambda>h. for_each [0..<W] (\<lambda>w. map (\<lambda>dx.
       ((c * (H * bs) + h * bs + dy) * (W * bs) + (w * bs + dx),
        s ! ((((dy * bs + dx) * OC + c) * H + h) * W + w))) [0..<bs]))))"
  have plain: "set ?plain = {((c * (H * bs) + y) * (W * bs) + x, ?val c y x) | c y x. c < OC \<and> y < H * bs \<and> x < W * bs}"
  proof -
    have "set ?plain = (\<Union>c \<in> {0..<OC}. \<Union>y \<in> {0..<H * bs}. (\<lambda>x. ((c * (H * bs) + y) * (W * bs) + x, ?val c y x)) ` {0..<W * bs})"
      by (simp only: set_for_each set_map set_upt)
    also have "\<dots> = {((c * (H * bs) + y) * (W * bs) + x, ?val c y x) | c y x.
        c \<in> {0..<OC} \<and> y \<in> {0..<H * bs} \<and> x \<in> {0..<W * bs}}" by blast
    finally show ?thesis by simp
  qed
  have "set ?fused = set ?plain"
    unfolding plain
  proof (intro equalityI subsetI)
    fix e assume "e \<in> set ?fused"
    then have "e \<in> (\<Union>c \<in> {0..<OC}. \<Union>dy \<in> {0..<bs}. \<Union>h \<in> {0..<H}. \<Union>w \<in> {0..<W}.
        (\<lambda>dx. ((c * (H * bs) + h * bs + dy) * (W * bs) + (w * bs + dx),
          s ! ((((dy * bs + dx) * OC + c) * H + h) * W + w))) ` {0..<bs})"
      by (simp only: set_for_each set_map set_upt)
    then obtain c dy h w dx where e: "e = ((c * (H * bs) + h * bs + dy) * (W * bs) + (w * bs + dx),
        s ! ((((dy * bs + dx) * OC + c) * H + h) * W + w))" "c < OC" "dy < bs" "h < H" "w < W" "dx < bs"
      by (auto simp only: UN_iff image_iff atLeastLessThan_iff)
    have "e = ((c * (H * bs) + (h * bs + dy)) * (W * bs) + (w * bs + dx), ?val c (h * bs + dy) (w * bs + dx))"
      using e d2s_pair[of dy bs h] d2s_pair[of dx bs w] by (simp add: add.assoc)
    moreover have "h * bs + dy < H * bs" "w * bs + dx < W * bs" using e by (auto intro: idx2_less)
    ultimately show "e \<in> {((c * (H * bs) + y) * (W * bs) + x, ?val c y x) | c y x. c < OC \<and> y < H * bs \<and> x < W * bs}"
      using e(2)
      by (intro CollectI exI[of _ c] exI[of _ "h * bs + dy"] exI[of _ "w * bs + dx"] conjI)
  next
    fix e assume "e \<in> {((c * (H * bs) + y) * (W * bs) + x, ?val c y x) | c y x. c < OC \<and> y < H * bs \<and> x < W * bs}"
    then obtain c y x where e: "e = ((c * (H * bs) + y) * (W * bs) + x, ?val c y x)" "c < OC" "y < H * bs" "x < W * bs" by blast
    note yx = d2s_unpair[OF e(3)] d2s_unpair[OF e(4)]
    have img: "e \<in> (\<lambda>dx. ((c * (H * bs) + y div bs * bs + y mod bs) * (W * bs) + (x div bs * bs + dx),
          s ! ((((y mod bs * bs + dx) * OC + c) * H + y div bs) * W + x div bs))) ` {0..<bs}"
      using yx unfolding e(1) by (intro image_eqI[of _ _ "x mod bs"]) (auto simp: add.assoc)
    have hs: "c \<in> {0..<OC}" "y mod bs \<in> {0..<bs}" "y div bs \<in> {0..<H}" "x div bs \<in> {0..<W}"
      using e(2) yx by simp_all
    show "e \<in> set ?fused" unfolding set_for_each set_map set_upt
      by (rule UN_I[OF hs(1)], rule UN_I[OF hs(2)], rule UN_I[OF hs(3)], rule UN_I[OF hs(4)], rule img)
  qed
  then have "writes ?plain out = writes ?fused out"
  proof (intro writes_set_cong)
    fix j v w assume "(j, v) \<in> set ?plain" "(j, w) \<in> set ?plain"
    then obtain c y x c' y' x' where
      "j = (c * (H * bs) + y) * (W * bs) + x" "v = ?val c y x" "y < H * bs" "x < W * bs"
      "j = (c' * (H * bs) + y') * (W * bs) + x'" "w = ?val c' y' x'" "y' < H * bs" "x' < W * bs"
      unfolding plain by blast
    then show "v = w" using idx3_inj[of y "H * bs" y' x "W * bs" x' c c'] by simp
  qed simp
  moreover have "d2s_plain mid out C1 H W C2 bs = writes ?fused out"
    by (rule fused_stores[OF oc pos(1) mid C[symmetric]])
  ultimately show ?thesis unfolding d2s_stores by (rule trans[OF _ sym, rotated])
qed

text \<open>
  C33. Packing a tensor for the NPU and rearranging depth into space from the packed layout gives the
  same output as rearranging the plain tensor, for every block size up to 16 and every channel split
  without padding. A larger block size overruns the array of 16 offsets of the fused routine.
\<close>

theorem d2s_fused:
  fixes C H W C2 bs OC :: nat
  assumes "0 < C" "0 < H" "0 < W" "0 < C2" "0 < bs" and C: "C = OC * (bs * bs)" "C = C1 * C2"
    and len: "C1 * H * W * C2 \<le> length d"
    and mid: "nchw_f16_to_nc1hwc2 neon (Some s) (Some d) (int C) (int H) (int W) (int C2) 0 = Some mid"
  shows "nc1hwc2_d2s_dcr_f16 mid out C1 H W C2 bs = (if bs \<le> 16 then Some (nchw_d2s_dcr_f16 s out OC H W bs) else None)"
proof -
  have "d2s_plain mid out C1 H W C2 bs = nchw_d2s_dcr_f16 s out OC H W bs"
  proof (rule d2s_fused_eq)
    have "(C1 * C2 + C2 - 1) div C2 = C1"
    proof -
      have "C1 * C2 + C2 - 1 = C2 - 1 + C1 * C2" using assms(4) by simp
      also have "\<dots> div C2 = C1" using assms(4) by (subst div_mult_self1) auto
      finally show ?thesis .
    qed
    then have m: "mid = writes (pack_scalar s C H W C2 W) (put_at d 0 (replicate (C1 * H * W * C2) 0))"
      using mid pack_result[OF assms(1-4), of W 0 C1 neon s d] C by simp
    fix c y x assume p: "c < C1 * C2" "y < H" "x < W"
    have "c div C2 < C1" "c mod C2 < C2" using p(1) assms(4) by (simp_all add: less_mult_imp_div_less)
    then show "mid ! (((c div C2 * H + y) * W + x) * C2 + c mod C2) = s ! ((c * H + y) * W + x)"
      using pack_scalar_nth[OF len order_refl assms(4), of "c div C2" y x "c mod C2" s C] p C by (simp add: m)
  qed (use assms in auto)
  moreover have "C1 * C2 div (bs * bs) = OC" using C assms(5) by simp
  moreover have "OC \<noteq> 0" using C(1) assms(1) by (cases OC) simp_all
  ultimately show ?thesis unfolding nc1hwc2_d2s_plain by simp
qed

lemma d2s_fused_witness:
  "nc1hwc2_d2s_dcr_f16 [1, 3, 2, 4, 5, 7, 6, 8] (replicate 8 0) 2 1 2 2 2 =
     Some (nchw_d2s_dcr_f16 [1, 2, 3, 4, 5, 6, 7, 8] (replicate 8 0) 1 1 2 2)"
proof -
  have m: "nchw_f16_to_nc1hwc2 True (Some [1, 2, 3, 4, 5, 6, 7, 8]) (Some (replicate 8 9)) (int 4) (int 1) (int 2) (int 2) 0 =
      Some [1, 3, 2, 4, 5, 7, 6, 8]"
    by code_simp
  have "nc1hwc2_d2s_dcr_f16 [1, 3, 2, 4, 5, 7, 6, 8] (replicate 8 0) 2 1 2 2 2 =
     (if (2 :: nat) \<le> 16 then Some (nchw_d2s_dcr_f16 [1, 2, 3, 4, 5, 6, 7, 8] (replicate 8 0) 1 1 2 2) else None)"
    by (rule d2s_fused [OF _ _ _ _ _ _ _ _ m]) simp_all
  then show ?thesis by simp
qed

section \<open>The scale indices\<close>

lemma neon_cells_eq: "neon_cells y v0 v1 x xe = chk_cells y v0 v1 x xe"
proof (induction y v0 v1 x xe rule: neon_cells.induct)
  case (1 y v0 v1 x xe)
  show ?case
  proof (cases "x + 4 \<le> xe")
    case True
    have p: "(y XOR x) AND 1 = 0 \<longleftrightarrow> y mod 2 = x mod 2"
      by (simp add: and_one_eq even_xor_iff even_iff_mod_2_eq_zero[symmetric]) (simp add: mod2_eq_if)
    have four: "[0..<4] = [0, 1, 2, 3 :: nat]" by (simp add: upt_rec)
    have par: "y mod 2 = (x + 1) mod 2 \<longleftrightarrow> y mod 2 \<noteq> x mod 2" "y mod 2 = (x + 2) mod 2 \<longleftrightarrow> y mod 2 = x mod 2"
      "y mod 2 = (x + 3) mod 2 \<longleftrightarrow> y mod 2 \<noteq> x mod 2"
      by (auto simp: mod2_eq_if)
    have nth: "[a, b, c, d] ! 0 = a" "[a, b, c, d] ! 1 = b" "[a, b, c, d] ! 2 = c" "[a, b, c, d] ! 3 = d" for a b c d :: int
      by simp_all
    have "chk_cells y v0 v1 x xe = chk_cells y v0 v1 x (x + 4) @ chk_cells y v0 v1 (x + 4) xe"
    proof -
      have "[x..<xe] = [x..<x + 4] @ [x + 4..<xe]"
        using True upt_add_eq_append[of x "x + 4" "xe - (x + 4)"] by simp
      then show ?thesis unfolding chk_cells_def by (simp only: map_append)
    qed
    moreover have "chk_cells y v0 v1 x (x + 4) = (if y mod 2 = x mod 2 then vst1q_s32 x [v0, v1, v0, v1] [v1, v0, v1, v0]
        else vst1q_s32 x [v1, v0, v1, v0] [v0, v1, v0, v1])"
    proof -
      have cols: "[x..<x + 4] = [x, x + 1, x + 2, x + 3]" by (simp add: upt_rec)
      show ?thesis
        unfolding chk_cells_def vst1q_s32_def cols four Let_def list.map par nth add_0_right
        by (cases "y mod 2 = x mod 2") (simp_all only: if_True if_False simp_thms)
    qed
    ultimately show ?thesis using 1[OF True] True p by (subst neon_cells.simps) (simp add: Let_def)
  next
    case False
    then show ?thesis by (subst neon_cells.simps) simp
  qed
qed

lemma tiles_cover:
  assumes "0 < s"
  shows "y0 \<in> set (tiles n s) \<and> y0 \<le> y \<and> y < (if y0 + s > n then n else y0 + s) \<longleftrightarrow> y < n \<and> y0 = y div s * (s :: nat)"
proof
  assume a: "y0 \<in> set (tiles n s) \<and> y0 \<le> y \<and> y < (if y0 + s > n then n else y0 + s)"
  then obtain k where k: "y0 = k * s" by (auto simp: tiles_def)
  have "y < y0 + s" "y < n" using a by (auto split: if_splits)
  then have "y div s = k" using a k assms by (metis div_nat_eqI mult.commute mult_Suc add.commute)
  then show "y < n \<and> y0 = y div s * s" using k \<open>y < n\<close> by simp
next
  assume a: "y < n \<and> y0 = y div s * s"
  have "y div s < (n + s - 1) div s"
  proof -
    have "y + s \<le> n + s - 1" using a by linarith
    then have "(y + s) div s \<le> (n + s - 1) div s" by (rule div_le_mono)
    moreover have "(y + s) div s = y div s + 1" using assms by (intro div_add_self2) simp
    ultimately show ?thesis by linarith
  qed
  then have "y0 \<in> set (tiles n s)" using a by (auto simp: tiles_def)
  moreover have "y div s * s \<le> y" "y < y div s * s + s"
    using assms dividend_less_div_times[OF assms, of y] by (simp_all add: add.commute)
  ultimately show "y0 \<in> set (tiles n s) \<and> y0 \<le> y \<and> y < (if y0 + s > n then n else y0 + s)" using a by auto
qed

lemma clamp_abs_scale_eq: "clamp_abs_scale v m = min \<bar>v\<bar> m"
  by (auto simp: clamp_abs_scale_def Let_def)

text \<open>The scale of the checkerboard half \<open>c\<close> at row \<open>y\<close> and column \<open>x\<close>.\<close>

definition scale_at :: "int list \<Rightarrow> nat \<Rightarrow> nat \<Rightarrow> nat \<Rightarrow> nat \<Rightarrow> int \<Rightarrow> nat \<Rightarrow> nat \<Rightarrow> nat \<Rightarrow> int" where
  "scale_at z ZH ZW cr sr m c y x =
     min \<bar>z ! ((c div cr * ZH + min (y div sr) (ZH - 1)) * ZW + min (x div sr) (ZW - 1))\<bar> m"

definition scale_store where
  "scale_store z YC YH YW ZH ZW cr sr m c y x =
     (let a = scale_at z ZH ZW cr sr m c y x; b = scale_at z ZH ZW cr sr m (c + YC) y x; even = (y mod 2 = x mod 2)
      in ((c * YH + y) * YW + x, if even then a else b, if even then b else a))"

lemma scale_stores_set:
  assumes "0 < sr"
  shows "set (scale_stores neon z YC YH YW ZH ZW cr sr m) =
    {scale_store z YC YH YW ZH ZW cr sr m c y x | c y x. c < YC \<and> y < YH \<and> x < YW}"
proof -
  have cells: "(if neon then neon_cells else chk_cells) = chk_cells" by (auto simp: neon_cells_eq fun_eq_iff)
  define E where "E n y0 = (if y0 + sr > n then n else y0 + sr)" for n y0
  define F where "F c y0 x0 y x =
    (let zy = (if y0 div sr \<ge> ZH then ZH - 1 else y0 div sr); zx = (if x0 div sr \<ge> ZW then ZW - 1 else x0 div sr);
         v0 = clamp_abs_scale (z ! (c div cr * ZH * ZW + zy * ZW + zx)) m;
         v1 = clamp_abs_scale (z ! ((c + YC) div cr * ZH * ZW + zy * ZW + zx)) m; chk = (y mod 2 = x mod 2)
     in (c * YH * YW + y * YW + x, if chk then v0 else v1, if chk then v1 else v0))" for c y0 x0 y x
  have S: "set (scale_stores neon z YC YH YW ZH ZW cr sr m) =
      (\<Union>c \<in> {0..<YC}. \<Union>y0 \<in> set (tiles YH sr). \<Union>x0 \<in> set (tiles YW sr). \<Union>y \<in> {y0..<E YH y0}.
         F c y0 x0 y ` {x0..<E YW x0})"
    unfolding scale_stores_def cells Let_def set_for_each chk_cells_def set_map set_upt image_image prod.case F_def E_def
    by (rule refl)
  have F: "F c (y div sr * sr) (x div sr * sr) y x = scale_store z YC YH YW ZH ZW cr sr m c y x" for c y x
  proof -
    have mn: "(if v \<ge> Z then Z - 1 else v) = min v (Z - 1)" for v Z :: nat by auto
    have dv: "y div sr * sr div sr = y div sr" "x div sr * sr div sr = x div sr" using assms by simp_all
    have ix: "a * ZH * ZW + v * ZW + w = (a * ZH + v) * ZW + w" "c * YH * YW + y * YW + x = (c * YH + y) * YW + x" for a v w
      by (simp_all only: add_mult_distrib)
    show ?thesis
      unfolding F_def scale_store_def scale_at_def Let_def clamp_abs_scale_eq by (simp only: mn dv ix)
  qed
  show ?thesis
  proof (intro equalityI subsetI)
    fix e assume "e \<in> set (scale_stores neon z YC YH YW ZH ZW cr sr m)"
    then obtain c y0 x0 y x where e: "e = F c y0 x0 y x" "c < YC" "y0 \<in> set (tiles YH sr)" "y0 \<le> y" "y < E YH y0"
      "x0 \<in> set (tiles YW sr)" "x0 \<le> x" "x < E YW x0"
      unfolding S by (auto simp only: UN_iff image_iff atLeastLessThan_iff)
    have "y < YH \<and> y0 = y div sr * sr"
      by (rule iffD1[OF tiles_cover[OF assms]]) (use e in \<open>simp only: E_def simp_thms\<close>)
    moreover have "x < YW \<and> x0 = x div sr * sr"
      by (rule iffD1[OF tiles_cover[OF assms]]) (use e in \<open>simp only: E_def simp_thms\<close>)
    ultimately have "y < YH" "y0 = y div sr * sr" "x < YW" "x0 = x div sr * sr" by blast+
    then show "e \<in> {scale_store z YC YH YW ZH ZW cr sr m c y x | c y x. c < YC \<and> y < YH \<and> x < YW}"
      using e(1,2) F by blast
  next
    fix e assume "e \<in> {scale_store z YC YH YW ZH ZW cr sr m c y x | c y x. c < YC \<and> y < YH \<and> x < YW}"
    then obtain c y x where e: "e = F c (y div sr * sr) (x div sr * sr) y x" "c < YC" "y < YH" "x < YW"
      unfolding F by blast
    have t: "y div sr * sr \<in> set (tiles YH sr)" "y \<in> {y div sr * sr..<E YH (y div sr * sr)}"
      "x div sr * sr \<in> set (tiles YW sr)" "x \<in> {x div sr * sr..<E YW (x div sr * sr)}"
      using e(3,4) tiles_cover[OF assms, of "y div sr * sr" YH y] tiles_cover[OF assms, of "x div sr * sr" YW x]
      by (simp_all add: E_def)
    have c: "c \<in> {0..<YC}" using e(2) by simp
    show "e \<in> set (scale_stores neon z YC YH YW ZH ZW cr sr m)"
      unfolding S by (rule UN_I[OF c], rule UN_I[OF t(1)], rule UN_I[OF t(3)], rule UN_I[OF t(2)], simp only: e(1), rule imageI[OF t(4)])
  qed
qed


lemma scale_reads_in_bounds:
  assumes "0 < cr" "2 * YC \<le> ZC * cr" "c < 2 * YC" "0 < ZH" "0 < ZW"
  shows "(c div cr * ZH + min (y div sr) (ZH - 1)) * ZW + min (x div sr) (ZW - 1) < ZC * ZH * (ZW :: nat)"
proof (rule idx3_less)
  have "c < ZC * cr" using assms(2,3) by simp
  then show "c div cr < ZC" by (rule less_mult_imp_div_less)
qed (use assms in auto)

lemma extract_scales_cells:
  fixes YC YH YW ZC ZH ZW cr sr :: nat
  assumes pos: "0 < YC" "0 < YH" "0 < YW" "0 < ZC" "0 < ZH" "0 < ZW" "0 < cr" "0 < sr" "0 \<le> m"
    and len: "length z = ZC * ZH * ZW" "length p0 = YC * YH * YW" "length p1 = YC * YH * YW"
  shows "case extract_scales neon (Some z) (Some p0) (Some p1) (int YC) (int YH) (int YW) (int ZC) (int ZH) (int ZW) (int cr) (int sr) m of
      (st, t0, t1) \<Rightarrow>
        if 2 * YC \<le> ZC * cr
        then st = Ok \<and> (\<exists>q0 q1. t0 = Some q0 \<and> t1 = Some q1 \<and> length q0 = YC * YH * YW \<and> length q1 = YC * YH * YW \<and>
          (\<forall>c < YC. \<forall>y < YH. \<forall>x < YW.
             (let a = scale_at z ZH ZW cr sr m c y x; b = scale_at z ZH ZW cr sr m (c + YC) y x; i = (c * YH + y) * YW + x
              in {a, b} \<subseteq> (\<lambda>v. min \<bar>v\<bar> m) ` set z \<and>
                 q0 ! i = (if even (x + y) then a else b) \<and> q1 ! i = (if even (x + y) then b else a))))
        else st = Invalid \<and> t0 = Some p0 \<and> t1 = Some p1"
proof -
  have need: "(2 * int YC + int cr - 1) div int cr > int ZC \<longleftrightarrow> \<not> 2 * YC \<le> ZC * cr"
  proof -
    have "2 * int YC + int cr - 1 = int (2 * YC + cr - 1)" using pos(1) by simp
    then have "(2 * int YC + int cr - 1) div int cr = int ((2 * YC + cr - 1) div cr)" by (simp only: zdiv_int)
    moreover have "(2 * YC + cr - 1) div cr \<le> ZC \<longleftrightarrow> 2 * YC \<le> ZC * cr"
    proof -
      have "(2 * YC + cr - 1) div cr < Suc ZC \<longleftrightarrow> 2 * YC + cr - 1 < Suc ZC * cr"
        using pos(7) by (simp only: div_less_iff_less_mult)
      then show ?thesis using pos(7) by (simp add: less_Suc_eq_le) linarith
    qed
    ultimately show ?thesis by linarith
  qed
  define S where "S = scale_stores neon z YC YH YW ZH ZW cr sr m"
  have run: "extract_scales neon (Some z) (Some p0) (Some p1) (int YC) (int YH) (int YW) (int ZC) (int ZH) (int ZW) (int cr) (int sr) m =
    (if 2 * YC \<le> ZC * cr
     then (Ok, Some (writes (map (\<lambda>(i, a, b). (i, a)) S) p0), Some (writes (map (\<lambda>(i, a, b). (i, b)) S) p1))
     else (Invalid, Some p0, Some p1))"
    unfolding extract_scales_def option.case prod.case need Let_def nat_int S_def using pos by simp
  show ?thesis
  proof (cases "2 * YC \<le> ZC * cr")
    case True
    have at: "writes (map (\<lambda>(i, a, b). (i, f a b)) S) p ! ((c * YH + y) * YW + x) =
        (let e = scale_store z YC YH YW ZH ZW cr sr m c y x in f (fst (snd e)) (snd (snd e)))"
      if p: "length p = YC * YH * YW" and i: "c < YC" "y < YH" "x < YW" for f :: "int \<Rightarrow> int \<Rightarrow> int" and p c y x
    proof (rule writes_nth)
      let ?ss = "scale_store z YC YH YW ZH ZW cr sr m"
      have pos': "fst (?ss c y x) = (c * YH + y) * YW + x" for c y x by (simp add: scale_store_def Let_def)
      have elems: "set (map (\<lambda>(i, a, b). (i, f a b)) S) =
          {(fst (?ss c y x), f (fst (snd (?ss c y x))) (snd (snd (?ss c y x)))) | c y x. c < YC \<and> y < YH \<and> x < YW}"
        unfolding S_def set_map scale_stores_set[OF pos(8)] split_beta by blast
      show "(c * YH + y) * YW + x < length p" unfolding p by (rule idx3_less[OF i])
      show "((c * YH + y) * YW + x, let e = ?ss c y x in f (fst (snd e)) (snd (snd e))) \<in>
          set (map (\<lambda>(i, a, b). (i, f a b)) S)"
        unfolding elems Let_def pos' using i by blast
      fix v assume "((c * YH + y) * YW + x, v) \<in> set (map (\<lambda>(i, a, b). (i, f a b)) S)"
      then obtain c' y' x' where e: "(c * YH + y) * YW + x = (c' * YH + y') * YW + x'"
        "v = f (fst (snd (?ss c' y' x'))) (snd (snd (?ss c' y' x')))" "y' < YH" "x' < YW"
        unfolding elems pos' by blast
      then show "v = (let e = ?ss c y x in f (fst (snd e)) (snd (snd e)))"
        using idx3_inj[of y YH y' x YW x' c c'] i by (simp add: Let_def)
    qed
    have reads: "scale_at z ZH ZW cr sr m c y x \<in> (\<lambda>v. min \<bar>v\<bar> m) ` set z" if "c < 2 * YC" for c y x
      unfolding scale_at_def using scale_reads_in_bounds[OF pos(7) True that pos(5,6), of y sr x] len(1) by simp
    have par: "y mod 2 = x mod 2 \<longleftrightarrow> even x = even y" for x y :: nat by (auto simp: mod2_eq_if)
    show ?thesis
      unfolding run using True at[OF len(2), of _ _ _ "\<lambda>a b. a"] at[OF len(3), of _ _ _ "\<lambda>a b. b"] reads len(2,3)
      by (simp add: scale_store_def Let_def par)
  next
    case False
    then show ?thesis unfolding run by simp
  qed
qed

text \<open>
  C34. Both paths expand the hyper-prior into the scale tables of the checkerboard: for every valid
  geometry the read that decides an element lies inside the input, every element of both tables is
  written, and holds the clamped magnitude of the half its row and column select; an invalid
  geometry is refused and writes nothing.
\<close>

theorem extract_scales_exact:
  fixes YC YH YW ZC ZH ZW cr sr :: nat
  assumes pos: "0 < YC" "0 < YH" "0 < YW" "0 < ZC" "0 < ZH" "0 < ZW" "0 < cr" "0 < sr" "0 \<le> m"
    and len: "length z = ZC * ZH * ZW" "length p0 = YC * YH * YW" "length p1 = YC * YH * YW"
  shows "case extract_scales neon (Some z) (Some p0) (Some p1) (int YC) (int YH) (int YW) (int ZC) (int ZH) (int ZW) (int cr) (int sr) m of
      (st, t0, t1) \<Rightarrow>
        if 2 * YC \<le> ZC * cr
        then st = Ok \<and> (\<exists>q0 q1. t0 = Some q0 \<and> t1 = Some q1 \<and> length q0 = YC * YH * YW \<and> length q1 = YC * YH * YW \<and>
          (\<forall>c < YC. \<forall>y < YH. \<forall>x < YW.
             (let a = scale_at z ZH ZW cr sr m c y x; b = scale_at z ZH ZW cr sr m (c + YC) y x; i = (c * YH + y) * YW + x
              in {a, b} \<subseteq> (\<lambda>v. min \<bar>v\<bar> m) ` set z \<and>
                 q0 ! i = (if even (x + y) then a else b) \<and> q1 ! i = (if even (x + y) then b else a))))
        else st = Invalid \<and> t0 = Some p0 \<and> t1 = Some p1"
  by (rule extract_scales_cells [OF assms])

lemma extract_scales_exact_witness:
  "\<exists>q0 q1. extract_scales True (Some [-5, 2]) (Some [0, 0]) (Some [0, 0]) 1 1 2 2 1 1 1 2 3 = (Ok, Some q0, Some q1) \<and>
     q0 ! 0 = 3 \<and> q0 ! 1 = 2 \<and> q1 ! 0 = 2 \<and> q1 ! 1 = 3"
proof -
  obtain st t0 t1 where r: "extract_scales True (Some [-5, 2]) (Some [0, 0]) (Some [0, 0])
      (int 1) (int 1) (int 2) (int 2) (int 1) (int 1) (int 1) (int 2) 3 = (st, t0, t1)"
    by (metis prod_cases3)
  have a: "scale_at [-5, 2] 1 1 1 2 3 0 0 x = 3" "scale_at [-5, 2] 1 1 1 2 3 (0 + 1) 0 x = 2" for x
    by (simp_all add: scale_at_def)
  obtain q0 q1 where q: "st = Ok" "t0 = Some q0" "t1 = Some q1" and
    v: "\<And>x. x < 2 \<Longrightarrow> q0 ! x = (if even x then 3 else 2) \<and> q1 ! x = (if even x then 2 else 3)"
    using extract_scales_exact[of 1 1 2 2 1 1 1 2 3 "[-5, 2]" "[0, 0]" "[0, 0]" True]
    unfolding r by (auto simp add: a[simplified] Let_def)
  show ?thesis using r q v[of 0] v[of 1] by simp
qed

section \<open>Channels last\<close>

lemma nhwc_exact:
  assumes "length d = H * W * C" and "c < C" "y < H" "x < W"
  shows "nchw_f16_to_nhwc src d C H W ! ((y * W + x) * C + c) = src ! ((c * H + y) * W + x)"
  unfolding nchw_f16_to_nhwc_def
proof (rule writes_nth)
  show "(y * W + x) * C + c < length d" unfolding assms(1) by (intro idx3_less assms(2-4))
  show "((y * W + x) * C + c, src ! ((c * H + y) * W + x)) \<in> set (for_each [0..<H] (\<lambda>y. for_each [0..<W]
      (\<lambda>x. map (\<lambda>c. ((y * W + x) * C + c, src ! ((c * H + y) * W + x))) [0..<C])))"
    unfolding set_for_each set_map set_upt
    by (rule UN_I[of y], use assms in simp, rule UN_I[of x], use assms in simp, rule image_eqI[of _ _ c], rule refl, use assms in simp)
  fix v assume "((y * W + x) * C + c, v) \<in> set (for_each [0..<H] (\<lambda>y. for_each [0..<W]
      (\<lambda>x. map (\<lambda>c. ((y * W + x) * C + c, src ! ((c * H + y) * W + x))) [0..<C])))"
  then obtain y' x' c' where "(y * W + x) * C + c = (y' * W + x') * C + c'" "v = src ! ((c' * H + y') * W + x')"
    "x' < W" "c' < C" by auto
  then show "v = src ! ((c * H + y) * W + x)" using idx3_inj[of x W x' c C c' y y'] assms(2-4) by simp
qed

end
