(* ===== verification/Mlvc_Bind.thy ===== *)
theory Mlvc_Bind
  imports Table_Files Qp_Patch Rans_Roundtrip Tensor_Layout Planner
begin

text \<open>
  What the encoder and the decoder of the neural codec do with a model: \<open>codecs/mlvc/src/codec.cpp\<close>
  (entropy coders, quantiser rungs, quantiser rows, geometry of the latents) over
  \<open>core/include/rkvc/model.hpp\<close> and \<open>codecs/mlvc/include/mlvc/npu.hpp\<close>. An NPU context is what its
  virtual functions answer, the status of setting an input and the status and the outputs of a run
  on the inputs that are set, together with the inputs set so far (they stay set from run to run).
\<close>

section \<open>Models and NPU contexts\<close>

record tensor_info =
  ti_name :: string
  ti_dims :: "u32 list"

record npu =
  np_inputs :: "tensor_info list"
  np_outputs :: "tensor_info list"
  np_set :: "nat \<Rightarrow> u16 list \<Rightarrow> status"
  np_run :: "(nat \<Rightarrow> u16 list option) \<Rightarrow> status \<times> (nat \<Rightarrow> u16 list)"
  np_in :: "nat \<Rightarrow> u16 list option"

definition npu_set :: "nat \<Rightarrow> u16 list \<Rightarrow> npu \<Rightarrow> status \<times> npu" where
  "npu_set i v n =
     (let st = np_set n i v in (st, if st = Ok then n\<lparr>np_in := (np_in n)(i \<mapsto> v)\<rparr> else n))"

definition npu_run :: "npu \<Rightarrow> status \<times> (nat \<Rightarrow> u16 list)" where
  "npu_run n = np_run n (np_in n)"

text \<open>\<open>make_model()\<close> for rung \<open>i\<close>: no context, or its \<open>init\<close> (model, patch, quantiser).\<close>

type_synonym npu_maker = "nat \<Rightarrow> (bytes \<Rightarrow> bytes \<Rightarrow> int \<Rightarrow> npu result) option"

definition kKindRknn :: string where "kKindRknn = ''rknn''"
definition kKindPmfGaussian :: string where "kKindPmfGaussian = ''pmf-gaussian''"
definition kKindPmfBitest :: string where "kKindPmfBitest = ''pmf-bitest''"
definition kKindQptab :: string where "kKindQptab = ''qptab''"
definition kKindQppatch :: string where "kKindQppatch = ''qppatch''"

definition kMaxRungs :: nat where "kMaxRungs = 8"
definition kMaxQrows :: nat where "kMaxQrows = 4"
definition kMlvcFps :: u32 where "kMlvcFps = 30"
definition kDefaultQp :: int where "kDefaultQp = 21"

record entropy_config =
  ec_scale_max_index :: int
  ec_qp_num :: u32
  ec_z_channels :: u32
  ec_channel_repeat :: int
  ec_spatial_repeat :: int

definition no_entropy :: entropy_config where
  "no_entropy = \<lparr>ec_scale_max_index = 0, ec_qp_num = 0, ec_z_channels = 0, ec_channel_repeat = 0, ec_spatial_repeat = 0\<rparr>"

record rung_set =
  rs_models :: "npu list"
  rs_rung_qp :: "int list"
  rs_active :: nat

record qrows =
  qr_present :: bool
  qr_rows :: "(nat \<times> qp_table) list"
  qr_fed_qp :: int

definition no_rows :: qrows where
  "no_rows = \<lparr>qr_present = False, qr_rows = [], qr_fed_qp = -1\<rparr>"

section \<open>Entropy coders\<close>

definition qppatch_qp :: "payload option \<Rightarrow> int" where
  "qppatch_qp v =
     (case v of None \<Rightarrow> -1
      | Some v \<Rightarrow> if length (pl_data v) < 48 \<or> take 4 (pl_data v) \<noteq> [0x51, 0x50, 0x50, 0x31] then -1
                 else sint (rd_u32 (pl_data v) 16))"

definition init_rans_coders :: "model \<Rightarrow> entropy_config \<Rightarrow> (rans_coder \<times> rans_coder \<times> entropy_config) result" where
  "init_rans_coders m cfg =
     (let gv = (case model_find m kKindPmfGaussian of None \<Rightarrow> model_find m ''pmf'' | Some v \<Rightarrow> Some v);
          bv = model_find m kKindPmfBitest;
          coder = (\<lambda>p. rans_create RansByte (map sint (pmf_lengths p)) (map sint (pmf_offsets p)) (map sint (pmf_table p)) 16 2)
      in case (gv, bv) of
           (Some gv, Some bv) \<Rightarrow>
             (case load_pmf (Some (pl_data gv)) of
                Inl _ \<Rightarrow> reject Format ''gaussian pmf load failed''
              | Inr gpmf \<Rightarrow>
                  (case load_pmf (Some (pl_data bv)) of
                     Inl _ \<Rightarrow> reject Format ''bitest pmf load failed''
                   | Inr bpmf \<Rightarrow>
                       if \<not> pmf_gaussian gpmf \<or> pmf_index_space gpmf = 0 \<or> pmf_scale_levels gpmf = 0 \<or>
                          unat (pmf_scale_levels gpmf) > length (pmf_lengths gpmf) \<or> pmf_qp_num bpmf = 0 \<or>
                          pmf_channels bpmf = 0 \<or>
                          (ucast (pmf_qp_num bpmf) * ucast (pmf_channels bpmf) :: u64) \<noteq> of_nat (length (pmf_lengths bpmf))
                       then reject Format ''pmf contract mismatch''
                       else case coder gpmf of
                         Inl _ \<Rightarrow> reject Format ''gaussian coder init failed''
                       | Inr g \<Rightarrow>
                           (case coder bpmf of
                              Inl _ \<Rightarrow> reject Format ''bitest coder init failed''
                            | Inr b \<Rightarrow>
                                Inr (g, b, cfg\<lparr>ec_scale_max_index := sint (pmf_scale_levels gpmf) - 1,
                                  ec_qp_num := pmf_qp_num bpmf, ec_z_channels := pmf_channels bpmf\<rparr>))))
         | _ \<Rightarrow> reject Format ''missing pmf payloads'')"

section \<open>Quantiser rungs\<close>

text \<open>Where a new rung goes: the loop from the end over the larger ones.\<close>

fun rung_at :: "int list \<Rightarrow> int \<Rightarrow> nat \<Rightarrow> nat" where
  "rung_at rungs qp 0 = 0"
| "rung_at rungs qp (Suc at) = (if rungs ! at > qp then rung_at rungs qp at else Suc at)"

fun collect_loop :: "payload list \<Rightarrow> int list \<Rightarrow> int list" where
  "collect_loop [] rungs = rungs"
| "collect_loop (p # ps) rungs =
     (if pl_kind p \<noteq> kKindQppatch then collect_loop ps rungs
      else let qp = qppatch_qp (Some p)
        in if qp < 0 \<or> qp > 63 then collect_loop ps rungs
           else if qp \<in> set rungs \<or> length rungs \<ge> kMaxRungs then collect_loop ps rungs
           else let at = rung_at rungs qp (length rungs)
                in collect_loop ps (take at rungs @ [qp] @ drop at rungs))"

definition collect_rungs :: "model \<Rightarrow> int \<Rightarrow> int list result" where
  "collect_rungs m session_qp =
     (let rungs = collect_loop (md_payloads m) []
      in if rungs = [] then Inr [session_qp]
         else if session_qp \<in> set rungs then Inr rungs
         else reject Format ''session qp missing from rung set'')"

fun init_loop :: "model \<Rightarrow> bytes \<Rightarrow> npu_maker \<Rightarrow> nat \<Rightarrow> int list \<Rightarrow> npu list \<Rightarrow> unit result \<times> npu list" where
  "init_loop m base mk i [] models = (Inr (), models)"
| "init_loop m base mk i (qp # qps) models =
     (let patch = List.find (\<lambda>p. pl_kind p = kKindQppatch \<and> qppatch_qp (Some p) = qp) (md_payloads m)
      in case mk i of
           None \<Rightarrow> (reject Unsupported ''no npu backend'', models)
         | Some init \<Rightarrow>
             (case init base (case patch of Some p \<Rightarrow> pl_data p | None \<Rightarrow> []) qp of
                Inl e \<Rightarrow> (Inl e, [])
              | Inr n \<Rightarrow> init_loop m base mk (Suc i) qps (models @ [n])))"

definition init_rungs :: "model \<Rightarrow> int list \<Rightarrow> npu_maker \<Rightarrow> unit result \<times> rung_set" where
  "init_rungs m rungs mk =
     (let rs = \<lparr>rs_models = [], rs_rung_qp = rungs, rs_active = 0\<rparr>
      in case model_find m kKindRknn of
           None \<Rightarrow> (reject Format ''missing rknn payload'', rs)
         | Some base \<Rightarrow>
             if pl_data base = [] then (reject Format ''missing rknn payload'', rs)
             else case init_loop m (pl_data base) mk 0 rungs [] of (r, models) \<Rightarrow> (r, rs\<lparr>rs_models := models\<rparr>))"

definition nearest_rung :: "int list \<Rightarrow> int \<Rightarrow> nat" where
  "nearest_rung rungs q =
     snd (foldl (\<lambda>(best_d, best) i.
        let d = (if rungs ! i > q then rungs ! i - q else q - rungs ! i)
        in if d < best_d then (d, i) else (best_d, best)) (2 ^ 31 - 1, 0) [0..<length rungs])"

section \<open>Quantiser rows\<close>

definition is_qrow :: "string \<Rightarrow> bool" where
  "is_qrow n \<longleftrightarrow> length n \<ge> 7 \<and> take 2 n = ''q_'' \<and> drop (length n - 4) n = ''_row''"

fun qrow_loop :: "qp_table list \<Rightarrow> nat \<Rightarrow> tensor_info list \<Rightarrow> (nat \<times> qp_table) list \<Rightarrow> unit result \<times> (nat \<times> qp_table) list" where
  "qrow_loop tab i [] acc = (Inr (), acc)"
| "qrow_loop tab i (t # ts) acc =
     (if \<not> is_qrow (ti_name t) then qrow_loop tab (Suc i) ts acc
      else if length acc \<ge> kMaxQrows then (reject Format ''too many q rows'', acc)
      else case find_table tab (map of_char (ti_name t)) of
             None \<Rightarrow> (reject Format ''missing row table'', acc)
           | Some tb \<Rightarrow> qrow_loop tab (Suc i) ts (acc @ [(i, tb)]))"

definition setup_qrows :: "model \<Rightarrow> npu \<Rightarrow> qp_table list \<Rightarrow> unit result \<times> qp_table list \<times> qrows" where
  "setup_qrows m n qptab =
     (if \<not> list_ex (\<lambda>t. is_qrow (ti_name t)) (np_inputs n) then (Inr (), qptab, no_rows)
      else case model_find m kKindQptab of
             None \<Rightarrow> (reject Format ''qp-dynamic model lacks qptab'', qptab, no_rows)
           | Some qv \<Rightarrow>
               (case load_qptab (Some (pl_data qv)) of
                  Inl _ \<Rightarrow> (reject Format ''qptab load failed'', qptab, no_rows)
                | Inr tab \<Rightarrow>
                    (case qrow_loop tab 0 (np_inputs n) [] of
                       (Inl e, acc) \<Rightarrow> (Inl e, tab, no_rows\<lparr>qr_rows := acc\<rparr>)
                     | (Inr _, acc) \<Rightarrow> (Inr (), tab, no_rows\<lparr>qr_rows := acc, qr_present := acc \<noteq> []\<rparr>))))"

section \<open>Geometry\<close>

definition ceil_div :: "int \<Rightarrow> int \<Rightarrow> int" where
  "ceil_div v d = (v + d - 1) div d"

definition resolve_entropy_geometry ::
  "entropy_config \<Rightarrow> int \<Rightarrow> int \<Rightarrow> int \<Rightarrow> int \<Rightarrow> int \<Rightarrow> int \<Rightarrow> int \<Rightarrow> unit result \<times> entropy_config" where
  "resolve_entropy_geometry cfg qp ZC ZH ZW YC YH YW =
     (let bad = reject Format ''geometry mismatch'';
          fin = (\<lambda>cfg. if (2 * YC + ec_channel_repeat cfg - 1) div ec_channel_repeat cfg > ZC then (bad, cfg) else (Inr (), cfg))
      in if qp < 0 \<or> qp \<ge> uint (ec_qp_num cfg) \<or> ZC \<le> 0 \<or> ZH \<le> 0 \<or> ZW \<le> 0 \<or> YC \<le> 0 \<or> YH \<le> 0 \<or> YW \<le> 0 \<or>
            ZC \<noteq> uint (ec_z_channels cfg)
         then (bad, cfg)
         else if ZH = ceil_div YH 8 \<and> ZW = ceil_div YW 8
         then fin (cfg\<lparr>ec_channel_repeat := 2, ec_spatial_repeat := 8\<rparr>)
         else if ZH = ceil_div YH 4 \<and> ZW = ceil_div YW 4
         then fin (cfg\<lparr>ec_channel_repeat := 4, ec_spatial_repeat := 4\<rparr>)
         else (bad, cfg))"

definition build_z_idx :: "int \<Rightarrow> nat \<Rightarrow> nat \<Rightarrow> nat \<Rightarrow> int list" where
  "build_z_idx qp ZC ZH ZW = concat (map (\<lambda>c. replicate (ZH * ZW) (qp * int ZC + int c)) [0..<ZC])"

fun contains :: "string \<Rightarrow> string \<Rightarrow> bool" where
  "contains key [] = (key = [])"
| "contains key (c # cs) = (take (length key) (c # cs) = key \<or> contains key cs)"

fun find_input_from :: "nat \<Rightarrow> tensor_info list \<Rightarrow> string \<Rightarrow> int" where
  "find_input_from i [] key = -1"
| "find_input_from i (t # ts) key = (if contains key (ti_name t) then int i else find_input_from (Suc i) ts key)"

definition find_input :: "tensor_info list \<Rightarrow> string \<Rightarrow> int" where
  "find_input ts key = find_input_from 0 ts key"

section \<open>Rungs\<close>

lemma rung_at_split:
  "at \<le> length rungs \<Longrightarrow> sorted rungs \<Longrightarrow>
   rung_at rungs qp at \<le> at \<and> (\<forall>i < rung_at rungs qp at. rungs ! i \<le> qp) \<and>
   (\<forall>i. rung_at rungs qp at \<le> i \<longrightarrow> i < at \<longrightarrow> rungs ! i > qp)"
proof (induction rungs qp at rule: rung_at.induct)
  case (2 rungs qp at)
  show ?case
  proof (cases "rungs ! at > qp")
    case True
    then have "rung_at rungs qp at \<le> at \<and> (\<forall>i < rung_at rungs qp at. rungs ! i \<le> qp) \<and>
        (\<forall>i. rung_at rungs qp at \<le> i \<longrightarrow> i < at \<longrightarrow> rungs ! i > qp)"
      using 2 by simp
    then show ?thesis using True by (auto simp: less_Suc_eq)
  next
    case False
    then have "rungs ! i \<le> qp" if "i < Suc at" for i
      using that "2.prems" sorted_nth_mono [of rungs i at] by simp
    then show ?thesis using False by simp
  qed
qed simp

lemma insert_rung:
  fixes qp :: int
  assumes "sorted rungs" "distinct rungs" "qp \<notin> set rungs"
  defines "at \<equiv> rung_at rungs qp (length rungs)"
  shows "sorted (take at rungs @ [qp] @ drop at rungs)" "distinct (take at rungs @ [qp] @ drop at rungs)"
    "set (take at rungs @ [qp] @ drop at rungs) = insert qp (set rungs)"
proof -
  note at = rung_at_split [of "length rungs" rungs qp, OF order_refl assms(1), folded at_def]
  have lo: "\<forall>x \<in> set (take at rungs). x \<le> qp"
    using at by (auto simp: in_set_conv_nth)
  have hi: "\<forall>x \<in> set (drop at rungs). qp \<le> x"
  proof
    fix x assume "x \<in> set (drop at rungs)"
    then obtain i where "i < length rungs - at" "x = rungs ! (at + i)" by (auto simp: in_set_conv_nth)
    then show "qp \<le> x" using at by (simp add: less_imp_le)
  qed
  have lh: "\<forall>x \<in> set (take at rungs). \<forall>y \<in> set (drop at rungs). x \<le> y"
    using lo hi by (meson order_trans)
  show "sorted (take at rungs @ [qp] @ drop at rungs)"
    using assms(1) lo hi lh by (simp add: sorted_append sorted_wrt_take sorted_wrt_drop)
  have s: "set rungs = set (take at rungs) \<union> set (drop at rungs)"
    using set_append [of "take at rungs" "drop at rungs"] by simp
  have "distinct (take at rungs @ drop at rungs)" using assms(2) by simp
  then have "set (take at rungs) \<inter> set (drop at rungs) = {}" by (simp only: distinct_append)
  moreover have "distinct (take at rungs)" "distinct (drop at rungs)" using assms(2) by simp_all
  ultimately show "distinct (take at rungs @ [qp] @ drop at rungs)" using assms(3) s by auto
  show "set (take at rungs @ [qp] @ drop at rungs) = insert qp (set rungs)" using s by auto
qed

text \<open>The quantisers that the patches of a model offer.\<close>

definition offered :: "payload list \<Rightarrow> int set" where
  "offered ps = {q. 0 \<le> q \<and> q \<le> 63 \<and> (\<exists>p \<in> set ps. pl_kind p = kKindQppatch \<and> qppatch_qp (Some p) = q)}"

lemma collect_loop_sound:
  "sorted rungs \<Longrightarrow> distinct rungs \<Longrightarrow> length rungs \<le> kMaxRungs \<Longrightarrow>
   sorted (collect_loop ps rungs) \<and> distinct (collect_loop ps rungs) \<and> length (collect_loop ps rungs) \<le> kMaxRungs \<and>
   set rungs \<subseteq> set (collect_loop ps rungs) \<and> set (collect_loop ps rungs) \<subseteq> set rungs \<union> offered ps \<and>
   (length (collect_loop ps rungs) < kMaxRungs \<longrightarrow> offered ps \<subseteq> set (collect_loop ps rungs))"
proof (induction ps arbitrary: rungs)
  case Nil
  then show ?case by (simp add: offered_def)
next
  case (Cons p ps)
  let ?qp = "qppatch_qp (Some p)"
  define valid where "valid \<longleftrightarrow> pl_kind p = kKindQppatch \<and> 0 \<le> ?qp \<and> ?qp \<le> 63"
  have off: "offered (p # ps) = (if valid then insert ?qp (offered ps) else offered ps)"
    by (auto simp: offered_def valid_def)
  show ?case
  proof (cases "valid \<and> ?qp \<notin> set rungs \<and> length rungs < kMaxRungs")
    case True
    define at where "at = rung_at rungs ?qp (length rungs)"
    let ?r = "take at rungs @ [?qp] @ drop at rungs"
    have step: "collect_loop (p # ps) rungs = collect_loop ps ?r"
      using True by (simp add: valid_def at_def Let_def)
    have r: "sorted ?r" "distinct ?r" "set ?r = insert ?qp (set rungs)"
      using insert_rung [of rungs ?qp] Cons.prems True by (simp_all add: at_def)
    have "length ?r = Suc (length rungs)" using distinct_card [OF r(2)] distinct_card [OF Cons.prems(2)] r(3) True by simp
    then have len: "length ?r \<le> kMaxRungs" using True by simp
    have "sorted (collect_loop ps ?r) \<and> distinct (collect_loop ps ?r) \<and> length (collect_loop ps ?r) \<le> kMaxRungs \<and>
      set ?r \<subseteq> set (collect_loop ps ?r) \<and> set (collect_loop ps ?r) \<subseteq> set ?r \<union> offered ps \<and>
      (length (collect_loop ps ?r) < kMaxRungs \<longrightarrow> offered ps \<subseteq> set (collect_loop ps ?r))"
      by (rule Cons.IH [OF r(1,2) len])
    then show ?thesis unfolding step off r(3) using True by auto
  next
    case False
    have step: "collect_loop (p # ps) rungs = collect_loop ps rungs"
      using False by (auto simp: valid_def Let_def)
    have "sorted (collect_loop ps rungs) \<and> distinct (collect_loop ps rungs) \<and> length (collect_loop ps rungs) \<le> kMaxRungs \<and>
      set rungs \<subseteq> set (collect_loop ps rungs) \<and> set (collect_loop ps rungs) \<subseteq> set rungs \<union> offered ps \<and>
      (length (collect_loop ps rungs) < kMaxRungs \<longrightarrow> offered ps \<subseteq> set (collect_loop ps rungs))"
      by (rule Cons.IH [OF Cons.prems])
    moreover have "length rungs \<le> length (collect_loop ps rungs)"
      using calculation card_mono [of "set (collect_loop ps rungs)" "set rungs"] distinct_card [of "collect_loop ps rungs"]
        distinct_card [of rungs] Cons.prems(2) by simp
    ultimately show ?thesis unfolding step off using False by auto
  qed
qed

definition rung_dist :: "int list \<Rightarrow> int \<Rightarrow> nat \<Rightarrow> int" where
  "rung_dist rungs q i = \<bar>rungs ! i - q\<bar>"

lemma nearest_rung_is:
  assumes "rungs \<noteq> []" "\<forall>i < length rungs. rung_dist rungs q i < 2 ^ 31 - 1"
  shows "nearest_rung rungs q < length rungs"
    and "\<And>i. i < length rungs \<Longrightarrow> rung_dist rungs q (nearest_rung rungs q) \<le> rung_dist rungs q i"
    and "\<And>i. i < nearest_rung rungs q \<Longrightarrow> rung_dist rungs q (nearest_rung rungs q) < rung_dist rungs q i"
proof -
  let ?f = "\<lambda>(best_d, best) i. let d = (if rungs ! i > q then rungs ! i - q else q - rungs ! i)
        in if d < best_d then (d, i) else (best_d, best)"
  have d: "(if rungs ! i > q then rungs ! i - q else q - rungs ! i) = rung_dist rungs q i" for i
    by (simp add: rung_dist_def)
  have inv: "k \<le> length rungs \<Longrightarrow> 0 < k \<Longrightarrow> (case foldl ?f (2 ^ 31 - 1, 0) [0..<k] of (bd, b) \<Rightarrow>
      b < k \<and> bd = rung_dist rungs q b \<and> (\<forall>i < k. bd \<le> rung_dist rungs q i) \<and> (\<forall>i < b. bd < rung_dist rungs q i))" for k
  proof (induction k)
    case (Suc k)
    obtain bd b where f: "foldl ?f (2 ^ 31 - 1, 0) [0..<k] = (bd, b)" by force
    have step: "foldl ?f (2 ^ 31 - 1, 0) [0..<Suc k] = (if rung_dist rungs q k < bd then (rung_dist rungs q k, k) else (bd, b))"
      using f by (simp add: d Let_def)
    show ?case
    proof (cases "k = 0")
      case True
      then have "bd = 2 ^ 31 - 1" using f by simp
      moreover have "rung_dist rungs q 0 < 2 ^ 31 - 1" using assms by simp
      ultimately show ?thesis using True unfolding step by simp
    next
      case False
      have "case foldl ?f (2 ^ 31 - 1, 0) [0..<k] of (bd, b) \<Rightarrow>
          b < k \<and> bd = rung_dist rungs q b \<and> (\<forall>i < k. bd \<le> rung_dist rungs q i) \<and> (\<forall>i < b. bd < rung_dist rungs q i)"
        using Suc.IH Suc.prems False by (meson Suc_leD gr0I)
      then have *: "b < k" "bd = rung_dist rungs q b" "\<forall>i < k. bd \<le> rung_dist rungs q i" "\<forall>i < b. bd < rung_dist rungs q i"
        unfolding f prod.case by blast+
      show ?thesis
      proof (cases "rung_dist rungs q k < bd")
        case True
        then have "rung_dist rungs q k < rung_dist rungs q i" if "i < k" for i using *(3) that by force
        then show ?thesis unfolding step using True by (auto simp: less_Suc_eq less_imp_le)
      next
        case False
        then show ?thesis unfolding step using * by (auto simp: less_Suc_eq)
      qed
    qed
  qed simp
  have n: "nearest_rung rungs q = snd (foldl ?f (2 ^ 31 - 1, 0) [0..<length rungs])"
    by (simp add: nearest_rung_def)
  have l: "0 < length rungs" using assms(1) by simp
  from inv [OF order_refl l] show "nearest_rung rungs q < length rungs"
    "\<And>i. i < length rungs \<Longrightarrow> rung_dist rungs q (nearest_rung rungs q) \<le> rung_dist rungs q i"
    "\<And>i. i < nearest_rung rungs q \<Longrightarrow> rung_dist rungs q (nearest_rung rungs q) < rung_dist rungs q i"
    unfolding n by (auto split: prod.splits)
qed

section \<open>Indices of the hyper-latent\<close>

lemma nth_concat_replicate:
  "j < m * n \<Longrightarrow> concat (map (\<lambda>c. replicate n (f c)) [0..<m]) ! j = f (j div n)"
proof (induction m)
  case (Suc m)
  have l: "length (concat (map (\<lambda>c. replicate n (f c)) [0..<m])) = m * n" by (induction m) simp_all
  show ?case
  proof (cases "j < m * n")
    case True
    then show ?thesis using Suc.IH l by (simp add: nth_append)
  next
    case False
    then have "j div n = m" using Suc.prems by (intro div_nat_eqI) (simp_all add: mult.commute)
    then show ?thesis using False Suc.prems l by (simp add: nth_append)
  qed
qed simp

lemma build_z_idx_nth:
  "length (build_z_idx qp ZC ZH ZW) = ZC * (ZH * ZW)"
  "j < ZC * (ZH * ZW) \<Longrightarrow> build_z_idx qp ZC ZH ZW ! j = qp * int ZC + int (j div (ZH * ZW))"
proof -
  show "length (build_z_idx qp ZC ZH ZW) = ZC * (ZH * ZW)"
    unfolding build_z_idx_def by (induction ZC) (simp_all add: sum_list_triv length_concat comp_def)
  show "j < ZC * (ZH * ZW) \<Longrightarrow> build_z_idx qp ZC ZH ZW ! j = qp * int ZC + int (j div (ZH * ZW))"
    unfolding build_z_idx_def by (rule nth_concat_replicate)
qed

lemma build_z_idx_range:
  assumes "0 \<le> qp" "qp < N" "v \<in> set (build_z_idx qp ZC ZH ZW)"
  shows "0 \<le> v \<and> v < N * int ZC"
proof -
  obtain c where "c < ZC" "v = qp * int ZC + int c" using assms(3) by (auto simp: build_z_idx_def)
  moreover have "(qp + 1) * int ZC \<le> N * int ZC" using assms(2) by (intro mult_right_mono) auto
  ultimately show ?thesis using assms(1) by (simp add: distrib_right)
qed

section \<open>Names\<close>

lemma contains_mono: "contains key name \<Longrightarrow> contains [c] key \<Longrightarrow> contains [c] name"
proof (induction name)
  case (Cons d ds)
  have mem: "contains [c] xs \<longleftrightarrow> c \<in> set xs" for xs by (induction xs) auto
  show ?case
  proof (cases "take (length key) (d # ds) = key")
    case True
    then have "set key \<subseteq> set (d # ds)" by (metis set_take_subset)
    then show ?thesis using Cons.prems(2) unfolding mem by blast
  next
    case False
    then show ?thesis using Cons unfolding mem by auto
  qed
qed simp

text \<open>The second name that the encoder tries for its picture input can only be found where the first one is.\<close>

lemma x_fallback_dead: "find_input ts ''x'' < 0 \<Longrightarrow> find_input ts ''New_input_x'' < 0"
proof -
  have "find_input_from i ts ''x'' < 0 \<Longrightarrow> find_input_from i ts ''New_input_x'' < 0" for i
  proof (induction ts arbitrary: i)
    case (Cons t ts)
    have "contains ''x'' ''New_input_x''" by simp
    then have "contains ''New_input_x'' (ti_name t) \<Longrightarrow> contains ''x'' (ti_name t)" by (rule contains_mono [rotated])
    then show ?case using Cons by (auto split: if_splits)
  qed simp
  then show "find_input ts ''x'' < 0 \<Longrightarrow> find_input ts ''New_input_x'' < 0" by (simp add: find_input_def)
qed

section \<open>What binding promises\<close>

lemma collect_result:
  assumes "0 \<le> qp" "qp \<le> 63"
  shows "case collect_rungs m qp of
      Inr rungs \<Rightarrow> sorted rungs \<and> distinct rungs \<and> rungs \<noteq> [] \<and> length rungs \<le> kMaxRungs \<and> qp \<in> set rungs \<and>
        (\<forall>q \<in> set rungs. 0 \<le> q \<and> q \<le> 63) \<and>
        (if offered (md_payloads m) = {} then rungs = [qp] else set rungs \<subseteq> offered (md_payloads m))
    | Inl e \<Rightarrow> fst e = Format \<and> offered (md_payloads m) \<noteq> {} \<and>
        (card (offered (md_payloads m)) \<le> kMaxRungs \<longrightarrow> qp \<notin> offered (md_payloads m))"
proof -
  let ?r = "collect_loop (md_payloads m) []" and ?o = "offered (md_payloads m)"
  have s: "sorted ?r" "distinct ?r" "length ?r \<le> kMaxRungs" "set ?r \<subseteq> ?o" "length ?r < kMaxRungs \<Longrightarrow> ?o \<subseteq> set ?r"
    using collect_loop_sound [of "[]" "md_payloads m"] by simp_all
  have range: "\<forall>q \<in> ?o. 0 \<le> q \<and> q \<le> 63" by (auto simp: offered_def)
  have fin: "finite ?o" by (rule finite_subset [of _ "{0..63}"]) (auto simp: offered_def)
  have all: "set ?r = ?o" if "card ?o \<le> kMaxRungs"
  proof (cases "length ?r < kMaxRungs")
    case False
    then have "card ?o \<le> card (set ?r)" using that s(2,3) by (simp add: distinct_card)
    then show ?thesis using s(4) fin by (simp add: card_seteq)
  qed (use s in blast)
  have empty: "?r = [] \<longleftrightarrow> ?o = {}" using s(4,5) by (cases "?r = []") (auto simp: kMaxRungs_def)
  show ?thesis
  proof (cases "?r = []")
    case True
    then show ?thesis using assms empty by (simp add: collect_rungs_def kMaxRungs_def)
  next
    case False
    then show ?thesis using s range empty all unfolding collect_rungs_def Let_def by auto
  qed
qed

lemma geometry_result:
  assumes "resolve_entropy_geometry cfg qp ZC ZH ZW YC YH YW = (Inr (), cfg')"
  shows "0 < ec_channel_repeat cfg'" "0 < ec_spatial_repeat cfg'" "0 \<le> qp" "qp < uint (ec_qp_num cfg')"
    "ZC = uint (ec_z_channels cfg')" "0 < ZC" "0 < ZH" "0 < ZW" "0 < YC" "0 < YH" "0 < YW"
    "(2 * YC + ec_channel_repeat cfg' - 1) div ec_channel_repeat cfg' \<le> ZC"
    "ZH = ceil_div YH (ec_spatial_repeat cfg')" "ZW = ceil_div YW (ec_spatial_repeat cfg')"
    "ec_scale_max_index cfg' = ec_scale_max_index cfg"
proof -
  define ok where "ok \<longleftrightarrow> \<not> (qp < 0 \<or> qp \<ge> uint (ec_qp_num cfg) \<or> ZC \<le> 0 \<or> ZH \<le> 0 \<or> ZW \<le> 0 \<or> YC \<le> 0 \<or> YH \<le> 0 \<or> YW \<le> 0 \<or>
            ZC \<noteq> uint (ec_z_channels cfg))"
  have ok: ok using assms by (auto simp: resolve_entropy_geometry_def Let_def ok_def split: if_splits)
  have "cfg' = cfg\<lparr>ec_channel_repeat := 2, ec_spatial_repeat := 8\<rparr> \<and> ZH = ceil_div YH 8 \<and> ZW = ceil_div YW 8 \<and> (2 * YC + 2 - 1) div 2 \<le> ZC \<or>
     cfg' = cfg\<lparr>ec_channel_repeat := 4, ec_spatial_repeat := 4\<rparr> \<and> ZH = ceil_div YH 4 \<and> ZW = ceil_div YW 4 \<and> (2 * YC + 4 - 1) div 4 \<le> ZC"
    using assms by (auto simp: resolve_entropy_geometry_def Let_def split: if_splits)
  then show "0 < ec_channel_repeat cfg'" "0 < ec_spatial_repeat cfg'" "0 \<le> qp" "qp < uint (ec_qp_num cfg')"
    "ZC = uint (ec_z_channels cfg')" "0 < ZC" "0 < ZH" "0 < ZW" "0 < YC" "0 < YH" "0 < YW"
    "(2 * YC + ec_channel_repeat cfg' - 1) div ec_channel_repeat cfg' \<le> ZC"
    "ZH = ceil_div YH (ec_spatial_repeat cfg')" "ZW = ceil_div YW (ec_spatial_repeat cfg')"
    "ec_scale_max_index cfg' = ec_scale_max_index cfg"
    using ok by (auto simp: ok_def)
qed

lemma create_dists_fields:
  "create_dists n k lengths offsets = Inr (ds, k') \<Longrightarrow> length lengths = length offsets \<Longrightarrow>
   length ds = length lengths \<and> map value_offset ds = offsets"
proof (induction lengths arbitrary: k offsets ds k')
  case (Cons l ls)
  then show ?case by (cases offsets) (auto simp: Let_def split: if_splits sum.splits)
qed simp

lemma all_cdf_fields:
  "all_cdf m d t table ds = Inr (ds', cs) \<Longrightarrow> map value_offset ds' = map value_offset ds"
  by (induction m d t table ds arbitrary: ds' cs rule: all_cdf.induct)
    (auto simp: Let_def split: sum.splits prod.splits)

lemma rans_create_dists:
  assumes "rans_create v lengths offsets table sb bb = Inr c"
  shows "length (dists c) = length lengths" "map value_offset (dists c) = offsets"
proof -
  have l: "length lengths = length offsets" using assms by (auto simp: rans_create_def Let_def split: if_splits)
  obtain ds n where ds: "create_dists (length table) 0 lengths offsets = Inr (ds, n)"
    using assms by (auto simp: rans_create_def Let_def split: if_splits sum.splits)
  obtain cs where "all_cdf (push_bit (nat sb) 1) 0 0 table ds = Inr (dists c, cs)"
    using assms ds by (auto simp: rans_create_def Let_def split: if_splits sum.splits)
  from all_cdf_fields [OF this] create_dists_fields [OF ds l]
  show "length (dists c) = length lengths" "map value_offset (dists c) = offsets"
    using map_eq_imp_length_eq [of value_offset "dists c" value_offset ds] by simp_all
qed

lemma coders_parts:
  assumes "init_rans_coders m cfg = Inr (g, b, cfg')"
  shows "\<exists>gpmf bpmf dg db.
    rans_create RansByte (map sint (pmf_lengths gpmf)) (map sint (pmf_offsets gpmf)) (map sint (pmf_table gpmf)) 16 2 = Inr g \<and>
    rans_create RansByte (map sint (pmf_lengths bpmf)) (map sint (pmf_offsets bpmf)) (map sint (pmf_table bpmf)) 16 2 = Inr b \<and>
    load_pmf (Some dg) = Inr gpmf \<and> load_pmf (Some db) = Inr bpmf \<and>
    (ucast (pmf_qp_num bpmf) * ucast (pmf_channels bpmf) :: u64) = of_nat (length (pmf_lengths bpmf)) \<and> pmf_scale_levels gpmf \<noteq> 0 \<and> \<not> length (pmf_lengths gpmf) < unat (pmf_scale_levels gpmf) \<and>
    cfg' = cfg\<lparr>ec_scale_max_index := sint (pmf_scale_levels gpmf) - 1, ec_qp_num := pmf_qp_num bpmf, ec_z_channels := pmf_channels bpmf\<rparr>"
proof -
  define gv where "gv = (case model_find m kKindPmfGaussian of None \<Rightarrow> model_find m ''pmf'' | Some v \<Rightarrow> Some v)"
  note d = assms [unfolded init_rans_coders_def Let_def, folded gv_def]
  obtain pg pb where p: "gv = Some pg" "model_find m kKindPmfBitest = Some pb"
    using d by (cases gv; cases "model_find m kKindPmfBitest") simp_all
  obtain gpmf where g: "load_pmf (Some (pl_data pg)) = Inr gpmf"
    using d p by (cases "load_pmf (Some (pl_data pg))") simp_all
  obtain bpmf where b: "load_pmf (Some (pl_data pb)) = Inr bpmf"
    using d p g by (cases "load_pmf (Some (pl_data pb))") simp_all
  have l: "pmf_scale_levels gpmf \<noteq> 0" "\<not> length (pmf_lengths gpmf) < unat (pmf_scale_levels gpmf)"
    "(ucast (pmf_qp_num bpmf) * ucast (pmf_channels bpmf) :: u64) = of_nat (length (pmf_lengths bpmf))"
    using d p g b by (simp_all split: if_splits)
  have "rans_create RansByte (map sint (pmf_lengths gpmf)) (map sint (pmf_offsets gpmf)) (map sint (pmf_table gpmf)) 16 2 = Inr g \<and>
    rans_create RansByte (map sint (pmf_lengths bpmf)) (map sint (pmf_offsets bpmf)) (map sint (pmf_table bpmf)) 16 2 = Inr b \<and>
    cfg' = cfg\<lparr>ec_scale_max_index := sint (pmf_scale_levels gpmf) - 1, ec_qp_num := pmf_qp_num bpmf, ec_z_channels := pmf_channels bpmf\<rparr>"
    using d p g b by (simp split: if_splits sum.splits)
  then show ?thesis using g b l by blast
qed

lemma sint_positive:
  fixes w :: u32
  assumes "w \<noteq> 0" "unat w \<le> n" "n < 2 ^ 31"
  shows "sint w = int (unat w)" "1 \<le> sint w"
proof -
  have "sint (word_of_int (int (unat w)) :: u32) = int (unat w)"
  proof (rule sint_of_int_small)
    have "unat w < 2 ^ 31" using assms(2,3) by linarith
    then show "int (unat w) < 2 ^ 31" by (simp only: of_nat_less_numeral_power_cancel_iff)
  qed simp
  then show s: "sint w = int (unat w)" by simp
  have "unat w \<noteq> 0" using assms(1) by (simp add: unat_eq_0)
  then show "1 \<le> sint w" unfolding s by linarith
qed

lemma u32_product:
  fixes a b :: u32
  assumes "(ucast a * ucast b :: u64) = of_nat n" "n \<le> 2 ^ 20"
  shows "int n = uint a * uint b"
proof -
  have ab: "uint a < 2 ^ 32" "uint b < 2 ^ 32" using uint_bounded [of a] uint_bounded [of b] by simp_all
  then have "uint a * uint b < 2 ^ 32 * 2 ^ 32" by (intro mult_strict_mono) simp_all
  moreover have "uint (ucast a :: u64) = uint a" "uint (ucast b :: u64) = uint b"
    using ab by (simp_all add: unsigned_ucast_eq take_bit_int_eq_self)
  ultimately have "uint (ucast a * ucast b :: u64) = uint a * uint b"
    by (simp add: uint_word_ariths)
  moreover have "uint (of_nat n :: u64) = int n" using assms(2) by (simp add: unsigned_of_nat take_bit_nat_eq_self uint_nat)
  ultimately show ?thesis using assms(1) by simp
qed

lemma coders_result:
  assumes "init_rans_coders m cfg = Inr (g, b, cfg')"
  shows "coder_fits g" "coder_fits b" "int (length (dists b)) = uint (ec_qp_num cfg') * uint (ec_z_channels cfg')"
    "ec_scale_max_index cfg' < int (length (dists g))" "variant g = RansByte" "variant b = RansByte" "bypass_bits g = 2" "bypass_bits b = 2"
    "0 \<le> ec_scale_max_index cfg'"
proof -
  obtain gpmf dg db bpmf where c: "rans_create RansByte (map sint (pmf_lengths gpmf)) (map sint (pmf_offsets gpmf)) (map sint (pmf_table gpmf)) 16 2 = Inr g"
    "rans_create RansByte (map sint (pmf_lengths bpmf)) (map sint (pmf_offsets bpmf)) (map sint (pmf_table bpmf)) 16 2 = Inr b"
    "load_pmf (Some dg) = Inr gpmf" "pmf_scale_levels gpmf \<noteq> 0" "unat (pmf_scale_levels gpmf) \<le> length (pmf_lengths gpmf)"
    "cfg' = cfg\<lparr>ec_scale_max_index := sint (pmf_scale_levels gpmf) - 1, ec_qp_num := pmf_qp_num bpmf, ec_z_channels := pmf_channels bpmf\<rparr>"
    "load_pmf (Some db) = Inr bpmf" "(ucast (pmf_qp_num bpmf) * ucast (pmf_channels bpmf) :: u64) = of_nat (length (pmf_lengths bpmf))"
    using coders_parts [OF assms] unfolding not_less by blast
  show "coder_fits g" "coder_fits b" using coder_fits_create [OF c(1)] coder_fits_create [OF c(2)] by simp_all
  show "variant g = RansByte" "variant b = RansByte" "bypass_bits g = 2" "bypass_bits b = 2"
    using rans_create_ok [OF c(1)] rans_create_ok [OF c(2)] by simp_all
  have "length (pmf_lengths gpmf) < 2 ^ 31"
    using conjunct1 [OF load_pmf_read [OF c(3)]] by (simp add: pmf_wf_def kMaxLen_def)
  note sp = sint_positive [OF c(4,5) this]
  show "0 \<le> ec_scale_max_index cfg'" using sp(2) c(6) by simp
  show "ec_scale_max_index cfg' < int (length (dists g))"
  proof -
    have "ec_scale_max_index cfg' = int (unat (pmf_scale_levels gpmf)) - 1" by (simp add: c(6) sp(1))
    moreover have "length (dists g) = length (pmf_lengths gpmf)" using rans_create_dists(1) [OF c(1)] by simp
    ultimately show ?thesis using c(5) by linarith
  qed
  have "length (pmf_lengths bpmf) \<le> 2 ^ 20"
    using conjunct1 [OF load_pmf_read [OF c(7)]] by (simp add: pmf_wf_def kMaxLen_def)
  then have "int (length (pmf_lengths bpmf)) = uint (pmf_qp_num bpmf) * uint (pmf_channels bpmf)"
    by (rule u32_product [OF c(8)])
  then show "int (length (dists b)) = uint (ec_qp_num cfg') * uint (ec_z_channels cfg')"
    using rans_create_dists(1) [OF c(2)] by (simp add: c(6))
qed

section \<open>Claims\<close>

lemma table_indices:
  assumes c: "init_rans_coders m cfg = Inr (g, b, cfg1)"
    and r: "resolve_entropy_geometry cfg1 qp ZC ZH ZW YC YH YW = (Inr (), cfg2)"
    and len: "length z = nat ZC * nat ZH * nat ZW" "length p0 = nat YC * nat YH * nat YW" "length p1 = nat YC * nat YH * nat YW"
  shows "(\<forall>v \<in> set (build_z_idx qp (nat ZC) (nat ZH) (nat ZW)). 0 \<le> v \<and> v < int (length (dists b))) \<and>
    (\<exists>q0 q1. extract_scales neon (Some z) (Some p0) (Some p1) YC YH YW ZC ZH ZW (ec_channel_repeat cfg2) (ec_spatial_repeat cfg2)
        (ec_scale_max_index cfg2) = (Ok, Some q0, Some q1) \<and> length q0 = length p0 \<and> length q1 = length p1 \<and>
      (\<forall>v \<in> set q0 \<union> set q1. 0 \<le> v \<and> v < int (length (dists g))))"
proof -
  note geo = geometry_result [OF r]
  note co = coders_result [OF c]
  have ent: "ec_qp_num cfg2 = ec_qp_num cfg1" "ec_z_channels cfg2 = ec_z_channels cfg1"
    using r by (auto simp: resolve_entropy_geometry_def Let_def split: if_splits)
  have idx: "\<forall>v \<in> set (build_z_idx qp (nat ZC) (nat ZH) (nat ZW)). 0 \<le> v \<and> v < int (length (dists b))"
    using build_z_idx_range [OF geo(3,4), of _ "nat ZC" "nat ZH" "nat ZW"] co(3) geo(5,6) by (simp add: ent)
  define cr sr m where "cr = ec_channel_repeat cfg2" "sr = ec_spatial_repeat cfg2" "m = ec_scale_max_index cfg2"
  have m: "0 \<le> m" "m < int (length (dists g))" using co(4,9) geo(15) by (simp_all add: cr_sr_m_def)
  have need: "2 * nat YC \<le> nat ZC * nat cr"
  proof -
    have cr: "0 < cr" using geo(1) by (simp add: cr_sr_m_def)
    define q where "q = (2 * YC + cr - 1) div cr"
    have "q \<le> ZC" using geo(12) by (simp add: cr_sr_m_def q_def)
    then have "q * cr \<le> ZC * cr" using cr by (intro mult_right_mono) simp_all
    moreover have "2 * YC + cr - 1 = q * cr + (2 * YC + cr - 1) mod cr" unfolding q_def by simp
    moreover have "(2 * YC + cr - 1) mod cr < cr" using cr by simp
    ultimately have "2 * YC \<le> ZC * cr" by linarith
    then have "nat (2 * YC) \<le> nat (ZC * cr)" by simp
    then show ?thesis using geo(6,9) cr by (simp add: nat_mult_distrib)
  qed
  have pos: "0 < nat YC" "0 < nat YH" "0 < nat YW" "0 < nat ZC" "0 < nat ZH" "0 < nat ZW" "0 < nat cr" "0 < nat sr"
    using geo(1,2,6-11) by (simp_all add: cr_sr_m_def)
  have sized: "int (nat YC) = YC" "int (nat YH) = YH" "int (nat YW) = YW" "int (nat ZC) = ZC" "int (nat ZH) = ZH"
    "int (nat ZW) = ZW" "int (nat cr) = cr" "int (nat sr) = sr"
    using geo(1,2,6-11) by (simp_all add: cr_sr_m_def)
  obtain st t0 t1 where e: "extract_scales neon (Some z) (Some p0) (Some p1) YC YH YW ZC ZH ZW cr sr m = (st, t0, t1)"
    by (metis prod_cases3)
  note cells = extract_scales_cells [OF pos m(1) len, of neon, unfolded sized e prod.case if_P [OF need] Let_def]
  obtain q0 q1 where q: "st = Ok" "t0 = Some q0" "t1 = Some q1"
    "length q0 = nat YC * nat YH * nat YW" "length q1 = nat YC * nat YH * nat YW"
    and at: "\<forall>c < nat YC. \<forall>y < nat YH. \<forall>x < nat YW.
      {scale_at z (nat ZH) (nat ZW) (nat cr) (nat sr) m c y x, scale_at z (nat ZH) (nat ZW) (nat cr) (nat sr) m (c + nat YC) y x}
        \<subseteq> (\<lambda>v. min \<bar>v\<bar> m) ` set z \<and>
      q0 ! ((c * nat YH + y) * nat YW + x) = (if even (x + y) then scale_at z (nat ZH) (nat ZW) (nat cr) (nat sr) m c y x
         else scale_at z (nat ZH) (nat ZW) (nat cr) (nat sr) m (c + nat YC) y x) \<and>
      q1 ! ((c * nat YH + y) * nat YW + x) = (if even (x + y) then scale_at z (nat ZH) (nat ZW) (nat cr) (nat sr) m (c + nat YC) y x
         else scale_at z (nat ZH) (nat ZW) (nat cr) (nat sr) m c y x)"
    using cells by blast
  have cell: "{q0 ! ((c * nat YH + y) * nat YW + x), q1 ! ((c * nat YH + y) * nat YW + x)} \<subseteq> (\<lambda>v. min \<bar>v\<bar> m) ` set z"
    if "c < nat YC" "y < nat YH" "x < nat YW" for c y x
    using at [rule_format, OF that] by (simp split: if_splits)
  have elem: "v \<in> (\<lambda>v. min \<bar>v\<bar> m) ` set z" if v: "v \<in> set q0 \<union> set q1" for v
  proof -
    obtain j where j: "j < nat YC * nat YH * nat YW" "v = q0 ! j \<or> v = q1 ! j"
      using v q(4,5) unfolding Un_iff in_set_conv_nth by metis
    then obtain c y x where "c < nat YC" "y < nat YH" "x < nat YW" "j = (c * nat YH + y) * nat YW + x"
      using idx3_decode by metis
    then show ?thesis using cell j(2) by blast
  qed
  have "\<forall>v \<in> set q0 \<union> set q1. 0 \<le> v \<and> v < int (length (dists g))"
  proof
    fix v assume "v \<in> set q0 \<union> set q1"
    then obtain w where "v = min \<bar>w\<bar> m" using elem by blast
    then show "0 \<le> v \<and> v < int (length (dists g))" using m by linarith
  qed
  then show ?thesis using idx e q len unfolding cr_sr_m_def by simp
qed

text \<open>A small model: two Gaussian scales, one quantiser, two channels of the hyper-latent.\<close>

definition sample_gpmf :: pmf where
  "sample_gpmf = \<lparr>pmf_lengths = [3, 2], pmf_offsets = [1, 0], pmf_table = [32768, 16384, 16384, 49152, 16384],
     pmf_scale_min = 0, pmf_scale_max = 0, pmf_scale_levels = 2, pmf_index_space = 1, pmf_qp_num = 0, pmf_channels = 0, pmf_gaussian = True\<rparr>"

definition sample_bpmf :: pmf where
  "sample_bpmf = \<lparr>pmf_lengths = [2, 2], pmf_offsets = [0, 0], pmf_table = [32768, 32768, 16384, 49152],
     pmf_scale_min = 0, pmf_scale_max = 0, pmf_scale_levels = 0, pmf_index_space = 0, pmf_qp_num = 1, pmf_channels = 2, pmf_gaussian = False\<rparr>"

definition sample_patch :: "u8 \<Rightarrow> payload" where
  "sample_patch q = \<lparr>pl_kind = kKindQppatch, pl_data = [0x51, 0x50, 0x50, 0x31, 0, 0, 0, 0, 0, 0, 0, 0, 0, 0, 0, 0, q, 0, 0, 0] @ replicate 28 0\<rparr>"

definition sample_model :: "string \<Rightarrow> payload list \<Rightarrow> model" where
  "sample_model role ps = \<lparr>md_id = ''m'', md_family = ''mlvc'', md_role = role, md_target = ''soc'',
     md_payloads = [\<lparr>pl_kind = kKindPmfGaussian, pl_data = pmf_bytes sample_gpmf\<rparr>, \<lparr>pl_kind = kKindPmfBitest, pl_data = pmf_bytes sample_bpmf\<rparr>,
       \<lparr>pl_kind = kKindRknn, pl_data = [1]\<rparr>] @ ps\<rparr>"

lemma sample_loads: "load_pmf (Some (pmf_bytes sample_gpmf)) = Inr sample_gpmf" "load_pmf (Some (pmf_bytes sample_bpmf)) = Inr sample_bpmf"
  using load_pmf_written [of sample_gpmf "[]"] load_pmf_written [of sample_bpmf "[]"]
  by (simp_all add: pmf_wf_def sample_gpmf_def sample_bpmf_def kMaxLen_def kMaxTab_def)

lemma sample_tables:
  "\<exists>g. rans_create RansByte (map sint (pmf_lengths sample_gpmf)) (map sint (pmf_offsets sample_gpmf)) (map sint (pmf_table sample_gpmf)) 16 2 = Inr g"
  "\<exists>b. rans_create RansByte (map sint (pmf_lengths sample_bpmf)) (map sint (pmf_offsets sample_bpmf)) (map sint (pmf_table sample_bpmf)) 16 2 = Inr b"
  by (simp_all add: sample_gpmf_def sample_bpmf_def rans_create_def kByteMaxScale_def Let_def freq_ok_def)

lemma sample_coders:
  "\<exists>g b. init_rans_coders (sample_model role ps) cfg = Inr (g, b, cfg\<lparr>ec_scale_max_index := 1, ec_qp_num := 1, ec_z_channels := 2\<rparr>) \<and>
     length (dists g) = 2 \<and> length (dists b) = 2 \<and> map value_offset (dists g) = [1, 0] \<and> map value_offset (dists b) = [0, 0]"
proof -
  obtain g b where c: "rans_create RansByte (map sint (pmf_lengths sample_gpmf)) (map sint (pmf_offsets sample_gpmf)) (map sint (pmf_table sample_gpmf)) 16 2 = Inr g"
    "rans_create RansByte (map sint (pmf_lengths sample_bpmf)) (map sint (pmf_offsets sample_bpmf)) (map sint (pmf_table sample_bpmf)) 16 2 = Inr b"
    using sample_tables by blast
  have f: "model_find (sample_model role ps) kKindPmfGaussian = Some \<lparr>pl_kind = kKindPmfGaussian, pl_data = pmf_bytes sample_gpmf\<rparr>"
    "model_find (sample_model role ps) kKindPmfBitest = Some \<lparr>pl_kind = kKindPmfBitest, pl_data = pmf_bytes sample_bpmf\<rparr>"
    by (simp_all add: model_find_def sample_model_def kKindPmfGaussian_def kKindPmfBitest_def)
  have p: "pmf_gaussian sample_gpmf" "pmf_index_space sample_gpmf \<noteq> 0" "pmf_scale_levels sample_gpmf = 2" "length (pmf_lengths sample_gpmf) = 2"
    "pmf_qp_num sample_bpmf = 1" "pmf_channels sample_bpmf = 2" "length (pmf_lengths sample_bpmf) = 2"
    by (simp_all add: sample_gpmf_def sample_bpmf_def)
  have "init_rans_coders (sample_model role ps) cfg = Inr (g, b, cfg\<lparr>ec_scale_max_index := 1, ec_qp_num := 1, ec_z_channels := 2\<rparr>)"
    by (simp add: init_rans_coders_def Let_def f sample_loads p c)
  moreover have "length (dists g) = 2" "length (dists b) = 2" "map value_offset (dists g) = [1, 0]" "map value_offset (dists b) = [0, 0]"
    using rans_create_dists [OF c(1)] rans_create_dists [OF c(2)] by (simp_all add: sample_gpmf_def sample_bpmf_def)
  ultimately show ?thesis by (intro exI [of _ g] exI [of _ b] conjI)
qed

text \<open>
  The rungs of a session are a strictly increasing list of at most eight quantisers in the range of
  the codec that holds the session's own; they are the patches of the model, or the session's quantiser
  alone where the model has no patch. The only refusal is a session quantiser that no patch provides.
\<close>

theorem collect_rungs_sound:
  assumes "0 \<le> qp" "qp \<le> 63"
  shows "case collect_rungs m qp of
      Inr rungs \<Rightarrow> sorted rungs \<and> distinct rungs \<and> rungs \<noteq> [] \<and> length rungs \<le> kMaxRungs \<and> qp \<in> set rungs \<and>
        (\<forall>q \<in> set rungs. 0 \<le> q \<and> q \<le> 63) \<and>
        (if offered (md_payloads m) = {} then rungs = [qp] else set rungs \<subseteq> offered (md_payloads m))
    | Inl e \<Rightarrow> fst e = Format \<and> offered (md_payloads m) \<noteq> {} \<and>
        (card (offered (md_payloads m)) \<le> kMaxRungs \<longrightarrow> qp \<notin> offered (md_payloads m))"
  by (rule collect_result [OF assms])

lemma collect_rungs_sound_witness:
  "collect_rungs (sample_model ''encoder'' [sample_patch 40, sample_patch 21]) 21 = Inr [21, 40] \<and> sorted [21, 40 :: int] \<and>
   (21 :: int) \<in> set [21, 40]"
proof -
  have q: "qppatch_qp (Some (sample_patch 40)) = 40" "qppatch_qp (Some (sample_patch 21)) = 21"
    by (simp_all add: qppatch_qp_def sample_patch_def rd_u32_def)
  have k: "pl_kind (sample_patch q) = kKindQppatch" for q by (simp add: sample_patch_def)
  have r: "collect_rungs (sample_model ''encoder'' [sample_patch 40, sample_patch 21]) 21 = Inr [21, 40]"
    by (simp add: collect_rungs_def sample_model_def kKindPmfGaussian_def kKindPmfBitest_def kKindRknn_def kKindQppatch_def
        q k kMaxRungs_def Let_def)
  from collect_rungs_sound [of 21 "sample_model ''encoder'' [sample_patch 40, sample_patch 21]"] show ?thesis
    unfolding r by simp
qed

text \<open>
  The rung chosen for a solved quantiser is the nearest one, and the first of the nearest.
\<close>

theorem nearest_rung_closest:
  assumes "rungs \<noteq> []" "\<forall>i < length rungs. rung_dist rungs q i < 2 ^ 31 - 1"
  shows "nearest_rung rungs q < length rungs \<and>
    (\<forall>i < length rungs. rung_dist rungs q (nearest_rung rungs q) \<le> rung_dist rungs q i) \<and>
    (\<forall>i < nearest_rung rungs q. rung_dist rungs q (nearest_rung rungs q) < rung_dist rungs q i)"
  using nearest_rung_is [OF assms] by blast

lemma nearest_rung_closest_witness: "nearest_rung [10, 21, 32, 40] 26 = 1 \<and> rung_dist [10, 21, 32, 40] 26 1 \<le> rung_dist [10, 21, 32, 40] 26 2"
proof -
  have "\<forall>i < length [10, 21, 32, 40]. rung_dist [10, 21, 32, 40] 26 i < 2 ^ 31 - 1"
    by (auto simp: rung_dist_def less_Suc_eq numeral_eq_Suc)
  from nearest_rung_closest [OF _ this] have "rung_dist [10, 21, 32, 40] 26 (nearest_rung [10, 21, 32, 40] 26) \<le> rung_dist [10, 21, 32, 40] 26 2"
    by simp
  moreover have "nearest_rung [10, 21, 32, 40] 26 = 1" by (simp add: nearest_rung_def upt_rec)
  ultimately show ?thesis by simp
qed

text \<open>
  C35. Binding makes the entropy coding safe: when the coders of a model are accepted and the geometry of
  its latents is resolved, every index of the hyper-latent selects a table of the hyper coder, the
  expansion of the scales succeeds on buffers of that geometry whatever the hyper-latent holds, and every
  index it produces selects a table of the Gaussian coder.
\<close>

theorem binding_indices_in_tables:
  assumes "init_rans_coders m cfg = Inr (g, b, cfg1)"
    and "resolve_entropy_geometry cfg1 qp ZC ZH ZW YC YH YW = (Inr (), cfg2)"
    and "length z = nat ZC * nat ZH * nat ZW" "length p0 = nat YC * nat YH * nat YW" "length p1 = nat YC * nat YH * nat YW"
  shows "(\<forall>v \<in> set (build_z_idx qp (nat ZC) (nat ZH) (nat ZW)). 0 \<le> v \<and> v < int (length (dists b))) \<and>
    (\<exists>q0 q1. extract_scales neon (Some z) (Some p0) (Some p1) YC YH YW ZC ZH ZW (ec_channel_repeat cfg2) (ec_spatial_repeat cfg2)
        (ec_scale_max_index cfg2) = (Ok, Some q0, Some q1) \<and> length q0 = length p0 \<and> length q1 = length p1 \<and>
      (\<forall>v \<in> set q0 \<union> set q1. 0 \<le> v \<and> v < int (length (dists g))))"
  by (rule table_indices [OF assms])

lemma binding_indices_in_tables_witness:
  "\<exists>g b cfg1 cfg2 q0 q1. init_rans_coders (sample_model ''encoder'' []) no_entropy = Inr (g, b, cfg1) \<and>
     resolve_entropy_geometry cfg1 0 2 1 1 1 1 2 = (Inr (), cfg2) \<and>
     extract_scales True (Some [-5, 7]) (Some [0, 0]) (Some [0, 0]) 1 1 2 2 1 1 (ec_channel_repeat cfg2) (ec_spatial_repeat cfg2)
       (ec_scale_max_index cfg2) = (Ok, Some q0, Some q1) \<and> (\<forall>v \<in> set q0 \<union> set q1. v < int (length (dists g)))"
proof -
  let ?cfg = no_entropy
  let ?cfg1 = "?cfg\<lparr>ec_scale_max_index := 1, ec_qp_num := 1, ec_z_channels := 2\<rparr>"
  obtain g b where c: "init_rans_coders (sample_model ''encoder'' []) ?cfg = Inr (g, b, ?cfg1)"
    using sample_coders by blast
  obtain cfg2 where r: "resolve_entropy_geometry ?cfg1 0 2 1 1 1 1 2 = (Inr (), cfg2)"
    by (simp add: resolve_entropy_geometry_def ceil_div_def no_entropy_def)
  from binding_indices_in_tables [OF c r, of "[-5, 7]" "[0, 0]" "[0, 0]" True] c r show ?thesis by fastforce
qed

end
