(* ===== verification/Half_Float.thy ===== *)
theory Half_Float
  imports Prelude
begin

text \<open>
  The portable conversions between half and single precision of
  \<open>codecs/mlvc/include/mlvc/pixel.hpp\<close>, as operations on the encodings, and what the callers of
  \<open>pixel.cpp\<close> use of the standard library beside them: \<open>lrintf\<close> and the conversion of an \<open>int32_t\<close> to
  \<open>float\<close>, both rounding to nearest, ties to even.
\<close>

section \<open>The code\<close>

definition f32_to_f16 :: "u32 \<Rightarrow> u16" where
  "f32_to_f16 x =
     (let sign = drop_bit 16 x AND 0x8000;
          exp = uint (drop_bit 23 x AND 0xff) - 127 + 15;
          mant = x AND 0x7fffff
      in if exp \<le> 0 then
           if exp < -10 then ucast sign
           else let mant = mant OR 0x800000;
                    shift = nat (14 - exp);
                    half = push_bit (shift - 1) 1;
                    mant16 = drop_bit shift mant;
                    mant16 = (if mant AND (half * 2 - 1) > half \<or>
                                 (mant AND (half * 2 - 1) = half \<and> mant16 AND 1 \<noteq> 0)
                              then mant16 + 1 else mant16)
                in ucast (sign OR mant16)
         else if exp \<ge> 31 then ucast (sign OR 0x7c00)
         else let mant16 = drop_bit 13 mant;
                  mant16 = (if mant AND 0x1fff > 0x1000 \<or> (mant AND 0x1fff = 0x1000 \<and> mant16 AND 1 \<noteq> 0)
                            then mant16 + 1 else mant16)
              in if mant16 = 0x400
                 then if exp + 1 \<ge> 31 then ucast (sign OR 0x7c00)
                      else ucast (sign OR push_bit 10 (word_of_int (exp + 1)) OR 0)
                 else ucast (sign OR push_bit 10 (word_of_int exp) OR mant16))"

text \<open>The loop of the denormal case; \<open>None\<close> would be a loop that does not end.\<close>

partial_function (option) norm_mant :: "u32 \<Rightarrow> u32 \<Rightarrow> (u32 \<times> u32) option" where
  "norm_mant mant e =
     (if mant AND 0x400 \<noteq> 0 then Some (mant, e) else norm_mant (push_bit 1 mant) (e - 1))"

definition f16_to_f32 :: "u16 \<Rightarrow> u32 option" where
  "f16_to_f32 h =
     (let sign = push_bit 16 (ucast (h AND 0x8000)) :: u32;
          exp = ucast (drop_bit 10 h AND 0x1f) :: u32;
          mant = ucast (h AND 0x3ff) :: u32
      in if exp = 0 then
           if mant = 0 then Some sign
           else map_option (\<lambda>(mant, exp). sign OR push_bit 23 exp OR push_bit 13 (mant AND 0x3ff))
                  (norm_mant mant (127 - 15 + 1))
         else if exp = 0x1f then Some (sign OR 0x7f800000 OR push_bit 13 mant)
         else Some (sign OR push_bit 23 (exp - 15 + 127) OR push_bit 13 mant))"

section \<open>The standard library\<close>

text \<open>\<open>q / 2^k\<close> rounded to nearest, ties to even.\<close>

definition rne :: "nat \<Rightarrow> nat \<Rightarrow> nat" where
  "rne q k = (let f = q div 2 ^ k; r = q mod 2 ^ k
              in if 2 * r > 2 ^ k \<or> (2 * r = 2 ^ k \<and> odd f) then f + 1 else f)"

definition f32_sign :: "u32 \<Rightarrow> bool" where "f32_sign x = bit x 31"
definition f32_exp :: "u32 \<Rightarrow> nat" where "f32_exp x = unat x div 2 ^ 23 mod 2 ^ 8"
definition f32_mant :: "u32 \<Rightarrow> nat" where "f32_mant x = unat x mod 2 ^ 23"

text \<open>The magnitude of a finite single in units of \<open>2 ^ -149\<close>.\<close>

definition f32_units :: "u32 \<Rightarrow> nat" where
  "f32_units x = (if f32_exp x = 0 then f32_mant x else (2 ^ 23 + f32_mant x) * 2 ^ (f32_exp x - 1))"

text \<open>The result for infinities and for not-a-number is unspecified.\<close>

definition lrintf :: "u32 \<Rightarrow> int option" where
  "lrintf x =
     (let a = int (rne (f32_units x) 149)
      in if f32_exp x = 255 then None else Some (if f32_sign x then - a else a))"

fun floor_log2 :: "nat \<Rightarrow> nat" where
  "floor_log2 n = (if n < 2 then 0 else Suc (floor_log2 (n div 2)))"

definition int_to_f32 :: "int \<Rightarrow> u32" where
  "int_to_f32 v =
     (let n = nat \<bar>v\<bar>; s = (if v < 0 then 2 ^ 31 else 0)
      in if n = 0 then 0
         else let k = floor_log2 n
              in if k \<le> 23 then of_nat (s + (127 + k) * 2 ^ 23 + (n * 2 ^ (23 - k) - 2 ^ 23))
                 else of_nat (s + (127 + k) * 2 ^ 23 + (rne n (k - 23) - 2 ^ 23)))"

declare floor_log2.simps [simp del]

section \<open>Encodings as numbers\<close>

lemma and_mask_of_nat: "of_nat n AND (mask k :: 'a::len word) = of_nat (n mod 2 ^ k)"
  by (simp only: take_bit_eq_mask [symmetric] take_bit_of_nat) (simp only: take_bit_eq_mod)

lemma or_of_nat: "a mod 2 ^ k = 0 \<Longrightarrow> b < 2 ^ k \<Longrightarrow> of_nat a OR of_nat b = (of_nat (a + b) :: 'a::len word)"
  for a b :: nat
proof -
  assume a: "a mod 2 ^ k = 0" and b: "b < 2 ^ k"
  have "take_bit k a = 0" "take_bit k b = b" using a b by (simp_all add: take_bit_eq_mod)
  then have "\<not> (bit a i \<and> bit b i)" for i
    by (metis bit_0_eq bit_take_bit_iff bot_apply bot_bool_def)
  then have "a AND b = 0" by (simp add: bit_eq_iff bit_and_iff)
  then have "a OR b = a + b" by (simp add: disjunctive_add_eq_or)
  then show ?thesis by (metis of_nat_or_eq)
qed

lemma and_power_of_nat:
  "S < 2 \<Longrightarrow> r < 2 ^ k \<Longrightarrow> of_nat (S * 2 ^ k + r) AND (2 ^ k :: 'a::len word) = of_nat (S * 2 ^ k)"
  for S r :: nat
proof -
  assume S: "S < 2" and r: "r < 2 ^ k"
  have odd: "bit (S * 2 ^ k + r) k \<longleftrightarrow> odd S"
    using r by (simp add: bit_iff_odd div_add1_eq [of "S * 2 ^ k" r "2 ^ k"])
  have "(S * 2 ^ k + r) AND 2 ^ k = S * 2 ^ k"
  proof (cases "S = 0")
    case True
    then show ?thesis using odd by (simp add: and_exp_eq_0_iff_not_bit)
  next
    case False
    then have "S = 1" using S by simp
    then have "(S * 2 ^ k + r) AND 2 ^ k = 2 ^ k" 
      using odd by (intro bit_eqI) (auto simp: bit_simps)
    then show ?thesis using \<open>S = 1\<close> by simp
  qed
  then show ?thesis by (metis of_nat_and_eq of_nat_numeral of_nat_power)
qed


text \<open>Sign, exponent and mantissa of the two formats.\<close>

definition f32_of :: "nat \<Rightarrow> nat \<Rightarrow> nat \<Rightarrow> u32" where "f32_of S E M = of_nat (S * 2 ^ 31 + E * 2 ^ 23 + M)"
definition f16_of :: "nat \<Rightarrow> nat \<Rightarrow> nat \<Rightarrow> u16" where "f16_of S e m = of_nat (S * 2 ^ 15 + e * 2 ^ 10 + m)"

lemma f32_ofI: "unat x = S * 2 ^ 31 + E * 2 ^ 23 + M \<Longrightarrow> x = f32_of S E M"
  unfolding f32_of_def by (metis of_nat_unat ucast_id)

lemma f16_ofI: "unat x = S * 2 ^ 15 + e * 2 ^ 10 + m \<Longrightarrow> x = f16_of S e m"
  unfolding f16_of_def by (metis of_nat_unat ucast_id)

lemma unat_f32_of: "S < 2 \<Longrightarrow> E < 256 \<Longrightarrow> M < 2 ^ 23 \<Longrightarrow> unat (f32_of S E M) = S * 2 ^ 31 + E * 2 ^ 23 + M"
  unfolding f32_of_def by (rule unat_of_nat_small) simp

lemma unat_f16_of: "S < 2 \<Longrightarrow> e < 32 \<Longrightarrow> m < 2 ^ 10 \<Longrightarrow> unat (f16_of S e m) = S * 2 ^ 15 + e * 2 ^ 10 + m"
  unfolding f16_of_def by (rule unat_of_nat_small) simp

lemma f32_cases:
  obtains S E M where "S < 2" "E < 256" "M < 2 ^ 23" "x = f32_of S E M"
proof -
  have "unat x < 2 * 256 * 2 ^ 23" using unsigned_less [of x] by simp
  from idx3_decode [OF this] obtain S E M where *: "S < 2" "E < 256" "M < 2 ^ 23" "unat x = (S * 256 + E) * 2 ^ 23 + M" by blast
  then have "x = f32_of S E M" by (intro f32_ofI) simp
  with * show thesis by (intro that)
qed

lemma f16_cases:
  obtains S e m where "S < 2" "e < 32" "m < 2 ^ 10" "h = f16_of S e m"
proof -
  have "unat h < 2 * 32 * 2 ^ 10" using unsigned_less [of h] by simp
  from idx3_decode [OF this] obtain S e m where *: "S < 2" "e < 32" "m < 2 ^ 10" "unat h = (S * 32 + e) * 2 ^ 10 + m" by blast
  then have "h = f16_of S e m" by (intro f16_ofI) simp
  with * show thesis by (intro that)
qed

definition f16_sign :: "u16 \<Rightarrow> bool" where "f16_sign h = bit h 15"
definition f16_exp :: "u16 \<Rightarrow> nat" where "f16_exp h = unat h div 2 ^ 10 mod 2 ^ 5"
definition f16_mant :: "u16 \<Rightarrow> nat" where "f16_mant h = unat h mod 2 ^ 10"

lemma fields_f32_of [simp]:
  assumes "S < 2" "E < 256" "M < 2 ^ 23"
  shows "f32_sign (f32_of S E M) \<longleftrightarrow> S = 1" "f32_exp (f32_of S E M) = E" "f32_mant (f32_of S E M) = M"
proof -
  have u: "unat (f32_of S E M) = (S * 256 + E) * 2 ^ 23 + M"
    using assms by (simp add: unat_f32_of)
  show "f32_exp (f32_of S E M) = E" "f32_mant (f32_of S E M) = M"
    using assms unfolding f32_exp_def f32_mant_def u by (simp_all only: idx2_div idx2_mod) (simp add: idx2_mod [of E 256, simplified])
  have "bit (f32_of S E M) 31 \<longleftrightarrow> odd (unat (f32_of S E M) div 2 ^ 31)"
    by (rule bit_odd_unat)
  moreover have "unat (f32_of S E M) div 2 ^ 31 = S"
    using assms div_mult2_eq [of "unat (f32_of S E M)" "2 ^ 23" 256] unfolding u by (simp only: idx2_div) simp
  ultimately show "f32_sign (f32_of S E M) \<longleftrightarrow> S = 1"
    using assms(1) by (auto simp: f32_sign_def less_2_cases_iff)
qed

lemma fields_f16_of [simp]:
  assumes "S < 2" "e < 32" "m < 2 ^ 10"
  shows "f16_sign (f16_of S e m) \<longleftrightarrow> S = 1" "f16_exp (f16_of S e m) = e" "f16_mant (f16_of S e m) = m"
proof -
  have u: "unat (f16_of S e m) = (S * 32 + e) * 2 ^ 10 + m"
    using assms by (simp add: unat_f16_of)
  show "f16_exp (f16_of S e m) = e" "f16_mant (f16_of S e m) = m"
    using assms unfolding f16_exp_def f16_mant_def u by (simp_all only: idx2_div idx2_mod) (simp add: idx2_mod [of e 32, simplified])
  have "bit (f16_of S e m) 15 \<longleftrightarrow> odd (unat (f16_of S e m) div 2 ^ 15)"
    by (rule bit_odd_unat)
  moreover have "unat (f16_of S e m) div 2 ^ 15 = S"
    using assms div_mult2_eq [of "unat (f16_of S e m)" "2 ^ 10" 32] unfolding u by (simp only: idx2_div) simp
  ultimately show "f16_sign (f16_of S e m) \<longleftrightarrow> S = 1"
    using assms(1) by (auto simp: f16_sign_def less_2_cases_iff)
qed

section \<open>Rounding to nearest\<close>

lemma rne_exact: "rne (n * 2 ^ k) k = n"
  by (simp add: rne_def)

lemma rne_le: "q \<le> N * 2 ^ k \<Longrightarrow> rne q k \<le> N"
proof -
  assume q: "q \<le> N * 2 ^ k"
  show ?thesis
  proof (cases "q = N * 2 ^ k")
    case False
    then have "q < N * 2 ^ k" using q by simp
    then have "q div 2 ^ k < N" by (simp add: less_mult_imp_div_less)
    then show ?thesis by (simp add: rne_def Let_def)
  qed (simp add: rne_exact)
qed

lemma rne_ge: "N * 2 ^ k \<le> q \<Longrightarrow> N \<le> rne q k"
proof -
  assume "N * 2 ^ k \<le> q"
  then have "N \<le> q div 2 ^ k" by (simp add: less_eq_div_iff_mult_less_eq)
  then show ?thesis by (simp add: rne_def Let_def)
qed

text \<open>No number outside the open interval between the two neighbours of \<open>q\<close> is closer, and on a tie the
  result is even.\<close>

lemma rne_nearest:
  assumes "w \<le> q div 2 ^ k * 2 ^ k \<or> (q div 2 ^ k + 1) * 2 ^ k \<le> w"
  shows "\<bar>int (rne q k * 2 ^ k) - int q\<bar> \<le> \<bar>int w - int q\<bar>"
    and "\<bar>int (rne q k * 2 ^ k) - int q\<bar> = \<bar>int w - int q\<bar> \<Longrightarrow> w \<noteq> rne q k * 2 ^ k \<Longrightarrow> even (rne q k)"
proof -
  define f r where "f = q div 2 ^ k" and "r = q mod 2 ^ k"
  have q: "q = f * 2 ^ k + r" "r < 2 ^ k" by (metis div_mult_mod_eq f_def r_def) (simp add: r_def)
  have w: "w \<le> f * 2 ^ k \<or> f * 2 ^ k + 2 ^ k \<le> w" using assms by (simp add: f_def add.commute)
  have R: "rne q k = (if 2 * r > 2 ^ k \<or> (2 * r = 2 ^ k \<and> odd f) then f + 1 else f)"
    by (simp add: rne_def f_def r_def Let_def)
  define B P :: nat where "B = 2 ^ k" and "P = f * 2 ^ k"
  have R': "rne q k * 2 ^ k = (if 2 * r > B \<or> (2 * r = B \<and> odd f) then P + B else P)"
    unfolding R by (simp add: B_def P_def)
  have q: "q = P + r" "r < B" and w: "w \<le> P \<or> P + B \<le> w"
    using q w by (simp_all add: B_def P_def)
  show "\<bar>int (rne q k * 2 ^ k) - int q\<bar> \<le> \<bar>int w - int q\<bar>"
    unfolding R' using q w by (cases "2 * r > B \<or> (2 * r = B \<and> odd f)") auto
  assume "\<bar>int (rne q k * 2 ^ k) - int q\<bar> = \<bar>int w - int q\<bar>" "w \<noteq> rne q k * 2 ^ k"
  then have "2 * r = B"
    unfolding R' using q w by (cases "2 * r > B \<or> (2 * r = B \<and> odd f)") auto
  then show "even (rne q k)" unfolding R by (simp add: B_def)
qed

section \<open>Single to half precision, on numbers\<close>

text \<open>The encoding of the magnitude.\<close>

definition f16_mag :: "nat \<Rightarrow> nat \<Rightarrow> nat" where
  "f16_mag E M =
     (if E < 102 then 0
      else if E \<le> 112 then rne (M + 2 ^ 23) (126 - E)
      else if E \<ge> 143 then 31 * 2 ^ 10
      else (E - 112) * 2 ^ 10 + rne M 13)"

lemma f16_mag_le: "M < 2 ^ 23 \<Longrightarrow> f16_mag E M \<le> 31 * 2 ^ 10"
proof -
  assume M: "M < 2 ^ 23"
  have 1: "rne (M + 2 ^ 23) (126 - E) \<le> 2 ^ 10" if "102 \<le> E" "E \<le> 112"
  proof (rule rne_le)
    have "(2::nat) ^ 14 \<le> 2 ^ (126 - E)" using that by (intro power_increasing) auto
    then show "M + 2 ^ 23 \<le> 2 ^ 10 * 2 ^ (126 - E)" using M by simp
  qed
  have 2: "rne M 13 \<le> 2 ^ 10" by (rule rne_le) (use M in simp)
  show ?thesis using 1 2 by (auto simp: f16_mag_def)
qed

lemma rne_word:
  assumes "q < 2 ^ 31" "k < 31" "0 < k"
  shows "(if (of_nat q :: u32) AND (push_bit (k - 1) 1 * 2 - 1) > push_bit (k - 1) 1 \<or>
            of_nat q AND (push_bit (k - 1) 1 * 2 - 1) = (push_bit (k - 1) 1 :: u32) \<and> drop_bit k (of_nat q :: u32) AND 1 \<noteq> 0
          then drop_bit k (of_nat q) + 1 else drop_bit k (of_nat q)) = (of_nat (rne q k) :: u32)"
proof -
  obtain j where k: "k = Suc j" using assms(3) by (cases k) auto
  define r f where "r = q mod 2 ^ k" and "f = q div 2 ^ k"
  have m: "push_bit (k - 1) 1 * 2 - 1 = (mask k :: u32)"
    by (simp add: k push_bit_eq_mult mask_eq_exp_minus_1)
  have p: "push_bit (k - 1) 1 = (of_nat (2 ^ j) :: u32)" by (simp add: k push_bit_eq_mult)
  have "r \<le> q" "f \<le> q" by (simp_all add: r_def f_def)
  then have lt: "2 ^ j < (2::nat) ^ 32" "r < 2 ^ 32" "f < 2 ^ 32"
    using assms(1,2) power_strict_increasing [of j 32 "2::nat"] by (simp_all add: k)
  have a: "of_nat q AND (mask k :: u32) = of_nat r" by (simp add: and_mask_of_nat r_def)
  have d: "drop_bit k (of_nat q :: u32) = of_nat f" using assms by (simp add: drop_bit_of_nat_word f_def)
  have gt: "of_nat r > (of_nat (2 ^ j) :: u32) \<longleftrightarrow> 2 * r > 2 ^ k"
    using lt by (subst less_of_nat_word) (auto simp: k)
  have eq: "of_nat r = (of_nat (2 ^ j) :: u32) \<longleftrightarrow> 2 * r = 2 ^ k"
    using lt unfolding word_unat_eq_iff by (subst (1 2) unat_of_nat_small) (auto simp: k)
  have odd: "of_nat f AND (1 :: u32) \<noteq> 0 \<longleftrightarrow> odd f"
    using and_mask_of_nat [of f 1, where 'a = 32] by (cases "odd f") (simp_all add: mask_eq_exp_minus_1 odd_iff_mod_2_eq_one)
  show ?thesis
    unfolding m unfolding p a d gt eq odd by (simp add: rne_def r_def f_def Let_def)
qed

lemma f32_to_f16_of:
  assumes "S < 2" "E < 256" "M < 2 ^ 23"
  shows "f32_to_f16 (f32_of S E M) = of_nat (S * 2 ^ 15 + f16_mag E M)"
proof -
  let ?x = "f32_of S E M"
  let ?c = "\<lambda>n. (ucast (of_nat n :: u32) :: u16)"
  have c: "?c n = of_nat n" if "n < 2 ^ 32" for n
    using that by (simp add: unsigned_of_nat take_bit_nat_eq_self)
  have bound: "S * 2 ^ 31 + E * 2 ^ 23 + M < 2 ^ LENGTH(32)" using assms by simp
  have drop: "drop_bit k ?x = of_nat ((S * 2 ^ 31 + E * 2 ^ 23 + M) div 2 ^ k)" for k
    unfolding f32_of_def by (rule drop_bit_of_nat_word [OF bound])
  have hi: "(S * 2 ^ 31 + E * 2 ^ 23 + M) div 2 ^ 16 = S * 2 ^ 15 + (E * 2 ^ 7 + M div 2 ^ 16)"
    using div_mult_self3 [of "2 ^ 16" "S * 2 ^ 15 + E * 2 ^ 7" M] by (simp add: add_mult_distrib)
  have "drop_bit 16 ?x = of_nat (S * 2 ^ 15 + (E * 2 ^ 7 + M div 2 ^ 16))"
    unfolding drop hi by simp
  moreover have "E * 2 ^ 7 + M div 2 ^ 16 < 2 ^ 15"
    using assms by simp
  ultimately have sign: "drop_bit 16 ?x AND 0x8000 = of_nat (S * 2 ^ 15)"
    using and_power_of_nat [of S "E * 2 ^ 7 + M div 2 ^ 16" 15, where 'a = 32] assms(1) by simp
  have "drop_bit 23 ?x = of_nat (S * 256 + E)"
    unfolding drop by (rule arg_cong [of _ _ of_nat]) (use idx2_div [OF assms(3), of "S * 256 + E"] in \<open>simp add: add_mult_distrib mult.commute\<close>)
  moreover have "mask 8 = (0xff :: u32)" "mask 23 = (0x7fffff :: u32)" by (simp_all add: mask_eq_exp_minus_1)
  moreover have "(S * 2 ^ 31 + E * 2 ^ 23 + M) mod 2 ^ 23 = M"
    using idx2_mod [OF assms(3), of "S * 256 + E"] by (simp add: add_mult_distrib mult.commute)
  ultimately have "drop_bit 23 ?x AND 0xff = of_nat E" and mant: "?x AND 0x7fffff = of_nat M"
    using assms and_mask_of_nat [of "S * 256 + E" 8, where 'a = 32] and_mask_of_nat [of "S * 2 ^ 31 + E * 2 ^ 23 + M" 23, where 'a = 32]
    unfolding f32_of_def by simp_all
  then have exp: "uint (drop_bit 23 ?x AND 0xff) = int E" using assms by (simp add: uint_nat unat_of_nat_small)
  define sg where "sg = (of_nat (S * 2 ^ 15) :: u32)"
  have or: "?c (S * 2 ^ 15 + n) = (of_nat (S * 2 ^ 15 + n) :: u16)" "sg OR of_nat n = of_nat (S * 2 ^ 15 + n)" if "n < 2 ^ 15" for n
    unfolding sg_def using that assms(1) c [of "S * 2 ^ 15 + n"] or_of_nat [of "S * 2 ^ 15" 15 n, where 'a = 32] by simp_all
  note code = f32_to_f16_def [of ?x, unfolded sign exp mant Let_def, folded sg_def]
  consider "E < 102" | "102 \<le> E" "E \<le> 112" | "112 < E" "E < 143" | "143 \<le> E" by linarith
  then show ?thesis
  proof cases
    case 1
    then show ?thesis using c [of "S * 2 ^ 15"] assms(1) by (simp add: code f16_mag_def sg_def)
  next
    case 2
    define k where "k = 126 - E"
    have k: "nat (14 - (int E - 127 + 15)) = k" "k < 31" "0 < k" using 2 by (simp_all add: k_def)
    have m: "of_nat M OR 0x800000 = (of_nat (M + 2 ^ 23) :: u32)"
      using or_of_nat [of "2 ^ 23" 23 M, where 'a = 32] assms(3) by (simp add: or.commute add.commute)
    have q: "M + 2 ^ 23 < 2 ^ 31" using assms(3) by simp
    have mag: "f16_mag E M = rne (M + 2 ^ 23) k" using 2 by (simp add: f16_mag_def k_def)
    have small: "rne (M + 2 ^ 23) k < 2 ^ 15" using f16_mag_le [OF assms(3), of E] mag by simp
    have "f32_to_f16 ?x = ucast (sg OR of_nat (rne (M + 2 ^ 23) k))"
      unfolding code k m rne_word [OF q k(2,3)] using 2 by simp
    then show ?thesis unfolding mag or(2) [OF small] or(1) [OF small] .
  next
    case 3
    let ?r = "rne M 13"
    have r: "?r \<le> 2 ^ 10" by (rule rne_le) (use assms(3) in simp)
    have mag: "f16_mag E M = (E - 112) * 2 ^ 10 + ?r" using 3 by (simp add: f16_mag_def)
    have q: "M < 2 ^ 31" using assms(3) by simp
    have w: "(if of_nat M AND 0x1fff > (0x1000 :: u32) \<or> of_nat M AND 0x1fff = (0x1000 :: u32) \<and> drop_bit 13 (of_nat M :: u32) AND 1 \<noteq> 0
        then drop_bit 13 (of_nat M) + 1 else drop_bit 13 (of_nat M)) = (of_nat ?r :: u32)"
      using rne_word [OF q, of 13] by (simp add: push_bit_eq_mult)
    have e: "word_of_int (int E - 127 + 15) = (of_nat (E - 112) :: u32)" "word_of_int (int E - 127 + 15 + 1) = (of_nat (E - 111) :: u32)"
    proof -
      have *: "int E - 127 + 15 = int (E - 112)" "int E - 127 + 15 + 1 = int (E - 111)" using 3 by simp_all
      show "word_of_int (int E - 127 + 15) = (of_nat (E - 112) :: u32)" "word_of_int (int E - 127 + 15 + 1) = (of_nat (E - 111) :: u32)"
        unfolding *(2) unfolding *(1) by (simp_all only: of_int_of_nat_eq)
    qed
    have full: "of_nat ?r = (0x400 :: u32) \<longleftrightarrow> ?r = 2 ^ 10"
      using r by (simp add: word_unat_eq_iff unat_of_nat_small)
    have run: "f32_to_f16 ?x = (if ?r = 2 ^ 10 then if E \<ge> 142 then ucast (sg OR 0x7c00) else ucast (sg OR push_bit 10 (of_nat (E - 111)) OR 0)
        else ucast (sg OR push_bit 10 (of_nat (E - 112)) OR of_nat ?r))"
      unfolding code w full e using 3 by simp
    show ?thesis
    proof (cases "?r = 2 ^ 10")
      case True
      have pb: "push_bit 10 (of_nat (E - 111)) = (of_nat ((E - 111) * 2 ^ 10) :: u32)" by (rule push_bit_of_nat_word)
      have m: "(E - 111) * 2 ^ 10 = f16_mag E M" and lt: "f16_mag E M < 2 ^ 15"
        using 3 by (simp_all add: mag True)
      show ?thesis
      proof (cases "E = 142")
        case True
        then have "f16_mag E M = 31 * 2 ^ 10" using mag \<open>?r = 2 ^ 10\<close> by simp
        then show ?thesis using run True or [of "31 * 2 ^ 10"] \<open>?r = 2 ^ 10\<close> by simp
      next
        case False
        have "f32_to_f16 ?x = ucast (sg OR push_bit 10 (of_nat (E - 111)))"
          unfolding run using True False 3 by simp
        then show ?thesis unfolding pb m or(2) [OF lt] or(1) [OF lt] .
      qed
    next
      case False
      then have small: "(E - 112) * 2 ^ 10 + ?r < 2 ^ 15" using 3 r by simp
      have pb: "push_bit 10 (of_nat (E - 112)) = (of_nat ((E - 112) * 2 ^ 10) :: u32)" by (rule push_bit_of_nat_word)
      have add: "of_nat ((E - 112) * 2 ^ 10) OR of_nat ?r = (of_nat ((E - 112) * 2 ^ 10 + ?r) :: u32)"
        by (rule or_of_nat [of _ 10]) (use False r in \<open>simp_all add: mod_simps\<close>)
      have "f32_to_f16 ?x = ucast (sg OR push_bit 10 (of_nat (E - 112)) OR of_nat ?r)"
        unfolding run using False by simp
      then show ?thesis unfolding pb add or(2) [OF small] or(1) [OF small] mag .
    qed
  next
    case 4
    then show ?thesis using or [of "31 * 2 ^ 10"] by (simp add: code f16_mag_def)
  qed
qed

section \<open>What the encodings stand for\<close>

text \<open>The magnitude of a finite half in units of \<open>2 ^ -24\<close>, each \<open>2 ^ 125\<close> of the units of a single.\<close>

definition f16_units :: "u16 \<Rightarrow> nat" where
  "f16_units h = (if f16_exp h = 0 then f16_mant h else (2 ^ 10 + f16_mant h) * 2 ^ (f16_exp h - 1))"

text \<open>There is no half strictly between two neighbours on the grid of a binade.\<close>

lemma f16_grid: "2 ^ j dvd f16_units h \<or> f16_units h < 2 ^ 10 * 2 ^ j"
proof (cases "f16_exp h = 0")
  case True
  have "f16_mant h < 2 ^ 10 * 2 ^ j"
    using mult_le_mono [of "2 ^ 10" "2 ^ 10" 1 "2 ^ j :: nat"] by (simp add: f16_mant_def less_le_trans [OF mod_less_divisor])
  then show ?thesis using True by (simp add: f16_units_def)
next
  case False
  define i where "i = f16_exp h - 1"
  have u: "f16_units h = (2 ^ 10 + f16_mant h) * 2 ^ i" using False by (simp add: f16_units_def i_def)
  have m: "f16_mant h < 2 ^ 10" by (simp add: f16_mant_def)
  show ?thesis
  proof (cases "j \<le> i")
    case True
    then show ?thesis unfolding u by (simp add: le_imp_power_dvd)
  next
    case False
    then have "(2::nat) ^ Suc i \<le> 2 ^ j" by (intro power_increasing) auto
    moreover have "(2 ^ 10 + f16_mant h) * 2 ^ i < 2 ^ 10 * 2 ^ Suc i" using m by simp
    ultimately show ?thesis unfolding u by (meson le_trans less_le_trans mult_le_mono2)
  qed
qed

lemma f16_gap:
  assumes "2 ^ 10 \<le> f \<or> j = 0"
  shows "f16_units h \<le> f * 2 ^ j \<or> (f + 1) * 2 ^ j \<le> f16_units h"
proof (cases "2 ^ j dvd f16_units h")
  case True
  then obtain c where c: "f16_units h = 2 ^ j * c" by blast
  show ?thesis
  proof (cases "c \<le> f")
    case False
    then have "(f + 1) * 2 ^ j \<le> c * 2 ^ j" by (intro mult_le_mono1) simp
    then show ?thesis by (simp add: c mult.commute)
  qed (simp add: c mult.commute)
next
  case False
  then have "f16_units h < 2 ^ 10 * 2 ^ j" "j \<noteq> 0" using f16_grid [of j h] by (auto intro: ccontr)
  moreover from this assms have "2 ^ 10 * 2 ^ j \<le> f * 2 ^ j" by (intro mult_le_mono1) simp
  ultimately show ?thesis by linarith
qed

text \<open>Below the overflow threshold the result stands for the rounded magnitude.\<close>

lemma f16_of_mag:
  assumes "S < 2" "n < 2 ^ 15"
  shows "of_nat (S * 2 ^ 15 + n) = f16_of S (n div 2 ^ 10) (n mod 2 ^ 10)" "n div 2 ^ 10 < 32" "n mod 2 ^ 10 < 2 ^ 10"
  using assms by (auto simp: f16_of_def)

lemma f16_units_of:
  assumes "S < 2" "n < 2 ^ 15"
  shows "f16_units (of_nat (S * 2 ^ 15 + n)) =
    (if n div 2 ^ 10 = 0 then n mod 2 ^ 10 else (2 ^ 10 + n mod 2 ^ 10) * 2 ^ (n div 2 ^ 10 - 1))"
    and "f16_sign (of_nat (S * 2 ^ 15 + n)) \<longleftrightarrow> S = 1" "f16_exp (of_nat (S * 2 ^ 15 + n)) = n div 2 ^ 10"
  unfolding f16_of_mag(1) [OF assms] f16_units_def using assms f16_of_mag(2,3) [OF assms] by simp_all

text \<open>A mantissa that rounds up to the next power of two moves to the next binade.\<close>

lemma units_carry:
  assumes "r \<le> 2 ^ 10" "n = e * 2 ^ 10 + r" "0 < e"
  shows "(if n div 2 ^ 10 = 0 then n mod 2 ^ 10 else (2 ^ 10 + n mod 2 ^ 10) * 2 ^ (n div 2 ^ 10 - 1)) = (2 ^ 10 + r) * 2 ^ (e - 1)"
proof (cases "r = 2 ^ 10")
  case True
  then have "n = (e + 1) * 2 ^ 10 + 0" using assms by simp
  then have "n div 2 ^ 10 = e + 1" "n mod 2 ^ 10 = 0" by (simp_all only: idx2_div idx2_mod) auto
  then show ?thesis using True assms(3) by (cases e) simp_all
next
  case False
  then have "n div 2 ^ 10 = e" "n mod 2 ^ 10 = r" using assms by (simp_all add: idx2_div idx2_mod)
  then show ?thesis using assms(3) by simp
qed

lemma units_low: "n \<le> 2 ^ 10 \<Longrightarrow>
  (if n div 2 ^ 10 = 0 then n mod 2 ^ 10 else (2 ^ 10 + n mod 2 ^ 10) * 2 ^ (n div 2 ^ 10 - 1)) = (n :: nat)"
  by (cases "n = 2 ^ 10") simp_all

lemma rne_scale: "rne (q * 2 ^ i) (k + i) = rne q k"
proof -
  have d: "q * 2 ^ i div 2 ^ (k + i) = q div 2 ^ k" and m: "q * 2 ^ i mod 2 ^ (k + i) = q mod 2 ^ k * 2 ^ i"
    by (simp_all add: power_add mult_mod_left)
  have e: "(2::nat) ^ (k + i) = 2 ^ k * 2 ^ i" by (simp add: power_add)
  show ?thesis unfolding rne_def d m e Let_def by (simp flip: mult.assoc)
qed

lemma rne_add: "even c \<Longrightarrow> rne (c * 2 ^ k + q) k = c + rne q k"
  by (simp add: rne_def Let_def)

lemma rne_small: "2 * q < 2 ^ k \<Longrightarrow> rne q k = 0"
  by (simp add: rne_def Let_def)

lemma rne_less: "q < (2 * N - 1) * 2 ^ k \<Longrightarrow> rne q (Suc k) < N"
proof -
  assume q: "q < (2 * N - 1) * 2 ^ k"
  define f r where "f = q div 2 ^ Suc k" and "r = q mod 2 ^ Suc k"
  have eq: "q = f * (2 * 2 ^ k) + r" by (metis div_mult_mod_eq f_def r_def power_Suc)
  have "N > 0" using q by (cases N) auto
  have "q < N * 2 ^ Suc k" using q \<open>N > 0\<close> by (simp add: diff_mult_distrib)
  then have f: "f < N" by (simp add: f_def less_mult_imp_div_less)
  moreover have "2 * r < 2 ^ Suc k" if "f = N - 1"
    using q \<open>N > 0\<close> eq that by (cases N) (simp_all add: add_mult_distrib)
  moreover have "rne q (Suc k) = (if 2 * r > 2 ^ Suc k \<or> (2 * r = 2 ^ Suc k \<and> odd f) then f + 1 else f)"
    by (simp add: rne_def f_def r_def Let_def)
  ultimately show ?thesis by (cases "f = N - 1") auto
qed

definition half_max :: nat where "half_max = 4095 * 2 ^ 153"

lemma f32_to_f16_rounds:
  assumes "S < 2" "E < 256" "M < 2 ^ 23" "f32_units (f32_of S E M) < half_max"
  shows "\<exists>j. let Q = f32_units (f32_of S E M); n = f16_mag E M; h = of_nat (S * 2 ^ 15 + n) in
    n < 31 * 2 ^ 10 \<and> f16_units h * 2 ^ 125 = rne Q (j + 125) * 2 ^ (j + 125) \<and>
    (2 ^ 10 \<le> Q div 2 ^ (j + 125) \<or> j = 0) \<and> (even (rne Q (j + 125)) \<longrightarrow> even n)"
proof -
  let ?Q = "f32_units (f32_of S E M)" and ?n = "f16_mag E M"
  have lt: "?n < 2 ^ 15" using f16_mag_le [OF assms(3), of E] by simp
  have Q: "?Q = (if E = 0 then M else (2 ^ 23 + M) * 2 ^ (E - 1))"
    using assms by (simp add: f32_units_def)
  have norm: "E = 0 \<or> 2 ^ 23 * 2 ^ (E - 1) \<le> ?Q" unfolding Q by simp
  note units = f16_units_of(1) [OF assms(1) lt]
  consider "E < 102" | "102 \<le> E" "E \<le> 112" | "112 < E" "E < 143" | "143 \<le> E" by linarith
  then show ?thesis
  proof cases
    case 1
    have "(2 ^ 23 + M) * 2 ^ (E - 1) < 2 ^ 24 * 2 ^ 100"
      using 1 assms(3) by (intro mult_less_le_imp_less power_increasing) auto
    then have "?Q < 2 ^ 24 * 2 ^ 100" using assms(3) unfolding Q by simp
    then have "rne ?Q 125 = 0" by (intro rne_small) simp
    moreover have "?n = 0" using 1 by (simp add: f16_mag_def)
    ultimately show ?thesis using units by (intro exI [of _ 0]) (simp add: Let_def)
  next
    case 2
    have n: "?n = rne (M + 2 ^ 23) (126 - E)" using 2 by (simp add: f16_mag_def)
    have le: "?n \<le> 2 ^ 10" unfolding n
    proof (rule rne_le)
      have "(2::nat) ^ 14 \<le> 2 ^ (126 - E)" using 2 by (intro power_increasing) auto
      then show "M + 2 ^ 23 \<le> 2 ^ 10 * 2 ^ (126 - E)" using assms(3) by simp
    qed
    have "126 - E + (E - 1) = 125" using 2 by simp
    then have "rne ?Q 125 = ?n"
      using rne_scale [of "M + 2 ^ 23" "E - 1" "126 - E"] 2 by (simp add: Q n add.commute)
    moreover have "f16_units (of_nat (S * 2 ^ 15 + ?n)) = ?n" unfolding units by (rule units_low [OF le])
    ultimately show ?thesis using le by (intro exI [of _ 0]) (simp add: Let_def)
  next
    case 3
    have n: "?n = (E - 112) * 2 ^ 10 + rne M 13" using 3 by (simp add: f16_mag_def)
    have r: "rne M 13 \<le> 2 ^ 10" by (rule rne_le) (use assms(3) in simp)
    have k: "E - 113 + 125 = 13 + (E - 1)" using 3 by simp
    have "rne ?Q (E - 113 + 125) = rne (2 ^ 10 * 2 ^ 13 + M) 13"
      unfolding k using rne_scale [of "2 ^ 23 + M" "E - 1" 13] 3 by (simp add: Q)
    also have "\<dots> = 2 ^ 10 + rne M 13" by (rule rne_add) simp
    finally have R: "rne ?Q (E - 113 + 125) = 2 ^ 10 + rne M 13" .
    have "f16_units (of_nat (S * 2 ^ 15 + ?n)) = (2 ^ 10 + rne M 13) * 2 ^ (E - 112 - 1)"
      unfolding units by (rule units_carry [OF r n]) (use 3 in simp)
    then have U: "f16_units (of_nat (S * 2 ^ 15 + ?n)) * 2 ^ 125 = rne ?Q (E - 113 + 125) * 2 ^ (E - 113 + 125)"
      unfolding R by (simp add: power_add)
    have "?n < 31 * 2 ^ 10"
    proof (cases "E = 142 \<and> rne M 13 = 2 ^ 10")
      case True
      then have "?Q = (2 ^ 23 + M) * 2 ^ 141" unfolding Q by simp
      then have "(2 ^ 23 + M) * 2 ^ 141 < 4095 * 2 ^ 12 * 2 ^ 141"
        using assms(4) by (simp add: half_max_def)
      then have "M < (2 * 1024 - 1) * 2 ^ 12" unfolding mult_less_cancel2 by simp
      from rne_less [OF this] show ?thesis using True by simp
    next
      case False
      then show ?thesis unfolding n using r 3 by auto
    qed
    moreover have "2 ^ 10 \<le> ?Q div 2 ^ (E - 113 + 125)"
    proof -
      have "2 ^ 10 * 2 ^ (E - 113 + 125) \<le> ?Q" using norm 3 unfolding k power_add by simp
      then show ?thesis by (simp add: less_eq_div_iff_mult_less_eq)
    qed
    moreover have "even (2 ^ 10 + rne M 13) \<longleftrightarrow> even ?n" unfolding n by simp
    ultimately show ?thesis using U unfolding Let_def R by (intro exI [of _ "E - 113"]) (simp add: R)
  next
    case 4
    then have "(2::nat) ^ 23 * 2 ^ 142 \<le> 2 ^ 23 * 2 ^ (E - 1)" by (intro mult_le_mono2 power_increasing) auto
    then have False using norm 4 assms(4) unfolding half_max_def by simp
    then show ?thesis ..
  qed
qed

definition half_dist :: "u32 \<Rightarrow> u16 \<Rightarrow> int" where
  "half_dist x h = \<bar>int (f16_units h * 2 ^ 125) - int (f32_units x)\<bar>"

lemma f32_overflow:
  assumes "E < 256" "M < 2 ^ 23" "half_max \<le> f32_units (f32_of S E M)" "S < 2"
  shows "f16_mag E M = 31 * 2 ^ 10"
proof -
  have Q: "f32_units (f32_of S E M) = (if E = 0 then M else (2 ^ 23 + M) * 2 ^ (E - 1))"
    using assms by (simp add: f32_units_def)
  have "142 \<le> E"
  proof (rule ccontr)
    assume "\<not> 142 \<le> E"
    then have "(2 ^ 23 + M) * 2 ^ (E - 1) < 2 ^ 24 * 2 ^ 140"
      using assms(2) by (intro mult_less_le_imp_less power_increasing) auto
    then show False using assms(2,3) unfolding Q half_max_def by (simp split: if_splits)
  qed
  show ?thesis
  proof (cases "E = 142")
    case True
    then have "f32_units (f32_of S E M) = (2 ^ 23 + M) * 2 ^ 141" unfolding Q by simp
    then have "4095 * 2 ^ 12 * 2 ^ 141 \<le> (2 ^ 23 + M) * 2 ^ 141" using assms(3) by (simp add: half_max_def)
    then have M: "1023 * 2 ^ 13 + 2 ^ 12 \<le> M" unfolding mult_le_cancel2 by simp
    then have f: "M div 2 ^ 13 = 1023" using assms(2) by simp
    have "2 ^ 12 \<le> M mod 2 ^ 13" using M div_mult_mod_eq [of M "2 ^ 13"] unfolding f by simp
    then have "rne M 13 = 2 ^ 10" using f by (auto simp: rne_def Let_def)
    then show ?thesis using True by (simp add: f16_mag_def)
  next
    case False
    then show ?thesis using \<open>142 \<le> E\<close> by (simp add: f16_mag_def)
  qed
qed

text \<open>
  C39. Converting a single to half precision (the portable path) keeps the sign; the result is the
  nearest half, and on a tie the one with the even mantissa, as long as the magnitude is below 65520;
  from there on it is infinity. No half, not even one of a larger exponent range, is closer.
\<close>
theorem f32_to_f16_nearest:
  "f16_sign (f32_to_f16 x) = f32_sign x \<and>
   (if f32_units x < half_max
    then f16_exp (f32_to_f16 x) < 31 \<and>
         (\<forall>h. half_dist x (f32_to_f16 x) < half_dist x h \<or> f16_units h = f16_units (f32_to_f16 x) \<or>
              (half_dist x (f32_to_f16 x) = half_dist x h \<and> even (f16_mant (f32_to_f16 x))))
    else f16_exp (f32_to_f16 x) = 31 \<and> f16_mant (f32_to_f16 x) = 0)"
proof -
  obtain S E M where x: "S < 2" "E < 256" "M < 2 ^ 23" "x = f32_of S E M" by (rule f32_cases)
  define n where "n = f16_mag E M"
  have n: "n < 2 ^ 15" using f16_mag_le [OF x(3), of E] by (simp add: n_def)
  have h: "f32_to_f16 x = of_nat (S * 2 ^ 15 + n)" unfolding x n_def by (rule f32_to_f16_of [OF x(1-3)])
  have fields: "f16_sign (f32_to_f16 x) = f32_sign x" "f16_exp (f32_to_f16 x) = n div 2 ^ 10" "f16_mant (f32_to_f16 x) = n mod 2 ^ 10"
    using f16_units_of(2,3) [OF x(1) n] f16_of_mag [OF x(1) n] x unfolding h by simp_all
  show ?thesis
  proof (cases "f32_units x < half_max")
    case True
    then obtain j where j: "n < 31 * 2 ^ 10" "f16_units (f32_to_f16 x) * 2 ^ 125 = rne (f32_units x) (j + 125) * 2 ^ (j + 125)"
      "2 ^ 10 \<le> f32_units x div 2 ^ (j + 125) \<or> j = 0" "even (rne (f32_units x) (j + 125)) \<longrightarrow> even n"
      using f32_to_f16_rounds [OF x(1-3)] unfolding Let_def n_def x f32_to_f16_of [OF x(1-3)] by blast
    have "half_dist x (f32_to_f16 x) < half_dist x h' \<or> f16_units h' = f16_units (f32_to_f16 x) \<or>
              (half_dist x (f32_to_f16 x) = half_dist x h' \<and> even (f16_mant (f32_to_f16 x)))" for h'
    proof -
      let ?f = "f32_units x div 2 ^ (j + 125)"
      have "f16_units h' \<le> ?f * 2 ^ j \<or> (?f + 1) * 2 ^ j \<le> f16_units h'" by (rule f16_gap [OF j(3)])
      then have "f16_units h' * 2 ^ 125 \<le> ?f * 2 ^ j * 2 ^ 125 \<or> (?f + 1) * 2 ^ j * 2 ^ 125 \<le> f16_units h' * 2 ^ 125"
        using mult_le_mono1 by blast
      then have w: "f16_units h' * 2 ^ 125 \<le> ?f * 2 ^ (j + 125) \<or> (?f + 1) * 2 ^ (j + 125) \<le> f16_units h' * 2 ^ 125"
        by (simp only: power_add mult.assoc)
      note near = rne_nearest [OF w, folded j(2)]
      have "even (n mod 2 ^ 10)" if "even n" using that by (simp add: dvd_mod)
      then show ?thesis using near j(4) unfolding half_dist_def fields by fastforce
    qed
    moreover have "n div 2 ^ 10 < 31" using j(1) by (simp add: less_mult_imp_div_less)
    ultimately show ?thesis using True fields by simp
  next
    case False
    then have "n = 31 * 2 ^ 10" using f32_overflow [of E M S] x by (simp add: n_def)
    then show ?thesis using False fields by simp
  qed
qed

section \<open>Half to single precision\<close>

lemma norm_mant_runs:
  "0 < m \<Longrightarrow> m < 2 ^ 11 \<Longrightarrow>
   \<exists>p. 2 ^ 10 \<le> m * 2 ^ p \<and> m * 2 ^ p < 2 ^ 11 \<and> norm_mant (of_nat m) x = Some (of_nat (m * 2 ^ p), x - of_nat p)"
proof (induction "2 ^ 11 - m" arbitrary: m x rule: less_induct)
  case less
  have "m < 2 * 2 ^ 10" using less.prems by simp
  from idx2_decode [OF this] obtain t r where "t < 2" "r < 2 ^ 10" "m = t * 2 ^ 10 + r" by blast
  then have bit: "of_nat m AND (0x400 :: u32) \<noteq> 0 \<longleftrightarrow> 2 ^ 10 \<le> m"
    using and_power_of_nat [of t r 10, where 'a = 32] by (auto simp: less_2_cases_iff)
  show ?case
  proof (cases "2 ^ 10 \<le> m")
    case True
    then show ?thesis using less.prems bit by (intro exI [of _ 0]) (simp add: norm_mant.simps)
  next
    case False
    have "\<exists>p. 2 ^ 10 \<le> m * 2 * 2 ^ p \<and> m * 2 * 2 ^ p < 2 ^ 11 \<and>
        norm_mant (of_nat (m * 2)) (x - 1) = Some (of_nat (m * 2 * 2 ^ p), x - 1 - of_nat p)"
      by (rule less.hyps) (use False less.prems in simp_all)
    then obtain p where p: "2 ^ 10 \<le> m * 2 * 2 ^ p" "m * 2 * 2 ^ p < 2 ^ 11"
        "norm_mant (of_nat (m * 2)) (x - 1) = Some (of_nat (m * 2 * 2 ^ p), x - 1 - of_nat p)" by blast
    have "push_bit 1 (of_nat m :: u32) = of_nat (m * 2)" using push_bit_of_nat_word [of 1 m] by simp
    then have "norm_mant (of_nat m) x = norm_mant (of_nat (m * 2)) (x - 1)"
      using bit False by (subst norm_mant.simps) simp
    then show ?thesis using p by (intro exI [of _ "Suc p"]) (simp add: algebra_simps)
  qed
qed

lemma f32_or:
  assumes "S < 2" "E < 256" "M < 2 ^ 23"
  shows "of_nat (S * 2 ^ 31) OR push_bit 23 (of_nat E) OR of_nat M = f32_of S E M"
proof -
  have "of_nat (E * 2 ^ 23) OR of_nat M = (of_nat (E * 2 ^ 23 + M) :: u32)"
    by (rule or_of_nat [of _ 23]) (use assms in simp_all)
  moreover have "of_nat (S * 2 ^ 31) OR of_nat (E * 2 ^ 23 + M) = (of_nat (S * 2 ^ 31 + (E * 2 ^ 23 + M)) :: u32)"
    by (rule or_of_nat [of _ 31]) (use assms in simp_all)
  ultimately show ?thesis by (simp only: push_bit_of_nat_word f32_of_def add.assoc)
qed

lemma f16_to_f32_of:
  assumes "S < 2" "e < 32" "m < 2 ^ 10"
  shows "e = 0 \<Longrightarrow> 0 < m \<Longrightarrow> \<exists>p. 1 \<le> p \<and> p \<le> 10 \<and> 2 ^ 10 \<le> m * 2 ^ p \<and> m * 2 ^ p < 2 ^ 11 \<and>
      f16_to_f32 (f16_of S e m) = Some (f32_of S (113 - p) ((m * 2 ^ p - 2 ^ 10) * 2 ^ 13))"
    and "e \<noteq> 0 \<or> m = 0 \<Longrightarrow> f16_to_f32 (f16_of S e m) =
      Some (f32_of S (if e = 0 then 0 else if e = 31 then 255 else e + 112) (m * 2 ^ 13))"
proof -
  let ?h = "f16_of S e m"
  have bound: "S * 2 ^ 15 + e * 2 ^ 10 + m < 2 ^ LENGTH(16)" using assms by simp
  have uc: "(ucast (of_nat n :: u16) :: u32) = of_nat n" if "n < 2 ^ 16" for n
    using that by (simp add: unsigned_of_nat take_bit_nat_eq_self)
  have low: "e * 2 ^ 10 + m < 2 ^ 15" using assms by simp
  have "?h AND 0x8000 = of_nat (S * 2 ^ 15)"
    using and_power_of_nat [of S "e * 2 ^ 10 + m" 15, where 'a = 16] assms(1) low by (simp add: f16_of_def add.assoc)
  then have sign: "push_bit 16 (ucast (?h AND 0x8000)) = (of_nat (S * 2 ^ 31) :: u32)"
  proof -
    assume *: "?h AND 0x8000 = of_nat (S * 2 ^ 15)"
    have "(ucast (of_nat (S * 2 ^ 15) :: u16) :: u32) = of_nat (S * 2 ^ 15)" by (rule uc) (use assms(1) in simp)
    moreover have "S * 2 ^ 15 * 2 ^ 16 = S * (2::nat) ^ 31" by simp
    ultimately show ?thesis unfolding * by (simp only: push_bit_of_nat_word)
  qed
  have "(S * 2 ^ 15 + e * 2 ^ 10 + m) div 2 ^ 10 = S * 32 + e" "(S * 2 ^ 15 + e * 2 ^ 10 + m) mod 2 ^ 10 = m"
    using idx2_div [OF assms(3), of "S * 32 + e"] idx2_mod [OF assms(3), of "S * 32 + e"] by (simp_all add: add_mult_distrib mult.commute)
  then have "drop_bit 10 ?h AND mask 5 = of_nat e" and "?h AND mask 10 = of_nat m"
    unfolding f16_of_def drop_bit_of_nat_word [OF bound] and_mask_of_nat using assms(2) by simp_all
  moreover have "mask 5 = (0x1f :: u16)" "mask 10 = (0x3ff :: u16)" by (simp_all add: mask_eq_exp_minus_1)
  ultimately have exp: "ucast (drop_bit 10 ?h AND 0x1f) = (of_nat e :: u32)" and mant: "ucast (?h AND 0x3ff) = (of_nat m :: u32)"
    using assms(2,3) by (simp_all add: uc)
  have z: "(of_nat e :: u32) = 0 \<longleftrightarrow> e = 0" "(of_nat m :: u32) = 0 \<longleftrightarrow> m = 0" "(of_nat e :: u32) = 0x1f \<longleftrightarrow> e = 31"
    using assms(2,3) by (simp_all add: word_unat_eq_iff unat_of_nat_small)
  note code = f16_to_f32_def [of ?h, unfolded sign exp mant Let_def z]
  have or: "of_nat (S * 2 ^ 31) OR push_bit 23 (of_nat E) OR push_bit 13 (of_nat n) = f32_of S E (n * 2 ^ 13)"
    if "E < 256" "n < 2 ^ 10" for E n
    using f32_or [OF assms(1) that(1), of "n * 2 ^ 13"] that by (simp only: push_bit_of_nat_word) simp
  show "f16_to_f32 ?h = Some (f32_of S (if e = 0 then 0 else if e = 31 then 255 else e + 112) (m * 2 ^ 13))" if c0: "e \<noteq> 0 \<or> m = 0"
  proof -
    consider "e = 0" "m = 0" | "e = 31" | "0 < e" "e < 31" using c0 assms(2) by (cases "e = 0"; cases "e = 31") auto
    then show ?thesis
    proof cases
      case 1
      then show ?thesis unfolding code by (simp add: f32_of_def)
    next
      case 2
      have "(0x7f800000 :: u32) = push_bit 23 (of_nat 255)" by (simp add: push_bit_eq_mult)
      then show ?thesis unfolding code using or [of 255 m] 2 assms(3) by simp
    next
      case 3
      have "(of_nat e - 15 + 127 :: u32) = of_nat (e + 112)" by simp
      then show ?thesis unfolding code using or [of "e + 112" m] 3 assms(3) by (simp add: add.commute)
    qed
  qed
  assume "e = 0" "0 < m"
  have "m < 2 ^ 11" using assms(3) by simp
  from norm_mant_runs [OF \<open>0 < m\<close> this, of "127 - 15 + 1"] obtain p where
    p: "2 ^ 10 \<le> m * 2 ^ p" "m * 2 ^ p < 2 ^ 11"
      "norm_mant (of_nat m) (127 - 15 + 1) = Some (of_nat (m * 2 ^ p), 127 - 15 + 1 - of_nat p)" by blast
  have "1 \<le> p" using p(1) assms(3) by (cases p) auto
  have "(2::nat) ^ p \<le> m * 2 ^ p" using \<open>0 < m\<close> by simp
  then have "(2::nat) ^ p < 2 ^ 11" using p(2) by linarith
  then have "p \<le> 10" using power_less_imp_less_exp [of "2::nat" p 11] by simp
  have "(127 - 15 + 1 - of_nat p :: u32) = of_nat (113 - p)" using \<open>p \<le> 10\<close> by (simp add: of_nat_diff)
  moreover have "of_nat (m * 2 ^ p) AND 0x3ff = (of_nat (m * 2 ^ p - 2 ^ 10) :: u32)"
  proof -
    have "m * 2 ^ p mod 2 ^ 10 = m * 2 ^ p - 2 ^ 10" using p(1,2) by (simp add: mod_if)
    moreover have "mask 10 = (0x3ff :: u32)" by (simp add: mask_eq_exp_minus_1)
    ultimately show ?thesis using and_mask_of_nat [of "m * 2 ^ p" 10, where 'a = 32] by argo
  qed
  ultimately have "map_option (\<lambda>(mant, exp). of_nat (S * 2 ^ 31) OR push_bit 23 exp OR push_bit 13 (mant AND 0x3ff))
        (norm_mant (of_nat m) (127 - 15 + 1)) =
      Some (of_nat (S * 2 ^ 31) OR push_bit 23 (of_nat (113 - p)) OR push_bit 13 (of_nat (m * 2 ^ p - 2 ^ 10)))"
    unfolding p(3) option.map prod.case by (simp only:)
  moreover have "of_nat (S * 2 ^ 31) OR push_bit 23 (of_nat (113 - p)) OR push_bit 13 (of_nat (m * 2 ^ p - 2 ^ 10)) =
      f32_of S (113 - p) ((m * 2 ^ p - 2 ^ 10) * 2 ^ 13)"
    by (rule or) (use p(2) in simp_all)
  moreover have "f16_to_f32 ?h = map_option (\<lambda>(mant, exp). of_nat (S * 2 ^ 31) OR push_bit 23 exp OR push_bit 13 (mant AND 0x3ff))
        (norm_mant (of_nat m) (127 - 15 + 1))"
    unfolding code using \<open>e = 0\<close> \<open>0 < m\<close> by simp
  ultimately have "f16_to_f32 ?h = Some (f32_of S (113 - p) ((m * 2 ^ p - 2 ^ 10) * 2 ^ 13))"
    by (simp only:)
  then show "\<exists>p. 1 \<le> p \<and> p \<le> 10 \<and> 2 ^ 10 \<le> m * 2 ^ p \<and> m * 2 ^ p < 2 ^ 11 \<and>
      f16_to_f32 ?h = Some (f32_of S (113 - p) ((m * 2 ^ p - 2 ^ 10) * 2 ^ 13))"
    using p(1,2) \<open>1 \<le> p\<close> \<open>p \<le> 10\<close> by blast
qed

lemma f16_to_f32_cases:
  assumes "S < 2" "e < 32" "m < 2 ^ 10"
  obtains E M where "E < 256" "M < 2 ^ 23" "f16_to_f32 (f16_of S e m) = Some (f32_of S E M)"
    "e < 31 \<Longrightarrow> f16_mag E M = e * 2 ^ 10 + m" "e < 31 \<Longrightarrow> E < 255 \<and> f32_units (f32_of S E M) = f16_units (f16_of S e m) * 2 ^ 125"
    "e = 31 \<Longrightarrow> E = 255 \<and> M = m * 2 ^ 13"
proof (cases "e = 0 \<and> 0 < m")
  case True
  then obtain p where p: "1 \<le> p" "p \<le> 10" "2 ^ 10 \<le> m * 2 ^ p" "m * 2 ^ p < 2 ^ 11"
      "f16_to_f32 (f16_of S e m) = Some (f32_of S (113 - p) ((m * 2 ^ p - 2 ^ 10) * 2 ^ 13))"
    using f16_to_f32_of(1) [OF assms] by blast
  let ?M = "(m * 2 ^ p - 2 ^ 10) * 2 ^ 13"
  have E: "113 - p < 256" and M: "?M < 2 ^ 23" using p by simp_all
  have sum: "?M + 2 ^ 23 = m * 2 ^ (13 + p)" using p(3) by (simp add: diff_mult_distrib power_add)
  have "126 - (113 - p) = 13 + p" "\<not> 113 - p < 102" "113 - p \<le> 112" using p(1,2) by simp_all
  then have "f16_mag (113 - p) ?M = m" using sum by (simp add: f16_mag_def rne_exact)
  moreover have "f32_units (f32_of S (113 - p) ?M) = m * 2 ^ (13 + p) * 2 ^ (112 - p)"
    using p(2) sum E M assms(1) by (simp add: f32_units_def add.commute)
  moreover have "m * 2 ^ (13 + p) * 2 ^ (112 - p) = m * 2 ^ 125"
    using p(2) by (simp only: mult.assoc power_add [symmetric]) simp
  moreover have "f16_units (f16_of S e m) = m" using True assms by (simp add: f16_units_def)
  ultimately show ?thesis using that [OF E M p(5)] True p(1) by simp
next
  case False
  let ?E = "if e = 0 then 0 else if e = 31 then 255 else e + 112"
  have r: "f16_to_f32 (f16_of S e m) = Some (f32_of S ?E (m * 2 ^ 13))"
    using f16_to_f32_of(2) [OF assms] False by auto
  have E: "?E < 256" and M: "m * 2 ^ 13 < 2 ^ 23" using assms by simp_all
  have "f16_mag ?E (m * 2 ^ 13) = e * 2 ^ 10 + m" if "e < 31"
    using that False rne_exact [of m 13] by (auto simp: f16_mag_def)
  moreover have "f32_units (f32_of S ?E (m * 2 ^ 13)) = f16_units (f16_of S e m) * 2 ^ 125" if "e < 31"
  proof (cases "e = 0")
    case True
    then show ?thesis using False assms by (simp add: f32_units_def f16_units_def)
  next
    case f: False
    have "(2 ^ 23 + m * 2 ^ 13) * 2 ^ (e + 111) = (2 ^ 10 + m) * (2 ^ 13 * 2 ^ (e + 111))"
      by (simp add: add_mult_distrib)
    also have "(2::nat) ^ 13 * 2 ^ (e + 111) = 2 ^ (e - 1) * 2 ^ 125"
      using f by (simp only: power_add [symmetric]) simp
    finally show ?thesis using f that assms by (simp add: f32_units_def f16_units_def mult.assoc add.commute)
  qed
  ultimately show ?thesis using that [OF E M r] assms(2) by simp
qed

lemma f16_to_f32_value:
  "\<exists>x. f16_to_f32 h = Some x \<and> f32_sign x = f16_sign h \<and>
     (if f16_exp h < 31 then f32_exp x < 255 \<and> f32_units x = f16_units h * 2 ^ 125
      else f32_exp x = 255 \<and> f32_mant x = f16_mant h * 2 ^ 13)"
proof -
  obtain S e m where h: "S < 2" "e < 32" "m < 2 ^ 10" "h = f16_of S e m" by (rule f16_cases)
  obtain E M where x: "E < 256" "M < 2 ^ 23" "f16_to_f32 h = Some (f32_of S E M)"
      "e < 31 \<Longrightarrow> E < 255 \<and> f32_units (f32_of S E M) = f16_units h * 2 ^ 125" "e = 31 \<Longrightarrow> E = 255 \<and> M = m * 2 ^ 13"
    using f16_to_f32_cases [OF h(1-3)] h(4) by metis
  then show ?thesis using h by (cases "e = 31") (auto intro!: exI [of _ "f32_of S E M"])
qed

text \<open>
  Converting a half to a single ends (the loop that normalises a denormal included) and is exact:
  the sign is kept, a finite half stands for the same number afterwards, infinities and not-a-number
  keep their kind and payload.
\<close>
theorem f16_to_f32_exact:
  "\<exists>x. f16_to_f32 h = Some x \<and> f32_sign x = f16_sign h \<and>
     (if f16_exp h < 31 then f32_exp x < 255 \<and> f32_units x = f16_units h * 2 ^ 125
      else f32_exp x = 255 \<and> f32_mant x = f16_mant h * 2 ^ 13)"
  by (rule f16_to_f32_value)

text \<open>
  Widening and narrowing again gives the same bits for every half but a not-a-number, which comes
  back as the infinity of its sign.
\<close>
theorem f16_f32_roundtrip:
  "map_option f32_to_f16 (f16_to_f32 h) =
     Some (if f16_exp h = 31 \<and> f16_mant h \<noteq> 0 then h AND 0xfc00 else h)"
proof -
  obtain S e m where h: "S < 2" "e < 32" "m < 2 ^ 10" "h = f16_of S e m" by (rule f16_cases)
  obtain E M where x: "E < 256" "M < 2 ^ 23" "f16_to_f32 h = Some (f32_of S E M)"
      "e < 31 \<Longrightarrow> f16_mag E M = e * 2 ^ 10 + m" "e = 31 \<Longrightarrow> E = 255 \<and> M = m * 2 ^ 13"
    using f16_to_f32_cases [OF h(1-3)] h(4) by metis
  show ?thesis
  proof (cases "e = 31")
    case True
    then have "f16_mag E M = 31 * 2 ^ 10" using x(5) by (simp add: f16_mag_def)
    then have "map_option f32_to_f16 (f16_to_f32 h) = Some (of_nat (S * 2 ^ 15 + 31 * 2 ^ 10))"
      using x(3) f32_to_f16_of [OF h(1) x(1,2)] by simp
    moreover have "h AND 0xfc00 = of_nat (S * 2 ^ 15 + 31 * 2 ^ 10)"
    proof -
      have "(S * 2 ^ 15 + 31 * 2 ^ 10 + m) mod 2 ^ 10 = m"
        using idx2_mod [OF h(3), of "S * 32 + 31"] by (simp add: add_mult_distrib mult.commute)
      then have "h AND mask 10 = of_nat m" unfolding h True f16_of_def and_mask_of_nat by simp
      moreover have "(h AND 0xfc00) + (h AND mask 10) = h"
      proof -
        have n: "(0xfc00 :: u16) = NOT (mask 10)" by (simp add: mask_eq_exp_minus_1)
        have "(h AND NOT (mask 10)) AND (h AND mask 10) = 0" by (rule bit_word_eqI) (simp add: bit_simps)
        then have "(h AND NOT (mask 10)) + (h AND mask 10) = (h AND NOT (mask 10)) OR (h AND mask 10)"
          by (rule disjunctive_add_eq_or)
        also have "\<dots> = h" by (rule bit_word_eqI) (auto simp: bit_simps)
        finally show ?thesis unfolding n .
      qed
      ultimately have "(h AND 0xfc00) + of_nat m = of_nat (S * 2 ^ 15 + 31 * 2 ^ 10) + of_nat m"
        using h True by (simp add: f16_of_def)
      then show ?thesis by simp
    qed
    moreover have "f16_exp h = 31" "f16_mant h = m" using h True by simp_all
    moreover have "h = of_nat (S * 2 ^ 15 + 31 * 2 ^ 10)" if "m = 0" unfolding h(4) True that f16_of_def by simp
    ultimately show ?thesis by (cases "m = 0") simp_all
  next
    case False
    have "f32_to_f16 (f32_of S E M) = h"
      using f32_to_f16_of [OF h(1) x(1,2)] x(4) False h(2) unfolding h(4) f16_of_def by (simp add: add.assoc)
    moreover have "f16_exp h \<noteq> 31" using h False by simp
    ultimately show ?thesis using x(3) by simp
  qed
qed

section \<open>Small integers\<close>

lemma floor_log2_bounds: "0 < n \<Longrightarrow> 2 ^ floor_log2 n \<le> n \<and> n < 2 ^ Suc (floor_log2 n)"
proof (induction n rule: floor_log2.induct)
  case (1 n)
  show ?case
  proof (cases "n < 2")
    case True
    then show ?thesis using 1 by (simp add: floor_log2.simps)
  next
    case False
    then have "2 ^ floor_log2 (n div 2) \<le> n div 2" "n div 2 < 2 ^ Suc (floor_log2 (n div 2))" using 1 by simp_all
    then have "2 * 2 ^ floor_log2 (n div 2) \<le> n" "n < 2 * 2 ^ Suc (floor_log2 (n div 2))" by auto
    then show ?thesis using False by (simp add: floor_log2.simps [of n])
  qed
qed

lemma int_to_f32_of:
  assumes "v \<noteq> 0" "n = nat \<bar>v\<bar>" "n < 2 ^ 24" "s = (if v < 0 then 1 else 0)"
  obtains k where "k \<le> 23" "2 ^ 23 \<le> n * 2 ^ (23 - k)" "n * 2 ^ (23 - k) < 2 ^ 24"
    "int_to_f32 v = f32_of s (127 + k) (n * 2 ^ (23 - k) - 2 ^ 23)" "2 ^ k \<le> n" "n < 2 ^ Suc k"
proof -
  define k where "k = floor_log2 n"
  have "0 < n" using assms(1,2) by simp
  then have b: "2 ^ k \<le> n" "n < 2 ^ Suc k" using floor_log2_bounds [of n] by (simp_all add: k_def)
  then have "(2::nat) ^ k < 2 ^ 24" using assms(3) by (rule_tac le_less_trans)
  then have k: "k \<le> 23" using power_less_imp_less_exp [of "2::nat" k 24] by simp
  have e: "(2::nat) ^ k * 2 ^ (23 - k) = 2 ^ 23" "(2::nat) ^ Suc k * 2 ^ (23 - k) = 2 ^ 24"
    using k by (simp_all flip: power_add)
  have lo: "2 ^ 23 \<le> n * 2 ^ (23 - k)" using b(1) e(1) mult_le_mono1 by metis
  have hi: "n * 2 ^ (23 - k) < 2 ^ 24" using mult_less_mono1 [OF b(2), of "2 ^ (23 - k)"] unfolding e(2) by simp
  have "int_to_f32 v = f32_of s (127 + k) (n * 2 ^ (23 - k) - 2 ^ 23)"
    using assms(1,4) k unfolding int_to_f32_def Let_def f32_of_def assms(2) k_def by auto
  then show thesis using that [OF k] lo hi b by simp
qed

lemma int_to_f32_units:
  assumes "nat \<bar>v\<bar> < 2 ^ 24"
  shows "f32_units (int_to_f32 v) = nat \<bar>v\<bar> * 2 ^ 149" "f32_sign (int_to_f32 v) \<longleftrightarrow> v < 0" "f32_exp (int_to_f32 v) < 255"
proof -
  have "f32_units (int_to_f32 v) = nat \<bar>v\<bar> * 2 ^ 149 \<and> (f32_sign (int_to_f32 v) \<longleftrightarrow> v < 0) \<and> f32_exp (int_to_f32 v) < 255"
  proof (cases "v = 0")
    case True
    have "int_to_f32 0 = f32_of 0 0 0" by (simp add: int_to_f32_def f32_of_def)
    then show ?thesis using True by (simp add: f32_units_def)
  next
    case False
    define n s where "n = nat \<bar>v\<bar>" and "s = (if v < 0 then 1 else 0 :: nat)"
    have n: "n < 2 ^ 24" and s: "s < 2" "s = 1 \<longleftrightarrow> v < 0" using assms by (simp_all add: n_def s_def)
    from int_to_f32_of [OF False n_def n s_def] obtain k where k: "k \<le> 23" "2 ^ 23 \<le> n * 2 ^ (23 - k)"
      "n * 2 ^ (23 - k) < 2 ^ 24" "int_to_f32 v = f32_of s (127 + k) (n * 2 ^ (23 - k) - 2 ^ 23)" by metis
    have "127 + k < 256" "n * 2 ^ (23 - k) - 2 ^ 23 < 2 ^ 23" using k(1-3) by simp_all
    note f = fields_f32_of [OF s(1) this, folded k(4)]
    have "2 ^ 23 + (n * 2 ^ (23 - k) - 2 ^ 23) = n * 2 ^ (23 - k)" "2 ^ (23 - k) * 2 ^ (127 + k - 1) = (2::nat) ^ 149"
      using k(1,2) by (simp_all flip: power_add)
    then have "f32_units (int_to_f32 v) = n * 2 ^ 149" unfolding f32_units_def f by (simp add: mult.assoc)
    then show ?thesis unfolding f s(2) using k(1) by (simp add: n_def)
  qed
  then show "f32_units (int_to_f32 v) = nat \<bar>v\<bar> * 2 ^ 149" "f32_sign (int_to_f32 v) \<longleftrightarrow> v < 0" "f32_exp (int_to_f32 v) < 255"
    by blast+
qed

lemma lrintf_small:
  assumes "nat \<bar>v\<bar> < 2 ^ 24"
  shows "lrintf (int_to_f32 v) = Some v"
  using int_to_f32_units [OF assms] by (simp add: lrintf_def rne_exact [of _ 149, simplified] Let_def)

lemma half_small_int:
  assumes "\<bar>v\<bar> \<le> 2048"
  shows "f16_to_f32 (f32_to_f16 (int_to_f32 v)) = Some (int_to_f32 v)"
proof (cases "v = 0")
  case True
  have "int_to_f32 0 = f32_of 0 0 0" by (simp add: int_to_f32_def f32_of_def)
  moreover have "f32_to_f16 (f32_of 0 0 0) = f16_of 0 0 0"
    using f32_to_f16_of [of 0 0 0] by (simp add: f16_mag_def f16_of_def)
  ultimately show ?thesis using f16_to_f32_of(2) [of 0 0 0] True by simp
next
  case False
  define n s where "n = nat \<bar>v\<bar>" and "s = (if v < 0 then 1 else 0 :: nat)"
  have n: "n \<le> 2048" "n < 2 ^ 24" using assms by (simp_all add: n_def)
  from int_to_f32_of [OF False n_def n(2) s_def] obtain k where k: "2 ^ 23 \<le> n * 2 ^ (23 - k)" "n * 2 ^ (23 - k) < 2 ^ 24"
    "int_to_f32 v = f32_of s (127 + k) (n * 2 ^ (23 - k) - 2 ^ 23)" "2 ^ k \<le> n" "n < 2 ^ Suc k"
    by metis
  have "(2::nat) ^ k \<le> 2 ^ 11" using k(4) n(1) by simp
  then have "k \<le> 11" by (rule power_le_imp_le_exp [rotated]) simp
  define m where "m = (if k = 11 then 0 else n * 2 ^ (10 - k) - 2 ^ 10)"
  have M: "n * 2 ^ (23 - k) - 2 ^ 23 = m * 2 ^ 13"
  proof (cases "k = 11")
    case True
    then have "n = 2048" using k(4) n(1) by simp
    then show ?thesis using True by (simp add: m_def)
  next
    case f: False
    then have "23 - k = 10 - k + 13" using \<open>k \<le> 11\<close> by simp
    then have eq: "n * 2 ^ (23 - k) = n * 2 ^ (10 - k) * 2 ^ 13" by (simp only: power_add mult.assoc)
    show ?thesis unfolding eq using f by (simp add: m_def diff_mult_distrib)
  qed
  have m: "m < 2 ^ 10" using k(1,2) M by simp
  have s: "s < 2" by (simp add: s_def)
  have v: "int_to_f32 v = f32_of s (127 + k) (m * 2 ^ 13)" using k(3) M by simp
  have "f16_mag (127 + k) (m * 2 ^ 13) = (15 + k) * 2 ^ 10 + m"
    using \<open>k \<le> 11\<close> rne_exact [of m 13] by (simp add: f16_mag_def)
  then have "f32_to_f16 (int_to_f32 v) = f16_of s (15 + k) m"
    unfolding v using f32_to_f16_of [OF s, of "127 + k" "m * 2 ^ 13"] \<open>k \<le> 11\<close> m by (simp add: f16_of_def add.assoc)
  then show ?thesis using f16_to_f32_of(2) [OF s, of "15 + k" m] m \<open>k \<le> 11\<close> v by (simp add: add.commute)
qed

end
