(* ===== verification/Tensor_Half.thy ===== *)
theory Tensor_Half
  imports Tensor_Layout Half_Float
begin

text \<open>
  The tensor conversions of \<open>codecs/mlvc/src/pixel.cpp\<close> between half-precision and integer tensors:
  the output of the NPU to integers, portable and NEON, and integers to its input. The element
  conversions are those of \<open>Half_Float\<close>; an integer is \<open>None\<close> where the C library leaves it unspecified.
\<close>

section \<open>The code\<close>

definition half_to_int :: "u16 \<Rightarrow> int option" where
  "half_to_int h = Option.bind (f16_to_f32 h) lrintf"

definition nc1hwc2_to_nchw_scalar :: "u16 list \<Rightarrow> int option list \<Rightarrow> nat \<Rightarrow> nat \<Rightarrow> nat \<Rightarrow> int option list" where
  "nc1hwc2_to_nchw_scalar src dst C H W =
     writes (for_each [0..<C] (\<lambda>c. let c1 = c div 8; c2 = c mod 8 in
       for_each [0..<H] (\<lambda>y. map (\<lambda>x.
         ((c * H + y) * W + x, half_to_int (src ! (((c1 * H + y) * W + x) * 8 + c2)))) [0..<W]))) dst"

text \<open>
  The vector conversions: widening, and rounding to nearest with saturation, where a not-a-number
  becomes zero.
\<close>

definition vcvtnq_s32 :: "u32 \<Rightarrow> int" where
  "vcvtnq_s32 x =
     (let a = int (rne (f32_units x) 149); v = (if f32_sign x then - a else a)
      in if f32_exp x = 255 \<and> f32_mant x \<noteq> 0 then 0 else max (- (2 ^ 31)) (min v (2 ^ 31 - 1)))"

definition vcvt_lanes :: "u16 list \<Rightarrow> int option list" where
  "vcvt_lanes hs = map (\<lambda>h. map_option vcvtnq_s32 (f16_to_f32 h)) hs"

function unpack_row :: "u16 list \<Rightarrow> nat \<Rightarrow> (nat \<Rightarrow> nat) \<Rightarrow> nat \<Rightarrow> nat \<Rightarrow> (nat \<times> int option) list" where
  "unpack_row src sp dp W x =
     (if x + 8 \<le> W
      then (let r = transpose_8x8_u16 (map (\<lambda>k. vld1q_u16 src (sp + k * 8)) [0..<8])
            in for_each [0..<8] (\<lambda>k.
                 (let lo = vcvt_lanes (take 4 (r ! k)); hi = vcvt_lanes (drop 4 (r ! k))
                  in map (\<lambda>j. (dp k + x + j, lo ! j)) [0..<4] @ map (\<lambda>j. (dp k + x + 4 + j, hi ! j)) [0..<4]))) @
           unpack_row src (sp + 64) dp W (x + 8)
      else for_each [x..<W] (\<lambda>x'. map (\<lambda>k. (dp k + x', half_to_int (src ! (sp + ((x' - x) * 8 + k))))) [0..<8]))"
  by auto
termination by (relation "measure (\<lambda>(_, _, _, W, x). W - x)") auto

declare unpack_row.simps [simp del]

definition nc1hwc2_to_nchw :: "bool \<Rightarrow> u16 list \<Rightarrow> int option list \<Rightarrow> nat \<Rightarrow> nat \<Rightarrow> nat \<Rightarrow> int option list" where
  "nc1hwc2_to_nchw neon src dst C H W =
     (if neon
      then let C1 = C div 8
           in writes (for_each [0..<C1] (\<lambda>c1. for_each [0..<H] (\<lambda>y.
                unpack_row src (((c1 * H + y) * W) * 8) (\<lambda>k. ((c1 * 8 + k) * H + y) * W) W 0))) dst
      else nc1hwc2_to_nchw_scalar src dst C H W)"

definition nchw_to_nc1hwc2_fp16 :: "int list \<Rightarrow> u16 list \<Rightarrow> nat \<Rightarrow> nat \<Rightarrow> nat \<Rightarrow> u16 list" where
  "nchw_to_nc1hwc2_fp16 src dst C H W =
     writes (for_each [0..<C] (\<lambda>c. let c1 = c div 8; c2 = c mod 8 in
       for_each [0..<H] (\<lambda>y. map (\<lambda>x.
         (((c1 * H + y) * W + x) * 8 + c2, f32_to_f16 (int_to_f32 (src ! ((c * H + y) * W + x))))) [0..<W]))) dst"

definition nchw_i32_to_nhwc_f16 :: "int list \<Rightarrow> u16 list \<Rightarrow> nat \<Rightarrow> nat \<Rightarrow> nat \<Rightarrow> u16 list" where
  "nchw_i32_to_nhwc_f16 src dst C H W =
     writes (for_each [0..<H] (\<lambda>y. for_each [0..<W] (\<lambda>x. map (\<lambda>c.
       ((y * W + x) * C + c, f32_to_f16 (int_to_f32 (src ! ((c * H + y) * W + x))))) [0..<C]))) dst"

section \<open>The element conversions\<close>

text \<open>The nearest integer, ties to even.\<close>

definition half_round :: "u16 \<Rightarrow> int" where
  "half_round h = (if f16_sign h then - 1 else 1) * int (rne (f16_units h) 24)"

lemma f16_units_bound: "f16_exp h < 31 \<Longrightarrow> f16_units h \<le> 2047 * 2 ^ 29"
proof -
  assume e: "f16_exp h < 31"
  have m: "f16_mant h < 2 ^ 10" by (simp add: f16_mant_def)
  show ?thesis
  proof (cases "f16_exp h = 0")
    case False
    have "(2 ^ 10 + f16_mant h) * 2 ^ (f16_exp h - 1) \<le> 2047 * 2 ^ 29"
      using e m by (intro mult_le_mono power_increasing) auto
    then show ?thesis using False by (simp add: f16_units_def)
  qed (use m in \<open>simp add: f16_units_def\<close>)
qed

lemma half_conversions:
  assumes "f16_exp h < 31"
  shows "half_to_int h = Some (half_round h)" "map_option vcvtnq_s32 (f16_to_f32 h) = Some (half_round h)"
    "\<bar>half_round h\<bar> \<le> 65504"
proof -
  obtain x where x: "f16_to_f32 h = Some x" "f32_sign x = f16_sign h" "f32_exp x < 255" "f32_units x = f16_units h * 2 ^ 125"
    using f16_to_f32_value [of h] assms by auto
  have sum: "24 + 125 = (149 :: nat)" by simp
  have r: "rne (f32_units x) 149 = rne (f16_units h) 24"
    using rne_scale [of "f16_units h" 125 24] unfolding x(4) by (simp only: sum)
  have "rne (f16_units h) 24 \<le> 65504" by (rule rne_le) (use f16_units_bound [OF assms] in simp)
  then show b: "\<bar>half_round h\<bar> \<le> 65504" by (simp add: half_round_def)
  show "half_to_int h = Some (half_round h)"
    using x(1-3) by (simp add: half_to_int_def lrintf_def half_round_def r)
  have v: "(if f16_sign h then - int (rne (f16_units h) 24) else int (rne (f16_units h) 24)) = half_round h"
    by (simp add: half_round_def)
  have "vcvtnq_s32 x = half_round h"
    unfolding vcvtnq_s32_def Let_def r x(2) v using x(3) b by simp
  then show "map_option vcvtnq_s32 (f16_to_f32 h) = Some (half_round h)" using x(1) by simp
qed
section \<open>From the layout of the NPU\<close>

lemma two_halves:
  "(let lo = vcvt_lanes (take 4 (map f [0..<8])); hi = vcvt_lanes (drop 4 (map f [0..<8]))
    in map (\<lambda>j. (p + x + j, lo ! j)) [0..<4] @ map (\<lambda>j. (p + x + 4 + j, hi ! j)) [0..<4]) =
   map (\<lambda>i. (p + (x + i), map_option vcvtnq_s32 (f16_to_f32 (f i)))) [0..<8]"
  by (simp add: vcvt_lanes_def upt_8 upt_4_2_1 add.assoc)

lemma vector_stores:
  assumes "\<And>i k. i < 8 \<Longrightarrow> k < 8 \<Longrightarrow> f16_exp (src ! (sp + (i * 8 + k))) < 31"
  shows "set (let r = transpose_8x8_u16 (map (\<lambda>k. vld1q_u16 src (sp + k * 8)) [0..<8])
            in for_each [0..<8] (\<lambda>k.
                 (let lo = vcvt_lanes (take 4 (r ! k)); hi = vcvt_lanes (drop 4 (r ! k))
                  in map (\<lambda>j. (dp k + x + j, lo ! j)) [0..<4] @ map (\<lambda>j. (dp k + x + 4 + j, hi ! j)) [0..<4]))) =
    {(dp k + (x + i), Some (half_round (src ! (sp + (i * 8 + k))))) | i k. i < 8 \<and> k < 8}"
proof -
  define r where "r = map (\<lambda>k. map (\<lambda>i. src ! (sp + (i * 8 + k))) [0..<8]) [0..<8]"
  have "map (\<lambda>k. vld1q_u16 src (sp + k * 8)) [0..<8] = map (\<lambda>i. map (\<lambda>k. src ! (sp + (i * 8 + k))) [0..<8]) [0..<8]"
    by (simp add: vld1q_u16_def add.assoc)
  then have r: "transpose_8x8_u16 (map (\<lambda>k. vld1q_u16 src (sp + k * 8)) [0..<8]) = r"
    by (simp only: transpose_8x8 r_def)
  have el: "map_option vcvtnq_s32 (f16_to_f32 (src ! (sp + (i * 8 + k)))) = Some (half_round (src ! (sp + (i * 8 + k))))"
    if "i < 8" "k < 8" for i k using half_conversions(2) assms that by blast
  have lanes: "(let lo = vcvt_lanes (take 4 (r ! k)); hi = vcvt_lanes (drop 4 (r ! k))
       in map (\<lambda>j. (dp k + x + j, lo ! j)) [0..<4] @ map (\<lambda>j. (dp k + x + 4 + j, hi ! j)) [0..<4]) =
      map (\<lambda>i. (dp k + (x + i), Some (half_round (src ! (sp + (i * 8 + k)))))) [0..<8]" if "k < 8" for k
  proof -
    have "r ! k = map (\<lambda>i. src ! (sp + (i * 8 + k))) [0..<8]" using that by (simp add: r_def)
    then show ?thesis by (simp only: two_halves) (rule map_cong [OF refl], simp only: set_upt atLeastLessThan_iff el [OF _ that])
  qed
  have e: "for_each [0..<8] (\<lambda>k. (let lo = vcvt_lanes (take 4 (r ! k)); hi = vcvt_lanes (drop 4 (r ! k))
       in map (\<lambda>j. (dp k + x + j, lo ! j)) [0..<4] @ map (\<lambda>j. (dp k + x + 4 + j, hi ! j)) [0..<4])) =
      for_each [0..<8] (\<lambda>k. map (\<lambda>i. (dp k + (x + i), Some (half_round (src ! (sp + (i * 8 + k)))))) [0..<8])"
    unfolding for_each_def by (rule arg_cong [of _ _ concat], rule map_cong [OF refl]) (simp only: lanes set_upt atLeastLessThan_iff)
  have "set (for_each [0..<8] (\<lambda>k. map (\<lambda>i. (dp k + (x + i), Some (half_round (src ! (sp + (i * 8 + k)))))) [0..<8])) =
      (\<Union>k \<in> {0..<8}. (\<lambda>i. (dp k + (x + i), Some (half_round (src ! (sp + (i * 8 + k)))))) ` {0..<8})"
    by (simp only: set_for_each set_map set_upt)
  also have "\<dots> = {(dp k + (x + i), Some (half_round (src ! (sp + (i * 8 + k))))) | i k. i \<in> {0..<8} \<and> k \<in> {0..<8}}"
    by blast
  finally show ?thesis unfolding r by (subst Let_def) (simp only: e atLeastLessThan_iff zero_le simp_thms)
qed

lemma unpack_row_stores:
  assumes "\<And>i k. x + i < W \<Longrightarrow> k < 8 \<Longrightarrow> f16_exp (src ! (sp + (i * 8 + k))) < 31"
  shows "set (unpack_row src sp dp W x) =
    {(dp k + (x + i), Some (half_round (src ! (sp + (i * 8 + k))))) | i k. x + i < W \<and> k < 8}"
  using assms
proof (induction src sp dp W x rule: unpack_row.induct)
  case (1 src sp dp W x)
  show ?case
  proof (cases "x + 8 \<le> W")
    case True
    have "set (unpack_row src (sp + 64) dp W (x + 8)) =
        {(dp k + (x + 8 + i), Some (half_round (src ! (sp + 64 + (i * 8 + k))))) | i k. x + 8 + i < W \<and> k < 8}"
    proof (rule "1.IH" [OF True])
      fix i k :: nat assume "x + 8 + i < W" "k < 8"
      then show "f16_exp (src ! (sp + 64 + (i * 8 + k))) < 31"
        using "1.prems" [of "i + 8" k] by (simp add: algebra_simps)
    qed
    also have "\<dots> = {(dp k + (x + i), Some (half_round (src ! (sp + (i * 8 + k))))) | i k. 8 \<le> i \<and> x + i < W \<and> k < 8}" (is "?a = ?b")
    proof (intro equalityI subsetI)
      fix e assume "e \<in> ?a"
      then obtain i k where "e = (dp k + (x + 8 + i), Some (half_round (src ! (sp + 64 + (i * 8 + k)))))" "x + 8 + i < W" "k < 8" by blast
      then have "e = (dp k + (x + (i + 8)), Some (half_round (src ! (sp + ((i + 8) * 8 + k)))))" "8 \<le> i + 8" "x + (i + 8) < W" "k < 8"
        by (simp_all add: algebra_simps)
      then show "e \<in> ?b" by blast
    next
      fix e assume "e \<in> ?b"
      then obtain i k where i: "e = (dp k + (x + i), Some (half_round (src ! (sp + (i * 8 + k)))))" "8 \<le> i" "x + i < W" "k < 8" by blast
      then obtain j where "i = 8 + j" using le_Suc_ex by blast
      then have "e = (dp k + (x + 8 + j), Some (half_round (src ! (sp + 64 + (j * 8 + k)))))" "x + 8 + j < W" "k < 8"
        using i by (simp_all add: algebra_simps)
      then show "e \<in> ?a" by blast
    qed
    finally have rest: "set (unpack_row src (sp + 64) dp W (x + 8)) = ?b" .
    have first: "f16_exp (src ! (sp + (i * 8 + k))) < 31" if "i < 8" "k < 8" for i k
      using "1.prems" [of i k] that True by simp
    note vs = vector_stores [of src sp dp x, OF first]
    have "set (unpack_row src sp dp W x) =
        {(dp k + (x + i), Some (half_round (src ! (sp + (i * 8 + k))))) | i k. i < 8 \<and> k < 8} \<union> ?b"
      unfolding unpack_row.simps [of src sp dp W x] if_P [OF True] set_append rest by (subst vs) (assumption | rule refl)+
    also have "\<dots> = {(dp k + (x + i), Some (half_round (src ! (sp + (i * 8 + k))))) | i k. x + i < W \<and> k < 8}"
      using True by (auto; fastforce)
    finally show ?thesis .
  next
    case False
    have el: "half_to_int (src ! (sp + (i * 8 + k))) = Some (half_round (src ! (sp + (i * 8 + k))))"
      if "x + i < W" "k < 8" for i k using half_conversions(1) "1.prems" that by blast
    have "set (unpack_row src sp dp W x) =
        (\<Union>x' \<in> {x..<W}. (\<lambda>k. (dp k + x', half_to_int (src ! (sp + ((x' - x) * 8 + k))))) ` {0..<8})"
      unfolding unpack_row.simps [of src sp dp W x] if_not_P [OF False] by (simp only: set_for_each set_map set_upt)
    also have "\<dots> = {(dp k + x', half_to_int (src ! (sp + ((x' - x) * 8 + k)))) | x' k. x' \<in> {x..<W} \<and> k \<in> {0..<8}}" by blast
    also have "\<dots> = {(dp k + (x + i), half_to_int (src ! (sp + (i * 8 + k)))) | i k. x + i < W \<and> k < 8}" (is "?c = ?d")
    proof (intro equalityI subsetI)
      fix e assume "e \<in> ?c"
      then obtain x' k where e: "e = (dp k + x', half_to_int (src ! (sp + ((x' - x) * 8 + k))))" "x \<le> x'" "x' < W" "k < 8" by auto
      then have "e = (dp k + (x + (x' - x)), half_to_int (src ! (sp + ((x' - x) * 8 + k))))" "x + (x' - x) < W" by simp_all
      then show "e \<in> ?d" using e(4) by blast
    next
      fix e assume "e \<in> ?d"
      then obtain i k where e: "e = (dp k + (x + i), half_to_int (src ! (sp + (i * 8 + k))))" "x + i < W" "k < 8" by blast
      then have "e = (dp k + (x + i), half_to_int (src ! (sp + ((x + i - x) * 8 + k))))" "x + i \<in> {x..<W}" "k \<in> {0..<8}" by simp_all
      then show "e \<in> ?c" by blast
    qed
    also have "\<dots> = {(dp k + (x + i), Some (half_round (src ! (sp + (i * 8 + k))))) | i k. x + i < W \<and> k < 8}"
      using el by (intro Collect_cong ex_cong1) metis
    finally show ?thesis .
  qed
qed

definition npu_at :: "u16 list \<Rightarrow> nat \<Rightarrow> nat \<Rightarrow> nat \<Rightarrow> nat \<Rightarrow> nat \<Rightarrow> u16" where
  "npu_at src H W c y x = src ! (((c div 8 * H + y) * W + x) * 8 + c mod 8)"

lemma scalar_unpack_stores:
  "set (for_each [0..<C] (\<lambda>c. let c1 = c div 8; c2 = c mod 8 in
       for_each [0..<H] (\<lambda>y. map (\<lambda>x. ((c * H + y) * W + x, f (src ! (((c1 * H + y) * W + x) * 8 + c2)))) [0..<W]))) =
   {((c * H + y) * W + x, f (npu_at src H W c y x)) | c y x. c < C \<and> y < H \<and> x < W}"
proof -
  have "set (for_each [0..<C] (\<lambda>c. let c1 = c div 8; c2 = c mod 8 in
       for_each [0..<H] (\<lambda>y. map (\<lambda>x. ((c * H + y) * W + x, f (src ! (((c1 * H + y) * W + x) * 8 + c2)))) [0..<W]))) =
    (\<Union>c \<in> {0..<C}. \<Union>y \<in> {0..<H}. (\<lambda>x. ((c * H + y) * W + x, f (npu_at src H W c y x))) ` {0..<W})"
    by (simp only: set_for_each set_map set_upt Let_def npu_at_def)
  also have "\<dots> = {((c * H + y) * W + x, f (npu_at src H W c y x)) | c y x. c \<in> {0..<C} \<and> y \<in> {0..<H} \<and> x \<in> {0..<W}}"
    by blast
  finally show ?thesis by simp
qed

lemma npu_at_finite:
  assumes "\<And>j. j < C1 * H * W * 8 \<Longrightarrow> f16_exp (src ! j) < 31" and "c < C1 * 8" "y < H" "x < W"
  shows "f16_exp (npu_at src H W c y x) < 31"
  unfolding npu_at_def by (intro assms(1) idx2_less idx3_less) (use assms(2-4) in \<open>simp_all add: less_mult_imp_div_less\<close>)

lemma neon_unpack_stores:
  assumes "\<And>j. j < C1 * H * W * 8 \<Longrightarrow> f16_exp (src ! j) < 31"
  shows "set (for_each [0..<C1] (\<lambda>c1. for_each [0..<H] (\<lambda>y.
             unpack_row src (((c1 * H + y) * W) * 8) (\<lambda>k. ((c1 * 8 + k) * H + y) * W) W 0))) =
    {((c * H + y) * W + x, Some (half_round (npu_at src H W c y x))) | c y x. c < C1 * 8 \<and> y < H \<and> x < W}"
proof -
  have pos: "((c1 * H + y) * W) * 8 + (i * 8 + k) = ((c1 * H + y) * W + i) * 8 + k" for c1 y i k :: nat
    by (simp add: add_mult_distrib)
  have row: "set (unpack_row src (((c1 * H + y) * W) * 8) (\<lambda>k. ((c1 * 8 + k) * H + y) * W) W 0) =
      {(((c1 * 8 + k) * H + y) * W + x, Some (half_round (npu_at src H W (c1 * 8 + k) y x))) | x k. x < W \<and> k < 8}"
    if "c1 < C1" "y < H" for c1 y
  proof -
    have "f16_exp (src ! (((c1 * H + y) * W) * 8 + (i * 8 + k))) < 31" if "0 + i < W" "k < 8" for i k
      unfolding pos by (intro assms idx2_less idx3_less) (use \<open>c1 < C1\<close> \<open>y < H\<close> that in simp_all)
    from unpack_row_stores [where dp = "\<lambda>k. ((c1 * 8 + k) * H + y) * W", OF this]
    have "set (unpack_row src (((c1 * H + y) * W) * 8) (\<lambda>k. ((c1 * 8 + k) * H + y) * W) W 0) =
      {(((c1 * 8 + k) * H + y) * W + i, Some (half_round (src ! (((c1 * H + y) * W + i) * 8 + k)))) | i k. i < W \<and> k < 8}"
      unfolding pos add_0 by simp
    also have "\<dots> = {(((c1 * 8 + k) * H + y) * W + x, Some (half_round (npu_at src H W (c1 * 8 + k) y x))) | x k. x < W \<and> k < 8}"
      by (intro Collect_cong ex_cong1) (auto simp: npu_at_def idx2_div idx2_mod)
    finally show ?thesis .
  qed
  have "set (for_each [0..<C1] (\<lambda>c1. for_each [0..<H] (\<lambda>y.
             unpack_row src (((c1 * H + y) * W) * 8) (\<lambda>k. ((c1 * 8 + k) * H + y) * W) W 0))) =
    (\<Union>c1 \<in> {0..<C1}. \<Union>y \<in> {0..<H}. {(((c1 * 8 + k) * H + y) * W + x, Some (half_round (npu_at src H W (c1 * 8 + k) y x))) | x k. x < W \<and> k < 8})"
    unfolding set_for_each set_upt by (intro SUP_cong refl row) simp_all
  also have "\<dots> = {((c * H + y) * W + x, Some (half_round (npu_at src H W c y x))) | c y x. c < C1 * 8 \<and> y < H \<and> x < W}" (is "?a = ?b")
  proof (intro equalityI subsetI)
    fix e assume "e \<in> ?a"
    then obtain c1 y x k where e: "e = (((c1 * 8 + k) * H + y) * W + x, Some (half_round (npu_at src H W (c1 * 8 + k) y x)))"
      "c1 < C1" "y < H" "x < W" "k < 8" by auto
    moreover have "c1 * 8 + k < C1 * 8" using e(2,5) by (rule idx2_less)
    ultimately show "e \<in> ?b" by blast
  next
    fix e assume "e \<in> ?b"
    then obtain c y x where e: "e = ((c * H + y) * W + x, Some (half_round (npu_at src H W c y x)))" "c < C1 * 8" "y < H" "x < W" by blast
    obtain c1 k where c: "c1 < C1" "k < 8" "c = c1 * 8 + k" using idx2_decode [OF e(2)] by blast
    have "c1 \<in> {0..<C1}" "y \<in> {0..<H}" using c e(3) by simp_all
    then show "e \<in> ?a" using e(1,4) c(2,3) by blast
  qed
  finally show ?thesis .
qed

lemma unpack_writes:
  assumes "\<And>j. j < C1 * H * W * 8 \<Longrightarrow> f16_exp (src ! j) < 31"
  obtains ws where "nc1hwc2_to_nchw neon src d (C1 * 8) H W = writes ws d"
    "set ws = {((c * H + y) * W + x, Some (half_round (npu_at src H W c y x))) | c y x. c < C1 * 8 \<and> y < H \<and> x < W}"
proof (cases neon)
  case True
  show ?thesis
    by (rule that [OF _ neon_unpack_stores [of C1 H W src]]) (use assms True in \<open>simp_all add: nc1hwc2_to_nchw_def\<close>)
next
  case False
  have eq: "{((c * H + y) * W + x, half_to_int (npu_at src H W c y x)) | c y x. c < C1 * 8 \<and> y < H \<and> x < W} =
      {((c * H + y) * W + x, Some (half_round (npu_at src H W c y x))) | c y x. c < C1 * 8 \<and> y < H \<and> x < W}"
    using half_conversions(1) npu_at_finite [OF assms] by (intro Collect_cong ex_cong1) metis
  show ?thesis
    by (rule that [OF _ trans [OF scalar_unpack_stores eq]])
      (use False in \<open>simp only: nc1hwc2_to_nchw_def nc1hwc2_to_nchw_scalar_def if_False\<close>)
qed

lemma unpack_nth:
  assumes "\<And>j. j < C1 * H * W * 8 \<Longrightarrow> f16_exp (src ! j) < 31" and "length d = C1 * 8 * H * W"
    and "c < C1 * 8" "y < H" "x < W"
  shows "nc1hwc2_to_nchw neon src d (C1 * 8) H W ! ((c * H + y) * W + x) = Some (half_round (npu_at src H W c y x))"
proof -
  obtain ws where ws: "nc1hwc2_to_nchw neon src d (C1 * 8) H W = writes ws d"
    "set ws = {((c * H + y) * W + x, Some (half_round (npu_at src H W c y x))) | c y x. c < C1 * 8 \<and> y < H \<and> x < W}"
    using unpack_writes [OF assms(1)] by blast
  show ?thesis unfolding ws(1)
  proof (rule writes_nth)
    show "(c * H + y) * W + x < length d" unfolding assms(2) by (rule idx3_less [OF assms(3-5)])
    show "((c * H + y) * W + x, Some (half_round (npu_at src H W c y x))) \<in> set ws"
      unfolding ws(2) using assms(3-5) by blast
    fix v assume "((c * H + y) * W + x, v) \<in> set ws"
    then obtain c' y' x' where e: "(c * H + y) * W + x = (c' * H + y') * W + x'" "v = Some (half_round (npu_at src H W c' y' x'))"
      "y' < H" "x' < W" unfolding ws(2) by blast
    then have "c = c' \<and> y = y' \<and> x = x'" using idx3_inj [of y H y' x W x' c c'] assms(4,5) by simp
    then show "v = Some (half_round (npu_at src H W c y x))" using e(2) by simp
  qed
qed

lemma length_unpack:
  assumes "\<And>j. j < C1 * H * W * 8 \<Longrightarrow> f16_exp (src ! j) < 31"
  shows "length (nc1hwc2_to_nchw neon src d (C1 * 8) H W) = length d"
  using unpack_writes [OF assms] length_writes by metis

text \<open>
  C38. The output of the NPU is unpacked in the same way by the vector loop, its tail and the portable
  loop: every integer is the half of its channel, row and column rounded to nearest, and within 65504.
\<close>
theorem unpack_exact:
  assumes "\<And>j. j < C1 * H * W * 8 \<Longrightarrow> f16_exp (src ! j) < 31" and "length d = C1 * 8 * H * W"
  shows "nc1hwc2_to_nchw neon src d (C1 * 8) H W = nc1hwc2_to_nchw_scalar src d (C1 * 8) H W \<and>
    (\<forall>c < C1 * 8. \<forall>y < H. \<forall>x < W. \<exists>v. nc1hwc2_to_nchw neon src d (C1 * 8) H W ! ((c * H + y) * W + x) = Some v \<and>
       v = half_round (src ! (((c div 8 * H + y) * W + x) * 8 + c mod 8)) \<and> \<bar>v\<bar> \<le> 65504)"
proof
  have "nc1hwc2_to_nchw neon src d (C1 * 8) H W = nc1hwc2_to_nchw False src d (C1 * 8) H W"
  proof (rule nth_equalityI)
    show "length (nc1hwc2_to_nchw neon src d (C1 * 8) H W) = length (nc1hwc2_to_nchw False src d (C1 * 8) H W)"
      using length_unpack [OF assms(1)] by simp
    fix j assume "j < length (nc1hwc2_to_nchw neon src d (C1 * 8) H W)"
    then have "j < C1 * 8 * H * W" using length_unpack [OF assms(1)] assms(2) by simp
    then obtain c y x where j: "c < C1 * 8" "y < H" "x < W" "j = (c * H + y) * W + x" using idx3_decode by blast
    then show "nc1hwc2_to_nchw neon src d (C1 * 8) H W ! j = nc1hwc2_to_nchw False src d (C1 * 8) H W ! j"
      unfolding j(4) using unpack_nth [OF assms j(1-3)] by (simp del: One_nat_def)
  qed
  then show "nc1hwc2_to_nchw neon src d (C1 * 8) H W = nc1hwc2_to_nchw_scalar src d (C1 * 8) H W"
    by (simp add: nc1hwc2_to_nchw_def)
  show "\<forall>c < C1 * 8. \<forall>y < H. \<forall>x < W. \<exists>v. nc1hwc2_to_nchw neon src d (C1 * 8) H W ! ((c * H + y) * W + x) = Some v \<and>
       v = half_round (src ! (((c div 8 * H + y) * W + x) * 8 + c mod 8)) \<and> \<bar>v\<bar> \<le> 65504"
    using unpack_nth [OF assms] half_conversions(3) npu_at_finite [OF assms(1)] unfolding npu_at_def by blast
qed

lemma unpack_exact_witness:
  "\<exists>v. nc1hwc2_to_nchw True [0x3c00, 0xc500, 0, 0, 0, 0, 0, 0x7bff] (replicate 8 None) (1 * 8) 1 1 ! ((1 * 1 + 0) * 1 + 0) = Some v \<and>
     v = half_round 0xc500"
proof -
  have "f16_exp ([0x3c00, 0xc500, 0, 0, 0, 0, 0, 0x7bff] ! j) < 31" if "j < 1 * 1 * 1 * 8" for j
  proof -
    have "j \<in> set [0, 1, 2, 3, 4, 5, 6, 7]" using that by auto
    then show ?thesis by (auto simp: f16_exp_def)
  qed
  from unpack_exact [of 1 1 1 "[0x3c00, 0xc500, 0, 0, 0, 0, 0, 0x7bff]" "replicate 8 None" True, OF this]
  show ?thesis by fastforce
qed

section \<open>Into the layout of the NPU\<close>

lemma small_int_half:
  assumes "\<bar>v\<bar> \<le> 2048"
  shows "f16_exp (f32_to_f16 (int_to_f32 v)) < 31" "half_round (f32_to_f16 (int_to_f32 v)) = v"
proof -
  have l: "lrintf (int_to_f32 v) = Some v" using assms by (intro lrintf_small) simp
  then have "f32_exp (int_to_f32 v) \<noteq> 255" by (auto simp: lrintf_def Let_def)
  then show e: "f16_exp (f32_to_f16 (int_to_f32 v)) < 31"
    using f16_to_f32_value [of "f32_to_f16 (int_to_f32 v)"] half_small_int [OF assms] by (auto split: if_splits)
  show "half_round (f32_to_f16 (int_to_f32 v)) = v"
    using half_conversions(1) [OF e] half_small_int [OF assms] l by (simp add: half_to_int_def)
qed

lemma fp16_stores:
  "nchw_to_nc1hwc2_fp16 src d C H W =
     writes (pack_scalar (map (\<lambda>v. f32_to_f16 (int_to_f32 v)) src) C H W 8 W) d"
  if "length src = C * H * W"
proof -
  have "for_each [0..<C] (\<lambda>c. let c1 = c div 8; c2 = c mod 8 in for_each [0..<H] (\<lambda>y. map (\<lambda>x.
         (((c1 * H + y) * W + x) * 8 + c2, f32_to_f16 (int_to_f32 (src ! ((c * H + y) * W + x))))) [0..<W])) =
      pack_scalar (map (\<lambda>v. f32_to_f16 (int_to_f32 v)) src) C H W 8 W"
    unfolding pack_scalar_def for_each_def Let_def
  proof (intro arg_cong [of _ _ concat] map_cong refl)
    fix c y x assume "c \<in> set [0..<C]" "y \<in> set [0..<H]" "x \<in> set [0..<W]"
    then have "(c * H + y) * W + x < length src" unfolding that by (intro idx3_less) simp_all
    then show "(((c div 8 * H + y) * W + x) * 8 + c mod 8, f32_to_f16 (int_to_f32 (src ! ((c * H + y) * W + x)))) =
      (((c div 8 * H + y) * W + x) * 8 + c mod 8, map (\<lambda>v. f32_to_f16 (int_to_f32 v)) src ! ((c * H + y) * W + x))"
      by simp
  qed
  then show ?thesis unfolding nchw_to_nc1hwc2_fp16_def by (rule arg_cong)
qed

lemma fp16_nth:
  assumes "length src = C1 * 8 * H * W" "length d = C1 * H * W * 8" "c < C1 * 8" "y < H" "x < W"
  shows "npu_at (nchw_to_nc1hwc2_fp16 src d (C1 * 8) H W) H W c y x = f32_to_f16 (int_to_f32 (src ! ((c * H + y) * W + x)))"
proof -
  let ?s = "map (\<lambda>v. f32_to_f16 (int_to_f32 v)) src"
  have i: "(c * H + y) * W + x < length src" unfolding assms(1) by (intro idx3_less assms(3-5))
  show ?thesis unfolding npu_at_def fp16_stores [OF assms(1)]
  proof (rule writes_nth)
    show "((c div 8 * H + y) * W + x) * 8 + c mod 8 < length d" unfolding assms(2)
      by (intro idx2_less idx3_less) (use assms(3-5) in \<open>simp_all add: less_mult_imp_div_less\<close>)
    show "(((c div 8 * H + y) * W + x) * 8 + c mod 8, f32_to_f16 (int_to_f32 (src ! ((c * H + y) * W + x))))
        \<in> set (pack_scalar ?s (C1 * 8) H W 8 W)"
      unfolding pack_scalar_stores using assms(3-5) i by (force simp: nth_map)
    fix v assume "(((c div 8 * H + y) * W + x) * 8 + c mod 8, v) \<in> set (pack_scalar ?s (C1 * 8) H W 8 W)"
    then obtain c' y' x' where e: "((c div 8 * H + y) * W + x) * 8 + c mod 8 = ((c' div 8 * H + y') * W + x') * 8 + c' mod 8"
      "v = ?s ! ((c' * H + y') * W + x')" "y' < H" "x' < W" unfolding pack_scalar_stores by blast
    then have "c = c' \<and> y = y' \<and> x = x'" using pack_pos_inj [of y H y' x W x' 8 c c'] assms(4,5) by simp
    then show "v = f32_to_f16 (int_to_f32 (src ! ((c * H + y) * W + x)))" using e(2) i by simp
  qed
qed

lemma fp16_finite:
  assumes "length src = C1 * 8 * H * W" "length d = C1 * H * W * 8" "\<And>v. v \<in> set src \<Longrightarrow> \<bar>v\<bar> \<le> 2048" "j < C1 * H * W * 8"
  shows "f16_exp (nchw_to_nc1hwc2_fp16 src d (C1 * 8) H W ! j) < 31"
proof -
  obtain p c2 where p: "p < C1 * H * W" "c2 < 8" "j = p * 8 + c2" using idx2_decode [OF assms(4)] by blast
  obtain c1 y x where c: "c1 < C1" "y < H" "x < W" "p = (c1 * H + y) * W + x" using idx3_decode [OF p(1)] by blast
  have l: "c1 * 8 + c2 < C1 * 8" using c(1) p(2) by (rule idx2_less)
  have "nchw_to_nc1hwc2_fp16 src d (C1 * 8) H W ! j = npu_at (nchw_to_nc1hwc2_fp16 src d (C1 * 8) H W) H W (c1 * 8 + c2) y x"
    using p c by (simp add: npu_at_def idx2_div idx2_mod)
  also have "\<dots> = f32_to_f16 (int_to_f32 (src ! (((c1 * 8 + c2) * H + y) * W + x)))"
    by (rule fp16_nth [OF assms(1,2) l c(2,3)])
  finally show ?thesis
    using small_int_half(1) [OF assms(3) [OF nth_mem]] idx3_less [OF l c(2,3)] assms(1) by simp
qed

text \<open>
  A tensor of integers of magnitude at most 2048 survives the way through the layout and the
  precision of the NPU and back.
\<close>
theorem tensor_int_roundtrip:
  assumes "length src = C1 * 8 * H * W" "length d = C1 * H * W * 8" "length e = C1 * 8 * H * W"
    and "\<forall>v \<in> set src. \<bar>v\<bar> \<le> 2048"
  shows "nc1hwc2_to_nchw neon (nchw_to_nc1hwc2_fp16 src d (C1 * 8) H W) e (C1 * 8) H W = map Some src"
proof -
  have fin: "f16_exp (nchw_to_nc1hwc2_fp16 src d (C1 * 8) H W ! j) < 31" if "j < C1 * H * W * 8" for j
    using fp16_finite [OF assms(1,2) _ that] assms(4) by blast
  show ?thesis
  proof (rule nth_equalityI)
    show "length (nc1hwc2_to_nchw neon (nchw_to_nc1hwc2_fp16 src d (C1 * 8) H W) e (C1 * 8) H W) = length (map Some src)"
      using length_unpack [OF fin] assms(1,3) by simp
    fix j assume "j < length (nc1hwc2_to_nchw neon (nchw_to_nc1hwc2_fp16 src d (C1 * 8) H W) e (C1 * 8) H W)"
    then have j: "j < C1 * 8 * H * W" using length_unpack [OF fin] assms(3) by simp
    then obtain c y x where p: "c < C1 * 8" "y < H" "x < W" "j = (c * H + y) * W + x" using idx3_decode by blast
    have "src ! j \<in> set src" using j assms(1) by (intro nth_mem) simp
    then have "half_round (f32_to_f16 (int_to_f32 (src ! j))) = src ! j" using assms(4) by (intro small_int_half) blast
    moreover have "nc1hwc2_to_nchw neon (nchw_to_nc1hwc2_fp16 src d (C1 * 8) H W) e (C1 * 8) H W ! ((c * H + y) * W + x) =
        Some (half_round (npu_at (nchw_to_nc1hwc2_fp16 src d (C1 * 8) H W) H W c y x))"
      by (rule unpack_nth [OF fin assms(3) p(1-3)])
    ultimately show "nc1hwc2_to_nchw neon (nchw_to_nc1hwc2_fp16 src d (C1 * 8) H W) e (C1 * 8) H W ! j = map Some src ! j"
      using j assms(1) fp16_nth [OF assms(1,2) p(1-3)] unfolding p(4) by simp
  qed
qed

lemma tensor_int_roundtrip_witness:
  "nc1hwc2_to_nchw True (nchw_to_nc1hwc2_fp16 [0, 1, -3, 2048, -2048, 77, 5, 6] (replicate 8 0) (1 * 8) 1 1) (replicate 8 None) (1 * 8) 1 1 =
     map Some [0, 1, -3, 2048, -2048, 77, 5, 6]"
  by (rule tensor_int_roundtrip) simp_all

section \<open>Channels last\<close>

lemma i32_nhwc_exact:
  assumes "length src = C * H * W" "length d = H * W * C" "c < C" "y < H" "x < W"
  shows "nchw_i32_to_nhwc_f16 src d C H W ! ((y * W + x) * C + c) = f32_to_f16 (int_to_f32 (src ! ((c * H + y) * W + x)))"
proof -
  let ?s = "map (\<lambda>v. f32_to_f16 (int_to_f32 v)) src"
  have "nchw_i32_to_nhwc_f16 src d C H W = nchw_f16_to_nhwc ?s d C H W"
    unfolding nchw_i32_to_nhwc_f16_def nchw_f16_to_nhwc_def for_each_def
  proof (intro arg_cong [of _ _ "\<lambda>ws. writes (concat ws) d"] map_cong refl arg_cong [of _ _ concat])
    fix y x c assume "y \<in> set [0..<H]" "x \<in> set [0..<W]" "c \<in> set [0..<C]"
    then have "(c * H + y) * W + x < length src" unfolding assms(1) by (intro idx3_less) simp_all
    then show "((y * W + x) * C + c, f32_to_f16 (int_to_f32 (src ! ((c * H + y) * W + x)))) =
        ((y * W + x) * C + c, ?s ! ((c * H + y) * W + x))" by simp
  qed
  moreover have "(c * H + y) * W + x < length src" unfolding assms(1) by (intro idx3_less assms(3-5))
  ultimately show ?thesis using nhwc_exact [OF assms(2-5), of ?s] by simp
qed

end
