(* ===== verification/Tensor_Planes.thy ===== *)
theory Tensor_Planes
  imports Tensor_Half
begin

text \<open>
  Between pictures of bytes and half-precision tensors: \<open>yuv_to_nhwc_fp16\<close> and the conversions to NV12
  of \<open>codecs/mlvc/src/pixel.cpp\<close>, portable and NEON, with the single-precision product they use.
\<close>

section \<open>The product of singles\<close>

text \<open>The value \<open>n * 2 ^ - (149 + sh)\<close> rounded to a single, ties to even, infinity on overflow.\<close>

definition round_f32 :: "nat \<Rightarrow> nat \<Rightarrow> nat \<Rightarrow> u32" where
  "round_f32 s n sh =
     (let k = max sh (floor_log2 n - 23)
      in of_nat (s * 2 ^ 31 + min ((k - sh) * 2 ^ 23 + rne n k) (255 * 2 ^ 23)))"

text \<open>The payload of a not-a-number that the product makes is the default one.\<close>

definition f32_mul :: "u32 \<Rightarrow> u32 \<Rightarrow> u32" where
  "f32_mul x y =
     (let s = (if f32_sign x \<noteq> f32_sign y then 1 else 0);
          nan = (\<lambda>z. f32_exp z = 255 \<and> f32_mant z \<noteq> 0)
      in if f32_exp x = 255 \<or> f32_exp y = 255
         then if nan x \<or> nan y \<or> f32_units x = 0 \<or> f32_units y = 0 then 0x7fc00000
              else of_nat (s * 2 ^ 31 + 255 * 2 ^ 23)
         else round_f32 s (f32_units x * f32_units y) 149)"

section \<open>Pictures to tensors\<close>

text \<open>The single nearest to \<open>1 / 255\<close>, and 255.\<close>

definition f32_1_255 :: u32 where "f32_1_255 = 0x3b808081"
definition f32_255 :: u32 where "f32_255 = 0x437f0000"

definition px_lut :: "u8 \<Rightarrow> u16" where
  "px_lut i = f32_to_f16 (f32_mul (int_to_f32 (uint i)) f32_1_255)"

text \<open>
  \<open>buf\<close> holds the picture; the three planes begin at \<open>yp\<close>, \<open>up\<close> and \<open>vp\<close>. One row of the tensor, and the
  loop over pairs of rows with its last odd row.
\<close>

definition nhwc_row :: "bytes \<Rightarrow> nat \<Rightarrow> nat \<Rightarrow> nat \<Rightarrow> bool \<Rightarrow> nat \<Rightarrow> nat \<Rightarrow> (nat \<times> u16) list" where
  "nhwc_row buf yr uvr vvr nv12 W d =
     for_each [0..<W] (\<lambda>x. let uo = x div 2 * (if nv12 then 2 else 1) in
       [(d + (x * 3 + 0), px_lut (buf ! (yr + x))), (d + (x * 3 + 1), px_lut (buf ! (uvr + uo))),
        (d + (x * 3 + 2), px_lut (buf ! (vvr + uo)))])"

function nhwc_rows :: "bytes \<Rightarrow> nat \<Rightarrow> nat \<Rightarrow> nat \<Rightarrow> nat \<Rightarrow> nat \<Rightarrow> bool \<Rightarrow> nat \<Rightarrow> nat \<Rightarrow> nat \<Rightarrow> (nat \<times> u16) list" where
  "nhwc_rows buf yp y_stride up vp uv_stride nv12 W H y =
     (let uvr = up + y div 2 * uv_stride; vvr = vp + y div 2 * uv_stride;
          yr0 = yp + y * y_stride; d0 = y * W * 3
      in if y + 2 \<le> H
         then nhwc_row buf yr0 uvr vvr nv12 W d0 @ nhwc_row buf (yr0 + y_stride) uvr vvr nv12 W (d0 + W * 3) @
              nhwc_rows buf yp y_stride up vp uv_stride nv12 W H (y + 2)
         else if y < H then nhwc_row buf yr0 uvr vvr nv12 W d0 else [])"
  by auto
termination by (relation "measure (\<lambda>(_, _, _, _, _, _, _, _, H, y). H - y)") auto

declare nhwc_rows.simps [simp del]

definition yuv_to_nhwc_fp16 ::
  "bytes \<Rightarrow> nat \<Rightarrow> nat \<Rightarrow> nat \<Rightarrow> nat \<Rightarrow> nat \<Rightarrow> bool \<Rightarrow> nat \<Rightarrow> nat \<Rightarrow> u16 list \<Rightarrow> u16 list" where
  "yuv_to_nhwc_fp16 buf yp y_stride up vp uv_stride nv12 W H nhwc =
     writes (nhwc_rows buf yp y_stride up vp uv_stride nv12 W H 0) nhwc"

section \<open>Tensors to pictures\<close>

definition clamp_u8 :: "int \<Rightarrow> u8" where
  "clamp_u8 v = word_of_int (if v < 0 then 0 else if v > 255 then 255 else v)"

definition px_u8 :: "u16 \<Rightarrow> u8 option" where
  "px_u8 h = map_option clamp_u8 (Option.bind (f16_to_f32 h) (\<lambda>x. lrintf (f32_mul x f32_255)))"

definition nv12_planes_scalar ::
  "u16 list \<Rightarrow> nat \<Rightarrow> nat \<Rightarrow> u8 option list \<Rightarrow> nat \<Rightarrow> u8 option list \<Rightarrow> nat \<Rightarrow> u8 option list \<times> u8 option list" where
  "nv12_planes_scalar src W H yp y_stride uv uv_stride =
     (let plane = H * W
      in (writes (for_each [0..<H] (\<lambda>y. map (\<lambda>x. (y * y_stride + x, px_u8 (src ! (y * W + x)))) [0..<W])) yp,
          writes (for_each [0..<H div 2] (\<lambda>y. let ur = plane + y * 2 * W; vr = 2 * plane + y * 2 * W in
            for_each [0..<W div 2] (\<lambda>x.
              [(y * uv_stride + (x * 2), px_u8 (src ! (ur + x * 2))),
               (y * uv_stride + (x * 2 + 1), px_u8 (src ! (vr + x * 2)))]))) uv))"

text \<open>
  The vector path: widening, product, rounding with saturation to 32 bits, then saturation to
  unsigned 16 and to unsigned 8 bits.
\<close>

definition f16x8_to_u8x8_sat255 :: "u16 list \<Rightarrow> u8 option list" where
  "f16x8_to_u8x8_sat255 hs =
     map (\<lambda>h. map_option (\<lambda>x. let n = min (max (vcvtnq_s32 (f32_mul x f32_255)) 0) 65535 in word_of_int (min n 255))
       (f16_to_f32 h)) hs"

function luma_row :: "u16 list \<Rightarrow> nat \<Rightarrow> nat \<Rightarrow> nat \<Rightarrow> nat \<Rightarrow> (nat \<times> u8 option) list" where
  "luma_row src sp dp W x =
     (if x + 8 \<le> W
      then (let v = f16x8_to_u8x8_sat255 (vld1q_u16 src (sp + x)) in map (\<lambda>j. (dp + (x + j), v ! j)) [0..<8]) @
           luma_row src sp dp W (x + 8)
      else map (\<lambda>x. (dp + x, px_u8 (src ! (sp + x)))) [x..<W])"
  by auto
termination by (relation "measure (\<lambda>(_, _, _, W, x). W - x)") auto

function chroma_row :: "u16 list \<Rightarrow> nat \<Rightarrow> nat \<Rightarrow> nat \<Rightarrow> nat \<Rightarrow> nat \<Rightarrow> (nat \<times> u8 option) list" where
  "chroma_row src ur vr dp W2 x =
     (if x + 8 \<le> W2
      then (let uu = map (\<lambda>j. src ! (ur + (x * 2 + 2 * j))) [0..<8]; vv = map (\<lambda>j. src ! (vr + (x * 2 + 2 * j))) [0..<8];
                ou = f16x8_to_u8x8_sat255 uu; ov = f16x8_to_u8x8_sat255 vv
            in for_each [0..<8] (\<lambda>j. [(dp + (x * 2 + 2 * j), ou ! j), (dp + (x * 2 + 2 * j + 1), ov ! j)])) @
           chroma_row src ur vr dp W2 (x + 8)
      else for_each [x..<W2] (\<lambda>x. [(dp + (x * 2), px_u8 (src ! (ur + x * 2))), (dp + (x * 2 + 1), px_u8 (src ! (vr + x * 2)))]))"
  by auto
termination by (relation "measure (\<lambda>(_, _, _, _, W, x). W - x)") auto

declare luma_row.simps [simp del] chroma_row.simps [simp del]

definition nchw_yuv_fp16_to_nv12_planes ::
  "bool \<Rightarrow> u16 list \<Rightarrow> nat \<Rightarrow> nat \<Rightarrow> u8 option list \<Rightarrow> nat \<Rightarrow> u8 option list \<Rightarrow> nat \<Rightarrow> u8 option list \<times> u8 option list" where
  "nchw_yuv_fp16_to_nv12_planes neon src W H yp y_stride uv uv_stride =
     (if neon
      then let plane = H * W
           in (writes (for_each [0..<H] (\<lambda>y. luma_row src (y * W) (y * y_stride) W 0)) yp,
               writes (for_each [0..<H div 2] (\<lambda>y.
                 chroma_row src (plane + y * 2 * W) (2 * plane + y * 2 * W) (y * uv_stride) (W div 2) 0)) uv)
      else nv12_planes_scalar src W H yp y_stride uv uv_stride)"

definition nc1hwc2_fp16_to_nv12_planes ::
  "u16 list \<Rightarrow> nat \<Rightarrow> nat \<Rightarrow> nat \<Rightarrow> u8 option list \<Rightarrow> nat \<Rightarrow> u8 option list \<Rightarrow> nat \<Rightarrow> u8 option list \<times> u8 option list" where
  "nc1hwc2_fp16_to_nv12_planes src W H c2 yp y_stride uv uv_stride =
     (writes (for_each [0..<H] (\<lambda>y. let sp = y * W * c2 in
        map (\<lambda>x. (y * y_stride + x, px_u8 (src ! (sp + x * c2)))) [0..<W])) yp,
      writes (for_each [0..<H div 2] (\<lambda>y. let sp = y * 2 * W * c2 in
        for_each [0..<W div 2] (\<lambda>x. let px = sp + x * 2 * c2 in
          [(y * uv_stride + (x * 2), px_u8 (src ! (px + 1))), (y * uv_stride + (x * 2 + 1), px_u8 (src ! (px + 2)))]))) uv)"

section \<open>Rounding a product\<close>

lemma rne_error: "2 * \<bar>int (rne q k * 2 ^ k) - int q\<bar> \<le> 2 ^ k"
proof -
  define f r where "f = q div 2 ^ k" and "r = q mod 2 ^ k"
  have q: "q = f * 2 ^ k + r" "r < 2 ^ k" by (metis div_mult_mod_eq f_def r_def) (simp add: r_def)
  have R: "rne q k = (if 2 * r > 2 ^ k \<or> (2 * r = 2 ^ k \<and> odd f) then f + 1 else f)"
    by (simp add: rne_def f_def r_def Let_def)
  define B P :: nat where "B = 2 ^ k" and "P = f * 2 ^ k"
  have R': "rne q k * 2 ^ k = (if 2 * r > B \<or> (2 * r = B \<and> odd f) then P + B else P)"
    unfolding R by (simp add: B_def P_def)
  have "q = P + r" "r < B" using q by (simp_all add: B_def P_def)
  then have "2 * \<bar>int (rne q k * 2 ^ k) - int q\<bar> \<le> int B"
    unfolding R' by auto
  then show ?thesis by (simp add: B_def)
qed

lemma encoded_units:
  assumes "s < 2" "r \<le> 2 ^ 24" "j = 0 \<or> 2 ^ 23 \<le> r" "j * 2 ^ 23 + r < 255 * 2 ^ 23"
  shows "f32_units (of_nat (s * 2 ^ 31 + (j * 2 ^ 23 + r))) = r * 2 ^ j"
    and "f32_exp (of_nat (s * 2 ^ 31 + (j * 2 ^ 23 + r))) < 255"
    and "f32_sign (of_nat (s * 2 ^ 31 + (j * 2 ^ 23 + r))) \<longleftrightarrow> s = 1"
proof -
  let ?x = "of_nat (s * 2 ^ 31 + (j * 2 ^ 23 + r)) :: u32"
  obtain E M where e: "?x = f32_of s E M" "E < 255" "M < 2 ^ 23"
      "r * 2 ^ j = (if E = 0 then M else (2 ^ 23 + M) * 2 ^ (E - 1))"
  proof -
    consider "r < 2 ^ 23" "j = 0" | "2 ^ 23 \<le> r" "r < 2 ^ 24" | "r = 2 ^ 24" using assms(2,3) by fastforce
    then show thesis
    proof cases
      case 1
      then show thesis by (intro that [of 0 r]) (simp_all add: f32_of_def)
    next
      case 2
      have "j + 1 < 255" using 2 assms(4) by simp
      then show thesis using 2 by (intro that [of "j + 1" "r - 2 ^ 23"]) (simp_all add: f32_of_def of_nat_diff)
    next
      case 3
      have "j + 2 < 255" using 3 assms(4) by simp
      then show thesis using 3 by (intro that [of "j + 2" 0]) (simp_all add: f32_of_def)
    qed
  qed
  have E: "E < 256" using e(2) by simp
  note f = fields_f32_of [OF assms(1) E e(3)]
  show "f32_units ?x = r * 2 ^ j" unfolding e(4) unfolding f32_units_def e(1) f ..
  show "f32_exp ?x < 255" unfolding e(1) f by (rule e(2))
  show "f32_sign ?x \<longleftrightarrow> s = 1" unfolding e(1) f ..
qed

lemma round_f32_value:
  assumes "s < 2" "k = max sh (floor_log2 n - 23)" "(k - sh) * 2 ^ 23 + rne n k < 255 * 2 ^ 23"
  shows "f32_units (round_f32 s n sh) = rne n k * 2 ^ (k - sh)" "f32_exp (round_f32 s n sh) < 255"
    "f32_sign (round_f32 s n sh) \<longleftrightarrow> s = 1"
proof -
  have r: "round_f32 s n sh = of_nat (s * 2 ^ 31 + ((k - sh) * 2 ^ 23 + rne n k))"
    using assms(3) by (simp add: round_f32_def Let_def assms(2)[symmetric])
  have "n \<le> 2 ^ 24 * 2 ^ k"
  proof (cases "n = 0")
    case False
    then have "n < 2 ^ Suc (floor_log2 n)" using floor_log2_bounds by simp
    also have "(2::nat) ^ Suc (floor_log2 n) \<le> 2 ^ (24 + k)" using assms(2) by (intro power_increasing) auto
    finally show ?thesis by (simp add: power_add)
  qed simp
  then have u: "rne n k \<le> 2 ^ 24" by (rule rne_le)
  have "2 ^ 23 \<le> rne n k" if "k - sh \<noteq> 0"
  proof (rule rne_ge)
    have "floor_log2 0 = 0" by (simp add: floor_log2.simps)
    moreover have k: "floor_log2 n = 23 + k" using that assms(2) by (simp add: max_def split: if_splits)
    ultimately have "n \<noteq> 0" by (metis add_is_0 zero_neq_numeral)
    with k show "2 ^ 23 * 2 ^ k \<le> n" using floor_log2_bounds [of n] by (simp add: power_add)
  qed
  then have l: "k - sh = 0 \<or> 2 ^ 23 \<le> rne n k" by blast
  show "f32_units (round_f32 s n sh) = rne n k * 2 ^ (k - sh)" "f32_exp (round_f32 s n sh) < 255"
    "f32_sign (round_f32 s n sh) \<longleftrightarrow> s = 1"
    unfolding r by (rule encoded_units [OF assms(1) u l assms(3)])+
qed

section \<open>From a half to a byte\<close>

lemma f32_255_fields: "f32_units f32_255 = 255 * 2 ^ 149" "f32_exp f32_255 = 134" "\<not> f32_sign f32_255"
proof -
  have e: "f32_255 = f32_of 0 134 0x7f0000" by (simp add: f32_255_def f32_of_def)
  show "f32_units f32_255 = 255 * 2 ^ 149" "f32_exp f32_255 = 134" "\<not> f32_sign f32_255"
    unfolding f32_units_def e by simp_all
qed

text \<open>The product with 255 is exact.\<close>

lemma f16_units_form: "f16_exp h < 31 \<Longrightarrow> \<exists>m i. f16_units h = m * 2 ^ i \<and> m < 2 ^ 11 \<and> i < 30"
proof (cases "f16_exp h = 0")
  case True
  then show ?thesis by (intro exI [of _ "f16_mant h"] exI [of _ 0]) (simp add: f16_units_def f16_mant_def less_trans [OF mod_less_divisor])
next
  case False
  assume "f16_exp h < 31"
  then show ?thesis using False
    by (intro exI [of _ "2 ^ 10 + f16_mant h"] exI [of _ "f16_exp h - 1"]) (simp add: f16_units_def f16_mant_def)
qed

lemma floor_log2_less: "n < 2 ^ k \<Longrightarrow> 0 < k \<Longrightarrow> floor_log2 n < k"
proof (cases "n = 0")
  case False
  assume "n < 2 ^ k"
  with floor_log2_bounds [of n] False have "(2::nat) ^ floor_log2 n < 2 ^ k" by linarith
  then show ?thesis by simp
qed (simp add: floor_log2.simps)

lemma round_f32_exact:
  assumes "s < 2" "n = a * 2 ^ t" "a < 2 ^ 24" "sh \<le> t" "t \<le> sh + 200"
  shows "f32_units (round_f32 s n sh) = a * 2 ^ (t - sh)" "f32_exp (round_f32 s n sh) < 255"
    "f32_sign (round_f32 s n sh) \<longleftrightarrow> s = 1"
proof -
  define k where "k = max sh (floor_log2 n - 23)"
  have "n < 2 ^ (24 + t)" unfolding assms(2) power_add using assms(3) by simp
  then have "floor_log2 n < 24 + t" by (rule floor_log2_less) simp
  then have k: "k \<le> t" "sh \<le> k" using assms(4) by (simp_all add: k_def)
  have "n = a * 2 ^ (t - k) * 2 ^ k" using k by (simp add: assms(2) mult.assoc flip: power_add)
  then have r: "rne n k = a * 2 ^ (t - k)" by (metis rne_exact)
  have le: "rne n k \<le> 2 ^ 24"
  proof (rule rne_le)
    have "floor_log2 n < 24 + k" by (simp add: k_def)
    then have "2 ^ Suc (floor_log2 n) \<le> (2::nat) ^ (24 + k)" by (intro power_increasing) auto
    then show "n \<le> 2 ^ 24 * 2 ^ k" using floor_log2_bounds [of n] by (cases "n = 0") (simp_all add: power_add)
  qed
  have "k - sh \<le> 200" using k assms(5) by simp
  then have "(k - sh) * 2 ^ 23 \<le> 200 * 2 ^ 23" by (rule mult_le_mono1)
  then have b: "(k - sh) * 2 ^ 23 + rne n k < 255 * 2 ^ 23" using le by simp
  show "f32_units (round_f32 s n sh) = a * 2 ^ (t - sh)"
    unfolding round_f32_value(1) [OF assms(1) k_def b] r using k by (simp add: mult.assoc flip: power_add)
  show "f32_exp (round_f32 s n sh) < 255" "f32_sign (round_f32 s n sh) \<longleftrightarrow> s = 1"
    by (rule round_f32_value(2,3) [OF assms(1) k_def b])+
qed

definition half_255 :: "u16 \<Rightarrow> int" where
  "half_255 h = (if f16_sign h then - 1 else 1) * int (rne (255 * f16_units h) 24)"

lemma product_255:
  assumes "f16_exp h < 31" "f16_to_f32 h = Some x"
  shows "f32_units (f32_mul x f32_255) = 255 * f16_units h * 2 ^ 125" "f32_exp (f32_mul x f32_255) < 255"
    "f32_sign (f32_mul x f32_255) \<longleftrightarrow> f16_sign h"
proof -
  have x: "f32_sign x = f16_sign h" "f32_exp x < 255" "f32_units x = f16_units h * 2 ^ 125"
    using f16_to_f32_value [of h] assms by auto
  obtain m i where m: "f16_units h = m * 2 ^ i" "m < 2 ^ 11" "i < 30" using f16_units_form [OF assms(1)] by blast
  define s :: nat where "s = (if f16_sign h then 1 else 0)"
  have s: "s < 2" "s = 1 \<longleftrightarrow> f16_sign h" by (simp_all add: s_def)
  define n where "n = f32_units x * f32_units f32_255"
  have n: "n = (255 * m) * 2 ^ (i + 274)"
    unfolding n_def x(3) m(1) f32_255_fields(1) by (simp add: power_add)
  have mul: "f32_mul x f32_255 = round_f32 s n 149"
    using x(2) f32_255_fields unfolding f32_mul_def Let_def n_def s_def x(1) by simp
  have a: "255 * m < 2 ^ 24" "149 \<le> i + 274" "i + 274 \<le> 149 + 200" using m by simp_all
  note r = round_f32_exact [OF s(1) n a, folded mul]
  have "i + 274 - 149 = i + 125" by simp
  then show "f32_units (f32_mul x f32_255) = 255 * f16_units h * 2 ^ 125"
    unfolding r(1) m(1) by (simp add: power_add)
  show "f32_exp (f32_mul x f32_255) < 255" "f32_sign (f32_mul x f32_255) \<longleftrightarrow> f16_sign h"
    using r(2,3) s(2) by simp_all
qed

lemma half_bytes:
  assumes "f16_exp h < 31"
  shows "px_u8 h = Some (clamp_u8 (half_255 h))" "f16x8_to_u8x8_sat255 [h] = [Some (clamp_u8 (half_255 h))]"
proof -
  obtain x where x: "f16_to_f32 h = Some x" using f16_to_f32_value [of h] by blast
  note p = product_255 [OF assms x]
  have r: "rne (f32_units (f32_mul x f32_255)) 149 = rne (255 * f16_units h) 24"
    using rne_scale [of "255 * f16_units h" 125 24] unfolding p(1) by simp
  have v: "(if f32_sign (f32_mul x f32_255) then - int (rne (255 * f16_units h) 24) else int (rne (255 * f16_units h) 24)) = half_255 h"
    by (simp add: half_255_def p(3))
  have "rne (255 * f16_units h) 24 \<le> 255 * 65504" by (rule rne_le) (use f16_units_bound [OF assms] in simp)
  then have b: "\<bar>half_255 h\<bar> \<le> 255 * 65504" by (simp add: half_255_def)
  have "lrintf (f32_mul x f32_255) = Some (half_255 h)"
    using p(2) unfolding lrintf_def Let_def r v by simp
  then show "px_u8 h = Some (clamp_u8 (half_255 h))" by (simp add: px_u8_def x)
  have "vcvtnq_s32 (f32_mul x f32_255) = half_255 h"
    using p(2) b unfolding vcvtnq_s32_def Let_def r v by simp
  then show "f16x8_to_u8x8_sat255 [h] = [Some (clamp_u8 (half_255 h))]"
    by (simp add: f16x8_to_u8x8_sat255_def x Let_def clamp_u8_def min_def max_def)
qed

section \<open>A byte survives\<close>

lemma f32_1_255_fields: "f32_units f32_1_255 = 8421505 * 2 ^ 118" "f32_exp f32_1_255 = 119" "\<not> f32_sign f32_1_255"
proof -
  have e: "f32_1_255 = f32_of 0 119 0x8081" by (simp add: f32_1_255_def f32_of_def)
  show "f32_units f32_1_255 = 8421505 * 2 ^ 118" "f32_exp f32_1_255 = 119" "\<not> f32_sign f32_1_255"
    unfolding f32_units_def e by simp_all
qed

text \<open>The constant is the single nearest to \<open>1 / 255\<close>: in units of the last place \<open>255 * 8421505\<close> is
  within half of 255 of a power of two.\<close>

lemma f32_1_255_nearest: "2 * \<bar>255 * 8421505 - 2 ^ 31\<bar> \<le> (255 :: int)"
  by simp

lemma cancel_scale:
  fixes a b c d :: int
  assumes "\<bar>a * c - b * c\<bar> * d \<le> b * c" "0 < c"
  shows "\<bar>a - b\<bar> * d \<le> b"
proof -
  have "\<bar>a * c - b * c\<bar> = \<bar>a - b\<bar> * c" using assms(2) by (simp add: abs_mult flip: left_diff_distrib)
  then have "(\<bar>a - b\<bar> * d) * c \<le> b * c" using assms(1) by (simp add: mult_ac)
  then show ?thesis using assms(2) by simp
qed

lemma byte_error:
  fixes u q i :: int
  assumes "\<bar>u * 2 ^ 125 - q\<bar> * 2 ^ 11 \<le> q + 2 ^ 125 * 2 ^ 10"
    and "\<bar>q - i * 8421505 * 2 ^ 118\<bar> * 2 ^ 24 \<le> i * 8421505 * 2 ^ 118" and "1 \<le> i" "i \<le> 255"
  shows "\<bar>255 * u - i * 2 ^ 24\<bar> < 2 ^ 23"
proof -
  have "\<bar>q - i * 8421505 * 2 ^ 118\<bar> \<le> 2147483776 * 2 ^ 94" using assms by simp
  moreover have "q \<le> 2 ^ 150" using calculation assms(4) by simp
  moreover have "\<bar>u * 2 ^ 125 - q\<bar> \<le> 2 ^ 139 + 2 ^ 124" using calculation(2) assms(1) by simp
  ultimately show ?thesis using assms(3,4) by (simp add: abs_less_iff abs_le_iff)
qed

lemma scaled_byte:
  assumes "0 < i" "i < 256"
  defines "x \<equiv> f32_mul (int_to_f32 (int i)) f32_1_255"
  shows "\<bar>int (f32_units x) - int (i * 8421505 * 2 ^ 118)\<bar> * 2 ^ 24 \<le> int (i * 8421505 * 2 ^ 118)"
    "f32_exp x < 255" "\<not> f32_sign x"
proof -
  define n where "n = i * 2 ^ 149 * (8421505 * 2 ^ 118)"
  note a = int_to_f32_units [of "int i"]
  have mul: "x = round_f32 0 n 149"
    using assms(2) a f32_1_255_fields unfolding x_def f32_mul_def Let_def n_def by simp
  define k where "k = max 149 (floor_log2 n - 23)"
  have "0 < n" using assms(1) by (simp add: n_def)
  then have L: "2 ^ floor_log2 n \<le> n" "n < 2 ^ Suc (floor_log2 n)" using floor_log2_bounds by (blast+)
  have big: "2 ^ 290 \<le> n"
  proof -
    have "1 * 2 ^ 149 * (2 ^ 23 * 2 ^ 118) \<le> n" unfolding n_def using assms(1) by (intro mult_le_mono) auto
    then show ?thesis by (simp flip: power_add)
  qed
  have small: "n < 2 ^ 299"
  proof -
    have "n \<le> 2 ^ 8 * 2 ^ 149 * (8421505 * 2 ^ 118)" unfolding n_def using assms(2) by (intro mult_le_mono) auto
    also have "\<dots> < 2 ^ 299" by simp
    finally show ?thesis .
  qed
  have "290 \<le> floor_log2 n"
  proof (rule ccontr)
    assume "\<not> 290 \<le> floor_log2 n"
    then have "(2::nat) ^ Suc (floor_log2 n) \<le> 2 ^ 290" by (intro power_increasing) auto
    then show False using L(2) big by linarith
  qed
  moreover have "floor_log2 n < 299" using small by (rule floor_log2_less) simp
  ultimately have k: "k = floor_log2 n - 23" "149 \<le> k" "k \<le> 275" "floor_log2 n = k + 23" by (simp_all add: k_def)
  have le: "rne n k \<le> 2 ^ 24"
    by (rule rne_le) (use L(2) in \<open>simp add: k(4) power_add\<close>)
  have "k - 149 \<le> 126" using k(3) by simp
  then have "(k - 149) * 2 ^ 23 \<le> 126 * 2 ^ 23" by (rule mult_le_mono1)
  then have b: "(k - 149) * 2 ^ 23 + rne n k < 255 * 2 ^ 23" using le by simp
  note r = round_f32_value [of 0 k 149 n, OF _ k_def b, folded mul]
  show "f32_exp x < 255" "\<not> f32_sign x" using r(2,3) by simp_all
  have e: "f32_units x * 2 ^ 149 = rne n k * 2 ^ k" 
  proof -
    have "2 ^ (k - 149) * 2 ^ 149 = (2::nat) ^ k" using k(2) by (simp only: power_add [symmetric]) simp
    then show ?thesis using r(1) by (simp only: mult.assoc)
  qed
  have err: "2 * \<bar>int (f32_units x * 2 ^ 149) - int n\<bar> \<le> 2 ^ k" unfolding e by (rule rne_error)
  have Kn: "(2::nat) ^ k * 2 ^ 23 \<le> n" using L(1) by (simp add: k(4) power_add)
  have K: "(2::int) ^ k * 2 ^ 23 \<le> int n" using of_nat_mono [OF Kn, where 'a = int] by simp
  have "\<bar>int (f32_units x * 2 ^ 149) - int n\<bar> * 2 ^ 24 \<le> int n"
    using err K by simp
  moreover have "int n = int (i * 8421505 * 2 ^ 118) * 2 ^ 149" "int (f32_units x * 2 ^ 149) = int (f32_units x) * 2 ^ 149"
    by (simp_all add: n_def)
  ultimately have "\<bar>int (f32_units x) * 2 ^ 149 - int (i * 8421505 * 2 ^ 118) * 2 ^ 149\<bar> * 2 ^ 24 \<le> int (i * 8421505 * 2 ^ 118) * 2 ^ 149"
    by (simp only:)
  then show "\<bar>int (f32_units x) - int (i * 8421505 * 2 ^ 118)\<bar> * 2 ^ 24 \<le> int (i * 8421505 * 2 ^ 118)"
    by (rule cancel_scale) simp
qed

lemma px_lut_units:
  fixes i :: nat
  assumes "0 < i" "i < 256"
  defines "h \<equiv> f32_to_f16 (f32_mul (int_to_f32 (int i)) f32_1_255)"
  shows "\<bar>255 * int (f16_units h) - int i * 2 ^ 24\<bar> < 2 ^ 23" "f16_exp h < 31" "\<not> f16_sign h"
proof -
  define x where "x = f32_mul (int_to_f32 (int i)) f32_1_255"
  note sb = scaled_byte [OF assms(1,2), folded x_def]
  have i: "1 \<le> int i" "int i \<le> 255" using assms(1,2) by simp_all
  have Q: "\<bar>int (f32_units x) - int i * 8421505 * 2 ^ 118\<bar> * 2 ^ 24 \<le> int i * 8421505 * 2 ^ 118" using sb(1) by simp
  have "int (f32_units x) < int half_max" unfolding half_max_def using Q i by simp
  then have hm: "f32_units x < half_max" by simp
  obtain S E M where f: "S < 2" "E < 256" "M < 2 ^ 23" "x = f32_of S E M" by (rule f32_cases)
  have S: "S = 0" using sb(3) f by (simp add: less_2_cases_iff)
  define n where "n = f16_mag E M"
  have n: "n < 2 ^ 15" using f16_mag_le [OF f(3), of E] by (simp add: n_def)
  have h: "h = of_nat (S * 2 ^ 15 + n)" unfolding assms(3) x_def [symmetric] f(4) n_def by (rule f32_to_f16_of [OF f(1-3)])
  obtain j where j: "n < 31 * 2 ^ 10" "f16_units h * 2 ^ 125 = rne (f32_units x) (j + 125) * 2 ^ (j + 125)"
      "2 ^ 10 \<le> f32_units x div 2 ^ (j + 125) \<or> j = 0"
    using f32_to_f16_rounds [OF f(1-3)] hm unfolding Let_def h n_def f(4) by blast
  show "f16_exp h < 31" "\<not> f16_sign h"
    using f16_units_of(2,3) [OF f(1) n] j(1) S unfolding h by (simp_all add: less_mult_imp_div_less)
  have err: "2 * \<bar>int (f16_units h * 2 ^ 125) - int (f32_units x)\<bar> \<le> 2 ^ (j + 125)"
    unfolding j(2) by (rule rne_error)
  have "2 ^ (j + 125) * 2 ^ 10 \<le> int (f32_units x) + 2 ^ 125 * 2 ^ 10"
  proof (cases "j = 0")
    case False
    then have "2 ^ 10 * 2 ^ (j + 125) \<le> f32_units x" using j(3) by (simp add: less_eq_div_iff_mult_less_eq)
    then have "int (2 ^ 10 * 2 ^ (j + 125)) \<le> int (f32_units x)" by (rule of_nat_mono)
    then show ?thesis by simp
  qed simp
  then have "\<bar>int (f16_units h) * 2 ^ 125 - int (f32_units x)\<bar> * 2 ^ 11 \<le> int (f32_units x) + 2 ^ 125 * 2 ^ 10"
    using err by simp
  then show "\<bar>255 * int (f16_units h) - int i * 2 ^ 24\<bar> < 2 ^ 23"
    by (rule byte_error [OF _ Q i])
qed

lemma abs_triangle: "\<bar>q - b\<bar> * 2 < w \<Longrightarrow> 2 * \<bar>a - q\<bar> \<le> w \<Longrightarrow> \<bar>a - b\<bar> < w" for a b q w :: int
  by arith

lemma rne_unique: "\<bar>int q - int i * 2 ^ k\<bar> * 2 < 2 ^ k \<Longrightarrow> rne q k = i"
proof -
  assume c: "\<bar>int q - int i * 2 ^ k\<bar> * 2 < 2 ^ k"
  have "\<bar>int (rne q k) * 2 ^ k - int i * 2 ^ k\<bar> < 2 ^ k"
    using abs_triangle [OF c rne_error [of q k]] by simp
  then have "\<bar>int (rne q k) - int i\<bar> * 2 ^ k < 1 * 2 ^ k"
    by (simp add: abs_mult flip: left_diff_distrib)
  then have "\<bar>int (rne q k) - int i\<bar> < 1" unfolding mult_less_cancel_right by simp
  then show ?thesis by simp
qed

lemma px_roundtrip: "px_u8 (px_lut b) = Some b \<and> f16_exp (px_lut b) < 31"
proof (cases "b = 0")
  case True
  have "int_to_f32 0 = f32_of 0 0 0" by (simp add: int_to_f32_def f32_of_def)
  moreover have "f32_mul (f32_of 0 0 0) f32_1_255 = f32_of 0 0 0"
  proof -
    have "floor_log2 0 = 0" by (simp add: floor_log2.simps)
    then have "round_f32 0 0 149 = f32_of 0 0 0" using rne_exact [of 0 149] by (simp add: round_f32_def f32_of_def)
    moreover have "f32_units (f32_of 0 0 0) = 0" by (simp add: f32_units_def)
    ultimately show ?thesis using f32_1_255_fields(2,3) by (simp add: f32_mul_def)
  qed
  moreover have "f32_to_f16 (f32_of 0 0 0) = f16_of 0 0 0"
    using f32_to_f16_of [of 0 0 0] by (simp add: f16_mag_def f16_of_def)
  ultimately have p: "px_lut b = f16_of 0 0 0" using True by (simp add: px_lut_def)
  then show ?thesis using half_bytes(1) [of "f16_of 0 0 0"] True
    by (simp add: half_255_def f16_units_def rne_def clamp_u8_def)
next
  case False
  define i where "i = unat b"
  have i: "0 < i" "i < 256" "uint b = int i" using False unsigned_less [of b] by (simp_all add: i_def unat_gt_0)
  note u = px_lut_units [OF i(1,2), folded i(3), folded px_lut_def]
  have "rne (255 * f16_units (px_lut b)) 24 = i"
    by (rule rne_unique) (use u(1) i(3) in simp)
  then have "half_255 (px_lut b) = int i" using u(3) by (simp add: half_255_def)
  moreover have "clamp_u8 (int i) = word_of_int (int i)" using i(2) by (simp add: clamp_u8_def)
  moreover have "word_of_int (int i) = b" by (simp add: i_def)
  ultimately show ?thesis using half_bytes(1) [OF u(2)] u(2) by simp
qed

section \<open>Whole pictures\<close>

text \<open>The byte of the picture that channel \<open>c\<close> of the tensor holds at row \<open>y\<close> and column \<open>x\<close>.\<close>

definition yuv_at :: "bytes \<Rightarrow> nat \<Rightarrow> nat \<Rightarrow> nat \<Rightarrow> nat \<Rightarrow> nat \<Rightarrow> bool \<Rightarrow> nat \<Rightarrow> nat \<Rightarrow> nat \<Rightarrow> u8" where
  "yuv_at buf yp ys up vp us nv12 c y x =
     buf ! (if c = 0 then yp + y * ys + x else (if c = 1 then up else vp) + y div 2 * us + x div 2 * (if nv12 then 2 else 1))"

lemma less_3_iff: "c < (3::nat) \<longleftrightarrow> c = 0 \<or> c = 1 \<or> c = 2"
  by auto

lemma nhwc_row_stores:
  assumes "yr = yp + y * ys" "uvr = up + y div 2 * us" "vvr = vp + y div 2 * us"
  shows "set (nhwc_row buf yr uvr vvr nv12 W d) =
    {(d + (x * 3 + c), px_lut (yuv_at buf yp ys up vp us nv12 c y x)) | x c. x < W \<and> c < 3}"
proof -
  have "set (nhwc_row buf yr uvr vvr nv12 W d) =
      (\<Union>x \<in> {0..<W}. {(d + (x * 3 + 0), px_lut (yuv_at buf yp ys up vp us nv12 0 y x)),
        (d + (x * 3 + 1), px_lut (yuv_at buf yp ys up vp us nv12 1 y x)),
        (d + (x * 3 + 2), px_lut (yuv_at buf yp ys up vp us nv12 2 y x))})"
    unfolding nhwc_row_def Let_def yuv_at_def assms by (simp add: set_for_each)
  also have "\<dots> = {(d + (x * 3 + c), px_lut (yuv_at buf yp ys up vp us nv12 c y x)) | x c. x \<in> {0..<W} \<and> c \<in> {0, 1, 2}}"
    by blast
  finally show ?thesis by (simp add: less_3_iff)
qed

lemma nhwc_rows_stores:
  "even y \<Longrightarrow> set (nhwc_rows buf yp ys up vp us nv12 W H y) =
     {((y' * W + x) * 3 + c, px_lut (yuv_at buf yp ys up vp us nv12 c y' x)) | y' x c. (y \<le> y' \<and> y' < H) \<and> x < W \<and> c < 3}"
proof (induction buf yp ys up vp us nv12 W H y rule: nhwc_rows.induct)
  case (1 buf yp ys up vp us nv12 W H y)
  define S where "S = (\<lambda>P. {((y' * W + x) * 3 + c, px_lut (yuv_at buf yp ys up vp us nv12 c y' x)) | y' x c. P y' \<and> x < W \<and> c < 3})"
  have S_Un: "S P \<union> S Q = S (\<lambda>y'. P y' \<or> Q y')" for P Q unfolding S_def by blast
  have row: "set (nhwc_row buf yr uvr vvr nv12 W d) = S (\<lambda>y'. y' = r)"
    if "yr = yp + r * ys" "uvr = up + r div 2 * us" "vvr = vp + r div 2 * us" "d = r * W * 3" for yr uvr vvr d r
    unfolding nhwc_row_stores [OF that(1-3)] that(4) S_def by (auto simp: add_mult_distrib) (metis add.assoc, metis add.assoc)
  have r0: "set (nhwc_row buf (yp + y * ys) (up + y div 2 * us) (vp + y div 2 * us) nv12 W (y * W * 3)) = S (\<lambda>y'. y' = y)"
    by (rule row) simp_all
  have "set (nhwc_rows buf yp ys up vp us nv12 W H y) = S (\<lambda>y'. y \<le> y' \<and> y' < H)"
  proof (cases "y + 2 \<le> H")
    case True
    have "(y + 1) div 2 = y div 2" using "1.prems" by simp
    then have r1: "set (nhwc_row buf (yp + y * ys + ys) (up + y div 2 * us) (vp + y div 2 * us) nv12 W (y * W * 3 + W * 3)) = S (\<lambda>y'. y' = y + 1)"
      by (intro row) (simp_all add: add_mult_distrib)
    have rest: "set (nhwc_rows buf yp ys up vp us nv12 W H (y + 2)) = S (\<lambda>y'. y + 2 \<le> y' \<and> y' < H)"
      unfolding S_def by (rule "1.IH" [OF refl refl refl refl True]) (use "1.prems" in simp)
    have "set (nhwc_rows buf yp ys up vp us nv12 W H y) = S (\<lambda>y'. y' = y) \<union> (S (\<lambda>y'. y' = y + 1) \<union> S (\<lambda>y'. y + 2 \<le> y' \<and> y' < H))"
      unfolding nhwc_rows.simps [of buf yp ys up vp us nv12 W H y] Let_def if_P [OF True] set_append r0 r1 rest ..
    also have "\<dots> = S (\<lambda>y'. y \<le> y' \<and> y' < H)"
      unfolding S_Un by (rule arg_cong [of _ _ S]) (use True in auto)
    finally show ?thesis .
  next
    case False
    have "set (nhwc_rows buf yp ys up vp us nv12 W H y) = (if y < H then S (\<lambda>y'. y' = y) else {})"
      unfolding nhwc_rows.simps [of buf yp ys up vp us nv12 W H y] Let_def if_not_P [OF False] using r0 by simp
    also have "\<dots> = S (\<lambda>y'. y \<le> y' \<and> y' < H)"
    proof (cases "y < H")
      case True
      then have "(\<lambda>y'. y' = y) = (\<lambda>y'. y \<le> y' \<and> y' < H)" using False by auto
      then show ?thesis using True by simp
    next
      case f: False
      then show ?thesis by (simp add: S_def)
    qed
    finally show ?thesis .
  qed
  then show ?case unfolding S_def .
qed

lemma nhwc_nth:
  assumes "length d = H * W * 3" "y < H" "x < W" "c < 3"
  shows "yuv_to_nhwc_fp16 buf yp ys up vp us nv12 W H d ! ((y * W + x) * 3 + c) = px_lut (yuv_at buf yp ys up vp us nv12 c y x)"
  unfolding yuv_to_nhwc_fp16_def
proof (rule writes_nth)
  have stores: "set (nhwc_rows buf yp ys up vp us nv12 W H 0) =
      {((y' * W + x) * 3 + c, px_lut (yuv_at buf yp ys up vp us nv12 c y' x)) | y' x c. (0 \<le> y' \<and> y' < H) \<and> x < W \<and> c < 3}"
    by (rule nhwc_rows_stores) simp
  show "(y * W + x) * 3 + c < length d" unfolding assms(1) by (rule idx3_less [OF assms(2-4)])
  show "((y * W + x) * 3 + c, px_lut (yuv_at buf yp ys up vp us nv12 c y x)) \<in> set (nhwc_rows buf yp ys up vp us nv12 W H 0)"
    unfolding stores using assms(2-4) by blast
  fix v assume "((y * W + x) * 3 + c, v) \<in> set (nhwc_rows buf yp ys up vp us nv12 W H 0)"
  then obtain y' x' c' where e: "(y * W + x) * 3 + c = (y' * W + x') * 3 + c'" "v = px_lut (yuv_at buf yp ys up vp us nv12 c' y' x')"
    "x' < W" "c' < 3" unfolding stores by blast
  then have "y = y' \<and> x = x' \<and> c = c'" using idx3_inj [of x W x' c 3 c' y y'] assms(3,4) by simp
  then show "v = px_lut (yuv_at buf yp ys up vp us nv12 c y x)" using e(2) by simp
qed

section \<open>Back to pictures\<close>

lemma sat255_lanes: "\<forall>h \<in> set hs. f16_exp h < 31 \<Longrightarrow> f16x8_to_u8x8_sat255 hs = map px_u8 hs"
proof (induction hs)
  case (Cons h hs)
  have "f16x8_to_u8x8_sat255 (h # hs) = f16x8_to_u8x8_sat255 [h] @ f16x8_to_u8x8_sat255 hs"
    by (simp add: f16x8_to_u8x8_sat255_def)
  then show ?case using Cons half_bytes [of h] by simp
qed (simp add: f16x8_to_u8x8_sat255_def)

lemma split_8: "x + 8 \<le> W \<Longrightarrow> {x' :: nat. x \<le> x' \<and> x' < W} = (\<lambda>j. x + j) ` {0..<8} \<union> {x'. x + 8 \<le> x' \<and> x' < W}"
proof (intro equalityI subsetI)
  fix z assume "x + 8 \<le> W" "z \<in> {x'. x \<le> x' \<and> x' < W}"
  then show "z \<in> (\<lambda>j. x + j) ` {0..<8} \<union> {x'. x + 8 \<le> x' \<and> x' < W}"
    by (cases "z < x + 8") (auto intro!: image_eqI [of _ _ "z - x"])
qed auto

lemma luma_row_stores:
  assumes "\<And>x'. x \<le> x' \<Longrightarrow> x' < W \<Longrightarrow> f16_exp (src ! (sp + x')) < 31"
  shows "set (luma_row src sp dp W x) = (\<lambda>x'. (dp + x', px_u8 (src ! (sp + x')))) ` {x'. x \<le> x' \<and> x' < W}"
  using assms
proof (induction src sp dp W x rule: luma_row.induct)
  case (1 src sp dp W x)
  show ?case
  proof (cases "x + 8 \<le> W")
    case True
    have fin: "\<forall>h \<in> set (vld1q_u16 src (sp + x)). f16_exp h < 31"
      using "1.prems" True by (auto simp: vld1q_u16_def add.assoc)
    have v: "f16x8_to_u8x8_sat255 (vld1q_u16 src (sp + x)) = map (\<lambda>j. px_u8 (src ! (sp + (x + j)))) [0..<8]"
      unfolding sat255_lanes [OF fin] by (simp add: vld1q_u16_def add.assoc)
    have "map (\<lambda>j. (dp + (x + j), map (\<lambda>j. px_u8 (src ! (sp + (x + j)))) [0..<8] ! j)) [0..<8] =
        map (\<lambda>j. (dp + (x + j), px_u8 (src ! (sp + (x + j))))) [0..<8]" by simp
    moreover have "set (luma_row src sp dp W (x + 8)) = (\<lambda>x'. (dp + x', px_u8 (src ! (sp + x')))) ` {x'. x + 8 \<le> x' \<and> x' < W}"
      by (rule "1.IH" [OF True]) (use "1.prems" in simp)
    ultimately have "set (luma_row src sp dp W x) = (\<lambda>j. (dp + (x + j), px_u8 (src ! (sp + (x + j))))) ` {0..<8} \<union>
        (\<lambda>x'. (dp + x', px_u8 (src ! (sp + x')))) ` {x'. x + 8 \<le> x' \<and> x' < W}"
      unfolding luma_row.simps [of src sp dp W x] if_P [OF True] Let_def v by (simp only: set_append set_map set_upt)
    then show ?thesis unfolding split_8 [OF True] image_Un image_image .
  next
    case False
    have "{x..<W} = {x'. x \<le> x' \<and> x' < W}" by auto
    then show ?thesis unfolding luma_row.simps [of src sp dp W x] if_not_P [OF False] set_map set_upt by simp
  qed
qed

lemma chroma_row_stores:
  assumes "\<And>x'. x \<le> x' \<Longrightarrow> x' < W \<Longrightarrow> f16_exp (src ! (ur + x' * 2)) < 31 \<and> f16_exp (src ! (vr + x' * 2)) < 31"
  shows "set (chroma_row src ur vr dp W x) = (\<Union>x' \<in> {x'. x \<le> x' \<and> x' < W}.
    {(dp + (x' * 2), px_u8 (src ! (ur + x' * 2))), (dp + (x' * 2 + 1), px_u8 (src ! (vr + x' * 2)))})"
  using assms
proof (induction src ur vr dp W x rule: chroma_row.induct)
  case (1 src ur vr dp W x)
  let ?P = "\<lambda>x'. {(dp + (x' * 2), px_u8 (src ! (ur + x' * 2))), (dp + (x' * 2 + 1), px_u8 (src ! (vr + x' * 2)))}"
  show ?case
  proof (cases "x + 8 \<le> W")
    case True
    have lanes: "f16x8_to_u8x8_sat255 (map (\<lambda>j. src ! (r + (x * 2 + 2 * j))) [0..<8]) =
        map (\<lambda>j. px_u8 (src ! (r + (x + j) * 2))) [0..<8]" if "r = ur \<or> r = vr" for r
    proof -
      have e: "x * 2 + 2 * j = (x + j) * 2" for j by simp
      have "\<forall>h \<in> set (map (\<lambda>j. src ! (r + (x + j) * 2)) [0..<8]). f16_exp h < 31"
      proof
        fix h assume "h \<in> set (map (\<lambda>j. src ! (r + (x + j) * 2)) [0..<8])"
        then obtain j where "h = src ! (r + (x + j) * 2)" "x + j < W" using True by auto
        then show "f16_exp h < 31" using "1.prems" [of "x + j"] that by auto
      qed
      from sat255_lanes [OF this] show ?thesis unfolding e by (simp only: list.map_comp o_def)
    qed
    have "set (chroma_row src ur vr dp W (x + 8)) = (\<Union>x' \<in> {x'. x + 8 \<le> x' \<and> x' < W}. ?P x')"
      by (rule "1.IH" [OF True]) (use "1.prems" in simp)
    moreover have "for_each [0..<8] (\<lambda>j. [(dp + (x * 2 + 2 * j), map (\<lambda>j. px_u8 (src ! (ur + (x + j) * 2))) [0..<8] ! j),
          (dp + (x * 2 + 2 * j + 1), map (\<lambda>j. px_u8 (src ! (vr + (x + j) * 2))) [0..<8] ! j)]) =
        for_each [0..<8] (\<lambda>j. [(dp + ((x + j) * 2), px_u8 (src ! (ur + (x + j) * 2))),
          (dp + ((x + j) * 2 + 1), px_u8 (src ! (vr + (x + j) * 2)))])"
      unfolding for_each_def by (rule arg_cong [of _ _ concat], rule map_cong [OF refl]) simp
    ultimately have "set (chroma_row src ur vr dp W x) = (\<Union>j \<in> {0..<8}. ?P (x + j)) \<union> (\<Union>x' \<in> {x'. x + 8 \<le> x' \<and> x' < W}. ?P x')"
      unfolding chroma_row.simps [of src ur vr dp W x] if_P [OF True] Let_def lanes [OF disjI1 [OF refl]] lanes [OF disjI2 [OF refl]]
      by (simp only: set_append set_for_each set_upt list.set)
    then show ?thesis by (simp only: split_8 [OF True] UN_Un SUP_image o_def)
  next
    case False
    have "{x..<W} = {x'. x \<le> x' \<and> x' < W}" by auto
    then show ?thesis unfolding chroma_row.simps [of src ur vr dp W x] if_not_P [OF False] set_for_each set_upt by simp
  qed
qed

definition luma_stores :: "u16 list \<Rightarrow> nat \<Rightarrow> nat \<Rightarrow> nat \<Rightarrow> (nat \<times> u8 option) set" where
  "luma_stores src W H ys = {(y * ys + x, px_u8 (src ! (y * W + x))) | y x. y < H \<and> x < W}"

definition chroma_stores :: "u16 list \<Rightarrow> nat \<Rightarrow> nat \<Rightarrow> nat \<Rightarrow> (nat \<times> u8 option) set" where
  "chroma_stores src W H us =
     {(y * us + (x * 2 + k), px_u8 (src ! ((k + 1) * (H * W) + y * 2 * W + x * 2))) | y x k. y < H div 2 \<and> x < W div 2 \<and> k < 2}"

lemma luma_rows: "(\<Union>y \<in> {0..<H}. (\<lambda>x. (y * ys + x, px_u8 (src ! (y * W + x)))) ` {x. 0 \<le> x \<and> x < W}) = luma_stores src W H ys"
proof -
  have "(\<Union>y \<in> {0..<H}. (\<lambda>x. (y * ys + x, px_u8 (src ! (y * W + x)))) ` {x. 0 \<le> x \<and> x < W}) =
      {(y * ys + x, px_u8 (src ! (y * W + x))) | y x. y \<in> {0..<H} \<and> x \<in> {x. 0 \<le> x \<and> x < W}}" by blast
  then show ?thesis by (simp add: luma_stores_def)
qed

lemma chroma_pairs:
  "(\<Union>y \<in> {0..<H div 2}. \<Union>x \<in> {x. 0 \<le> x \<and> x < W div 2}.
     {(y * us + (x * 2), px_u8 (src ! (H * W + y * 2 * W + x * 2))), (y * us + (x * 2 + 1), px_u8 (src ! (2 * (H * W) + y * 2 * W + x * 2)))}) =
   chroma_stores src W H us"
proof (intro equalityI subsetI)
  fix e assume "e \<in> (\<Union>y \<in> {0..<H div 2}. \<Union>x \<in> {x. 0 \<le> x \<and> x < W div 2}.
     {(y * us + (x * 2), px_u8 (src ! (H * W + y * 2 * W + x * 2))), (y * us + (x * 2 + 1), px_u8 (src ! (2 * (H * W) + y * 2 * W + x * 2)))})"
  then obtain y x where yx: "y < H div 2" "x < W div 2"
    and "e = (y * us + (x * 2), px_u8 (src ! (H * W + y * 2 * W + x * 2))) \<or>
      e = (y * us + (x * 2 + 1), px_u8 (src ! (2 * (H * W) + y * 2 * W + x * 2)))" by auto
  then have "e = (y * us + (x * 2 + 0), px_u8 (src ! ((0 + 1) * (H * W) + y * 2 * W + x * 2))) \<or>
      e = (y * us + (x * 2 + 1), px_u8 (src ! ((1 + 1) * (H * W) + y * 2 * W + x * 2)))" by simp
  moreover have "(0::nat) < 2" "(1::nat) < 2" by simp_all
  ultimately show "e \<in> chroma_stores src W H us" unfolding chroma_stores_def using yx by blast
next
  fix e assume "e \<in> chroma_stores src W H us"
  then obtain y x k where e: "e = (y * us + (x * 2 + k), px_u8 (src ! ((k + 1) * (H * W) + y * 2 * W + x * 2)))"
    "y < H div 2" "x < W div 2" "k < 2" unfolding chroma_stores_def by blast
  then have "e \<in> {(y * us + (x * 2), px_u8 (src ! (H * W + y * 2 * W + x * 2))),
      (y * us + (x * 2 + 1), px_u8 (src ! (2 * (H * W) + y * 2 * W + x * 2)))}"
    by (auto simp: less_2_cases_iff)
  then show "e \<in> (\<Union>y \<in> {0..<H div 2}. \<Union>x \<in> {x. 0 \<le> x \<and> x < W div 2}.
     {(y * us + (x * 2), px_u8 (src ! (H * W + y * 2 * W + x * 2))), (y * us + (x * 2 + 1), px_u8 (src ! (2 * (H * W) + y * 2 * W + x * 2)))})"
    using e(2,3) by (intro UN_I [of y] UN_I [of x]) simp_all
qed

lemma scalar_planes:
  obtains l c where "nv12_planes_scalar src W H yp ys uv us = (writes l yp, writes c uv)"
    "set l = luma_stores src W H ys" "set c = chroma_stores src W H us"
proof -
  let ?l = "for_each [0..<H] (\<lambda>y. map (\<lambda>x. (y * ys + x, px_u8 (src ! (y * W + x)))) [0..<W])"
  let ?c = "for_each [0..<H div 2] (\<lambda>y. for_each [0..<W div 2] (\<lambda>x.
              [(y * us + (x * 2), px_u8 (src ! (H * W + y * 2 * W + x * 2))),
               (y * us + (x * 2 + 1), px_u8 (src ! (2 * (H * W) + y * 2 * W + x * 2)))]))"
  have "set ?l = luma_stores src W H ys"
    unfolding luma_rows [symmetric] set_for_each set_map set_upt by (intro SUP_cong refl) auto
  moreover have "set ?c = chroma_stores src W H us"
    unfolding chroma_pairs [symmetric] set_for_each set_upt list.set by (intro SUP_cong refl) auto
  ultimately show thesis by (intro that [of ?l ?c]) (simp_all only: nv12_planes_scalar_def Let_def)
qed

lemma neon_planes:
  assumes "\<And>j. j < 3 * (H * W) \<Longrightarrow> f16_exp (src ! j) < 31"
  obtains l c where "nchw_yuv_fp16_to_nv12_planes True src W H yp ys uv us = (writes l yp, writes c uv)"
    "set l = luma_stores src W H ys" "set c = chroma_stores src W H us"
proof -
  let ?l = "for_each [0..<H] (\<lambda>y. luma_row src (y * W) (y * ys) W 0)"
  let ?c = "for_each [0..<H div 2] (\<lambda>y. chroma_row src (H * W + y * 2 * W) (2 * (H * W) + y * 2 * W) (y * us) (W div 2) 0)"
  have l: "set (luma_row src (y * W) (y * ys) W 0) = (\<lambda>x. (y * ys + x, px_u8 (src ! (y * W + x)))) ` {x. 0 \<le> x \<and> x < W}" if "y < H" for y
  proof (rule luma_row_stores)
    fix x assume "x < W"
    then have "y * W + x < H * W" by (rule idx2_less [OF that])
    then show "f16_exp (src ! (y * W + x)) < 31" by (intro assms) simp
  qed
  have "set ?l = (\<Union>y \<in> {0..<H}. (\<lambda>x. (y * ys + x, px_u8 (src ! (y * W + x)))) ` {x. 0 \<le> x \<and> x < W})"
    unfolding set_for_each set_upt by (intro SUP_cong refl l) simp
  also have "\<dots> = luma_stores src W H ys" by (rule luma_rows)
  finally have 1: "set ?l = luma_stores src W H ys" .
  have c: "set (chroma_row src (H * W + y * 2 * W) (2 * (H * W) + y * 2 * W) (y * us) (W div 2) 0) =
      (\<Union>x \<in> {x. 0 \<le> x \<and> x < W div 2}. {(y * us + (x * 2), px_u8 (src ! (H * W + y * 2 * W + x * 2))),
        (y * us + (x * 2 + 1), px_u8 (src ! (2 * (H * W) + y * 2 * W + x * 2)))})" if "y < H div 2" for y
  proof (rule chroma_row_stores)
    fix x assume "x < W div 2"
    then have "y * 2 * W + x * 2 < H * W" using that by (intro idx2_less) auto
    then show "f16_exp (src ! (H * W + y * 2 * W + x * 2)) < 31 \<and> f16_exp (src ! (2 * (H * W) + y * 2 * W + x * 2)) < 31"
      by (intro conjI assms) simp_all
  qed
  have "set ?c = chroma_stores src W H us"
    unfolding chroma_pairs [symmetric] set_for_each set_upt by (intro SUP_cong refl c) simp
  with 1 show thesis by (intro that [of ?l ?c]) (simp_all only: nchw_yuv_fp16_to_nv12_planes_def Let_def if_True)
qed

lemma luma_unique:
  assumes "W \<le> ys" "(j, v) \<in> luma_stores src W H ys" "(j, w) \<in> luma_stores src W H ys"
  shows "v = w"
proof -
  from assms(2,3) obtain y x y' x' where "j = y * ys + x" "v = px_u8 (src ! (y * W + x))" "x < W"
    "j = y' * ys + x'" "w = px_u8 (src ! (y' * W + x'))" "x' < W" unfolding luma_stores_def by blast
  then show ?thesis using assms(1) idx2_inj [of x ys x' y y'] by simp
qed

lemma chroma_unique:
  assumes "W \<le> us" "(j, v) \<in> chroma_stores src W H us" "(j, w) \<in> chroma_stores src W H us"
  shows "v = w"
proof -
  from assms(2,3) obtain y x k y' x' k' where e: "j = y * us + (x * 2 + k)" "v = px_u8 (src ! ((k + 1) * (H * W) + y * 2 * W + x * 2))"
      "x < W div 2" "k < 2" "j = y' * us + (x' * 2 + k')" "w = px_u8 (src ! ((k' + 1) * (H * W) + y' * 2 * W + x' * 2))"
      "x' < W div 2" "k' < 2" unfolding chroma_stores_def by blast
  have "x * 2 + k < W div 2 * 2" "x' * 2 + k' < W div 2 * 2" using e by (simp_all add: idx2_less)
  then have "x * 2 + k < us" "x' * 2 + k' < us" using assms(1) by simp_all
  then have "y = y' \<and> x * 2 + k = x' * 2 + k'" using e(1,5) idx2_inj [of "x * 2 + k" us "x' * 2 + k'" y y'] by simp
  moreover from this have "x = x' \<and> k = k'" using e(4,8) idx2_inj [of k 2 k' x x'] by simp
  ultimately show ?thesis using e(2,6) by simp
qed

lemma planes_nth:
  fixes neon :: bool
  assumes fin: "\<And>j. j < 3 * (H * W) \<Longrightarrow> f16_exp (src ! j) < 31"
    and st: "W \<le> ys" "W \<le> us" and len: "length yp = H * ys" "length uv = H div 2 * us"
  defines "r \<equiv> nchw_yuv_fp16_to_nv12_planes neon src W H yp ys uv us"
  shows "r = nv12_planes_scalar src W H yp ys uv us"
    and "length (fst r) = length yp" "length (snd r) = length uv"
    and "y < H \<Longrightarrow> x < W \<Longrightarrow> fst r ! (y * ys + x) = px_u8 (src ! (y * W + x))"
    and "y < H div 2 \<Longrightarrow> x < W div 2 \<Longrightarrow> k < 2 \<Longrightarrow>
      snd r ! (y * us + (x * 2 + k)) = px_u8 (src ! ((k + 1) * (H * W) + y * 2 * W + x * 2))"
proof -
  obtain l c where s: "nv12_planes_scalar src W H yp ys uv us = (writes l yp, writes c uv)"
    "set l = luma_stores src W H ys" "set c = chroma_stores src W H us" by (rule scalar_planes)
  show r: "r = nv12_planes_scalar src W H yp ys uv us"
  proof (cases neon)
    case True
    obtain l' c' where n: "nchw_yuv_fp16_to_nv12_planes True src W H yp ys uv us = (writes l' yp, writes c' uv)"
      "set l' = luma_stores src W H ys" "set c' = chroma_stores src W H us" using neon_planes [OF fin] by metis
    have "writes l' yp = writes l yp" by (rule writes_set_cong) (use n s luma_unique [OF st(1)] in simp_all)
    moreover have "writes c' uv = writes c uv" by (rule writes_set_cong) (use n s chroma_unique [OF st(2)] in simp_all)
    ultimately show ?thesis using True n(1) s(1) by (simp add: r_def)
  qed (simp add: r_def nchw_yuv_fp16_to_nv12_planes_def)
  show "length (fst r) = length yp" "length (snd r) = length uv" unfolding r s(1) by simp_all
  show "fst r ! (y * ys + x) = px_u8 (src ! (y * W + x))" if "y < H" "x < W"
  proof -
    have "y * ys + x < length yp" unfolding len using that st(1) by (intro idx2_less) simp_all
    moreover have "(y * ys + x, px_u8 (src ! (y * W + x))) \<in> set l" unfolding s(2) luma_stores_def using that by blast
    ultimately have "writes l yp ! (y * ys + x) = px_u8 (src ! (y * W + x))"
      by (rule writes_nth) (use s(2) luma_unique [OF st(1)] \<open>(y * ys + x, px_u8 (src ! (y * W + x))) \<in> set l\<close> in metis)
    then show ?thesis unfolding r s(1) by simp
  qed
  show "snd r ! (y * us + (x * 2 + k)) = px_u8 (src ! ((k + 1) * (H * W) + y * 2 * W + x * 2))"
    if "y < H div 2" "x < W div 2" "k < 2"
  proof -
    let ?v = "px_u8 (src ! ((k + 1) * (H * W) + y * 2 * W + x * 2))"
    have "x * 2 + k < W div 2 * 2" using that(2,3) by (rule idx2_less)
    then have "x * 2 + k < us" using st(2) by simp
    then have "y * us + (x * 2 + k) < length uv" unfolding len by (rule idx2_less [OF that(1)])
    moreover have m: "(y * us + (x * 2 + k), ?v) \<in> set c" unfolding s(3) chroma_stores_def using that by blast
    ultimately have "writes c uv ! (y * us + (x * 2 + k)) = ?v"
      by (rule writes_nth) (use s(3) chroma_unique [OF st(2)] m in metis)
    then show ?thesis unfolding r s(1) by simp
  qed
qed

text \<open>
  C36. A tensor of finite halves becomes the same picture on the vector and on the portable path: each
  byte is its element times 255, rounded to nearest and clamped to a byte, with one chroma sample for
  two by two elements.
\<close>
theorem planes_exact:
  fixes neon :: bool
  assumes "\<And>j. j < 3 * (H * W) \<Longrightarrow> f16_exp (src ! j) < 31"
    and "W \<le> ys" "W \<le> us" "length yp = H * ys" "length uv = H div 2 * us"
  shows "nchw_yuv_fp16_to_nv12_planes neon src W H yp ys uv us = nv12_planes_scalar src W H yp ys uv us \<and>
    (case nchw_yuv_fp16_to_nv12_planes neon src W H yp ys uv us of (l, c) \<Rightarrow>
       (\<forall>y < H. \<forall>x < W. l ! (y * ys + x) = Some (clamp_u8 (half_255 (src ! (y * W + x))))) \<and>
       (\<forall>y < H div 2. \<forall>x < W div 2. \<forall>k < 2. c ! (y * us + (x * 2 + k)) =
          Some (clamp_u8 (half_255 (src ! ((k + 1) * (H * W) + y * 2 * W + x * 2))))))"
proof -
  note n = planes_nth [where neon = neon, OF assms]
  have l: "px_u8 (src ! (y * W + x)) = Some (clamp_u8 (half_255 (src ! (y * W + x))))" if "y < H" "x < W" for y x
    by (intro half_bytes(1) assms(1)) (use idx2_less [OF that] in simp)
  have c: "px_u8 (src ! ((k + 1) * (H * W) + y * 2 * W + x * 2)) =
      Some (clamp_u8 (half_255 (src ! ((k + 1) * (H * W) + y * 2 * W + x * 2))))"
    if "y < H div 2" "x < W div 2" "k < 2" for y x k
  proof (intro half_bytes(1) assms(1))
    have "y * 2 * W + x * 2 < H * W" using that by (intro idx2_less) auto
    then show "(k + 1) * (H * W) + y * 2 * W + x * 2 < 3 * (H * W)" using that(3) by (auto simp: less_2_cases_iff)
  qed
  show ?thesis using n(1) n(4,5) l c by (auto split: prod.split)
qed

lemma planes_exact_witness:
  "nchw_yuv_fp16_to_nv12_planes True [0x3c00, 0x3800, 0, 0xbc00] 1 1 [None, None] 2 [] 1 =
     nv12_planes_scalar [0x3c00, 0x3800, 0, 0xbc00] 1 1 [None, None] 2 [] 1"
proof -
  have "f16_exp ([0x3c00, 0x3800, 0, 0xbc00] ! j) < 31" if "j < 3 * (1 * 1)" for j
    using that by (auto simp: f16_exp_def less_3_iff)
  from planes_exact [where neon = True and ys = 2 and us = 1 and yp = "[None, None]" and uv = "[]", OF this] show ?thesis by simp
qed



end
