(* ===== verification/Mlvc_Payload.thy ===== *)
theory Mlvc_Payload
  imports Mlvc_Bind Tensor_Planes
begin

text \<open>
  The entropy-coded payload of a picture, the part that \<open>codecs/mlvc/src/encoder.cpp\<close> and
  \<open>decoder.cpp\<close> share: the three runs of the rANS coder (second half of the latent, first half,
  hyper-latent), read back in the opposite order, and the checks on the tensors of the network.
  One call of the coder on each side is a step on the abstract state of \<open>Rans_Roundtrip\<close>.
\<close>

section \<open>Tensors of the network\<close>

unbundle bit_operations_syntax

definition fp16_finite :: "u16 \<Rightarrow> bool" where
  "fp16_finite h \<longleftrightarrow> h AND 0x7c00 \<noteq> 0x7c00"

definition all_finite :: "u16 list \<Rightarrow> bool" where
  "all_finite t = list_all fp16_finite t"

section \<open>The payload\<close>

definition encode_payload ::
  "rans_coder \<Rightarrow> rans_coder \<Rightarrow> int list \<Rightarrow> int list \<Rightarrow> int list \<Rightarrow> int list \<Rightarrow> int list \<Rightarrow> int list \<Rightarrow> bytes result option" where
  "encode_payload g b s1 y1 s0 y0 z_idx z =
     do { (st, e) \<leftarrow> rans_enc_encode (new_encoder RansByte 65536) g s1 y1;
          (st, e) \<leftarrow> (if st = Ok then rans_enc_encode e g s0 y0 else Some (st, e));
          (st, e) \<leftarrow> (if st = Ok then rans_enc_encode e b z_idx z else Some (st, e));
          Some (if st \<noteq> Ok then reject Internal ''rANS encode failed''
                else case rans_enc_flush e of
                       ((st, bits), _) \<Rightarrow> if st \<noteq> Ok then reject Internal ''rANS flush failed'' else Inr bits) }"

section \<open>One run of the coder\<close>

lemma encode_run:
  assumes c: "coder_fits c" "variant c = v" and rel: "enc_rel v e s"
    and len: "length idx = length vals" "length (snd s) + 300 * (length vals + 1) < 2 ^ 59"
    and cd: "all_codable c idx vals"
  shows "\<exists>e'. rans_enc_encode e c idx vals = Some (Ok, e') \<and>
    enc_rel v e' (foldr (aput v) (all_value_syms c (zip idx vals)) s)"
proof -
  have "coder_ok c" using c by (simp add: coder_fits_def)
  then have ne: "dists c \<noteq> []" "enc_syms c \<noteq> []" by (simp_all add: coder_ok_def)
  have live: "\<not> e_flushed e" "\<not> e_oom e" "e_buf e \<noteq> []" using rel by (simp_all add: enc_rel_def enc_inv_def)
  have cd': "\<forall>(i, v) \<in> set (rev (zip idx vals)). 0 \<le> i \<longrightarrow> codable c i v"
    using cd by (simp add: all_codable_def)
  have l: "length (snd s) + 300 * (length (rev (zip idx vals)) + 1) < 2 ^ 59" using len by simp
  from encode_loop_refines [OF c(1) rel [folded c(2)] cd' l] obtain e' where
    "encode_loop c (rev (zip idx vals)) e = Some (Ok, e')"
    "enc_rel v e' (foldr (aput v) (all_value_syms c (zip idx vals)) s)"
    unfolding c(2) rev_rev_ident by auto
  then show ?thesis using len(1) ne live by (simp add: rans_enc_encode_def)
qed

lemma reads_append: "reads v d (ts @ us) s \<Longrightarrow> reads v d ts (foldr (aput v) us s)"
  unfolding reads_def using rans_code.put_all_ok by simp

lemma decode_run:
  assumes c: "coder_fits c" "variant c = v" and rd: "reads v d (all_value_syms c (zip idx vals) @ us) s"
    and len: "length idx = length vals" "length old = length idx" and cd: "all_codable c idx vals"
    and nn: "\<forall>i \<in> set idx. 0 \<le> i"
  shows "\<exists>d'. rans_dec_decode d c old idx = Some (Ok, vals, d') \<and> reads v d' us s"
proof -
  have "coder_ok c" using c by (simp add: coder_fits_def)
  then have ne: "dists c \<noteq> []" "cdf_table c \<noteq> []" by (simp_all add: coder_ok_def)
  have us: "aok v s" "list_all (wf_sym (amax v)) us" using rd by (simp_all add: reads_def)
  have "reads (variant c) d (all_value_syms c (zip idx vals)) (foldr (aput v) us s)"
    unfolding c(2) by (rule reads_append [OF rd])
  from decode_loop_reads [OF c(1) cd [unfolded all_codable_def] this] len(1) obtain d' where
    d: "decode_loop c idx d = Some (Ok, map (\<lambda>(i, v). if i < 0 then 0 else v) (zip idx vals), d')"
      "reads v d' [] (foldr (aput v) us s)"
    unfolding c(2) by auto
  have "map (\<lambda>(i, v). if i < 0 then 0 else v) (zip idx vals) = map snd (zip idx vals)"
    using nn by (intro map_cong) (auto dest!: set_zip_leftD)
  then have vals: "map (\<lambda>(i, v). if i < 0 then 0 else v) (zip idx vals) = vals" using len by simp
  have "reads v d' us s" using d(2) us by (simp add: reads_def)
  moreover have "d_opened d" using rd by (simp add: reads_def dec_rel_def)
  ultimately show ?thesis using d(1) ne len unfolding vals by (auto simp: rans_dec_decode_def)
qed

section \<open>A payload is read back\<close>

lemma run_length:
  assumes "coder_fits c" "all_codable c idx vals"
  shows "length (all_value_syms c (zip idx vals)) \<le> 66 * length vals"
proof -
  have ok: "coder_ok c" using assms(1) by (simp add: coder_fits_def)
  have "length (all_value_syms c ps) \<le> 66 * length ps"
    if "\<forall>(i, v) \<in> set ps. 0 \<le> i \<longrightarrow> codable c i v" for ps
    using that
  proof (induction ps)
    case (Cons p ps)
    then show ?case using value_syms_length [OF _ ok] by (cases p) (fastforce simp: add_mono)
  qed simp
  from this [of "zip idx vals"] show ?thesis using assms(2) by (simp add: all_codable_def)
qed

lemma run_state_length:
  assumes "coder_fits c" "variant c = v" "aok v s" "all_codable c idx vals"
  shows "aok v (foldr (aput v) (all_value_syms c (zip idx vals)) s)"
    "length (snd (foldr (aput v) (all_value_syms c (zip idx vals)) s)) \<le> length (snd s) + 264 * length vals"
proof -
  have wf: "list_all (wf_sym (amax v)) (all_value_syms c (zip idx vals))"
    using all_value_syms_wf [OF assms(1)] assms(2) by simp
  show "aok v (foldr (aput v) (all_value_syms c (zip idx vals)) s)"
    by (rule rans_code.put_all_ok [OF assms(3) wf])
  show "length (snd (foldr (aput v) (all_value_syms c (zip idx vals)) s)) \<le> length (snd s) + 264 * length vals"
    using aput_all_length [OF assms(3) wf] run_length [OF assms(1,4)] by linarith
qed

text \<open>What the encoder and the decoder must agree on, for the values of one picture.\<close>

definition payload_ok :: "rans_coder \<Rightarrow> rans_coder \<Rightarrow> int list \<Rightarrow> int list \<Rightarrow> int list \<Rightarrow> int list \<Rightarrow> int list \<Rightarrow> int list \<Rightarrow> bool" where
  "payload_ok g b s1 y1 s0 y0 z_idx z \<longleftrightarrow>
     coder_fits g \<and> coder_fits b \<and> variant g = RansByte \<and> variant b = RansByte \<and>
     length s1 = length y1 \<and> length s0 = length y0 \<and> length z_idx = length z \<and>
     length y1 < 2 ^ 40 \<and> length y0 < 2 ^ 40 \<and> length z < 2 ^ 40 \<and>
     all_codable g s1 y1 \<and> all_codable g s0 y0 \<and> all_codable b z_idx z \<and>
     (\<forall>i \<in> set s1. 0 \<le> i) \<and> (\<forall>i \<in> set s0. 0 \<le> i) \<and> (\<forall>i \<in> set z_idx. 0 \<le> i)"

lemma payload_decodes:
  assumes ok: "payload_ok g b s1 y1 s0 y0 z_idx z"
    and old: "length oz = length z" "length o0 = length y0" "length o1 = length y1"
  shows "\<exists>bits d dz d0 d1. encode_payload g b s1 y1 s0 y0 z_idx z = Some (Inr bits) \<and> 4 \<le> length bits \<and>
    rans_dec_open (new_decoder RansByte) bits = (Ok, d) \<and>
    rans_dec_decode d b oz z_idx = Some (Ok, z, dz) \<and>
    rans_dec_decode dz g o0 s0 = Some (Ok, y0, d0) \<and>
    rans_dec_decode d0 g o1 s1 = Some (Ok, y1, d1) \<and> check_eof d1 \<and>
    length bits \<le> 4 + 264 * (length y1 + length y0 + length z)"
proof -
  let ?v = RansByte
  note o = ok [unfolded payload_ok_def]
  define t1 where "t1 = all_value_syms g (zip s1 y1)"
  define t0 where "t0 = all_value_syms g (zip s0 y0)"
  define tz where "tz = all_value_syms b (zip z_idx z)"
  define a1 where "a1 = foldr (aput ?v) t1 (start_state ?v)"
  define a0 where "a0 = foldr (aput ?v) t0 a1"
  define az where "az = foldr (aput ?v) tz a0"
  have start: "aok ?v (start_state ?v)" "snd (start_state ?v) = []"
    using enc_rel_new [of ?v] by (simp_all add: enc_rel_def start_state_def)
  have r1: "aok ?v a1" "length (snd a1) \<le> 264 * length y1"
    using run_state_length [of g ?v "start_state ?v" s1 y1] o start unfolding a1_def t1_def by simp_all
  have r0: "aok ?v a0" "length (snd a0) \<le> 264 * length y1 + 264 * length y0"
    using run_state_length [of g ?v a1 s0 y0] o r1 unfolding a0_def t0_def by simp_all
  have rz: "aok ?v az" "length (snd az) \<le> 264 * length y1 + 264 * length y0 + 264 * length z"
    using run_state_length [of b ?v a0 z_idx z] o r0 unfolding az_def tz_def by simp_all
  obtain e1 where e1: "rans_enc_encode (new_encoder ?v 65536) g s1 y1 = Some (Ok, e1)" "enc_rel ?v e1 a1"
    using encode_run [of g ?v _ _ s1 y1, OF _ _ enc_rel_new] o start(2) unfolding a1_def t1_def by fastforce
  obtain e0 where e0: "rans_enc_encode e1 g s0 y0 = Some (Ok, e0)" "enc_rel ?v e0 a0"
    using encode_run [of g ?v _ _ s0 y0, OF _ _ e1(2)] o r1(2) unfolding a0_def t0_def by fastforce
  obtain ez where ez: "rans_enc_encode e0 b z_idx z = Some (Ok, ez)" "enc_rel ?v ez az"
    using encode_run [of b ?v _ _ z_idx z, OF _ _ e0(2)] o r0(2) unfolding az_def tz_def by fastforce
  let ?bits = "state_bytes ?v (fst az) @ snd az"
  have "length (snd az) < 2 ^ 59" using rz(2) o by simp
  from flush_refines [OF ez(2) this] obtain e' where fl: "rans_enc_flush ez = ((Ok, ?bits), e')"
    by (cases "rans_enc_flush ez") auto
  have enc: "encode_payload g b s1 y1 s0 y0 z_idx z = Some (Inr ?bits)"
    by (simp add: encode_payload_def e1(1) e0(1) ez(1) fl)
  have len: "4 \<le> length ?bits" "length ?bits \<le> 4 + 264 * (length y1 + length y0 + length z)"
    using rz(2) by (simp_all add: state_bytes_def)
  have "aok ?v (fst az, snd az)" using rz(1) by simp
  from dec_open_reads [OF this] obtain d where d: "rans_dec_open (new_decoder ?v) ?bits = (Ok, d)" "dec_rel ?v d az" by auto
  have wf: "list_all (wf_sym (amax ?v)) (tz @ t0 @ t1)"
    using all_value_syms_wf o unfolding tz_def t0_def t1_def by (metis list_all_append)
  have rd: "reads ?v d (tz @ t0 @ t1) (start_state ?v)"
    using d(2) start(1) wf by (simp add: reads_def az_def a0_def a1_def)
  obtain dz where dz: "rans_dec_decode d b oz z_idx = Some (Ok, z, dz)" "reads ?v dz (t0 @ t1) (start_state ?v)"
    using decode_run [of b ?v d z_idx z "t0 @ t1" "start_state ?v" oz] rd o old unfolding tz_def by auto
  obtain d0 where d0: "rans_dec_decode dz g o0 s0 = Some (Ok, y0, d0)" "reads ?v d0 t1 (start_state ?v)"
    using decode_run [of g ?v dz s0 y0 t1 "start_state ?v" o0] dz(2) o old unfolding t0_def by auto
  obtain d1 where d1: "rans_dec_decode d0 g o1 s1 = Some (Ok, y1, d1)" "reads ?v d1 [] (start_state ?v)"
    using decode_run [of g ?v d0 s1 y1 "[]" "start_state ?v" o1] d0(2) o old unfolding t1_def by auto
  show ?thesis using enc len d(1) dz(1) d0(1) d1(1) check_eof_start [OF d1(2)] by blast
qed

section \<open>Which values can be coded\<close>

definition small_offsets :: "rans_coder \<Rightarrow> bool" where
  "small_offsets c \<longleftrightarrow> (\<forall>d \<in> set (dists c). \<bar>value_offset d\<bar> < 2 ^ 30)"

lemma fp16_codable:
  assumes "coder_ok c" "bypass_bits c = 2" "small_offsets c" "\<bar>v\<bar> \<le> 65504"
  shows "codable c i v"
proof -
  have ne: "dists c \<noteq> []" using assms(1) by (simp add: coder_ok_def)
  have "\<bar>value_offset (pick_dist c i)\<bar> < 2 ^ 30"
    using assms(3) pick_dist_in [OF ne] by (simp add: small_offsets_def)
  moreover have "1 \<le> bypass_sentinel (pick_dist c i)"
    using value_syms_row [OF assms(1)] by metis
  moreover have "unat x < 2 ^ (bypass_bits c * (32 div bypass_bits c))" for x :: u32
    using unsigned_less [of x] assms(2) by simp
  ultimately have "- (2 ^ 31) < v + value_offset (pick_dist c i) \<and>
      v + value_offset (pick_dist c i) - bypass_sentinel (pick_dist c i) < 2 ^ 31 \<and>
      unat x < 2 ^ (bypass_bits c * (32 div bypass_bits c))" for x :: u32
    using assms(4) by (simp add: abs_le_iff abs_less_iff)
  then show ?thesis by (simp add: codable_def Let_def)
qed

lemma fp16_finite_exp: "fp16_finite h \<longleftrightarrow> f16_exp h < 31"
proof -
  let ?e = "take_bit 5 (drop_bit 10 h)"
  have m: "(0x7c00 :: u16) = push_bit 10 (mask 5)" by (simp add: mask_eq_decr_exp push_bit_eq_mult)
  have "fp16_finite h \<longleftrightarrow> ?e \<noteq> mask 5"
  proof -
    have "h AND push_bit 10 (mask 5) = push_bit 10 ?e" by (rule bit_word_eqI) (auto simp: bit_simps)
    moreover have "push_bit 10 a = push_bit 10 b \<longleftrightarrow> a = b" if "take_bit 5 a = a" "take_bit 5 b = b" for a b :: u16
    proof
      assume e: "push_bit 10 a = push_bit 10 b"
      have "drop_bit 10 (push_bit 10 (take_bit 5 w)) = take_bit 5 w" for w :: u16
        by (rule bit_word_eqI) (auto simp: bit_simps)
      from this [of a] this [of b] show "a = b" unfolding that e by simp
    qed simp
    ultimately show ?thesis unfolding fp16_finite_def m by simp
  qed
  also have "\<dots> \<longleftrightarrow> unat ?e \<noteq> 31" by (simp add: word_unat_eq_iff mask_eq_decr_exp)
  also have "unat ?e = f16_exp h"
    by (simp only: f16_exp_def unsigned_take_bit_eq unat_drop_bit_eq drop_bit_eq_div take_bit_eq_mod unat_mod unat_div) simp
  also have "f16_exp h \<noteq> 31 \<longleftrightarrow> f16_exp h < 31" using mod_less_divisor [of 32 "unat h div 2 ^ 10"] by (simp add: f16_exp_def) linarith
  finally show ?thesis .
qed

definition coders_wf :: "rans_coder \<Rightarrow> rans_coder \<Rightarrow> bool" where
  "coders_wf g b \<longleftrightarrow> coder_fits g \<and> coder_fits b \<and> variant g = RansByte \<and> variant b = RansByte \<and>
     bypass_bits g = 2 \<and> bypass_bits b = 2"

lemma coders_result_wf: "init_rans_coders m cfg = Inr (g, b, cfg') \<Longrightarrow> coders_wf g b \<and> 0 \<le> ec_scale_max_index cfg'"
  using coders_result [of m cfg g b cfg'] by (simp add: coders_wf_def)

lemma payload_ok_coders:
  assumes c: "coders_wf g b" and off: "small_offsets g" "small_offsets b"
    and len: "length s1 = length y1" "length s0 = length y0" "length z_idx = length z"
      "length y1 < 2 ^ 40" "length y0 < 2 ^ 40" "length z < 2 ^ 40"
    and vals: "\<forall>v \<in> set y1 \<union> set y0 \<union> set z. \<bar>v\<bar> \<le> 65504"
    and idx: "\<forall>i \<in> set s1 \<union> set s0 \<union> set z_idx. 0 \<le> i"
  shows "payload_ok g b s1 y1 s0 y0 z_idx z"
proof -
  note co = c [unfolded coders_wf_def]
  have ok: "coder_ok g" "coder_ok b" using co by (simp_all add: coder_fits_def)
  have cd: "all_codable g s1 y1" "all_codable g s0 y0" "all_codable b z_idx z"
    unfolding all_codable_def using vals fp16_codable [OF ok(1) _ off(1)] fp16_codable [OF ok(2) _ off(2)] co
    by (auto dest!: set_zip_rightD)
  show ?thesis unfolding payload_ok_def using co cd len idx by simp
qed

text \<open>
  C4. The payload of a picture comes back as it was coded: with the coders of any accepted model whose
  value offsets are below two to the thirtieth, for any latents the network can produce (finite halves
  round to at most 65504) and any indices, the three runs are written, and reading them back in the
  opposite order, whatever the buffers held, yields the hyper-latent and both halves of the latent, and
  ends exactly at the end of the payload.
\<close>

theorem payload_roundtrip:
  assumes "init_rans_coders m cfg = Inr (g, b, cfg')" "small_offsets g" "small_offsets b"
    and "length s1 = length y1" "length s0 = length y0" "length z_idx = length z"
      "length y1 < 2 ^ 40" "length y0 < 2 ^ 40" "length z < 2 ^ 40"
    and "\<forall>v \<in> set y1 \<union> set y0 \<union> set z. \<bar>v\<bar> \<le> 65504"
    and "\<forall>i \<in> set s1 \<union> set s0 \<union> set z_idx. 0 \<le> i"
    and "length oz = length z" "length o0 = length y0" "length o1 = length y1"
  shows "\<exists>bits d dz d0 d1. encode_payload g b s1 y1 s0 y0 z_idx z = Some (Inr bits) \<and> 4 \<le> length bits \<and>
    rans_dec_open (new_decoder RansByte) bits = (Ok, d) \<and>
    rans_dec_decode d b oz z_idx = Some (Ok, z, dz) \<and>
    rans_dec_decode dz g o0 s0 = Some (Ok, y0, d0) \<and>
    rans_dec_decode d0 g o1 s1 = Some (Ok, y1, d1) \<and> check_eof d1"
  using payload_decodes [OF payload_ok_coders [OF conjunct1 [OF coders_result_wf [OF assms(1)]] assms(2-11)] assms(12-14)] by blast

lemma sample_offsets:
  "\<exists>g b. init_rans_coders (sample_model role ps) cfg = Inr (g, b, cfg\<lparr>ec_scale_max_index := 1, ec_qp_num := 1, ec_z_channels := 2\<rparr>) \<and>
     small_offsets g \<and> small_offsets b"
proof -
  obtain g b where c: "init_rans_coders (sample_model role ps) cfg = Inr (g, b, cfg\<lparr>ec_scale_max_index := 1, ec_qp_num := 1, ec_z_channels := 2\<rparr>)"
    "map value_offset (dists g) = [1, 0]" "map value_offset (dists b) = [0, 0]"
    using sample_coders [of role ps cfg] by metis
  have "small_offsets k" if "map value_offset (dists k) = [u, 0]" "\<bar>u\<bar> \<le> 1" for k u
  proof -
    have "set (map value_offset (dists k)) = {u, 0}" using that(1) by simp
    then have "\<forall>d \<in> set (dists k). value_offset d \<in> {u, 0}" by (metis image_eqI list.set_map)
    then show ?thesis using that(2) by (auto simp: small_offsets_def)
  qed
  from this [OF c(2)] this [OF c(3)] c(1) show ?thesis by (intro exI [of _ g] exI [of _ b]) simp
qed

lemma payload_roundtrip_witness:
  "\<exists>g b cfg bits d dz d0 d1. init_rans_coders (sample_model ''encoder'' []) no_entropy = Inr (g, b, cfg) \<and>
     encode_payload g b [0] [-300] [1] [65504] [0, 1] [0, 7] = Some (Inr bits) \<and>
     rans_dec_open (new_decoder RansByte) bits = (Ok, d) \<and> rans_dec_decode d b [0, 0] [0, 1] = Some (Ok, [0, 7], dz) \<and>
     rans_dec_decode dz g [0] [1] = Some (Ok, [65504], d0) \<and> rans_dec_decode d0 g [0] [0] = Some (Ok, [-300], d1) \<and> check_eof d1"
proof -
  obtain g b cfg where c: "init_rans_coders (sample_model ''encoder'' []) no_entropy = Inr (g, b, cfg)"
    and off: "small_offsets g" "small_offsets b"
    using sample_offsets by metis
  from payload_roundtrip [OF c off, of "[0]" "[-300]" "[1]" "[65504]" "[0, 1]" "[0, 7]" "[0, 0]" "[0]" "[0]"] c
  show ?thesis by force
qed

end
