(* ===== verification/Container.thy ===== *)
theory Container
  imports Status
begin

text \<open>
  The .mlvc stream container of \<open>codecs/mlvc/src/container.cpp\<close>: the 64-byte header, the 16-byte
  records and the streaming \<open>Demuxer\<close>. The demuxer's buffer is the list of its bytes and a flag
  that says whether \<open>buf_.data()\<close> is a null pointer (it is, in the standard libraries the
  project builds with, until the vector first allocates).
\<close>

unbundle bit_operations_syntax

section \<open>Header and records\<close>

definition kHdrSize :: nat where "kHdrSize = 64"
definition kRecSize :: nat where "kRecSize = 16"
definition kMaxFrameBytes :: u32 where "kMaxFrameBytes = push_bit 20 64"
definition kQindexDropped :: int where "kQindexDropped = -1"

record header =
  h_width :: u32
  h_height :: u32
  h_fps_num :: u32
  h_fps_den :: u32
  h_qp :: u32
  h_frame_count :: u32
  h_iframe_period :: u32
  h_ltr_start_idx :: u32
  h_ltr_period :: u32
  h_flags :: u32
  h_target_bitrate_bps :: u32

definition magic :: bytes where
  "magic = [0x4D, 0x4C, 0x56, 0x43, 0x31]"

text \<open>Bytes 28 to 31, the frame count, and the bytes from 52 on stay zero.\<close>

definition write_header :: "header \<Rightarrow> bytes" where
  "write_header h =
     (let out = put_at (replicate kHdrSize 0) 0 magic;
          out = out[5 := 0x02];
          out = wr_u32 out 8 (h_width h);
          out = wr_u32 out 12 (h_height h);
          out = wr_u32 out 16 (if h_fps_num h \<noteq> 0 then h_fps_num h else 30);
          out = wr_u32 out 20 (if h_fps_den h \<noteq> 0 then h_fps_den h else 1);
          out = wr_u32 out 24 (h_qp h);
          out = wr_u32 out 32 (h_iframe_period h);
          out = wr_u32 out 36 (h_ltr_start_idx h);
          out = wr_u32 out 40 (h_ltr_period h);
          out = wr_u32 out 44 (h_flags h)
      in wr_u32 out 48 (h_target_bitrate_bps h))"

text \<open>The pointer is null or points to the bytes.\<close>

definition parse_header :: "bytes option \<Rightarrow> header result" where
  "parse_header data =
     (case data of
        None \<Rightarrow> reject Format ''''
      | Some d \<Rightarrow>
          if length d < kHdrSize then reject Again ''''
          else if take 5 d \<noteq> magic \<or> d ! 5 \<noteq> 0x02 then reject Format ''''
          else let h = \<lparr>h_width = rd_u32 d 8, h_height = rd_u32 d 12, h_fps_num = rd_u32 d 16,
                 h_fps_den = rd_u32 d 20, h_qp = rd_u32 d 24, h_frame_count = rd_u32 d 28,
                 h_iframe_period = rd_u32 d 32, h_ltr_start_idx = rd_u32 d 36,
                 h_ltr_period = rd_u32 d 40, h_flags = rd_u32 d 44,
                 h_target_bitrate_bps = rd_u32 d 48\<rparr>
               in if h_width h = 0 \<or> h_height h = 0 then reject Format '''' else Inr h)"

definition write_record :: "u32 \<Rightarrow> int \<Rightarrow> u32 \<Rightarrow> bytes" where
  "write_record payload_size q_index flags =
     wr_u32 (wr_u32 (wr_u32 (wr_u32 (replicate kRecSize 0) 0 payload_size) 4 (word_of_int q_index)) 8 flags) 12 0"

section \<open>The demuxer\<close>

record view =
  v_drop :: bool
  v_q_index :: int
  v_flags :: u32
  v_data :: bytes

record demuxer =
  dm_buf :: bytes
  dm_null :: bool
  dm_header :: header
  dm_have_header :: bool
  dm_parse_error :: bool
  dm_frames_emitted :: u64
  dm_last_record :: nat

definition empty_header :: header where
  "empty_header = \<lparr>h_width = 0, h_height = 0, h_fps_num = 30, h_fps_den = 1, h_qp = 0,
     h_frame_count = 0, h_iframe_period = 0, h_ltr_start_idx = 0, h_ltr_period = 0, h_flags = 0,
     h_target_bitrate_bps = 0\<rparr>"

definition new_demuxer :: demuxer where
  "new_demuxer = \<lparr>dm_buf = [], dm_null = True, dm_header = empty_header, dm_have_header = False,
     dm_parse_error = False, dm_frames_emitted = 0, dm_last_record = 0\<rparr>"

definition dm_ptr :: "demuxer \<Rightarrow> bytes option" where
  "dm_ptr d = (if dm_null d then None else Some (dm_buf d))"

text \<open>\<open>append (nullptr, size)\<close> with a non-zero size is the first case of the code.\<close>

definition demux_append :: "demuxer \<Rightarrow> bytes option \<Rightarrow> nat \<Rightarrow> status \<times> demuxer" where
  "demux_append d data n =
     (if (data = None \<and> n \<noteq> 0) \<or> dm_parse_error d then (Format, d)
      else if n = 0 then (Ok, d)
      else if n > 2 ^ 64 - 1 - length (dm_buf d) then (Nomem, d)
      else (Ok, d\<lparr>dm_buf := dm_buf d @ take n (the data), dm_null := False\<rparr>))"

definition demux_fail :: "demuxer \<Rightarrow> view result \<times> demuxer" where
  "demux_fail d = (reject Format '''', d\<lparr>dm_parse_error := True\<rparr>)"

text \<open>The part of \<open>next\<close> after the header: the record at the front of the buffer.\<close>

definition next_record :: "demuxer \<Rightarrow> view result \<times> demuxer" where
  "next_record d =
     (if length (dm_buf d) < kRecSize then (reject Again '''', d)
      else let sz = rd_u32 (dm_buf d) 0;
               qi = sint (rd_u32 (dm_buf d) 4);
               flags = rd_u32 (dm_buf d) 8
           in if qi = kQindexDropped
              then if sz \<noteq> 0 then demux_fail d
                   else (Inr \<lparr>v_drop = True, v_q_index = qi, v_flags = flags, v_data = []\<rparr>,
                         d\<lparr>dm_last_record := kRecSize, dm_frames_emitted := dm_frames_emitted d + 1\<rparr>)
              else if sz = 0 \<or> sz > kMaxFrameBytes then demux_fail d
              else if length (dm_buf d) < kRecSize + unat sz then (reject Again '''', d)
              else (Inr \<lparr>v_drop = False, v_q_index = qi, v_flags = flags,
                         v_data = slice_of (dm_buf d) kRecSize (kRecSize + unat sz)\<rparr>,
                    d\<lparr>dm_last_record := kRecSize + unat sz, dm_frames_emitted := dm_frames_emitted d + 1\<rparr>))"

definition demux_next :: "demuxer \<Rightarrow> view result \<times> demuxer" where
  "demux_next d =
     (if dm_parse_error d then (reject Format '''', d)
      else if \<not> dm_have_header d
      then case parse_header (dm_ptr d) of
             Inl (st, _) \<Rightarrow> if st = Again then (reject Again '''', d) else demux_fail d
           | Inr h \<Rightarrow>
               next_record (d\<lparr>dm_header := h, dm_have_header := True, dm_buf := drop kHdrSize (dm_buf d)\<rparr>)
      else next_record d)"

definition consume_record :: "demuxer \<Rightarrow> demuxer" where
  "consume_record d =
     (if dm_last_record d = 0 \<or> dm_last_record d > length (dm_buf d) then d
      else d\<lparr>dm_buf := drop (dm_last_record d) (dm_buf d), dm_last_record := 0\<rparr>)"

text \<open>
  The client's loop (\<open>MlvcDecoderNode::process\<close>): take records until \<open>next\<close> has none, consuming
  each one. The second branch of the inner conditional is never taken (lemma \<open>consume_shrinks\<close>).
\<close>

function drain :: "demuxer \<Rightarrow> view list \<times> status \<times> demuxer" where
  "drain d =
     (case demux_next d of
        (Inl (st, _), d') \<Rightarrow> ([], st, d')
      | (Inr v, d') \<Rightarrow>
          (if length (dm_buf (consume_record d')) < length (dm_buf d)
           then (case drain (consume_record d') of (vs, st, d'') \<Rightarrow> (v # vs, st, d''))
           else ([v], Ok, consume_record d')))"
  by pat_completeness auto
termination
  by (relation "measure (\<lambda>d. length (dm_buf d))") auto

declare drain.simps [simp del]

fun feed :: "demuxer \<Rightarrow> bytes list \<Rightarrow> view list \<times> status \<times> demuxer" where
  "feed d [] = ([], Again, d)"
| "feed d (c # cs) =
     (case demux_append d (Some c) (length c) of
        (st, d1) \<Rightarrow>
          if st \<noteq> Ok then ([], st, d1)
          else case drain d1 of
                 (vs, st, d2) \<Rightarrow>
                   if st \<noteq> Again then (vs, st, d2)
                   else case feed d2 cs of (ws, st', d3) \<Rightarrow> (vs @ ws, st', d3))"

section \<open>Round trips of header and record\<close>

lemma wr_u32_blank:
  assumes "length a + k = p" "k + 4 \<le> n"
  shows "wr_u32 (a @ replicate n 0) p v = (a @ replicate k 0 @ le32 v) @ replicate (n - k - 4) 0"
proof -
  have "p = length a + k" "n = k + (4 + (n - k - 4))" using assms by simp_all
  then show ?thesis by (simp add: wr_u32_def put_at_def)
qed

lemma write_header_flat:
  "write_header h = magic @ [0x02, 0, 0] @ le32 (h_width h) @ le32 (h_height h) @
     le32 (if h_fps_num h \<noteq> 0 then h_fps_num h else 30) @ le32 (if h_fps_den h \<noteq> 0 then h_fps_den h else 1) @
     le32 (h_qp h) @ replicate 4 0 @ le32 (h_iframe_period h) @ le32 (h_ltr_start_idx h) @
     le32 (h_ltr_period h) @ le32 (h_flags h) @ le32 (h_target_bitrate_bps h) @ replicate 12 0"
proof -
  have l: "length magic = 5" by (simp add: magic_def)
  have start: "(put_at (replicate kHdrSize 0) 0 magic)[5 := 0x02] = (magic @ [0x02, 0, 0]) @ replicate 56 0"
    by code_simp
  show ?thesis
    unfolding write_header_def Let_def start
    by (simp add: wr_u32_blank [where k = 0] wr_u32_blank [where k = 4] l del: append_assoc)
qed

lemma length_write_header [simp]: "length (write_header h) = kHdrSize"
  by (simp add: write_header_flat magic_def kHdrSize_def)

lemma write_record_flat: "write_record sz q fl = le32 sz @ le32 (word_of_int q) @ le32 fl @ le32 0"
proof -
  have e: "replicate kRecSize 0 = [] @ replicate 16 (0::u8)" by (simp add: kRecSize_def)
  show ?thesis unfolding write_record_def e
    by (simp add: wr_u32_blank [where k = 0] del: append_assoc append_Nil)
qed

lemma length_write_record [simp]: "length (write_record sz q fl) = kRecSize"
  by (simp add: write_record_flat kRecSize_def)

section \<open>Reading a buffer\<close>

text \<open>What draining a buffer of records yields: the views, the status and the bytes left.\<close>

definition record_size :: "bytes \<Rightarrow> nat" where
  "record_size b = (if sint (rd_u32 b 4) = kQindexDropped then kRecSize else kRecSize + unat (rd_u32 b 0))"

definition record_view :: "bytes \<Rightarrow> view" where
  "record_view b =
     \<lparr>v_drop = (sint (rd_u32 b 4) = kQindexDropped), v_q_index = sint (rd_u32 b 4), v_flags = rd_u32 b 8,
      v_data = slice_of b kRecSize (record_size b)\<rparr>"

definition record_bad :: "bytes \<Rightarrow> bool" where
  "record_bad b \<longleftrightarrow>
     (if sint (rd_u32 b 4) = kQindexDropped then rd_u32 b 0 \<noteq> 0
      else rd_u32 b 0 = 0 \<or> rd_u32 b 0 > kMaxFrameBytes)"

lemma next_record_cases:
  "next_record d =
     (let b = dm_buf d
      in if length b < kRecSize then (reject Again '''', d)
         else if record_bad b then demux_fail d
         else if length b < record_size b then (reject Again '''', d)
         else (Inr (record_view b), d\<lparr>dm_last_record := record_size b, dm_frames_emitted := dm_frames_emitted d + 1\<rparr>))"
  by (simp add: next_record_def Let_def record_bad_def record_size_def record_view_def slice_of_def)

lemma record_size_ge: "kRecSize \<le> record_size b"
  by (simp add: record_size_def)

lemma rd_u32_append: "p + 4 \<le> length b \<Longrightarrow> rd_u32 (b @ c) p = rd_u32 b p"
  by (simp add: rd_u32_def nth_append)

lemma record_append:
  assumes "kRecSize \<le> length b"
  shows "record_size (b @ c) = record_size b" "record_bad (b @ c) = record_bad b"
    "record_size b \<le> length b \<Longrightarrow> record_view (b @ c) = record_view b"
proof -
  have r: "rd_u32 (b @ c) 0 = rd_u32 b 0" "rd_u32 (b @ c) 4 = rd_u32 b 4" "rd_u32 (b @ c) 8 = rd_u32 b 8"
    using assms by (simp_all add: rd_u32_append kRecSize_def)
  show "record_size (b @ c) = record_size b" "record_bad (b @ c) = record_bad b"
    by (simp_all add: record_size_def record_bad_def r)
  then show "record_size b \<le> length b \<Longrightarrow> record_view (b @ c) = record_view b"
    using assms by (simp add: record_view_def r slice_of_def)
qed

function records :: "bytes \<Rightarrow> view list \<times> bool \<times> bytes" where
  "records b =
     (if length b < kRecSize then ([], True, b)
      else if record_bad b then ([], False, b)
      else if length b < record_size b then ([], True, b)
      else case records (drop (record_size b) b) of (vs, ok, r) \<Rightarrow> (record_view b # vs, ok, r))"
  by pat_completeness auto
termination
proof (relation "measure length")
  fix b :: bytes
  assume "\<not> length b < kRecSize" "\<not> length b < record_size b"
  with record_size_ge [of b] show "(drop (record_size b) b, b) \<in> measure length"
    by (simp add: kRecSize_def)
qed simp

declare records.simps [simp del]

lemma records_append:
  "records b = (vs, True, r) \<Longrightarrow>
    records (b @ c) = (case records (r @ c) of (ws, ok, r') \<Rightarrow> (vs @ ws, ok, r'))"
proof (induction b arbitrary: vs r rule: records.induct)
  case (1 b)
  show ?case
  proof (cases "length b < kRecSize \<or> \<not> record_bad b \<and> length b < record_size b")
    case True
    with "1.prems" have "vs = [] \<and> r = b"
      by (auto simp: records.simps [of b] split: if_splits)
    then show ?thesis by (auto split: prod.splits)
  next
    case False
    then have c: "\<not> length b < kRecSize" "\<not> record_bad b" "\<not> length b < record_size b"
      using "1.prems" by (auto simp: records.simps [of b])
    then have b: "kRecSize \<le> length b" by simp
    from "1.prems" c obtain vs' where vs: "vs = record_view b # vs'"
      "records (drop (record_size b) b) = (vs', True, r)"
      by (auto simp: records.simps [of b] split: prod.splits)
    from "1.IH" [OF c vs(2)] c b record_append [OF b, of c] vs(1) show ?thesis
      by (simp add: records.simps [of "b @ c"] split: prod.splits)
  qed
qed

lemma records_rest: "records b = (vs, True, r) \<Longrightarrow> records r = ([], True, r) \<and> length r \<le> length b"
proof (induction b arbitrary: vs rule: records.induct)
  case (1 b)
  show ?case
  proof (cases "length b < kRecSize \<or> record_bad b \<or> length b < record_size b")
    case True
    with "1.prems" have "r = b \<and> vs = []" by (auto simp: records.simps [of b] split: if_splits)
    then show ?thesis using "1.prems" by simp
  next
    case False
    then have c: "\<not> length b < kRecSize" "\<not> record_bad b" "\<not> length b < record_size b" by simp_all
    from "1.prems" c obtain vs' where "records (drop (record_size b) b) = (vs', True, r)"
      by (auto simp: records.simps [of b] split: prod.splits)
    from "1.IH" [OF c this] show ?thesis by (simp, linarith)
  qed
qed

lemma records_bad_append: "records b = (vs, False, r) \<Longrightarrow> \<not> fst (snd (records (b @ c)))"
proof (induction b arbitrary: vs rule: records.induct)
  case (1 b)
  have b: "\<not> length b < kRecSize" using "1.prems" by (auto simp: records.simps [of b])
  then have R: "record_size (b @ c) = record_size b" "record_bad (b @ c) = record_bad b"
    using record_append [of b c] by simp_all
  show ?case
  proof (cases "record_bad b")
    case True
    with b R show ?thesis by (simp add: records.simps [of "b @ c"])
  next
    case False
    with "1.prems" b have s: "\<not> length b < record_size b" by (auto simp: records.simps [of b])
    with "1.prems" b False obtain vs' where "records (drop (record_size b) b) = (vs', False, r)"
      by (auto simp: records.simps [of b] split: prod.splits)
    from "1.IH" [OF b False s this] b False s R show ?thesis
      by (auto simp: records.simps [of "b @ c"] split: prod.splits)
  qed
qed

text \<open>A demuxer past the header, with nothing handed out and no error.\<close>

definition reading :: "demuxer \<Rightarrow> bool" where
  "reading d \<longleftrightarrow> dm_have_header d \<and> \<not> dm_parse_error d \<and> \<not> dm_null d"

lemma consume_shrinks:
  assumes "reading d" "demux_next d = (Inr v, d')"
  shows "v = record_view (dm_buf d)" "reading (consume_record d')"
    "dm_buf (consume_record d') = drop (record_size (dm_buf d)) (dm_buf d)"
    "length (dm_buf (consume_record d')) < length (dm_buf d)"
    "\<not> record_bad (dm_buf d)" "record_size (dm_buf d) \<le> length (dm_buf d)" "kRecSize \<le> length (dm_buf d)"
    "dm_header (consume_record d') = dm_header d"
proof -
  have n: "next_record d = (Inr v, d')"
    using assms by (simp add: demux_next_def reading_def)
  then have c: "\<not> length (dm_buf d) < kRecSize" "\<not> record_bad (dm_buf d)" "\<not> length (dm_buf d) < record_size (dm_buf d)"
    by (auto simp: next_record_cases Let_def demux_fail_def split: if_splits)
  with n have d': "v = record_view (dm_buf d)"
    "d' = d\<lparr>dm_last_record := record_size (dm_buf d), dm_frames_emitted := dm_frames_emitted d + 1\<rparr>"
    by (auto simp: next_record_cases Let_def)
  have pos: "0 < record_size (dm_buf d)" using record_size_ge [of "dm_buf d"] by (simp add: kRecSize_def)
  show "v = record_view (dm_buf d)" by (rule d'(1))
  show b: "dm_buf (consume_record d') = drop (record_size (dm_buf d)) (dm_buf d)"
    using c(3) pos by (simp add: d'(2) consume_record_def)
  show "reading (consume_record d')" "dm_header (consume_record d') = dm_header d"
    using assms(1) by (auto simp: d'(2) consume_record_def reading_def)
  show "length (dm_buf (consume_record d')) < length (dm_buf d)"
    using c pos unfolding b by simp
  show "\<not> record_bad (dm_buf d)" "record_size (dm_buf d) \<le> length (dm_buf d)" "kRecSize \<le> length (dm_buf d)"
    using c by simp_all
qed

lemma drain_records:
  "reading d \<Longrightarrow> records (dm_buf d) = (vs, True, r) \<Longrightarrow>
    \<exists>d'. drain d = (vs, Again, d') \<and> reading d' \<and> dm_buf d' = r \<and> dm_header d' = dm_header d"
proof (induction d arbitrary: vs rule: drain.induct)
  case (1 d)
  let ?b = "dm_buf d"
  show ?case
  proof (cases "demux_next d")
    case (Pair res d')
    show ?thesis
    proof (cases res)
      case (Inr v)
      with Pair have n: "demux_next d = (Inr v, d')" by simp
      note s = consume_shrinks [OF "1.prems"(1) n]
      from "1.prems"(2) s obtain vs' where vs: "vs = record_view ?b # vs'"
        "records (dm_buf (consume_record d')) = (vs', True, r)"
        by (auto simp: records.simps [of ?b] split: prod.splits)
      from "1.IH" [OF n [symmetric] refl s(4) s(2) vs(2)] n s(1,4,8) vs(1) show ?thesis
        by (auto simp: drain.simps [of d])
    next
      case (Inl e)
      with Pair have n: "next_record d = (Inl e, d')"
        using "1.prems"(1) by (simp add: demux_next_def reading_def)
      have "vs = [] \<and> r = ?b \<and> fst e = Again \<and> d' = d"
        using n "1.prems"(2)
        by (auto simp: next_record_cases Let_def records.simps [of ?b] split: if_splits prod.splits)
      then show ?thesis using Pair Inl "1.prems"(1) by (cases e) (auto simp: drain.simps [of d])
    qed
  qed
qed

section \<open>Header and records read back\<close>

lemma rd_u32_skip [buffer]: "length pre \<le> p \<Longrightarrow> rd_u32 (pre @ xs) p = rd_u32 xs (p - length pre)"
  by (simp add: rd_u32_def nth_append Suc_diff_le)

lemma rd_u32_front [buffer]: "rd_u32 (le32 v @ xs) 0 = v"
  using rd_u32_le32 [of "[]" 0 v xs] by simp

lemma blank_le32: "replicate 4 0 = le32 0"
  by (simp add: le32_def numeral_eq_Suc)

definition stored_header :: "header \<Rightarrow> header" where
  "stored_header h =
     h\<lparr>h_fps_num := (if h_fps_num h \<noteq> 0 then h_fps_num h else 30),
       h_fps_den := (if h_fps_den h \<noteq> 0 then h_fps_den h else 1), h_frame_count := 0\<rparr>"

lemma parse_write_header:
  "parse_header (Some (write_header h @ tail)) =
    (if h_width h = 0 \<or> h_height h = 0 then reject Format '''' else Inr (stored_header h))"
proof -
  let ?d = "write_header h @ tail"
  have l: "length magic = 5" by (simp add: magic_def)
  have t: "take 5 ?d = magic" "?d ! 5 = 0x02"
    by (simp_all add: write_header_flat l nth_append)
  have r: "rd_u32 ?d 8 = h_width h" "rd_u32 ?d 12 = h_height h"
      "rd_u32 ?d 16 = (if h_fps_num h \<noteq> 0 then h_fps_num h else 30)"
      "rd_u32 ?d 20 = (if h_fps_den h \<noteq> 0 then h_fps_den h else 1)"
      "rd_u32 ?d 24 = h_qp h" "rd_u32 ?d 28 = 0" "rd_u32 ?d 32 = h_iframe_period h"
      "rd_u32 ?d 36 = h_ltr_start_idx h" "rd_u32 ?d 40 = h_ltr_period h" "rd_u32 ?d 44 = h_flags h"
      "rd_u32 ?d 48 = h_target_bitrate_bps h"
    unfolding write_header_flat blank_le32
    by (simp_all only: append_assoc) (simp_all add: rd_u32_skip rd_u32_front l del: append_Cons)
  have "\<not> length ?d < kHdrSize" by simp
  then show ?thesis
    unfolding parse_header_def option.case t r Let_def
    by (simp add: stored_header_def)
qed

text \<open>Records that the encoder can write: a drop marker without payload, or a payload.\<close>

definition wf_view :: "view \<Rightarrow> bool" where
  "wf_view v \<longleftrightarrow> - (2 ^ 31) \<le> v_q_index v \<and> v_q_index v < 2 ^ 31 \<and>
     v_drop v = (v_q_index v = kQindexDropped) \<and>
     (if v_drop v then v_data v = [] else 0 < length (v_data v) \<and> length (v_data v) \<le> 64 * 2 ^ 20)"

definition view_bytes :: "view \<Rightarrow> bytes" where
  "view_bytes v = write_record (of_nat (length (v_data v))) (v_q_index v) (v_flags v) @ v_data v"

lemma sint_small: "- (2 ^ 31) \<le> q \<Longrightarrow> q < 2 ^ 31 \<Longrightarrow> sint (word_of_int q :: u32) = q"
  by (simp add: signed_of_int signed_take_bit_int_eq_self)

lemma record_of_view:
  assumes wf: "wf_view v"
  shows "record_size (view_bytes v @ tail) = length (view_bytes v)" "\<not> record_bad (view_bytes v @ tail)"
    "record_view (view_bytes v @ tail) = v"
proof -
  let ?n = "length (v_data v)"
  define b where "b = view_bytes v @ tail"
  have n: "?n \<le> 64 * 2 ^ 20" using wf by (cases "v_drop v") (simp_all add: wf_view_def)
  then have u: "unat (of_nat ?n :: u32) = ?n"
    by (intro unat_of_nat_small) simp
  have r: "rd_u32 b 0 = of_nat ?n" "rd_u32 b 4 = word_of_int (v_q_index v)" "rd_u32 b 8 = v_flags v"
    by (simp_all add: b_def view_bytes_def write_record_flat rd_u32_skip rd_u32_front)
  have q: "sint (rd_u32 b 4) = v_q_index v"
    unfolding r using wf by (intro sint_small) (simp_all add: wf_view_def)
  have drop: "v_drop v \<longleftrightarrow> v_q_index v = kQindexDropped" "v_drop v \<Longrightarrow> v_data v = []" "\<not> v_drop v \<Longrightarrow> 0 < ?n"
    using wf by (simp_all add: wf_view_def)
  have lb: "length (view_bytes v) = kRecSize + ?n" by (simp add: view_bytes_def)
  have s: "record_size b = length (view_bytes v)"
    unfolding record_size_def q r(1) u lb using drop by (cases "v_drop v") simp_all
  have "unat kMaxFrameBytes = 64 * 2 ^ 20" by (simp add: kMaxFrameBytes_def)
  then have mx: "\<not> of_nat ?n > kMaxFrameBytes" using n u by (simp add: word_less_nat_alt)
  have z: "(of_nat ?n :: u32) = 0 \<longleftrightarrow> ?n = 0" using u by auto
  have bad: "\<not> record_bad b"
    unfolding record_bad_def q r(1) z using drop mx by (cases "v_drop v") simp_all
  have "slice_of b kRecSize (length (view_bytes v)) = v_data v"
    by (simp add: slice_of_def view_bytes_def b_def)
  then have "record_view b = v"
    unfolding record_view_def q r(3) s using drop(1) by simp
  with s bad show "record_size (view_bytes v @ tail) = length (view_bytes v)" "\<not> record_bad (view_bytes v @ tail)"
    "record_view (view_bytes v @ tail) = v" by (simp_all add: b_def)
qed

lemma records_of_views:
  "\<forall>v \<in> set vs. wf_view v \<Longrightarrow> records (concat (map view_bytes vs)) = (vs, True, [])"
proof (induction vs)
  case Nil
  then show ?case by (simp add: records.simps [of "[]"] kRecSize_def)
next
  case (Cons v vs)
  let ?b = "concat (map view_bytes (v # vs))"
  have wf: "wf_view v" using Cons.prems by simp
  note R = record_of_view [OF wf, of "concat (map view_bytes vs)"]
  have "kRecSize \<le> length (view_bytes v)" by (simp add: view_bytes_def)
  with R Cons show ?case by (simp add: records.simps [of "view_bytes v @ concat (map view_bytes vs)"])
qed

section \<open>Chunks\<close>

lemma append_ok:
  assumes "\<not> dm_parse_error d" "length (dm_buf d) + length c < 2 ^ 64"
  shows "demux_append d (Some c) (length c) =
    (Ok, if c = [] then d else d\<lparr>dm_buf := dm_buf d @ c, dm_null := False\<rparr>)"
  using assms by (auto simp: demux_append_def)

lemma feed_reading:
  "reading d \<Longrightarrow> records (dm_buf d) = ([], True, dm_buf d) \<Longrightarrow>
    records (dm_buf d @ concat cs) = (vs, True, r) \<Longrightarrow> length (dm_buf d) + length (concat cs) < 2 ^ 64 \<Longrightarrow>
    \<exists>d'. feed d cs = (vs, Again, d') \<and> reading d' \<and> dm_buf d' = r \<and> dm_header d' = dm_header d"
proof (induction cs arbitrary: d vs)
  case (Cons c cs)
  obtain ws ok r1 where c: "records (dm_buf d @ c) = (ws, ok, r1)" by (cases "records (dm_buf d @ c)")
  let ?d1 = "if c = [] then d else d\<lparr>dm_buf := dm_buf d @ c, dm_null := False\<rparr>"
  have a: "demux_append d (Some c) (length c) = (Ok, ?d1)"
    using Cons.prems(1,4) by (intro append_ok) (auto simp: reading_def)
  have d1: "reading ?d1" "dm_buf ?d1 = dm_buf d @ c" "dm_header ?d1 = dm_header d"
    using Cons.prems(1) by (simp_all add: reading_def)
  show ?case
  proof (cases ok)
    case True
    with records_append [of "dm_buf d @ c" ws r1 "concat cs"] c Cons.prems(3) obtain vs' where
      v: "records (r1 @ concat cs) = (vs', True, r)" "vs = ws @ vs'"
      by (auto split: prod.splits)
    obtain d2 where d2: "drain ?d1 = (ws, Again, d2)" "reading d2" "dm_buf d2 = r1" "dm_header d2 = dm_header ?d1"
      using drain_records [OF d1(1)] d1(2) c True by auto
    have idem: "records r1 = ([], True, r1)" and len: "length r1 \<le> length (dm_buf d @ c)"
      using records_rest [of "dm_buf d @ c" ws r1] c True by simp_all
    from Cons.IH [OF d2(2), of vs'] d2 idem v(1) Cons.prems(4) len obtain d' where
      "feed d2 cs = (vs', Again, d')" "reading d'" "dm_buf d' = r" "dm_header d' = dm_header d2" by auto
    with a d2 v(2) d1(3) show ?thesis by simp
  next
    case False
    then have "\<not> fst (snd (records ((dm_buf d @ c) @ concat cs)))"
      using records_bad_append [of "dm_buf d @ c" ws r1 "concat cs"] c by simp
    with Cons.prems(3) show ?thesis by simp
  qed
qed simp

text \<open>Before the header is complete the buffer holds a prefix of it.\<close>

definition waiting :: "demuxer \<Rightarrow> bool" where
  "waiting d \<longleftrightarrow> \<not> dm_have_header d \<and> \<not> dm_parse_error d \<and> length (dm_buf d) < kHdrSize"

lemma drain_header:
  assumes "\<not> dm_have_header d" "\<not> dm_parse_error d" "\<not> dm_null d" "dm_buf d = write_header h @ body"
    "h_width h \<noteq> 0" "h_height h \<noteq> 0"
  shows "drain d = drain (d\<lparr>dm_header := stored_header h, dm_have_header := True, dm_buf := body\<rparr>)"
    (is "_ = drain ?d")
proof -
  have r: "reading ?d" using assms by (simp add: reading_def)
  have n: "demux_next d = demux_next ?d"
    using assms by (simp add: demux_next_def dm_ptr_def parse_write_header)
  have l: "length (dm_buf ?d) \<le> length (dm_buf d)" using assms(4) by simp
  show ?thesis
  proof (cases "demux_next ?d")
    case (Pair res d')
    then show ?thesis
    proof (cases res)
      case (Inr v)
      with Pair have "demux_next ?d = (Inr v, d')" by simp
      from consume_shrinks(4) [OF r this] l
      have "length (dm_buf (consume_record d')) < length (dm_buf ?d)"
        "length (dm_buf (consume_record d')) < length (dm_buf d)" by simp_all
      then show ?thesis using n Pair Inr by (simp add: drain.simps [of d] drain.simps [of ?d])
    next
      case (Inl e)
      then show ?thesis using n Pair by (simp add: drain.simps [of d] drain.simps [of ?d])
    qed
  qed
qed

lemma drain_waiting:
  assumes "waiting d" "\<not> dm_null d"
  shows "drain d = ([], Again, d)"
  using assms by (simp add: drain.simps [of d] demux_next_def dm_ptr_def parse_header_def waiting_def)

lemma feed_waiting:
  "waiting d \<Longrightarrow> \<forall>c \<in> set cs. c \<noteq> [] \<Longrightarrow> dm_buf d @ concat cs = write_header h @ body \<Longrightarrow>
    h_width h \<noteq> 0 \<Longrightarrow> h_height h \<noteq> 0 \<Longrightarrow> records body = (vs, True, r) \<Longrightarrow>
    length (write_header h @ body) < 2 ^ 64 \<Longrightarrow>
    \<exists>d'. feed d cs = (vs, Again, d') \<and> reading d' \<and> dm_buf d' = r \<and> dm_header d' = stored_header h"
proof (induction cs arbitrary: d)
  case Nil
  have "length (dm_buf d) = length (write_header h @ body)" using Nil.prems(3) by simp
  with Nil.prems(1) show ?case by (simp add: waiting_def)
next
  case (Cons c cs)
  let ?b = "dm_buf d @ c" and ?d1 = "d\<lparr>dm_buf := dm_buf d @ c, dm_null := False\<rparr>"
  have cne: "c \<noteq> []" using Cons.prems(2) by simp
  have whole: "?b @ concat cs = write_header h @ body" using Cons.prems(3) by simp
  from arg_cong [OF whole, of length] Cons.prems(7)
  have len: "length ?b + length (concat cs) < 2 ^ 64" by simp
  have a: "demux_append d (Some c) (length c) = (Ok, ?d1)"
    using Cons.prems(1) cne len append_ok [of d c] by (simp add: waiting_def)
  show ?case
  proof (cases "length ?b < kHdrSize")
    case True
    then have w: "waiting ?d1" using Cons.prems(1) by (simp add: waiting_def)
    have "dm_buf ?d1 @ concat cs = write_header h @ body" using whole by simp
    from Cons.IH [OF w _ this Cons.prems(4-7)] Cons.prems(2) obtain d' where
      "feed ?d1 cs = (vs, Again, d')" "reading d'" "dm_buf d' = r" "dm_header d' = stored_header h" by auto
    with a drain_waiting [OF w] show ?thesis by simp
  next
    case False
    define part where "part = drop kHdrSize ?b"
    have "take kHdrSize (?b @ concat cs) = write_header h" unfolding whole by simp
    then have hb: "take kHdrSize ?b = write_header h" using False by simp
    then have b: "?b = write_header h @ part" unfolding part_def by (metis append_take_drop_id)
    with whole have body: "body = part @ concat cs" by simp
    let ?d2 = "?d1\<lparr>dm_header := stored_header h, dm_have_header := True, dm_buf := part\<rparr>"
    have dr: "drain ?d1 = drain ?d2"
      using Cons.prems(1,4,5) b by (subst drain_header [where h = h and body = part]) (simp_all add: waiting_def)
    have r2: "reading ?d2" using Cons.prems(1) by (simp add: reading_def waiting_def)
    obtain ws ok r1 where p: "records part = (ws, ok, r1)" by (cases "records part")
    have ok: ok using records_bad_append [of part ws r1 "concat cs"] p Cons.prems(6) body by (cases ok) auto
    with records_append [of part ws r1 "concat cs"] p Cons.prems(6) body obtain vs' where
      v: "records (r1 @ concat cs) = (vs', True, r)" "vs = ws @ vs'" by (auto split: prod.splits)
    obtain d3 where d3: "drain ?d2 = (ws, Again, d3)" "reading d3" "dm_buf d3 = r1" "dm_header d3 = stored_header h"
      using drain_records [OF r2] p ok by auto
    have idem: "records r1 = ([], True, r1)" "length r1 \<le> length part" using records_rest [of part ws r1] p ok by simp_all
    have "length (dm_buf d3) + length (concat cs) < 2 ^ 64"
      using len idem(2) d3(3) unfolding b by simp
    from feed_reading [OF d3(2) _ _ this] d3(3) idem(1) v(1) obtain d' where
      "feed d3 cs = (vs', Again, d')" "reading d'" "dm_buf d' = r" "dm_header d' = dm_header d3" by auto
    with a dr d3 v(2) show ?thesis by simp
  qed
qed

section \<open>Properties\<close>

text \<open>
  C6. The container round trip, for any division into chunks: when the bytes of a header and of
  well-formed records arrive in non-empty pieces, cut anywhere, the demuxer hands out exactly
  those records, reports only that it needs more data, keeps the header as written (zero frame
  rates replaced by 30/1, frame count 0) and ends with an empty buffer.
\<close>

theorem demux_chunks:
  assumes "h_width h \<noteq> 0" "h_height h \<noteq> 0" "\<forall>v \<in> set vs. wf_view v" "\<forall>c \<in> set cs. c \<noteq> []"
    "concat cs = write_header h @ concat (map view_bytes vs)" "length (concat cs) < 2 ^ 64"
  shows "\<exists>d. feed new_demuxer cs = (vs, Again, d) \<and> dm_buf d = [] \<and> dm_header d = stored_header h \<and>
    \<not> dm_parse_error d"
proof -
  have w: "waiting new_demuxer" by (simp add: waiting_def new_demuxer_def kHdrSize_def)
  have "dm_buf new_demuxer @ concat cs = write_header h @ concat (map view_bytes vs)"
    using assms(5) by (simp add: new_demuxer_def)
  from feed_waiting [OF w assms(4) this assms(1,2) records_of_views [OF assms(3)]] assms(5,6)
  show ?thesis by (auto simp: reading_def)
qed

definition sample_header :: header where
  "sample_header = empty_header\<lparr>h_width := 64, h_height := 48, h_fps_num := 0\<rparr>"

definition sample_views :: "view list" where
  "sample_views = [\<lparr>v_drop = True, v_q_index = -1, v_flags = 0, v_data = []\<rparr>,
     \<lparr>v_drop = False, v_q_index = 21, v_flags = 1, v_data = [7, 8, 9]\<rparr>]"

theorem demux_chunks_witness:
  "\<exists>d. feed new_demuxer (map (\<lambda>b. [b]) (write_header sample_header @ concat (map view_bytes sample_views)))
    = (sample_views, Again, d) \<and> h_fps_num (dm_header d) = 30"
proof -
  let ?all = "write_header sample_header @ concat (map view_bytes sample_views)"
  have c: "concat (map (\<lambda>b. [b]) ?all) = ?all" by (induction ?all) simp_all
  have l: "length ?all < 2 ^ 64" by (simp add: sample_views_def view_bytes_def kHdrSize_def kRecSize_def)
  have wf: "\<forall>v \<in> set sample_views. wf_view v" by (simp add: sample_views_def wf_view_def kQindexDropped_def)
  have h: "h_width sample_header \<noteq> 0" "h_height sample_header \<noteq> 0" "h_fps_num (stored_header sample_header) = 30"
    by (simp_all add: sample_header_def empty_header_def stored_header_def)
  have ne: "\<forall>x \<in> set (map (\<lambda>b. [b]) ?all). x \<noteq> []" by auto
  from demux_chunks [OF h(1,2) wf ne c] l h(3) show ?thesis unfolding c by metis
qed

text \<open>The calls of a client on a demuxer, one after the other.\<close>

datatype dm_call = DmAppend "bytes option" nat | DmNext | DmConsume

fun dm_step :: "demuxer \<Rightarrow> dm_call \<Rightarrow> demuxer" where
  "dm_step d (DmAppend data n) = snd (demux_append d data n)"
| "dm_step d DmNext = snd (demux_next d)"
| "dm_step d DmConsume = consume_record d"

lemma dm_error_step: "dm_parse_error d \<Longrightarrow> dm_parse_error (dm_step d c)"
  by (cases c) (simp_all add: demux_append_def demux_next_def consume_record_def)

lemma dm_error_steps: "dm_parse_error d \<Longrightarrow> dm_parse_error (foldl dm_step d cs)"
  by (induction cs arbitrary: d) (simp_all add: dm_error_step)

lemma demux_next_error:
  "fst (demux_next d) = Inl (st, why) \<Longrightarrow> st \<noteq> Again \<Longrightarrow> st = Format \<and> dm_parse_error (snd (demux_next d))"
  by (auto simp: demux_next_def next_record_cases demux_fail_def Let_def split: if_splits sum.splits prod.splits)

text \<open>
  C7. A malformed stream is a permanent error. A record whose length field is zero or above 64 MiB, or
  a drop marker with a payload, makes \<open>next\<close> answer \<open>Format\<close>; and whenever \<open>next\<close> has answered anything
  but a record or \<open>Again\<close>, then after every further sequence of calls of \<open>append\<close>, \<open>next\<close> and
  \<open>consume_record\<close>, \<open>next\<close> still answers \<open>Format\<close> and \<open>append\<close> takes nothing and answers \<open>Format\<close>.
\<close>

theorem demux_error_sticky:
  "(reading d \<and> kRecSize \<le> length (dm_buf d) \<and> record_bad (dm_buf d) \<longrightarrow> fst (demux_next d) = reject Format '''') \<and>
   (\<forall>st why cs. fst (demux_next d) = Inl (st, why) \<and> st \<noteq> Again \<longrightarrow>
      st = Format \<and>
      (let d' = foldl dm_step (snd (demux_next d)) cs
       in fst (demux_next d') = reject Format '''' \<and> (\<forall>data n. demux_append d' data n = (Format, d'))))"
proof (intro conjI impI allI)
  assume "reading d \<and> kRecSize \<le> length (dm_buf d) \<and> record_bad (dm_buf d)"
  then show "fst (demux_next d) = reject Format ''''"
    by (simp add: demux_next_def reading_def next_record_cases Let_def demux_fail_def)
next
  fix st why cs
  assume "fst (demux_next d) = Inl (st, why) \<and> st \<noteq> Again"
  then have e: "st = Format" "dm_parse_error (snd (demux_next d))" using demux_next_error by blast+
  show "st = Format" by (rule e(1))
  have "dm_parse_error (foldl dm_step (snd (demux_next d)) cs)" by (rule dm_error_steps [OF e(2)])
  then show "let d' = foldl dm_step (snd (demux_next d)) cs
       in fst (demux_next d') = reject Format '''' \<and> (\<forall>data n. demux_append d' data n = (Format, d'))"
    by (simp add: Let_def demux_next_def demux_append_def)
qed

theorem demux_error_sticky_witness:
  "demux_append (foldl dm_step (snd (demux_next (new_demuxer\<lparr>dm_buf := replicate 16 0, dm_null := False, dm_have_header := True\<rparr>)))
     [DmNext, DmConsume, DmAppend (Some [2]) 1]) (Some [1]) 1 =
   (Format, foldl dm_step (snd (demux_next (new_demuxer\<lparr>dm_buf := replicate 16 0, dm_null := False, dm_have_header := True\<rparr>)))
     [DmNext, DmConsume, DmAppend (Some [2]) 1])"
proof -
  let ?d = "new_demuxer\<lparr>dm_buf := replicate 16 0, dm_null := False, dm_have_header := True\<rparr>"
  have f: "fst (demux_next ?d) = reject Format ''''"
    using demux_error_sticky [of ?d]
    by (simp add: reading_def new_demuxer_def kRecSize_def record_bad_def rd_u32_def kQindexDropped_def)
  have "let d' = foldl dm_step (snd (demux_next ?d)) [DmNext, DmConsume, DmAppend (Some [2]) 1]
      in \<forall>data n. demux_append d' data n = (Format, d')"
    using demux_error_sticky [of ?d] f unfolding Let_def by blast
  then show ?thesis unfolding Let_def by blast
qed

text \<open>
  Asked for a record before any byte has arrived, the demuxer passes the null data pointer of
  its empty vector to \<open>parse_header\<close>, which answers \<open>Format\<close> instead of \<open>Again\<close>: the demuxer is then
  in its error state and refuses the stream that follows.
\<close>

theorem demux_next_before_data:
  "fst (demux_next new_demuxer) = reject Format '''' \<and>
   fst (demux_append (snd (demux_next new_demuxer)) (Some (b # bs)) (length (b # bs))) = Format"
  by (simp add: demux_next_def new_demuxer_def dm_ptr_def parse_header_def demux_fail_def demux_append_def)

end
