(* ===== verification/Mlvc_Encoder.thy ===== *)
theory Mlvc_Encoder
  imports Mlvc_Payload Container Media_Frame
begin

text \<open>
  The encoder node of the neural codec, \<open>codecs/mlvc/src/encoder.cpp\<close>: binding a model, opening, and
  encoding one picture. The rate controller is the record of its operations (\<open>ratectl.cpp\<close> computes
  in \<open>double\<close>), on a state of any type; the network is the \<open>npu\<close> of \<open>Mlvc_Bind\<close>; \<open>em\<close> is the answer
  of the graph to the emitted frame. \<open>process\<close> is \<open>None\<close> where the entropy coder would not return.
\<close>

section \<open>State\<close>

definition kRecKeyframe :: u32 where "kRecKeyframe = 0x1"
definition kRecLtrMark :: u32 where "kRecLtrMark = 0x2"
definition kRecLtrRecovery :: u32 where "kRecLtrRecovery = 0x4"
definition kHdrProactiveLtr :: u32 where "kHdrProactiveLtr = 0x1"
definition kHdrCbr :: u32 where "kHdrCbr = 0x2"

datatype rc_frame_type = RcI | RcP | RcLtrRecovery

definition kQDrop :: int where "kQDrop = -1"

text \<open>
  \<open>create\<close> takes the size, the bit rate and the frame rate, \<open>solve\<close> the index of the picture and the frame
  rate (their quotient is the presentation time), the type of the picture and the reserved bits.
\<close>

record 'r rate_ops =
  rt_create :: "u32 \<Rightarrow> u32 \<Rightarrow> int \<Rightarrow> u32 \<Rightarrow> 'r result"
  rt_configure :: "int \<Rightarrow> 'r \<Rightarrow> 'r"
  rt_solve :: "u32 \<Rightarrow> u32 \<Rightarrow> rc_frame_type \<Rightarrow> int \<Rightarrow> 'r \<Rightarrow> int \<times> 'r"
  rt_update :: "int \<Rightarrow> int \<Rightarrow> 'r \<Rightarrow> 'r"

record 'r encoder =
  en_quality :: quality
  en_make :: npu_maker
  en_rs :: rung_set
  en_qptab :: "qp_table list"
  en_qrows :: qrows
  en_g :: rans_coder
  en_b :: rans_coder
  en_entropy :: entropy_config
  en_rans_ready :: bool
  en_qp :: int
  en_fps :: u32
  en_img_w :: u32
  en_img_h :: u32
  en_ref_c :: u32
  en_ref_h :: u32
  en_ref_w :: u32
  en_z_c :: u32
  en_z_h :: u32
  en_z_w :: u32
  en_y_c :: u32
  en_y_h :: u32
  en_y_w :: u32
  en_x_in :: int
  en_ref_in :: int
  en_feat_out :: int
  en_z_out :: int
  en_y0_out :: int
  en_y1_out :: int
  en_x_nhwc :: "u16 list"
  en_ref_prev :: "u16 list"
  en_ref_ltr :: "u16 list"
  en_ref_feed :: "u16 list"
  en_have_ltr :: bool
  en_z_r :: "int list"
  en_y0_r :: "int list"
  en_y1_r :: "int list"
  en_s0 :: "int list"
  en_s1 :: "int list"
  en_z_idx :: "int list"
  en_z_idx_qp :: int
  en_iframe_period :: u32
  en_ltr_start_idx :: u32
  en_ltr_period :: u32
  en_proactive_ltr :: bool
  en_cur_frame_idx :: u32
  en_frame_count :: u32
  en_rc :: "'r option"
  en_rc_bitrate :: int
  en_emit :: bool

definition no_coder :: rans_coder where
  "no_coder = \<lparr>variant = RansByte, symbol_bits = 0, bypass_bits = 0, bypass_max = 0, dists = [], enc_syms = [], cdf_table = []\<rparr>"

definition no_rungs :: rung_set where
  "no_rungs = \<lparr>rs_models = [], rs_rung_qp = [], rs_active = 0\<rparr>"

definition new_mlvc_encoder :: "quality \<Rightarrow> npu_maker \<Rightarrow> 'r encoder" where
  "new_mlvc_encoder ql mk =
     \<lparr>en_quality = ql, en_make = mk, en_rs = no_rungs, en_qptab = [], en_qrows = no_rows, en_g = no_coder, en_b = no_coder,
      en_entropy = no_entropy, en_rans_ready = False, en_qp = kDefaultQp, en_fps = kMlvcFps, en_img_w = 0, en_img_h = 0,
      en_ref_c = 0, en_ref_h = 0, en_ref_w = 0, en_z_c = 0, en_z_h = 0, en_z_w = 0, en_y_c = 0, en_y_h = 0, en_y_w = 0,
      en_x_in = -1, en_ref_in = -1, en_feat_out = -1, en_z_out = -1, en_y0_out = -1, en_y1_out = -1,
      en_x_nhwc = [], en_ref_prev = [], en_ref_ltr = [], en_ref_feed = [], en_have_ltr = False,
      en_z_r = [], en_y0_r = [], en_y1_r = [], en_s0 = [], en_s1 = [], en_z_idx = [], en_z_idx_qp = -1,
      en_iframe_period = 0, en_ltr_start_idx = 0, en_ltr_period = 0, en_proactive_ltr = False,
      en_cur_frame_idx = 0, en_frame_count = 0, en_rc = None, en_rc_bitrate = 0, en_emit = False\<rparr>"

section \<open>Opening and binding\<close>

definition enc_open :: "bool \<Rightarrow> 'r encoder \<Rightarrow> unit result \<times> 'r encoder" where
  "enc_open emit e =
     (if \<not> emit then (reject Invalid ''null emit'', e)
      else if \<not> en_rans_ready e then (reject Format ''opened without a bound model'', e)
      else (Inr (), e\<lparr>en_iframe_period := ql_gop_size (en_quality e),
              en_fps := (if ql_fps (en_quality e) \<noteq> 0 then ql_fps (en_quality e) else kMlvcFps),
              en_ltr_start_idx := ql_ltr_start_idx (en_quality e), en_ltr_period := ql_ltr_period (en_quality e),
              en_proactive_ltr := (ql_ltr_period (en_quality e) \<noteq> 0), en_emit := True\<rparr>))"

definition dim :: "u32 list \<Rightarrow> nat \<Rightarrow> nat" where
  "dim d i = unat (d ! i)"

definition elems :: "u32 list \<Rightarrow> nat" where
  "elems d = dim d 1 * dim d 2 * dim d 3"

text \<open>The shapes and the buffers, once the tensors have been found.\<close>

definition enc_dims :: "u32 list \<Rightarrow> u32 list \<Rightarrow> u32 list \<Rightarrow> u32 list \<Rightarrow> 'r encoder \<Rightarrow> 'r encoder" where
  "enc_dims xd rd zd yd e =
     e\<lparr>en_img_h := xd ! 1, en_img_w := xd ! 2, en_ref_h := rd ! 1, en_ref_w := rd ! 2, en_ref_c := rd ! 3,
       en_z_c := zd ! 1, en_z_h := zd ! 2, en_z_w := zd ! 3, en_y_c := yd ! 1, en_y_h := yd ! 2, en_y_w := yd ! 3\<rparr>"

definition cells :: "u32 \<Rightarrow> u32 \<Rightarrow> u32 \<Rightarrow> nat" where
  "cells c h w = unat c * unat h * unat w"

definition enc_buffers :: "'r encoder \<Rightarrow> 'r encoder" where
  "enc_buffers e =
     (let ref_n = cells (en_ref_c e) (en_ref_h e) (en_ref_w e);
          z_n = cells (en_z_c e) (en_z_h e) (en_z_w e);
          y_n = cells (en_y_c e) (en_y_h e) (en_y_w e)
      in e\<lparr>en_x_nhwc := replicate (unat (en_img_h e) * unat (en_img_w e) * 3) 0,
           en_ref_prev := replicate ref_n 0, en_ref_ltr := replicate ref_n 0, en_ref_feed := replicate ref_n 0,
           en_z_r := replicate z_n 0, en_y0_r := replicate y_n 0, en_y1_r := replicate y_n 0, en_s0 := replicate y_n 0,
           en_s1 := replicate y_n 0, en_z_idx := replicate z_n 0, en_z_idx_qp := -1\<rparr>)"

definition enc_entropy :: "'r encoder \<Rightarrow> unit result \<times> 'r encoder" where
  "enc_entropy e =
     (case resolve_entropy_geometry (en_entropy e) (en_qp e) (sint (en_z_c e)) (sint (en_z_h e)) (sint (en_z_w e))
             (sint (en_y_c e)) (sint (en_y_h e)) (sint (en_y_w e)) of
        (Inl (st, _), ent) \<Rightarrow> (reject st ''entropy geometry mismatch'', e\<lparr>en_entropy := ent\<rparr>)
      | (Inr _, ent) \<Rightarrow> (Inr (), enc_buffers (e\<lparr>en_entropy := ent\<rparr>)))"

definition enc_geometry :: "tensor_info list \<Rightarrow> tensor_info list \<Rightarrow> 'r encoder \<Rightarrow> unit result \<times> 'r encoder" where
  "enc_geometry ins outs e =
     (let xd = ti_dims (ins ! nat (en_x_in e)); rd = ti_dims (ins ! nat (en_ref_in e));
          zd = ti_dims (outs ! nat (en_z_out e)); yd = ti_dims (outs ! nat (en_y0_out e));
          fd = ti_dims (outs ! nat (en_feat_out e))
      in if length xd \<noteq> 4 \<or> length rd \<noteq> 4 \<or> length zd \<noteq> 4 \<or> length yd \<noteq> 4 \<or> length fd \<noteq> 4
         then (reject Format ''tensor rank mismatch'', e)
         else let e = enc_dims xd rd zd yd e
           in if en_img_w e = 0 \<or> en_img_h e = 0 \<or> elems fd \<noteq> elems rd
              then (reject Format ''tensor shape mismatch'', e) else enc_entropy e)"

definition enc_find :: "tensor_info list \<Rightarrow> tensor_info list \<Rightarrow> 'r encoder \<Rightarrow> 'r encoder" where
  "enc_find ins outs e =
     e\<lparr>en_x_in := (if find_input ins ''x'' < 0 then find_input ins ''New_input_x'' else find_input ins ''x''),
       en_ref_in := find_input ins ''ref_feature'', en_feat_out := find_input outs ''feature'',
       en_z_out := find_input outs ''z_raw'', en_y0_out := find_input outs ''y_raw_0'', en_y1_out := find_input outs ''y_raw_1''\<rparr>"

definition enc_tensors :: "'r encoder \<Rightarrow> unit result \<times> 'r encoder" where
  "enc_tensors e =
     (let n = rs_models (en_rs e) ! rs_active (en_rs e);
          e = enc_find (np_inputs n) (np_outputs n) e
      in if en_x_in e < 0 \<or> en_ref_in e < 0 \<or> en_feat_out e < 0 \<or> en_z_out e < 0 \<or> en_y0_out e < 0 \<or> en_y1_out e < 0
         then (reject Format ''tensor contract mismatch'', e)
         else enc_geometry (np_inputs n) (np_outputs n) e)"

definition enc_bind_rungs :: "model \<Rightarrow> 'r encoder \<Rightarrow> unit result \<times> 'r encoder" where
  "enc_bind_rungs m e =
     (case collect_rungs m (en_qp e) of
        Inl (st, _) \<Rightarrow> (reject st ''session qp missing from rung set'', e)
      | Inr rungs \<Rightarrow>
          (case init_rungs m rungs (en_make e) of
             (Inl (st, _), rs) \<Rightarrow> (reject st ''NPU init failed'', e\<lparr>en_rs := rs\<rparr>)
           | (Inr _, rs) \<Rightarrow>
               let e = e\<lparr>en_rs := rs\<rparr>
               in case setup_qrows m (rs_models rs ! rs_active rs) (en_qptab e) of
                    (Inl (st, _), tab, qr) \<Rightarrow> (reject st ''qptab setup failed'', e\<lparr>en_qptab := tab, en_qrows := qr\<rparr>)
                  | (Inr _, tab, qr) \<Rightarrow>
                      let e = e\<lparr>en_qptab := tab, en_qrows := qr\<rparr>
                      in if qr_present qr \<and> length (rs_rung_qp rs) \<noteq> 1
                         then (reject Format ''qp-dynamic forbids qppatch rungs'', e)
                         else enc_tensors e))"

definition enc_bind_model :: "model \<Rightarrow> 'r encoder \<Rightarrow> unit result \<times> 'r encoder" where
  "enc_bind_model m e =
     (if md_role m \<noteq> ''encoder'' then (reject Format ''model role is not encoder'', e)
      else let e = e\<lparr>en_qp := (if ql_qp (en_quality e) \<ge> 0 then ql_qp (en_quality e) else kDefaultQp)\<rparr>
        in if en_qp e > 63 then (reject Invalid ''mlvc qp out of range'', e)
           else case init_rans_coders m (en_entropy e) of
                  Inl (st, _) \<Rightarrow> (reject st ''PMF/rANS init failed'', e)
                | Inr (g, b, cfg) \<Rightarrow>
                    enc_bind_rungs m (e\<lparr>en_g := g, en_b := b, en_entropy := cfg, en_rans_ready := True\<rparr>))"

section \<open>One picture\<close>

text \<open>Bit rate and group of pictures asked for with this picture.\<close>

definition enc_retune :: "'r rate_ops \<Rightarrow> encode_control \<Rightarrow> 'r encoder \<Rightarrow> unit result \<times> 'r encoder" where
  "enc_retune rt ctl e =
     (let gop = (\<lambda>e. if ec_gop_size ctl > 0 then e\<lparr>en_iframe_period := ec_gop_size ctl\<rparr> else e);
          keep = (\<lambda>rc. (Inr (), gop (e\<lparr>en_rc := Some rc, en_rc_bitrate := ec_bitrate_bps ctl\<rparr>)))
      in if ec_bitrate_bps ctl > 0 \<and> ec_bitrate_bps ctl \<noteq> en_rc_bitrate e
         then (case en_rc e of
                 None \<Rightarrow> (case rt_create rt (en_img_w e) (en_img_h e) (ec_bitrate_bps ctl) (en_fps e) of
                            Inl (st, _) \<Rightarrow> (reject st ''rate controller init failed'', e)
                          | Inr rc \<Rightarrow> keep rc)
               | Some rc \<Rightarrow> keep (rt_configure rt (ec_bitrate_bps ctl) rc))
         else (Inr (), gop e))"

record picture_kind =
  pk_idr :: bool
  pk_mark_ltr :: bool
  pk_recovery :: bool

definition picture_kind_of :: "bool \<Rightarrow> 'r encoder \<Rightarrow> picture_kind" where
  "picture_kind_of force_idr e =
     (let cur = en_cur_frame_idx e;
          idr = (en_frame_count e = 0 \<or> force_idr \<or> (en_iframe_period e \<noteq> 0 \<and> cur > 0 \<and> cur mod en_iframe_period e = 0));
          mark = (\<not> idr \<and> en_ltr_period e \<noteq> 0 \<and>
                  (cur = en_ltr_start_idx e \<or> (cur > en_ltr_start_idx e \<and> cur mod en_ltr_period e = 0)))
      in \<lparr>pk_idr = idr, pk_mark_ltr = mark, pk_recovery = (en_proactive_ltr e \<and> mark \<and> en_have_ltr e)\<rparr>)"

definition rec_flags :: "picture_kind \<Rightarrow> u32" where
  "rec_flags k = (if pk_idr k then kRecKeyframe else 0) OR (if pk_mark_ltr k then kRecLtrMark else 0) OR
     (if pk_recovery k then kRecLtrRecovery else 0)"

definition rc_type :: "picture_kind \<Rightarrow> rc_frame_type" where
  "rc_type k = (if pk_idr k then RcI else if pk_recovery k then RcLtrRecovery else RcP)"

text \<open>The quantiser of the picture, \<open>None\<close> for a drop.\<close>

definition enc_solve :: "'r rate_ops \<Rightarrow> picture_kind \<Rightarrow> 'r encoder \<Rightarrow> int option \<times> 'r encoder" where
  "enc_solve rt k e =
     (case en_rc e of
        None \<Rightarrow> (Some (en_qp e), e)
      | Some rc \<Rightarrow>
          (case rt_solve rt (en_frame_count e) (en_fps e) (rc_type k) (int kRecSize * 8) rc of
             (solved, rc') \<Rightarrow>
               let e = e\<lparr>en_rc := Some rc'\<rparr>
               in if solved = kQDrop
                  then if rc_type k = RcP \<and> \<not> pk_mark_ltr k then (None, e) else (Some 0, e)
                  else (Some solved, e)))"

text \<open>The output frame around a record, and what the node does when it is emitted.\<close>

definition record_frame :: "bytes \<Rightarrow> frame \<Rightarrow> frame result" where
  "record_frame rec input =
     map_sum id (\<lambda>f. f\<lparr>f_pts := f_pts input, f_dts := f_pts input\<rparr>)
       (borrow_host True (default_spec\<lparr>s_fmt := Bitstream\<rparr>) (Some rec) (length rec))"

definition enc_drop :: "status \<Rightarrow> frame \<Rightarrow> 'r encoder \<Rightarrow> unit result \<times> frame list \<times> 'r encoder" where
  "enc_drop em input e =
     (case record_frame (write_record 0 kQindexDropped 0) input of
        Inl (st, _) \<Rightarrow> (reject st ''drop frame alloc failed'', [], e)
      | Inr f \<Rightarrow>
          (if em = Ok then Inr () else reject em '''', [f],
           e\<lparr>en_frame_count := en_frame_count e + 1, en_cur_frame_idx := en_cur_frame_idx e + 1\<rparr>))"

definition enc_select :: "int \<Rightarrow> 'r encoder \<Rightarrow> int \<times> 'r encoder" where
  "enc_select q e =
     (let rs = en_rs e;
          active = (if qr_present (en_qrows e) then rs_active rs else nearest_rung (rs_rung_qp rs) q);
          uqp = (if qr_present (en_qrows e) then q else rs_rung_qp rs ! active);
          e = e\<lparr>en_rs := rs\<lparr>rs_active := active\<rparr>\<rparr>
      in (uqp, if en_z_idx_qp e = uqp then e
                else e\<lparr>en_z_idx := build_z_idx uqp (unat (en_z_c e)) (unat (en_z_h e)) (unat (en_z_w e)), en_z_idx_qp := uqp\<rparr>))"

definition enc_clear_refs :: "bool \<Rightarrow> 'r encoder \<Rightarrow> 'r encoder" where
  "enc_clear_refs idr e =
     (if idr then e\<lparr>en_ref_prev := replicate (length (en_ref_prev e)) 0, en_ref_ltr := replicate (length (en_ref_ltr e)) 0,
                    en_have_ltr := False\<rparr>
      else e)"

text \<open>Setting inputs in turn stops at the first failure.\<close>

fun npu_sets :: "(nat \<times> u16 list) list \<Rightarrow> npu \<Rightarrow> status \<times> npu" where
  "npu_sets [] n = (Ok, n)"
| "npu_sets ((i, v) # ivs) n =
     (case npu_set i v n of (st, n') \<Rightarrow> if st = Ok then npu_sets ivs n' else (st, n'))"

definition row_inputs :: "qrows \<Rightarrow> int \<Rightarrow> (nat \<times> u16 list) list" where
  "row_inputs qr q = map (\<lambda>(i, t). (i, case qptab_row t (word_of_int q) of None \<Rightarrow> [] | Some r \<Rightarrow> take (unat (qt_cols t)) r)) (qr_rows qr)"

definition set_active :: "npu \<Rightarrow> rung_set \<Rightarrow> rung_set" where
  "set_active n rs = rs\<lparr>rs_models := (rs_models rs)[rs_active rs := n]\<rparr>"

text \<open>The picture and the reference go to the network, which runs.\<close>

definition enc_run :: "bytes \<Rightarrow> spec \<Rightarrow> bool \<Rightarrow> int \<Rightarrow> 'r encoder \<Rightarrow> (nat \<Rightarrow> u16 list) result \<times> 'r encoder" where
  "enc_run base sp recovery uqp e =
     (let stride = unat (if s_stride sp \<noteq> 0 then s_stride sp else s_width sp);
          vstride = unat (if s_ver_stride sp \<noteq> 0 then s_ver_stride sp else s_height sp);
          uv = stride * vstride;
          x = yuv_to_nhwc_fp16 base 0 stride uv (uv + 1) stride True (unat (en_img_w e)) (unat (en_img_h e)) (en_x_nhwc e);
          ref = (if recovery \<and> en_have_ltr e then en_ref_ltr e else en_ref_prev e);
          feed = nchw_f16_to_nhwc ref (en_ref_feed e) (nat (sint (en_ref_c e))) (nat (sint (en_ref_h e))) (nat (sint (en_ref_w e)));
          e = e\<lparr>en_x_nhwc := x, en_ref_feed := feed\<rparr>
      in case npu_sets ([(nat (en_x_in e), x), (nat (en_ref_in e), feed)] @ row_inputs (en_qrows e) uqp)
                (rs_models (en_rs e) ! rs_active (en_rs e)) of
           (st, n) \<Rightarrow>
             let e = e\<lparr>en_rs := set_active n (en_rs e)\<rparr>
             in if st \<noteq> Ok then (reject st ''NPU run failed'', e)
                else case npu_run n of (st, out) \<Rightarrow> if st \<noteq> Ok then (reject st ''NPU run failed'', e) else (Inr out, e))"

text \<open>\<open>lrintf\<close> of finite tensors.\<close>

definition round_all :: "nat \<Rightarrow> u16 list \<Rightarrow> int list" where
  "round_all n t = map (\<lambda>i. the (half_to_int (t ! i))) [0..<n]"

definition enc_latents :: "(nat \<Rightarrow> u16 list) \<Rightarrow> bool \<Rightarrow> 'r encoder \<Rightarrow> unit result \<times> 'r encoder" where
  "enc_latents out mark e =
     (let oz = out (nat (en_z_out e)); o0 = out (nat (en_y0_out e)); o1 = out (nat (en_y1_out e)); feat = out (nat (en_feat_out e));
          z_n = length (en_z_r e); y_n = length (en_y0_r e)
      in if length oz < z_n \<or> length o0 < y_n \<or> length o1 < y_n \<or> length feat \<noteq> length (en_ref_prev e) \<or>
            \<not> all_finite oz \<or> \<not> all_finite o0 \<or> \<not> all_finite o1 \<or> \<not> all_finite feat
         then (reject Hw ''bad NPU outputs'', e)
         else let e = e\<lparr>en_z_r := round_all z_n oz, en_y0_r := round_all y_n o0, en_y1_r := round_all y_n o1, en_ref_prev := feat\<rparr>
              in (Inr (), if mark then e\<lparr>en_ref_ltr := feat, en_have_ltr := True\<rparr> else e))"

definition enc_payload :: "bool \<Rightarrow> 'r encoder \<Rightarrow> (bytes result \<times> 'r encoder) option" where
  "enc_payload neon e =
     (case extract_scales neon (Some (en_z_r e)) (Some (en_s0 e)) (Some (en_s1 e)) (sint (en_y_c e)) (sint (en_y_h e)) (sint (en_y_w e))
             (sint (en_z_c e)) (sint (en_z_h e)) (sint (en_z_w e)) (ec_channel_repeat (en_entropy e))
             (ec_spatial_repeat (en_entropy e)) (ec_scale_max_index (en_entropy e)) of
        (st, s0, s1) \<Rightarrow>
          let e = e\<lparr>en_s0 := the s0, en_s1 := the s1\<rparr>
          in if st \<noteq> Ok then Some (reject st ''scale extraction mismatch'', e)
             else do { r \<leftarrow> encode_payload (en_g e) (en_b e) (en_s1 e) (en_y1_r e) (en_s0 e) (en_y0_r e) (en_z_idx e) (en_z_r e);
                       Some (r, e) })"

definition enc_header :: "'r encoder \<Rightarrow> header" where
  "enc_header e = empty_header\<lparr>h_width := en_img_w e, h_height := en_img_h e, h_fps_num := en_fps e, h_fps_den := 1,
     h_qp := word_of_int (en_qp e), h_iframe_period := en_iframe_period e, h_ltr_start_idx := en_ltr_start_idx e,
     h_ltr_period := en_ltr_period e,
     h_flags := (if en_proactive_ltr e \<and> en_ltr_period e \<noteq> 0 then kHdrProactiveLtr else 0) OR (if en_rc e \<noteq> None then kHdrCbr else 0),
     h_target_bitrate_bps := word_of_int (if en_rc_bitrate e > 0 then en_rc_bitrate e else 0)\<rparr>"

definition enc_packet :: "bytes \<Rightarrow> int \<Rightarrow> u32 \<Rightarrow> 'r encoder \<Rightarrow> bytes" where
  "enc_packet bits uqp flags e =
     (if en_frame_count e = 0 then write_header (enc_header e) else []) @ write_record (of_nat (length bits)) uqp flags @ bits"

definition enc_emit :: "'r rate_ops \<Rightarrow> status \<Rightarrow> frame \<Rightarrow> bytes \<Rightarrow> int \<Rightarrow> picture_kind \<Rightarrow> 'r encoder \<Rightarrow> unit result \<times> frame list \<times> 'r encoder" where
  "enc_emit rt em input bits uqp k e =
     (let rec = enc_packet bits uqp (rec_flags k) e;
          e = e\<lparr>en_rc := map_option (rt_update rt (int (length rec - length bits) * 8) (int (length bits) * 8)) (en_rc e)\<rparr>
      in case record_frame rec input of
           Inl (st, _) \<Rightarrow> (reject st ''output frame alloc failed'', [], e)
         | Inr f \<Rightarrow>
             (if em = Ok then Inr () else reject em '''', [if pk_idr k then f\<lparr>f_flags := kFlagKeyframe\<rparr> else f],
              e\<lparr>en_frame_count := en_frame_count e + 1, en_cur_frame_idx := (if pk_idr k then 1 else en_cur_frame_idx e + 1)\<rparr>))"

text \<open>The rest of \<open>process\<close> after the quantiser has been chosen.\<close>

definition enc_code :: "'r rate_ops \<Rightarrow> bool \<Rightarrow> status \<Rightarrow> frame \<Rightarrow> picture_kind \<Rightarrow> int \<Rightarrow> 'r encoder \<Rightarrow> (unit result \<times> frame list \<times> 'r encoder) option" where
  "enc_code rt neon em input k q e =
     (case enc_select q e of
        (uqp, e) \<Rightarrow>
          (case enc_run (the (f_data input)) (f_spec input) (pk_recovery k) uqp (enc_clear_refs (pk_idr k) e) of
             (Inl er, e) \<Rightarrow> Some (Inl er, [], e)
           | (Inr out, e) \<Rightarrow>
               (case enc_latents out (pk_mark_ltr k) e of
                  (Inl er, e) \<Rightarrow> Some (Inl er, [], e)
                | (Inr _, e) \<Rightarrow>
                    do { (r, e) \<leftarrow> enc_payload neon e;
                         Some (case r of Inl er \<Rightarrow> (Inl er, [], e) | Inr bits \<Rightarrow> enc_emit rt em input bits uqp k e) })))"

definition enc_process :: "'r rate_ops \<Rightarrow> bool \<Rightarrow> status \<Rightarrow> frame option \<Rightarrow> 'r encoder \<Rightarrow> (unit result \<times> frame list \<times> 'r encoder) option" where
  "enc_process rt neon em input e =
     (case input of
        None \<Rightarrow> Some (reject Format ''NV12 host input only'', [], e)
      | Some f \<Rightarrow>
          if s_fmt (f_spec f) \<noteq> Nv12 \<or> s_domain (f_spec f) \<noteq> Host \<or> f_data f = None
          then Some (reject Format ''NV12 host input only'', [], e)
          else if s_width (f_spec f) \<noteq> en_img_w e \<or> s_height (f_spec f) \<noteq> en_img_h e
          then Some (reject Format ''geometry mismatch'', [], e)
          else case enc_retune rt (f_encode f) e of
                 (Inl er, e) \<Rightarrow> Some (Inl er, [], e)
               | (Inr _, e) \<Rightarrow>
                   let k = picture_kind_of (ec_force_idr (f_encode f)) e
                   in (case enc_solve rt k e of
                         (None, e) \<Rightarrow> Some (enc_drop em f e)
                       | (Some q, e) \<Rightarrow> enc_code rt neon em f k q e))"

definition enc_flush :: "'r encoder \<Rightarrow> unit result \<times> 'r encoder" where
  "enc_flush e = (Inr (), e)"

definition enc_close :: "'r encoder \<Rightarrow> 'r encoder" where
  "enc_close e = e\<lparr>en_rs := (en_rs e)\<lparr>rs_models := []\<rparr>\<rparr>"

end
