(* ===== verification/Mlvc_Decoder.thy ===== *)
theory Mlvc_Decoder
  imports Mlvc_Encoder
begin

text \<open>
  The decoder node of the neural codec, \<open>codecs/mlvc/src/decoder.cpp\<close>: the model is bound at once and its
  contexts are made when the header has arrived; \<open>process\<close> takes records out of the demuxer of
  \<open>Container\<close> until it has none. \<open>ans k\<close> is the answer of the graph to the \<open>k\<close>-th frame that one call
  emits. A byte the code leaves uninitialised in an output picture is an unspecified value (\<open>the None\<close>).
\<close>

section \<open>State\<close>

record decoder =
  dc_make :: npu_maker
  dc_rs :: rung_set
  dc_qptab :: "qp_table list"
  dc_qrows :: qrows
  dc_g :: rans_coder
  dc_b :: rans_coder
  dc_entropy :: entropy_config
  dc_rans_ready :: bool
  dc_model :: "model option"
  dc_qp :: int
  dc_model_ready :: bool
  dc_img_w :: u32
  dc_img_h :: u32
  dc_ref_c :: u32
  dc_ref_h :: u32
  dc_ref_w :: u32
  dc_z_c :: u32
  dc_z_h :: u32
  dc_z_w :: u32
  dc_y_c :: u32
  dc_y_h :: u32
  dc_y_w :: u32
  dc_z_in :: int
  dc_y0_in :: int
  dc_y1_in :: int
  dc_ref_in :: int
  dc_x_out :: int
  dc_ref_out :: int
  dc_x_d2s_bs :: nat
  dc_x_pre_c :: u32
  dc_x_pre_h :: u32
  dc_x_pre_w :: u32
  dc_demux :: demuxer
  dc_ref_prev :: "u16 list"
  dc_ref_ltr :: "u16 list"
  dc_ref_feed :: "u16 list"
  dc_have_ltr :: bool
  dc_z_d :: "int list"
  dc_y0_d :: "int list"
  dc_y1_d :: "int list"
  dc_s0 :: "int list"
  dc_s1 :: "int list"
  dc_z_idx :: "int list"
  dc_z_idx_qp :: int
  dc_z_f16 :: "u16 list"
  dc_y0_f16 :: "u16 list"
  dc_y1_f16 :: "u16 list"
  dc_last_nv12 :: bytes
  dc_have_last_frame :: bool
  dc_frame_count :: u32
  dc_emit :: bool

definition new_mlvc_decoder :: "npu_maker \<Rightarrow> decoder" where
  "new_mlvc_decoder mk =
     \<lparr>dc_make = mk, dc_rs = no_rungs, dc_qptab = [], dc_qrows = no_rows, dc_g = no_coder, dc_b = no_coder,
      dc_entropy = no_entropy, dc_rans_ready = False, dc_model = None, dc_qp = kDefaultQp, dc_model_ready = False,
      dc_img_w = 0, dc_img_h = 0, dc_ref_c = 0, dc_ref_h = 0, dc_ref_w = 0, dc_z_c = 0, dc_z_h = 0, dc_z_w = 0,
      dc_y_c = 0, dc_y_h = 0, dc_y_w = 0, dc_z_in = -1, dc_y0_in = -1, dc_y1_in = -1, dc_ref_in = -1, dc_x_out = -1,
      dc_ref_out = -1, dc_x_d2s_bs = 0, dc_x_pre_c = 0, dc_x_pre_h = 0, dc_x_pre_w = 0, dc_demux = new_demuxer,
      dc_ref_prev = [], dc_ref_ltr = [], dc_ref_feed = [], dc_have_ltr = False, dc_z_d = [], dc_y0_d = [], dc_y1_d = [],
      dc_s0 = [], dc_s1 = [], dc_z_idx = [], dc_z_idx_qp = -1, dc_z_f16 = [], dc_y0_f16 = [], dc_y1_f16 = [],
      dc_last_nv12 = [], dc_have_last_frame = False, dc_frame_count = 0, dc_emit = False\<rparr>"

section \<open>Opening and binding\<close>

definition dec_open :: "bool \<Rightarrow> decoder \<Rightarrow> unit result \<times> decoder" where
  "dec_open emit d =
     (if \<not> emit then (reject Invalid ''null emit'', d)
      else if \<not> dc_rans_ready d \<or> dc_model d = None then (reject Format ''opened without a bound model'', d)
      else (Inr (), d\<lparr>dc_emit := True\<rparr>))"

definition dec_bind_model :: "model \<Rightarrow> decoder \<Rightarrow> unit result \<times> decoder" where
  "dec_bind_model m d =
     (if md_role m \<noteq> ''decoder'' then (reject Format ''model role is not decoder'', d)
      else case init_rans_coders m (dc_entropy d) of
             Inl (st, _) \<Rightarrow> (reject st ''PMF/rANS init failed'', d)
           | Inr (g, b, cfg) \<Rightarrow>
               (Inr (), d\<lparr>dc_g := g, dc_b := b, dc_entropy := cfg, dc_rans_ready := True, dc_model := Some m\<rparr>))"

text \<open>The factor of a depth-to-space tail with \<open>3 * t\<close> channels: the root of \<open>t\<close> when it is a square above one.\<close>

function bs_loop :: "nat \<Rightarrow> nat \<Rightarrow> nat \<Rightarrow> nat" where
  "bs_loop t b bs = (if b * b \<le> t then bs_loop t (b + 1) (if b * b = t then b else bs) else bs)"
  by pat_completeness auto
termination
proof (relation "measure (\<lambda>(t, b, bs). t + 1 - b)")
  fix t b bs :: nat assume "b * b \<le> t"
  moreover have "b \<le> b * b" by simp
  ultimately have "b \<le> t" by (rule order_trans [rotated])
  then show "((t, b + 1, if b * b = t then b else bs), t, b, bs) \<in> measure (\<lambda>(t, b, bs). t + 1 - b)" by simp
qed simp

declare bs_loop.simps [simp del]

definition dec_image :: "u32 list \<Rightarrow> decoder \<Rightarrow> unit result \<times> decoder" where
  "dec_image xd d =
     (if xd ! 1 = 3 then (Inr (), d\<lparr>dc_x_d2s_bs := 0, dc_img_h := xd ! 2, dc_img_w := xd ! 3\<rparr>)
      else let C = xd ! 1; H = xd ! 2; W = xd ! 3
        in if C < 3 * 2 * 2 \<or> C mod 3 \<noteq> 0 \<or> H = 0 \<or> W = 0 then (reject Format ''bad tail tensor shape'', d)
           else let bs = bs_loop (unat (C div 3)) 2 0
             in if bs = 0 then (reject Format ''tail channels not 3*bs*bs'', d)
                else (Inr (), d\<lparr>dc_x_d2s_bs := bs, dc_x_pre_c := C, dc_x_pre_h := H, dc_x_pre_w := W,
                        dc_img_h := H * of_nat bs, dc_img_w := W * of_nat bs\<rparr>))"

text \<open>The tensors by name, then their shapes; the picture is NHWC on input, NCHW on output.\<close>

definition dec_find :: "tensor_info list \<Rightarrow> tensor_info list \<Rightarrow> decoder \<Rightarrow> decoder" where
  "dec_find ins outs d =
     d\<lparr>dc_z_in := find_input ins ''z_raw'', dc_y0_in := find_input ins ''y_raw_0'', dc_y1_in := find_input ins ''y_raw_1'',
       dc_ref_in := find_input ins ''ref_feature'', dc_x_out := find_input outs ''x_hat'', dc_ref_out := find_input outs ''feature''\<rparr>"

definition dec_dims :: "u32 list \<Rightarrow> u32 list \<Rightarrow> u32 list \<Rightarrow> decoder \<Rightarrow> decoder" where
  "dec_dims zd yd rd d =
     d\<lparr>dc_z_c := zd ! 3, dc_z_h := zd ! 1, dc_z_w := zd ! 2, dc_y_c := yd ! 3, dc_y_h := yd ! 1, dc_y_w := yd ! 2,
       dc_ref_h := rd ! 1, dc_ref_w := rd ! 2, dc_ref_c := rd ! 3\<rparr>"

definition dec_shapes :: "u32 list \<Rightarrow> u32 list \<Rightarrow> u32 list \<Rightarrow> u32 list \<Rightarrow> u32 list \<Rightarrow> decoder \<Rightarrow> unit result \<times> decoder" where
  "dec_shapes zd yd rd xd fd d =
     (if length zd \<noteq> 4 \<or> length yd \<noteq> 4 \<or> length rd \<noteq> 4 \<or> length xd \<noteq> 4 \<or> length fd \<noteq> 4
      then (reject Format ''tensor rank mismatch'', d)
      else case dec_image xd d of
             (Inl er, d) \<Rightarrow> (Inl er, d)
           | (Inr _, d) \<Rightarrow>
               let d = dec_dims zd yd rd d
               in if dc_img_w d = 0 \<or> dc_img_h d = 0 \<or> elems fd \<noteq> elems rd
                  then (reject Format ''tensor shape mismatch'', d) else (Inr (), d))"

definition resolve_dec_geom :: "decoder \<Rightarrow> unit result \<times> decoder" where
  "resolve_dec_geom d =
     (let n = rs_models (dc_rs d) ! rs_active (dc_rs d);
          ins = np_inputs n; outs = np_outputs n;
          d = dec_find ins outs d
      in if dc_z_in d < 0 \<or> dc_y0_in d < 0 \<or> dc_y1_in d < 0 \<or> dc_ref_in d < 0 \<or> dc_x_out d < 0 \<or> dc_ref_out d < 0
         then (reject Format ''tensor contract mismatch'', d)
         else dec_shapes (ti_dims (ins ! nat (dc_z_in d))) (ti_dims (ins ! nat (dc_y0_in d))) (ti_dims (ins ! nat (dc_ref_in d)))
                (ti_dims (outs ! nat (dc_x_out d))) (ti_dims (outs ! nat (dc_ref_out d))) d)"

definition dec_buffers :: "decoder \<Rightarrow> decoder" where
  "dec_buffers d =
     (let ref_n = cells (dc_ref_c d) (dc_ref_h d) (dc_ref_w d);
          z_n = cells (dc_z_c d) (dc_z_h d) (dc_z_w d);
          y_n = cells (dc_y_c d) (dc_y_h d) (dc_y_w d)
      in d\<lparr>dc_ref_prev := replicate ref_n 0, dc_ref_ltr := replicate ref_n 0, dc_ref_feed := replicate ref_n 0,
           dc_z_d := replicate z_n 0, dc_y0_d := replicate y_n 0, dc_y1_d := replicate y_n 0, dc_s0 := replicate y_n 0,
           dc_s1 := replicate y_n 0, dc_z_idx := replicate z_n 0, dc_z_f16 := replicate z_n 0, dc_y0_f16 := replicate y_n 0,
           dc_y1_f16 := replicate y_n 0, dc_z_idx_qp := -1\<rparr>)"

text \<open>The rest of \<open>lazy_init\<close> once the contexts exist.\<close>

definition lazy_geometry :: "decoder \<Rightarrow> unit result \<times> decoder" where
  "lazy_geometry d =
     (case resolve_dec_geom d of
        (Inl er, d) \<Rightarrow> (Inl er, d)
      | (Inr _, d) \<Rightarrow>
          (case resolve_entropy_geometry (dc_entropy d) (dc_qp d) (sint (dc_z_c d)) (sint (dc_z_h d)) (sint (dc_z_w d))
                  (sint (dc_y_c d)) (sint (dc_y_h d)) (sint (dc_y_w d)) of
             (Inl er, ent) \<Rightarrow> (Inl er, d\<lparr>dc_entropy := ent\<rparr>)
           | (Inr _, ent) \<Rightarrow> (Inr (), dec_buffers (d\<lparr>dc_entropy := ent\<rparr>))))"

definition lazy_init :: "decoder \<Rightarrow> unit result \<times> decoder" where
  "lazy_init d =
     (let m = the (dc_model d)
      in case collect_rungs m (dc_qp d) of
           Inl er \<Rightarrow> (Inl er, d)
         | Inr rungs \<Rightarrow>
             (case init_rungs m rungs (dc_make d) of
                (Inl er, rs) \<Rightarrow> (Inl er, d\<lparr>dc_rs := rs\<rparr>)
              | (Inr _, rs) \<Rightarrow>
                  (case setup_qrows m (rs_models rs ! rs_active rs) (dc_qptab d) of
                     (Inl er, tab, qr) \<Rightarrow> (Inl er, d\<lparr>dc_rs := rs, dc_qptab := tab, dc_qrows := qr\<rparr>)
                   | (Inr _, tab, qr) \<Rightarrow>
                       let d = d\<lparr>dc_rs := rs, dc_qptab := tab, dc_qrows := qr\<rparr>
                       in if qr_present qr \<and> length (rs_rung_qp rs) \<noteq> 1
                          then (reject Format ''qp-dynamic forbids rungs'', d)
                          else lazy_geometry (d\<lparr>dc_model_ready := True\<rparr>))))"

text \<open>None of this touches the demuxer.\<close>

lemma dec_parts_keep [simp]:
  "dc_demux (dec_find ins outs d) = dc_demux d" "dc_model_ready (dec_find ins outs d) = dc_model_ready d"
  "dc_demux (dec_dims zd yd rd d) = dc_demux d" "dc_model_ready (dec_dims zd yd rd d) = dc_model_ready d"
  "dc_demux (dec_buffers d) = dc_demux d" "dc_model_ready (dec_buffers d) = dc_model_ready d"
  by (simp_all add: dec_find_def dec_dims_def dec_buffers_def Let_def)

lemma dec_image_keeps: "dec_image xd d = (r, d') \<Longrightarrow> dc_demux d' = dc_demux d \<and> dc_model_ready d' = dc_model_ready d"
  by (auto simp: dec_image_def Let_def split: if_splits)

lemma dec_shapes_keeps: "dec_shapes zd yd rd xd fd d = (r, d') \<Longrightarrow> dc_demux d' = dc_demux d \<and> dc_model_ready d' = dc_model_ready d"
  unfolding dec_shapes_def Let_def
  by (auto split: if_splits sum.splits prod.splits dest!: dec_image_keeps)

lemma resolve_dec_geom_keeps:
  "resolve_dec_geom d = (r, d') \<Longrightarrow> dc_demux d' = dc_demux d \<and> dc_model_ready d' = dc_model_ready d"
  unfolding resolve_dec_geom_def Let_def by (auto split: if_splits dest!: dec_shapes_keeps)

lemma lazy_geometry_keeps:
  "lazy_geometry d = (r, d') \<Longrightarrow> dc_demux d' = dc_demux d \<and> dc_model_ready d' = dc_model_ready d"
  unfolding lazy_geometry_def by (auto split: sum.splits prod.splits dest!: resolve_dec_geom_keeps)

lemma lazy_init_keeps: "lazy_init d = (Inr u, d') \<Longrightarrow> dc_demux d' = dc_demux d \<and> dc_model_ready d'"
  unfolding lazy_init_def Let_def by (auto split: if_splits sum.splits prod.splits dest!: lazy_geometry_keeps)

section \<open>One record\<close>

text \<open>The last rung with the quantiser, as the loop without a \<open>break\<close> finds it.\<close>

definition rung_of :: "int list \<Rightarrow> int \<Rightarrow> int" where
  "rung_of rungs q = foldl (\<lambda>found i. if rungs ! i = q then int i else found) (-1) [0..<length rungs]"

definition dec_index :: "int \<Rightarrow> decoder \<Rightarrow> decoder" where
  "dec_index q d =
     (let z_qp = (if qr_present (dc_qrows d) then q else rs_rung_qp (dc_rs d) ! rs_active (dc_rs d))
      in if dc_z_idx_qp d = z_qp then d
         else d\<lparr>dc_z_idx := build_z_idx z_qp (unat (dc_z_c d)) (unat (dc_z_h d)) (unat (dc_z_w d)), dc_z_idx_qp := z_qp\<rparr>)"

definition dec_select :: "int \<Rightarrow> decoder \<Rightarrow> unit result \<times> decoder" where
  "dec_select q d =
     (let rs = dc_rs d
      in if qr_present (dc_qrows d)
         then (let d = d\<lparr>dc_rs := rs\<lparr>rs_active := 0\<rparr>\<rparr>
               in if list_ex (\<lambda>(i, t). q < 0 \<or> q \<ge> uint (qt_rows t)) (qr_rows (dc_qrows d))
                  then (reject Format ''record q_index outside the qp table'', d) else (Inr (), dec_index q d))
         else if q \<noteq> rs_rung_qp rs ! rs_active rs
         then (let found = rung_of (rs_rung_qp rs) q
               in if found < 0
                  then (if length (rs_rung_qp rs) > 1 then (reject Format ''record qp has no rung'', d) else (Inr (), dec_index q d))
                  else (Inr (), dec_index q (d\<lparr>dc_rs := rs\<lparr>rs_active := nat found\<rparr>\<rparr>)))
         else (Inr (), dec_index q d))"

definition dec_clear_refs :: "bool \<Rightarrow> decoder \<Rightarrow> decoder" where
  "dec_clear_refs keyframe d =
     (if keyframe then d\<lparr>dc_ref_prev := replicate (length (dc_ref_prev d)) 0, dc_ref_ltr := replicate (length (dc_ref_ltr d)) 0,
                         dc_have_ltr := False\<rparr>
      else d)"

definition dec_scales :: "bool \<Rightarrow> decoder \<Rightarrow> status \<times> decoder" where
  "dec_scales neon d =
     (case extract_scales neon (Some (dc_z_d d)) (Some (dc_s0 d)) (Some (dc_s1 d)) (sint (dc_y_c d)) (sint (dc_y_h d)) (sint (dc_y_w d))
             (sint (dc_z_c d)) (sint (dc_z_h d)) (sint (dc_z_w d)) (ec_channel_repeat (dc_entropy d))
             (ec_spatial_repeat (dc_entropy d)) (ec_scale_max_index (dc_entropy d)) of
        (st, s0, s1) \<Rightarrow> (st, d\<lparr>dc_s0 := the s0, dc_s1 := the s1\<rparr>))"

text \<open>The two halves of the latent and the end of the stream, after the hyper-latent.\<close>

definition dec_halves :: "rans_decoder \<Rightarrow> decoder \<Rightarrow> (unit result \<times> decoder) option" where
  "dec_halves r d =
     do { (st, y0, r) \<leftarrow> rans_dec_decode r (dc_g d) (dc_y0_d d) (dc_s0 d);
          let d = d\<lparr>dc_y0_d := y0\<rparr>;
          if st \<noteq> Ok then Some (reject Format ''rANS y decode failed'', d)
          else do { (st, y1, r) \<leftarrow> rans_dec_decode r (dc_g d) (dc_y1_d d) (dc_s1 d);
                    let d = d\<lparr>dc_y1_d := y1\<rparr>;
                    Some (if st \<noteq> Ok then (reject Format ''rANS y decode failed'', d)
                          else if \<not> check_eof r then (reject Format ''rANS trailing data'', d) else (Inr (), d)) } }"

definition dec_payload :: "bool \<Rightarrow> bytes \<Rightarrow> decoder \<Rightarrow> (unit result \<times> decoder) option" where
  "dec_payload neon payload d =
     (case rans_dec_open (new_decoder RansByte) payload of
        (st, r) \<Rightarrow>
          if st \<noteq> Ok then Some (reject Format ''rANS stream open failed'', d)
          else do { (st, z, r) \<leftarrow> rans_dec_decode r (dc_b d) (dc_z_d d) (dc_z_idx d);
                    let d = d\<lparr>dc_z_d := z\<rparr>;
                    if st \<noteq> Ok then Some (reject Format ''rANS z decode failed'', d)
                    else case dec_scales neon d of
                           (st, d) \<Rightarrow> if st \<noteq> Ok then Some (reject Format ''scale extraction mismatch'', d)
                                      else dec_halves r d })"

text \<open>The latents and the reference go to the network, which runs.\<close>

definition dec_tensors :: "decoder \<Rightarrow> decoder" where
  "dec_tensors d =
     (let zc = nat (sint (dc_z_c d)); zh = nat (sint (dc_z_h d)); zw = nat (sint (dc_z_w d));
          yc = nat (sint (dc_y_c d)); yh = nat (sint (dc_y_h d)); yw = nat (sint (dc_y_w d))
      in d\<lparr>dc_z_f16 := nchw_i32_to_nhwc_f16 (dc_z_d d) (dc_z_f16 d) zc zh zw,
           dc_y0_f16 := nchw_i32_to_nhwc_f16 (dc_y0_d d) (dc_y0_f16 d) yc yh yw,
           dc_y1_f16 := nchw_i32_to_nhwc_f16 (dc_y1_d d) (dc_y1_f16 d) yc yh yw\<rparr>)"

definition dec_run :: "int \<Rightarrow> u32 \<Rightarrow> decoder \<Rightarrow> (nat \<Rightarrow> u16 list) result \<times> decoder" where
  "dec_run q flags d =
     (let ref = (if flags AND kRecLtrRecovery \<noteq> 0 \<and> dc_have_ltr d then dc_ref_ltr d else dc_ref_prev d);
          feed = nchw_f16_to_nhwc ref (dc_ref_feed d) (nat (sint (dc_ref_c d))) (nat (sint (dc_ref_h d))) (nat (sint (dc_ref_w d)));
          d = d\<lparr>dc_ref_feed := feed\<rparr>
      in case npu_sets ([(nat (dc_z_in d), dc_z_f16 d), (nat (dc_y0_in d), dc_y0_f16 d), (nat (dc_y1_in d), dc_y1_f16 d),
                         (nat (dc_ref_in d), feed)] @ row_inputs (dc_qrows d) q) (rs_models (dc_rs d) ! rs_active (dc_rs d)) of
           (st, n) \<Rightarrow>
             let d = d\<lparr>dc_rs := set_active n (dc_rs d)\<rparr>
             in if st \<noteq> Ok then (reject st ''NPU run failed'', d)
                else case npu_run n of (st, out) \<Rightarrow> if st \<noteq> Ok then (reject st ''NPU run failed'', d) else (Inr out, d))"

text \<open>The picture in full size, and its NV12 planes one after the other.\<close>

definition dec_yuv :: "u16 list \<Rightarrow> decoder \<Rightarrow> u16 list result" where
  "dec_yuv xh d =
     (if dc_x_d2s_bs d > 0
      then if length xh < cells (dc_x_pre_c d) (dc_x_pre_h d) (dc_x_pre_w d) then reject Hw ''short tail output''
           else Inr (nchw_d2s_dcr_f16 xh (replicate (3 * unat (dc_img_w d) * unat (dc_img_h d)) 0) 3
                       (nat (sint (dc_x_pre_h d))) (nat (sint (dc_x_pre_w d))) (dc_x_d2s_bs d))
      else if length xh < 3 * unat (dc_img_w d) * unat (dc_img_h d) then reject Hw ''short image output''
      else Inr xh)"

definition nv12_bytes :: "bool \<Rightarrow> u16 list \<Rightarrow> nat \<Rightarrow> nat \<Rightarrow> bytes" where
  "nv12_bytes neon yuv W H =
     (case nchw_yuv_fp16_to_nv12_planes neon yuv W H (replicate (W * H) None) W (replicate (W * H * 3 div 2 - W * H) None) W of
        (yp, uv) \<Rightarrow> map the (yp @ uv))"

definition nv12_frame :: "decoder \<Rightarrow> bytes \<Rightarrow> frame result" where
  "nv12_frame d nv12 =
     borrow_host True (default_spec\<lparr>s_width := dc_img_w d, s_height := dc_img_h d, s_fmt := Nv12, s_stride := dc_img_w d,
       s_ver_stride := dc_img_h d\<rparr>) (Some nv12) (length nv12)"

definition dec_keep :: "u16 list \<Rightarrow> bool \<Rightarrow> bytes \<Rightarrow> decoder \<Rightarrow> decoder" where
  "dec_keep fv mark nv12 d =
     (let d = d\<lparr>dc_ref_prev := fv\<rparr>; d = (if mark then d\<lparr>dc_ref_ltr := fv, dc_have_ltr := True\<rparr> else d)
      in d\<lparr>dc_last_nv12 := nv12, dc_have_last_frame := True\<rparr>)"

text \<open>The outputs are checked, the references and the picture kept, and the frame is emitted.\<close>

definition dec_output :: "bool \<Rightarrow> (nat \<Rightarrow> status) \<Rightarrow> frame list \<Rightarrow> u32 \<Rightarrow> (nat \<Rightarrow> u16 list) \<Rightarrow> decoder \<Rightarrow> unit result \<times> frame list \<times> decoder" where
  "dec_output neon ans outs flags out d =
     (let xh = out (nat (dc_x_out d)); fv = out (nat (dc_ref_out d))
      in if length fv \<noteq> length (dc_ref_prev d) \<or> \<not> all_finite xh \<or> \<not> all_finite fv then (reject Hw ''bad NPU outputs'', outs, d)
         else case dec_yuv xh d of
                Inl er \<Rightarrow> (Inl er, outs, d)
              | Inr yuv \<Rightarrow>
                  let nv12 = nv12_bytes neon yuv (unat (dc_img_w d)) (unat (dc_img_h d));
                      d = dec_keep fv (flags AND kRecLtrMark \<noteq> 0) nv12 d
                  in (case nv12_frame d nv12 of
                        Inl (st, _) \<Rightarrow> (reject st ''output frame alloc failed'', outs, d)
                      | Inr f \<Rightarrow>
                          let st = ans (length outs)
                          in (if st = Ok then Inr () else reject st '''',
                              outs @ [if flags AND kRecKeyframe \<noteq> 0 \<or> dc_frame_count d = 0 then f\<lparr>f_flags := kFlagKeyframe\<rparr> else f],
                              d\<lparr>dc_frame_count := dc_frame_count d + 1\<rparr>)))"

definition decode_frame ::
  "bool \<Rightarrow> (nat \<Rightarrow> status) \<Rightarrow> bytes \<Rightarrow> int \<Rightarrow> u32 \<Rightarrow> frame list \<Rightarrow> decoder \<Rightarrow> (unit result \<times> frame list \<times> decoder) option" where
  "decode_frame neon ans payload q flags outs d =
     (case dec_select q d of
        (Inl er, d) \<Rightarrow> Some (Inl er, outs, d)
      | (Inr _, d) \<Rightarrow>
          do { (r, d) \<leftarrow> dec_payload neon payload (dec_clear_refs (flags AND kRecKeyframe \<noteq> 0) d);
               Some (case r of
                       Inl er \<Rightarrow> (Inl er, outs, d)
                     | Inr _ \<Rightarrow>
                         (case dec_run q flags (dec_tensors d) of
                            (Inl er, d) \<Rightarrow> (Inl er, outs, d)
                          | (Inr out, d) \<Rightarrow> dec_output neon ans outs flags out d)) })"

section \<open>Records from the stream\<close>

text \<open>A dropped picture: the last one again, if there is one.\<close>

definition dec_repeat :: "(nat \<Rightarrow> status) \<Rightarrow> frame list \<Rightarrow> decoder \<Rightarrow> unit result \<times> frame list \<times> decoder" where
  "dec_repeat ans outs d =
     (if dc_have_last_frame d \<and> dc_last_nv12 d \<noteq> []
      then case nv12_frame d (dc_last_nv12 d) of
             Inl (st, _) \<Rightarrow> (reject st ''drop frame alloc failed'', outs, d)
           | Inr f \<Rightarrow>
               let st = ans (length outs)
               in (if st = Ok then Inr () else reject st '''', outs @ [f], d\<lparr>dc_frame_count := dc_frame_count d + 1\<rparr>)
      else (Inr (), outs, d))"

definition dec_record :: "bool \<Rightarrow> (nat \<Rightarrow> status) \<Rightarrow> view \<Rightarrow> frame list \<Rightarrow> decoder \<Rightarrow> (unit result \<times> frame list \<times> decoder) option" where
  "dec_record neon ans v outs d =
     (if v_q_index v = kQindexDropped then Some (dec_repeat ans outs d)
      else decode_frame neon ans (v_data v) (v_q_index v) (v_flags v) outs d)"

lemma demux_next_length:
  "demux_next m = (r, m') \<Longrightarrow> length (dm_buf m') \<le> length (dm_buf m)"
  by (auto simp: demux_next_def next_record_def demux_fail_def Let_def split: if_splits sum.splits prod.splits)

lemma consume_length:
  assumes "demux_next m = (Inr v, m')"
  shows "length (dm_buf (consume_record m')) < length (dm_buf m)"
proof -
  have l: "length (dm_buf m') \<le> length (dm_buf m)" by (rule demux_next_length [OF assms])
  have "kRecSize \<le> dm_last_record m' \<and> dm_last_record m' \<le> length (dm_buf m')"
    using assms by (auto simp: demux_next_def next_record_def demux_fail_def Let_def split: if_splits sum.splits prod.splits)
  then show ?thesis using l by (auto simp: consume_record_def kRecSize_def)
qed

function dec_loop :: "bool \<Rightarrow> (nat \<Rightarrow> status) \<Rightarrow> frame list \<Rightarrow> decoder \<Rightarrow> (unit result \<times> frame list \<times> decoder) option" where
  "dec_loop neon ans outs d =
     (case demux_next (dc_demux d) of
        (r, dm) \<Rightarrow>
          let d' = d\<lparr>dc_demux := dm\<rparr>;
              stop = (case r of
                        Inl (st, _) \<Rightarrow>
                          if st = Again \<and> \<not> dc_model_ready d \<and> dm_have_header dm then None
                          else if st = Again then Some (Inr ())
                          else Some (reject Format ''malformed .mlvc stream'')
                      | Inr v \<Rightarrow> None)
          in case stop of
               Some res \<Rightarrow> Some (res, outs, d')
             | None \<Rightarrow>
                 if \<not> dc_model_ready d
                 then if \<not> dm_have_header dm then Some (Inr (), outs, d')
                      else (case lazy_init (d'\<lparr>dc_qp := sint (h_qp (dm_header dm))\<rparr>) of
                              (Inl (st, _), d2) \<Rightarrow> Some (reject st ''lazy init failed'', outs, d2)
                            | (Inr _, d2) \<Rightarrow> dec_loop neon ans outs d2)
                 else (case r of
                         Inl _ \<Rightarrow> Some (Inr (), outs, d')
                       | Inr v \<Rightarrow>
                           (case dec_record neon ans v outs d' of
                              None \<Rightarrow> None
                            | Some (Inl er, outs, d2) \<Rightarrow> Some (Inl er, outs, d2)
                            | Some (Inr _, outs, d2) \<Rightarrow> dec_loop neon ans outs (d2\<lparr>dc_demux := consume_record dm\<rparr>))))"
  by pat_completeness auto
termination
proof (relation "measures [\<lambda>(neon, ans, outs, d). length (dm_buf (dc_demux d)), \<lambda>(neon, ans, outs, d). if dc_model_ready d then 0 else 1]",
    goal_cases)
  case 1
  show ?case by simp
next
  case (2 neon ans outs d r dm d' stop res d2)
  then have "dc_demux d2 = dm \<and> dc_model_ready d2" using lazy_init_keeps [of "d'\<lparr>dc_qp := sint (h_qp (dm_header dm))\<rparr>"] by simp
  moreover have "length (dm_buf dm) \<le> length (dm_buf (dc_demux d))" using 2(1) demux_next_length by metis
  ultimately show ?case using 2(5) by auto
next
  case (3 neon ans outs d r dm)
  obtain v where "r = Inr v" using 3(6) by blast
  then have "length (dm_buf (consume_record dm)) < length (dm_buf (dc_demux d))"
    using consume_length [OF 3(1) [symmetric, unfolded \<open>r = Inr v\<close>]] by simp
  then show ?case by simp
qed

declare dec_loop.simps [simp del]

definition dec_process :: "bool \<Rightarrow> (nat \<Rightarrow> status) \<Rightarrow> frame option \<Rightarrow> decoder \<Rightarrow> (unit result \<times> frame list \<times> decoder) option" where
  "dec_process neon ans input d =
     (case input of
        None \<Rightarrow> Some (reject Format ''bitstream host input only'', [], d)
      | Some f \<Rightarrow>
          if s_fmt (f_spec f) \<noteq> Bitstream \<or> f_data f = None \<or> f_size f = 0
          then Some (reject Format ''bitstream host input only'', [], d)
          else case demux_append (dc_demux d) (f_data f) (f_size f) of
                 (st, dm) \<Rightarrow>
                   if st \<noteq> Ok then Some (reject Format ''demux append failed'', [], d\<lparr>dc_demux := dm\<rparr>)
                   else dec_loop neon ans [] (d\<lparr>dc_demux := dm\<rparr>))"

definition dec_close :: "decoder \<Rightarrow> decoder" where
  "dec_close d = d\<lparr>dc_rs := (dc_rs d)\<lparr>rs_models := []\<rparr>\<rparr>"

end
