(* ===== verification/Mlvc_Sync.thy ===== *)
theory Mlvc_Sync
  imports Mlvc_Decoder
begin

text \<open>
  What binding a model establishes in the encoder and the decoder of the neural codec, and what every
  picture keeps: the well-formedness of both nodes, and the fact that a record of the encoder puts
  the decoder in the same reference state. The networks appear only through the law that pairs them.
\<close>

section \<open>Geometry and indices\<close>

definition geom_ok :: "entropy_config \<Rightarrow> u32 \<Rightarrow> u32 \<Rightarrow> u32 \<Rightarrow> u32 \<Rightarrow> u32 \<Rightarrow> u32 \<Rightarrow> bool" where
  "geom_ok ent zc zh zw yc yh yw \<longleftrightarrow>
     0 < sint zc \<and> 0 < sint zh \<and> 0 < sint zw \<and> 0 < sint yc \<and> 0 < sint yh \<and> 0 < sint yw \<and>
     0 < ec_channel_repeat ent \<and> 0 < ec_spatial_repeat ent \<and> 0 \<le> ec_scale_max_index ent \<and>
     (2 * sint yc + ec_channel_repeat ent - 1) div ec_channel_repeat ent \<le> sint zc"

definition index_ok :: "u32 \<Rightarrow> u32 \<Rightarrow> u32 \<Rightarrow> int \<Rightarrow> int list \<Rightarrow> bool" where
  "index_ok zc zh zw qp zi \<longleftrightarrow>
     length zi = cells zc zh zw \<and> (qp = -1 \<or> 0 \<le> qp \<and> zi = build_z_idx qp (unat zc) (unat zh) (unat zw))"

lemma sint_pos: "0 < sint (w :: u32) \<Longrightarrow> sint w = int (unat w)"
proof -
  assume p: "0 < sint w"
  have s: "sint w = signed_take_bit 31 (uint w)" by (simp add: sint_uint)
  then have b: "\<not> bit (uint w) 31" using p signed_take_bit_nonnegative_iff [of 31 "uint w"] by linarith
  have "take_bit (Suc 31) (uint w) = uint w" using uint_bounded [of w] by (simp add: take_bit_int_eq_self)
  then have "take_bit 31 (uint w) = uint w" unfolding take_bit_Suc_from_most using b by simp
  then have "sint w = uint w" using s b by (simp add: signed_take_bit_eq_if_positive)
  then show ?thesis by simp
qed

lemma halves_fit:
  assumes "(2 * int YC + int cr - 1) div int cr \<le> int ZC" "0 < cr"
  shows "2 * YC \<le> ZC * cr"
proof -
  define q where "q = (2 * int YC + int cr - 1) div int cr"
  have "q * int cr \<le> int ZC * int cr" using assms by (intro mult_right_mono) (simp_all add: q_def)
  moreover have "2 * int YC + int cr - 1 = q * int cr + (2 * int YC + int cr - 1) mod int cr" unfolding q_def by simp
  moreover have "(2 * int YC + int cr - 1) mod int cr < int cr" using assms(2) by simp
  ultimately have "int (2 * YC) \<le> int (ZC * cr)" by simp
  then show ?thesis by (simp only: of_nat_le_iff)
qed

lemma geometry_ok:
  assumes "resolve_entropy_geometry ent qp (sint zc) (sint zh) (sint zw) (sint yc) (sint yh) (sint yw) = (Inr u, ent')"
    and "0 \<le> ec_scale_max_index ent"
  shows "geom_ok ent' zc zh zw yc yh yw"
  using geometry_result [of ent qp _ _ _ _ _ _ ent'] assms by (simp add: geom_ok_def)

text \<open>The scales depend neither on the path nor on what the buffers held, and are never negative.\<close>

lemma scales_fixed:
  assumes g: "geom_ok ent zc zh zw yc yh yw" and z: "length z = cells zc zh zw"
  shows "\<exists>q0 q1. length q0 = cells yc yh yw \<and> length q1 = cells yc yh yw \<and> (\<forall>v \<in> set q0 \<union> set q1. 0 \<le> v) \<and>
    (\<forall>neon p0 p1. length p0 = cells yc yh yw \<longrightarrow> length p1 = cells yc yh yw \<longrightarrow>
       extract_scales neon (Some z) (Some p0) (Some p1) (sint yc) (sint yh) (sint yw) (sint zc) (sint zh) (sint zw)
         (ec_channel_repeat ent) (ec_spatial_repeat ent) (ec_scale_max_index ent) = (Ok, Some q0, Some q1))"
proof -
  let ?YC = "unat yc" and ?YH = "unat yh" and ?YW = "unat yw" and ?ZC = "unat zc" and ?ZH = "unat zh" and ?ZW = "unat zw"
  define cr where "cr = nat (ec_channel_repeat ent)"
  define sr where "sr = nat (ec_spatial_repeat ent)"
  define m where "m = ec_scale_max_index ent"
  note o = g [unfolded geom_ok_def]
  have crs: "ec_channel_repeat ent = int cr" "ec_spatial_repeat ent = int sr" "0 < cr" "0 < sr" "0 \<le> m"
    using o by (simp_all add: cr_def sr_def m_def)
  have si: "sint yc = int ?YC" "sint yh = int ?YH" "sint yw = int ?YW" "sint zc = int ?ZC" "sint zh = int ?ZH" "sint zw = int ?ZW"
    using o by (blast intro: sint_pos)+
  have pos: "0 < ?YC" "0 < ?YH" "0 < ?YW" "0 < ?ZC" "0 < ?ZH" "0 < ?ZW" using o unfolding si by (simp_all only: of_nat_0_less_iff)
  have need: "2 * ?YC \<le> ?ZC * cr"
  proof -
    have "(2 * int ?YC + int cr - 1) div int cr \<le> int ?ZC" using o unfolding si crs by blast
    then show ?thesis using crs(3) by (rule halves_fit)
  qed
  let ?n = "cells yc yh yw"
  let ?a = "\<lambda>c y x. scale_at z ?ZH ?ZW cr sr m c y x" and ?i = "\<lambda>c y x. (c * ?YH + y) * ?YW + x"
  let ?fix = "\<lambda>q0 q1. length q0 = ?n \<and> length q1 = ?n \<and> (\<forall>c < ?YC. \<forall>y < ?YH. \<forall>x < ?YW.
     {?a c y x, ?a (c + ?YC) y x} \<subseteq> (\<lambda>v. min \<bar>v\<bar> m) ` set z \<and>
     q0 ! ?i c y x = (if even (x + y) then ?a c y x else ?a (c + ?YC) y x) \<and>
     q1 ! ?i c y x = (if even (x + y) then ?a (c + ?YC) y x else ?a c y x))"
  let ?e = "\<lambda>neon p0 p1. extract_scales neon (Some z) (Some p0) (Some p1) (sint yc) (sint yh) (sint yw) (sint zc) (sint zh) (sint zw)
         (ec_channel_repeat ent) (ec_spatial_repeat ent) (ec_scale_max_index ent)"
  have run: "\<exists>q0 q1. ?e neon p0 p1 = (Ok, Some q0, Some q1) \<and> ?fix q0 q1" if "length p0 = ?n" "length p1 = ?n" for neon p0 p1
  proof -
    obtain st t0 t1 where e: "?e neon p0 p1 = (st, t0, t1)" by (metis prod_cases3)
    note cells = extract_scales_cells [OF pos crs(3-5), of z p0 p1 neon, folded crs(1,2) si,
        unfolded e [folded m_def] prod.case if_P [OF need] Let_def]
    show ?thesis unfolding e using cells z that unfolding cells_def by blast
  qed
  have det: "q0 = r0 \<and> q1 = r1" if "?fix q0 q1" "?fix r0 r1" for q0 q1 r0 r1
  proof -
    have "q0 ! j = r0 ! j \<and> q1 ! j = r1 ! j" if "j < ?n" for j
    proof -
      obtain c y x where "c < ?YC" "y < ?YH" "x < ?YW" "j = ?i c y x" using idx3_decode \<open>j < ?n\<close> unfolding cells_def by metis
      then show ?thesis using \<open>?fix q0 q1\<close> \<open>?fix r0 r1\<close> by presburger
    qed
    then show ?thesis using that by (auto intro!: nth_equalityI)
  qed
  obtain q0 q1 where q: "?e False (replicate ?n 0) (replicate ?n 0) = (Ok, Some q0, Some q1)" "?fix q0 q1"
    using run [of "replicate ?n 0" "replicate ?n 0" False] by auto
  have "?e neon p0 p1 = (Ok, Some q0, Some q1)" if "length p0 = ?n" "length p1 = ?n" for neon p0 p1
    using run [OF that, of neon] det [OF q(2)] by blast
  moreover have "0 \<le> v" if v: "v \<in> set q0 \<union> set q1" for v
  proof -
    have len: "length q0 = ?n" "length q1 = ?n" using q(2) by simp_all
    obtain j where j: "j < ?n" "v = q0 ! j \<or> v = q1 ! j"
      using v len unfolding Un_iff in_set_conv_nth by metis
    then obtain c y x where i: "c < ?YC" "y < ?YH" "x < ?YW" "j = ?i c y x" using idx3_decode unfolding cells_def by metis
    note at = q(2) [THEN conjunct2, THEN conjunct2, rule_format, OF i(1-3), folded i(4)]
    have "v \<in> {?a c y x, ?a (c + ?YC) y x}" using at j(2) by (auto split: if_splits)
    then obtain w where "v = min \<bar>w\<bar> m" using at by blast
    then show ?thesis using crs(5) by simp
  qed
  moreover have "length q0 = ?n" "length q1 = ?n" using q(2) by simp_all
  ultimately show ?thesis by - (rule exI [of _ q0], rule exI [of _ q1], blast)
qed

section \<open>Well-formed nodes\<close>

definition rungs_wf :: "rung_set \<Rightarrow> qrows \<Rightarrow> bool" where
  "rungs_wf rs qr \<longleftrightarrow>
     length (rs_models rs) = length (rs_rung_qp rs) \<and> rs_active rs < length (rs_models rs) \<and> distinct (rs_rung_qp rs) \<and>
     (\<forall>q \<in> set (rs_rung_qp rs). 0 \<le> q \<and> q < 2 ^ 31) \<and> (qr_present qr \<longrightarrow> length (rs_rung_qp rs) = 1)"

definition enc_wf :: "'r encoder \<Rightarrow> bool" where
  "enc_wf e \<longleftrightarrow>
     coders_wf (en_g e) (en_b e) \<and> rungs_wf (en_rs e) (en_qrows e) \<and>
     geom_ok (en_entropy e) (en_z_c e) (en_z_h e) (en_z_w e) (en_y_c e) (en_y_h e) (en_y_w e) \<and>
     index_ok (en_z_c e) (en_z_h e) (en_z_w e) (en_z_idx_qp e) (en_z_idx e) \<and>
     length (en_z_r e) = cells (en_z_c e) (en_z_h e) (en_z_w e) \<and>
     length (en_y0_r e) = cells (en_y_c e) (en_y_h e) (en_y_w e) \<and> length (en_y1_r e) = cells (en_y_c e) (en_y_h e) (en_y_w e) \<and>
     length (en_s0 e) = cells (en_y_c e) (en_y_h e) (en_y_w e) \<and> length (en_s1 e) = cells (en_y_c e) (en_y_h e) (en_y_w e) \<and>
     length (en_ref_prev e) = cells (en_ref_c e) (en_ref_h e) (en_ref_w e) \<and>
     length (en_ref_ltr e) = cells (en_ref_c e) (en_ref_h e) (en_ref_w e) \<and>
     length (en_ref_feed e) = cells (en_ref_c e) (en_ref_h e) (en_ref_w e)"

definition dec_wf :: "decoder \<Rightarrow> bool" where
  "dec_wf d \<longleftrightarrow>
     coders_wf (dc_g d) (dc_b d) \<and> rungs_wf (dc_rs d) (dc_qrows d) \<and>
     geom_ok (dc_entropy d) (dc_z_c d) (dc_z_h d) (dc_z_w d) (dc_y_c d) (dc_y_h d) (dc_y_w d) \<and>
     index_ok (dc_z_c d) (dc_z_h d) (dc_z_w d) (dc_z_idx_qp d) (dc_z_idx d) \<and>
     length (dc_z_d d) = cells (dc_z_c d) (dc_z_h d) (dc_z_w d) \<and>
     length (dc_y0_d d) = cells (dc_y_c d) (dc_y_h d) (dc_y_w d) \<and> length (dc_y1_d d) = cells (dc_y_c d) (dc_y_h d) (dc_y_w d) \<and>
     length (dc_s0 d) = cells (dc_y_c d) (dc_y_h d) (dc_y_w d) \<and> length (dc_s1 d) = cells (dc_y_c d) (dc_y_h d) (dc_y_w d) \<and>
     length (dc_z_f16 d) = cells (dc_z_c d) (dc_z_h d) (dc_z_w d) \<and>
     length (dc_y0_f16 d) = cells (dc_y_c d) (dc_y_h d) (dc_y_w d) \<and> length (dc_y1_f16 d) = cells (dc_y_c d) (dc_y_h d) (dc_y_w d) \<and>
     length (dc_ref_prev d) = cells (dc_ref_c d) (dc_ref_h d) (dc_ref_w d) \<and>
     length (dc_ref_ltr d) = cells (dc_ref_c d) (dc_ref_h d) (dc_ref_w d) \<and>
     length (dc_ref_feed d) = cells (dc_ref_c d) (dc_ref_h d) (dc_ref_w d)"

section \<open>Binding establishes it\<close>

lemma length_nhwc [simp]: "length (nchw_f16_to_nhwc s t C H W) = length t"
  by (simp add: nchw_f16_to_nhwc_def)

lemma length_i32_nhwc [simp]: "length (nchw_i32_to_nhwc_f16 s t C H W) = length t"
  by (simp add: nchw_i32_to_nhwc_f16_def)

lemma length_set_active [simp]: "length (rs_models (set_active n rs)) = length (rs_models rs)"
    "rs_rung_qp (set_active n rs) = rs_rung_qp rs" "rs_active (set_active n rs) = rs_active rs"
    "rungs_wf (set_active n rs) qr = rungs_wf rs qr"
  by (simp_all add: set_active_def rungs_wf_def)

lemma init_loop_length:
  "init_loop m base mk i qps ms = (Inr u, ms') \<Longrightarrow> length ms' = length ms + length qps"
  by (induction m base mk i qps ms rule: init_loop.induct) (auto simp: Let_def split: option.splits sum.splits)

lemma collect_range:
  assumes "collect_rungs m qp = Inr rungs" "0 \<le> qp" "qp < 2 ^ 31"
  shows "distinct rungs \<and> rungs \<noteq> [] \<and> (\<forall>q \<in> set rungs. 0 \<le> q \<and> q < 2 ^ 31)"
proof -
  have "distinct (collect_loop (md_payloads m) [])" "set (collect_loop (md_payloads m) []) \<subseteq> offered (md_payloads m)"
    using collect_loop_sound [of "[]" "md_payloads m"] by simp_all
  moreover have "\<forall>q \<in> offered (md_payloads m). 0 \<le> q \<and> q < 2 ^ 31" by (auto simp: offered_def)
  ultimately show ?thesis using assms by (auto simp: collect_rungs_def Let_def split: if_splits)
qed

lemma init_rungs_wf:
  assumes "collect_rungs m qp = Inr rungs" "0 \<le> qp" "qp < 2 ^ 31" "init_rungs m rungs mk = (Inr u, rs)"
    and "qr_present qr \<longrightarrow> length (rs_rung_qp rs) = 1"
  shows "rungs_wf rs qr"
proof -
  have "rs_rung_qp rs = rungs \<and> rs_active rs = 0 \<and> length (rs_models rs) = length rungs"
    using assms(4) init_loop_length by (auto simp: init_rungs_def Let_def split: option.splits if_splits prod.splits)
  then show ?thesis using collect_range [OF assms(1-3)] assms(5) by (simp add: rungs_wf_def)
qed

lemma enc_buffers_wf:
  assumes "coders_wf (en_g e) (en_b e)" "rungs_wf (en_rs e) (en_qrows e)"
    "geom_ok (en_entropy e) (en_z_c e) (en_z_h e) (en_z_w e) (en_y_c e) (en_y_h e) (en_y_w e)"
  shows "enc_wf (enc_buffers e)"
  using assms by (simp add: enc_wf_def enc_buffers_def Let_def index_ok_def)

lemma enc_entropy_wf:
  assumes "enc_entropy e = (Inr u, e')" "coders_wf (en_g e) (en_b e)" "rungs_wf (en_rs e) (en_qrows e)"
    "0 \<le> ec_scale_max_index (en_entropy e)"
  shows "enc_wf e'"
proof -
  obtain ent where r: "resolve_entropy_geometry (en_entropy e) (en_qp e) (sint (en_z_c e)) (sint (en_z_h e)) (sint (en_z_w e))
             (sint (en_y_c e)) (sint (en_y_h e)) (sint (en_y_w e)) = (Inr (), ent)" "e' = enc_buffers (e\<lparr>en_entropy := ent\<rparr>)"
    using assms(1) by (auto simp: enc_entropy_def split: prod.splits sum.splits)
  show ?thesis unfolding r(2) using assms(2,3) geometry_ok [OF r(1) assms(4)] by (intro enc_buffers_wf) simp_all
qed

lemma enc_parts_keep [simp]:
  "en_g (enc_dims xd rd zd yd e) = en_g e" "en_b (enc_dims xd rd zd yd e) = en_b e" "en_rs (enc_dims xd rd zd yd e) = en_rs e"
  "en_qrows (enc_dims xd rd zd yd e) = en_qrows e" "en_entropy (enc_dims xd rd zd yd e) = en_entropy e"
  "en_g (enc_find ins outs e) = en_g e" "en_b (enc_find ins outs e) = en_b e" "en_rs (enc_find ins outs e) = en_rs e"
  "en_qrows (enc_find ins outs e) = en_qrows e" "en_entropy (enc_find ins outs e) = en_entropy e"
  by (simp_all add: enc_dims_def enc_find_def)

lemma enc_tensors_wf:
  assumes "enc_tensors e = (Inr u, e')" "coders_wf (en_g e) (en_b e)" "rungs_wf (en_rs e) (en_qrows e)"
    "0 \<le> ec_scale_max_index (en_entropy e)"
  shows "enc_wf e'"
proof -
  obtain ins outs xd rd zd yd where "enc_entropy (enc_dims xd rd zd yd (enc_find ins outs e)) = (Inr u, e')"
    using assms(1) unfolding enc_tensors_def enc_geometry_def Let_def by (auto split: if_splits)
  then show ?thesis by (rule enc_entropy_wf) (use assms(2-4) in simp_all)
qed

lemma enc_bind_rungs_wf:
  assumes b: "enc_bind_rungs m e = (Inr u, e')" and e: "coders_wf (en_g e) (en_b e)" "0 \<le> ec_scale_max_index (en_entropy e)"
    "0 \<le> en_qp e" "en_qp e < 2 ^ 31"
  shows "enc_wf e'"
proof -
  obtain rungs where r: "collect_rungs m (en_qp e) = Inr rungs"
    using b by (cases "collect_rungs m (en_qp e)") (auto simp: enc_bind_rungs_def)
  obtain rs where i: "init_rungs m rungs (en_make e) = (Inr (), rs)"
    using b r by (auto simp: enc_bind_rungs_def split: prod.splits sum.splits)
  obtain tab qr where q: "setup_qrows m (rs_models rs ! rs_active rs) (en_qptab e) = (Inr (), tab, qr)"
    using b r i by (auto simp: enc_bind_rungs_def Let_def split: prod.splits sum.splits)
  have ok: "qr_present qr \<longrightarrow> length (rs_rung_qp rs) = 1" and t: "enc_tensors (e\<lparr>en_rs := rs, en_qptab := tab, en_qrows := qr\<rparr>) = (Inr u, e')"
    using b by (auto simp: enc_bind_rungs_def Let_def r i q split: if_splits)
  show ?thesis by (rule enc_tensors_wf [OF t]) (use e init_rungs_wf [OF r e(3,4) i ok] in simp_all)
qed

lemma enc_bind_wf:
  assumes b: "enc_bind_model m e = (Inr u, e')"
  shows "enc_wf e'"
proof -
  define q where "q = (if ql_qp (en_quality e) \<ge> 0 then ql_qp (en_quality e) else kDefaultQp)"
  have q: "0 \<le> q" by (simp add: q_def kDefaultQp_def)
  have ok: "q \<le> 63" "md_role m = ''encoder''" using b by (auto simp: enc_bind_model_def Let_def q_def split: if_splits)
  obtain g c cfg where c: "init_rans_coders m (en_entropy e) = Inr (g, c, cfg)"
    using b ok by (cases "init_rans_coders m (en_entropy e)") (auto simp: enc_bind_model_def Let_def q_def split: if_splits)
  have "enc_bind_rungs m (e\<lparr>en_qp := q, en_g := g, en_b := c, en_entropy := cfg, en_rans_ready := True\<rparr>) = (Inr u, e')"
    using b ok by (simp add: enc_bind_model_def Let_def q_def c split: if_splits)
  then show ?thesis by (rule enc_bind_rungs_wf) (use coders_result_wf [OF c] q ok in simp_all)
qed

lemma dec_image_sound: "dec_image xd d = (r, d') \<Longrightarrow> dc_g d' = dc_g d \<and> dc_b d' = dc_b d \<and> dc_rs d' = dc_rs d \<and>
    dc_qrows d' = dc_qrows d \<and> dc_entropy d' = dc_entropy d \<and> dc_qp d' = dc_qp d"
  by (auto simp: dec_image_def Let_def split: if_splits)

lemma dec_parts_sound [simp]:
  "dc_g (dec_dims zd yd rd d) = dc_g d" "dc_b (dec_dims zd yd rd d) = dc_b d" "dc_rs (dec_dims zd yd rd d) = dc_rs d"
  "dc_qrows (dec_dims zd yd rd d) = dc_qrows d" "dc_entropy (dec_dims zd yd rd d) = dc_entropy d" "dc_qp (dec_dims zd yd rd d) = dc_qp d"
  "dc_g (dec_find ins outs d) = dc_g d" "dc_b (dec_find ins outs d) = dc_b d" "dc_rs (dec_find ins outs d) = dc_rs d"
  "dc_qrows (dec_find ins outs d) = dc_qrows d" "dc_entropy (dec_find ins outs d) = dc_entropy d" "dc_qp (dec_find ins outs d) = dc_qp d"
  by (simp_all add: dec_dims_def dec_find_def)

lemma dec_shapes_sound: "dec_shapes zd yd rd xd fd d = (Inr u, d') \<Longrightarrow> dc_g d' = dc_g d \<and> dc_b d' = dc_b d \<and> dc_rs d' = dc_rs d \<and>
    dc_qrows d' = dc_qrows d \<and> dc_entropy d' = dc_entropy d \<and> dc_qp d' = dc_qp d"
  unfolding dec_shapes_def Let_def by (auto split: if_splits sum.splits prod.splits dest!: dec_image_sound)

lemma resolve_dec_geom_sound: "resolve_dec_geom d = (Inr u, d') \<Longrightarrow> dc_g d' = dc_g d \<and> dc_b d' = dc_b d \<and> dc_rs d' = dc_rs d \<and>
    dc_qrows d' = dc_qrows d \<and> dc_entropy d' = dc_entropy d \<and> dc_qp d' = dc_qp d"
  unfolding resolve_dec_geom_def Let_def by (auto split: if_splits dest!: dec_shapes_sound)

lemma dec_buffers_wf:
  assumes "coders_wf (dc_g d) (dc_b d)" "rungs_wf (dc_rs d) (dc_qrows d)"
    "geom_ok (dc_entropy d) (dc_z_c d) (dc_z_h d) (dc_z_w d) (dc_y_c d) (dc_y_h d) (dc_y_w d)"
  shows "dec_wf (dec_buffers d)"
  using assms by (simp add: dec_wf_def dec_buffers_def Let_def index_ok_def)

lemma lazy_geometry_wf:
  assumes l: "lazy_geometry d = (Inr u, d')" and d: "coders_wf (dc_g d) (dc_b d)" "0 \<le> ec_scale_max_index (dc_entropy d)"
  shows "0 \<le> dc_qp d \<and> (rungs_wf (dc_rs d) (dc_qrows d) \<longrightarrow> dec_wf d')"
proof -
  obtain d1 where g: "resolve_dec_geom d = (Inr (), d1)" using l by (auto simp: lazy_geometry_def split: prod.splits sum.splits)
  note k = resolve_dec_geom_sound [OF g]
  obtain ent where r: "resolve_entropy_geometry (dc_entropy d1) (dc_qp d1) (sint (dc_z_c d1)) (sint (dc_z_h d1)) (sint (dc_z_w d1))
                  (sint (dc_y_c d1)) (sint (dc_y_h d1)) (sint (dc_y_w d1)) = (Inr (), ent)" "d' = dec_buffers (d1\<lparr>dc_entropy := ent\<rparr>)"
    using l g by (auto simp: lazy_geometry_def split: prod.splits sum.splits)
  have "0 \<le> ec_scale_max_index (dc_entropy d1)" using d(2) k by simp
  from geometry_ok [OF r(1) this] have "rungs_wf (dc_rs d) (dc_qrows d) \<Longrightarrow> dec_wf d'"
    unfolding r(2) by (intro dec_buffers_wf) (use k d in simp_all)
  then show ?thesis using geometry_result(3) [OF r(1)] k by simp
qed

lemma sint_less_31: "sint (w :: u32) < 2 ^ 31"
  using signed_take_bit_int_less_exp [of 31 "uint w"] by (simp add: sint_uint)

lemma lazy_init_wf:
  assumes l: "lazy_init d = (Inr u, d')" and d: "coders_wf (dc_g d) (dc_b d)" "0 \<le> ec_scale_max_index (dc_entropy d)" "dc_qp d < 2 ^ 31"
  shows "dec_wf d'"
proof -
  let ?m = "the (dc_model d)"
  obtain rungs where r: "collect_rungs ?m (dc_qp d) = Inr rungs"
    using l by (cases "collect_rungs ?m (dc_qp d)") (auto simp: lazy_init_def Let_def)
  obtain rs where i: "init_rungs ?m rungs (dc_make d) = (Inr (), rs)"
    using l r by (auto simp: lazy_init_def Let_def split: prod.splits sum.splits)
  obtain tab qr where q: "setup_qrows ?m (rs_models rs ! rs_active rs) (dc_qptab d) = (Inr (), tab, qr)"
    using l r i by (auto simp: lazy_init_def Let_def split: prod.splits sum.splits)
  let ?d = "d\<lparr>dc_rs := rs, dc_qptab := tab, dc_qrows := qr, dc_model_ready := True\<rparr>"
  have ok: "qr_present qr \<longrightarrow> length (rs_rung_qp rs) = 1" and t: "lazy_geometry ?d = (Inr u, d')"
    using l by (auto simp: lazy_init_def Let_def r i q split: if_splits)
  have g: "0 \<le> dc_qp ?d \<and> (rungs_wf (dc_rs ?d) (dc_qrows ?d) \<longrightarrow> dec_wf d')"
    by (rule lazy_geometry_wf [OF t]) (use d in simp_all)
  then show ?thesis using init_rungs_wf [OF r _ d(3) i ok] by simp
qed

section \<open>One picture in the encoder\<close>

lemma nearest_rung_less: "rungs \<noteq> [] \<Longrightarrow> nearest_rung rungs q < length rungs"
proof -
  let ?f = "\<lambda>(best_d, best) i. let d = (if rungs ! i > q then rungs ! i - q else q - rungs ! i)
        in if d < best_d then (d, i) else (best_d, best)"
  assume ne: "rungs \<noteq> []"
  have "k \<le> length rungs \<Longrightarrow> snd (foldl ?f (2 ^ 31 - 1, 0) [0..<k]) < length rungs" for k
    using ne by (induction k) (auto simp: Let_def split: prod.splits)
  from this [of "length rungs"] show ?thesis by (simp add: nearest_rung_def)
qed

text \<open>The encoder without its rate control.\<close>

definition enc_core :: "'r encoder \<Rightarrow> 'r encoder" where
  "enc_core e = e\<lparr>en_rc := None, en_rc_bitrate := 0, en_iframe_period := 0\<rparr>"

lemma enc_retune_core: "enc_retune rt ctl e = (r, e') \<Longrightarrow> enc_core e' = enc_core e"
  by (auto simp: enc_retune_def enc_core_def Let_def split: if_splits option.splits sum.splits)

lemma enc_solve_core: "enc_solve rt k e = (q, e') \<Longrightarrow> enc_core e' = enc_core e"
  by (auto simp: enc_solve_def enc_core_def Let_def split: if_splits option.splits prod.splits)

lemma enc_wf_core: "enc_wf (enc_core e) = enc_wf e"
  by (simp add: enc_wf_def enc_core_def)

text \<open>The quantisers that the codec can be asked for: its own, and what the controller may answer.\<close>

definition rate_ok :: "'r rate_ops \<Rightarrow> bool" where
  "rate_ok rt \<longleftrightarrow> (\<forall>n fps t b rc. let q = fst (rt_solve rt n fps t b rc) in q = kQDrop \<or> 0 \<le> q \<and> q \<le> 63)"

lemma enc_solve_range:
  assumes "enc_solve rt k e = (Some q, e')" "rate_ok rt" "0 \<le> en_qp e" "en_qp e \<le> 63"
  shows "0 \<le> q \<and> q \<le> 63"
  using assms(1,3,4) assms(2) [unfolded rate_ok_def Let_def, rule_format, of "en_frame_count e" "en_fps e" "rc_type k" "int kRecSize * 8" "the (en_rc e)"]
  by (auto simp: enc_solve_def Let_def split: if_splits option.splits prod.splits)

lemma enc_select_ok:
  assumes e: "enc_wf e" and q: "0 \<le> q" "q < 2 ^ 31" and s: "enc_select q e = (u, e')"
  shows "enc_wf e'" "0 \<le> u" "u < 2 ^ 31" "en_z_idx e' = build_z_idx u (unat (en_z_c e)) (unat (en_z_h e)) (unat (en_z_w e))"
    "\<exists>act zi qi. e' = e\<lparr>en_rs := (en_rs e)\<lparr>rs_active := act\<rparr>, en_z_idx := zi, en_z_idx_qp := qi\<rparr>"
    "if qr_present (en_qrows e) then u = q \<and> rs_active (en_rs e') = rs_active (en_rs e)
     else u = rs_rung_qp (en_rs e) ! rs_active (en_rs e')"
proof -
  define act where "act = (if qr_present (en_qrows e) then rs_active (en_rs e) else nearest_rung (rs_rung_qp (en_rs e)) q)"
  define zi where "zi = build_z_idx u (unat (en_z_c e)) (unat (en_z_h e)) (unat (en_z_w e))"
  note w = e [unfolded enc_wf_def rungs_wf_def]
  note s' = s [unfolded enc_select_def Let_def, folded act_def, unfolded prod.inject]
  have u: "u = (if qr_present (en_qrows e) then q else rs_rung_qp (en_rs e) ! act)"
    using s' by simp
  have ne: "rs_rung_qp (en_rs e) \<noteq> []" using w by auto
  have act: "act < length (rs_models (en_rs e))" 
  proof -
    have "rs_active (en_rs e) < length (rs_models (en_rs e))" "length (rs_models (en_rs e)) = length (rs_rung_qp (en_rs e))" using w by blast+
    then show ?thesis using nearest_rung_less [OF ne, of q] by (simp only: act_def split: if_split) blast
  qed
  show ur: "0 \<le> u" "u < 2 ^ 31" unfolding u using q w act by auto
  have idx: "en_z_idx e = zi" if "en_z_idx_qp e = u" using w that ur(1) by (auto simp: index_ok_def zi_def)
  have e': "e' = e\<lparr>en_rs := (en_rs e)\<lparr>rs_active := act\<rparr>, en_z_idx := zi, en_z_idx_qp := u\<rparr>"
    using s' [THEN conjunct2, symmetric] idx unfolding u [symmetric] by (simp add: zi_def split: if_splits)
  show "en_z_idx e' = build_z_idx u (unat (en_z_c e)) (unat (en_z_h e)) (unat (en_z_w e))" by (simp add: e' zi_def)
  show "\<exists>act zi qi. e' = e\<lparr>en_rs := (en_rs e)\<lparr>rs_active := act\<rparr>, en_z_idx := zi, en_z_idx_qp := qi\<rparr>" using e' by blast
  show "if qr_present (en_qrows e) then u = q \<and> rs_active (en_rs e') = rs_active (en_rs e)
     else u = rs_rung_qp (en_rs e) ! rs_active (en_rs e')" using u by (simp add: e' act_def)
  have "length zi = cells (en_z_c e) (en_z_h e) (en_z_w e)" by (simp add: zi_def build_z_idx_nth(1) cells_def)
  then show "enc_wf e'" using e act ur(1) by (simp add: e' enc_wf_def rungs_wf_def index_ok_def zi_def)
qed

lemma enc_clear_wf: "enc_wf e \<Longrightarrow> enc_wf (enc_clear_refs idr e)"
  by (simp add: enc_clear_refs_def enc_wf_def)

text \<open>The reference that goes to the network.\<close>

definition enc_feed :: "bool \<Rightarrow> 'r encoder \<Rightarrow> u16 list" where
  "enc_feed rec e = nchw_f16_to_nhwc (if rec \<and> en_have_ltr e then en_ref_ltr e else en_ref_prev e) (en_ref_feed e)
    (nat (sint (en_ref_c e))) (nat (sint (en_ref_h e))) (nat (sint (en_ref_w e)))"

lemma enc_run_detail:
  assumes "enc_run base sp rec u e = (r, e')"
  shows "\<exists>x n st. npu_sets ([(nat (en_x_in e), x), (nat (en_ref_in e), enc_feed rec e)] @ row_inputs (en_qrows e) u)
      (rs_models (en_rs e) ! rs_active (en_rs e)) = (st, n) \<and>
     e' = e\<lparr>en_x_nhwc := x, en_ref_feed := enc_feed rec e, en_rs := set_active n (en_rs e)\<rparr> \<and>
     (\<forall>out. r = Inr out \<longrightarrow> st = Ok \<and> npu_run n = (Ok, out))"
proof -
  define x where "x = yuv_to_nhwc_fp16 base 0 (unat (if s_stride sp \<noteq> 0 then s_stride sp else s_width sp))
    (unat (if s_stride sp \<noteq> 0 then s_stride sp else s_width sp) * unat (if s_ver_stride sp \<noteq> 0 then s_ver_stride sp else s_height sp))
    (unat (if s_stride sp \<noteq> 0 then s_stride sp else s_width sp) * unat (if s_ver_stride sp \<noteq> 0 then s_ver_stride sp else s_height sp) + 1)
    (unat (if s_stride sp \<noteq> 0 then s_stride sp else s_width sp)) True (unat (en_img_w e)) (unat (en_img_h e)) (en_x_nhwc e)"
  obtain st n where n: "npu_sets ([(nat (en_x_in e), x), (nat (en_ref_in e), enc_feed rec e)] @ row_inputs (en_qrows e) u)
      (rs_models (en_rs e) ! rs_active (en_rs e)) = (st, n)" by force
  have "e' = e\<lparr>en_x_nhwc := x, en_ref_feed := enc_feed rec e, en_rs := set_active n (en_rs e)\<rparr> \<and>
     (\<forall>out. r = Inr out \<longrightarrow> st = Ok \<and> npu_run n = (Ok, out))"
    using assms n unfolding enc_run_def Let_def x_def [symmetric] enc_feed_def [symmetric]
    by (auto split: prod.splits if_splits)
  then show ?thesis using n by blast
qed

lemma round_all_bound:
  assumes "all_finite t" "n \<le> length t"
  shows "length (round_all n t) = n" "\<forall>v \<in> set (round_all n t). \<bar>v\<bar> \<le> 65504"
proof -
  show "length (round_all n t) = n" by (simp add: round_all_def)
  show "\<forall>v \<in> set (round_all n t). \<bar>v\<bar> \<le> 65504"
  proof
    fix v assume "v \<in> set (round_all n t)"
    then obtain i where i: "i < n" "v = the (half_to_int (t ! i))" by (auto simp: round_all_def)
    then have "f16_exp (t ! i) < 31" using assms by (simp add: all_finite_def list_all_length fp16_finite_exp)
    from half_conversions [OF this] i(2) show "\<bar>v\<bar> \<le> 65504" by simp
  qed
qed

definition latents_bounded :: "'r encoder \<Rightarrow> bool" where
  "latents_bounded e \<longleftrightarrow> (\<forall>v \<in> set (en_y1_r e) \<union> set (en_y0_r e) \<union> set (en_z_r e). \<bar>v\<bar> \<le> 65504)"

lemma enc_latents_ok:
  assumes l: "enc_latents out mark e = (r, e')" and e: "enc_wf e"
  shows "enc_wf e'" "r = Inr u \<Longrightarrow> latents_bounded e'" "en_z_idx e' = en_z_idx e" "en_z_idx_qp e' = en_z_idx_qp e"
    "r = Inr u \<Longrightarrow> en_ref_prev e' = out (nat (en_feat_out e)) \<and>
       (en_ref_ltr e', en_have_ltr e') = (if mark then (en_ref_prev e', True) else (en_ref_ltr e, en_have_ltr e))"
proof -
  define nok where "nok \<longleftrightarrow> length (out (nat (en_z_out e))) < length (en_z_r e) \<or> length (out (nat (en_y0_out e))) < length (en_y0_r e) \<or>
    length (out (nat (en_y1_out e))) < length (en_y0_r e) \<or> length (out (nat (en_feat_out e))) \<noteq> length (en_ref_prev e) \<or>
    \<not> all_finite (out (nat (en_z_out e))) \<or> \<not> all_finite (out (nat (en_y0_out e))) \<or> \<not> all_finite (out (nat (en_y1_out e))) \<or>
    \<not> all_finite (out (nat (en_feat_out e)))"
  define ok where "ok \<longleftrightarrow> \<not> nok"
  define e1 where "e1 = e\<lparr>en_z_r := round_all (length (en_z_r e)) (out (nat (en_z_out e))), en_y0_r := round_all (length (en_y0_r e)) (out (nat (en_y0_out e))),
    en_y1_r := round_all (length (en_y0_r e)) (out (nat (en_y1_out e))), en_ref_prev := out (nat (en_feat_out e))\<rparr>"
  have l': "(r, e') = (if ok then (Inr (), if mark then e1\<lparr>en_ref_ltr := out (nat (en_feat_out e)), en_have_ltr := True\<rparr> else e1)
      else (reject Hw ''bad NPU outputs'', e))"
    using l [symmetric] unfolding enc_latents_def Let_def nok_def [symmetric] ok_def e1_def by simp
  have bad: "e' = e" "r \<noteq> Inr u" if "\<not> ok" for u using l' that by simp_all
  have good: "e' = (if mark then e1\<lparr>en_ref_ltr := out (nat (en_feat_out e)), en_have_ltr := True\<rparr> else e1)" if ok
    using l' that by simp
  have len: "length (en_y1_r e) = length (en_y0_r e)" using e by (simp add: enc_wf_def)
  have w1: "enc_wf e1" "latents_bounded e1" if ok
  proof -
    note b = round_all_bound [of "out (nat (en_z_out e))" "length (en_z_r e)"] round_all_bound [of "out (nat (en_y0_out e))" "length (en_y0_r e)"]
      round_all_bound [of "out (nat (en_y1_out e))" "length (en_y0_r e)"]
    show "enc_wf e1" using e that b(1,3,5) by (simp add: e1_def enc_wf_def ok_def nok_def)
    show "latents_bounded e1" using that b(2,4,6) by (auto simp: e1_def latents_bounded_def ok_def nok_def not_less)
  qed
  show "enc_wf e'"
  proof (cases ok)
    case True
    have "length (out (nat (en_feat_out e))) = cells (en_ref_c e1) (en_ref_h e1) (en_ref_w e1)"
      using True e by (simp add: ok_def nok_def enc_wf_def e1_def)
    then show ?thesis unfolding good [OF True] using w1(1) [OF True] by (simp add: enc_wf_def)
  next
    case False
    then show ?thesis using bad(1) e by simp
  qed
  show "latents_bounded e'" if "r = Inr u" using l' w1(2) that by (auto simp: latents_bounded_def split: if_splits)
  show "en_z_idx e' = en_z_idx e" "en_z_idx_qp e' = en_z_idx_qp e" using l' by (simp_all add: e1_def split: if_splits)
  show "en_ref_prev e' = out (nat (en_feat_out e)) \<and>
       (en_ref_ltr e', en_have_ltr e') = (if mark then (en_ref_prev e', True) else (en_ref_ltr e, en_have_ltr e))" if "r = Inr u"
    using l' that by (auto simp: e1_def split: if_splits)
qed

text \<open>The sizes that the buffers of a node have in memory.\<close>

definition sizes_ok :: "u32 \<Rightarrow> u32 \<Rightarrow> u32 \<Rightarrow> u32 \<Rightarrow> u32 \<Rightarrow> u32 \<Rightarrow> bool" where
  "sizes_ok zc zh zw yc yh yw \<longleftrightarrow> cells zc zh zw < 2 ^ 40 \<and> cells yc yh yw < 2 ^ 40"

definition enc_fit :: "'r encoder \<Rightarrow> bool" where
  "enc_fit e \<longleftrightarrow> small_offsets (en_g e) \<and> small_offsets (en_b e) \<and>
     sizes_ok (en_z_c e) (en_z_h e) (en_z_w e) (en_y_c e) (en_y_h e) (en_y_w e)"

lemma enc_payload_ok:
  assumes e: "enc_wf e" "enc_fit e" "latents_bounded e" and q: "0 \<le> u" "en_z_idx e = build_z_idx u (unat (en_z_c e)) (unat (en_z_h e)) (unat (en_z_w e))"
  shows "\<exists>bits s0 s1. enc_payload neon e = Some (Inr bits, e\<lparr>en_s0 := s0, en_s1 := s1\<rparr>) \<and> 4 \<le> length bits \<and>
    enc_wf (e\<lparr>en_s0 := s0, en_s1 := s1\<rparr>) \<and>
    payload_ok (en_g e) (en_b e) s1 (en_y1_r e) s0 (en_y0_r e) (en_z_idx e) (en_z_r e) \<and>
    encode_payload (en_g e) (en_b e) s1 (en_y1_r e) s0 (en_y0_r e) (en_z_idx e) (en_z_r e) = Some (Inr bits) \<and>
    (\<forall>neon p0 p1. length p0 = cells (en_y_c e) (en_y_h e) (en_y_w e) \<longrightarrow> length p1 = cells (en_y_c e) (en_y_h e) (en_y_w e) \<longrightarrow>
       extract_scales neon (Some (en_z_r e)) (Some p0) (Some p1) (sint (en_y_c e)) (sint (en_y_h e)) (sint (en_y_w e))
         (sint (en_z_c e)) (sint (en_z_h e)) (sint (en_z_w e)) (ec_channel_repeat (en_entropy e)) (ec_spatial_repeat (en_entropy e))
         (ec_scale_max_index (en_entropy e)) = (Ok, Some s0, Some s1))"
proof -
  note w = e(1) [unfolded enc_wf_def]
  have g: "geom_ok (en_entropy e) (en_z_c e) (en_z_h e) (en_z_w e) (en_y_c e) (en_y_h e) (en_y_w e)"
    and z: "length (en_z_r e) = cells (en_z_c e) (en_z_h e) (en_z_w e)" using w by blast+
  obtain s0 s1 where s: "length s0 = cells (en_y_c e) (en_y_h e) (en_y_w e)" "length s1 = cells (en_y_c e) (en_y_h e) (en_y_w e)"
    "\<forall>v \<in> set s0 \<union> set s1. 0 \<le> v"
    and x: "\<forall>neon p0 p1. length p0 = cells (en_y_c e) (en_y_h e) (en_y_w e) \<longrightarrow> length p1 = cells (en_y_c e) (en_y_h e) (en_y_w e) \<longrightarrow>
       extract_scales neon (Some (en_z_r e)) (Some p0) (Some p1) (sint (en_y_c e)) (sint (en_y_h e)) (sint (en_y_w e))
         (sint (en_z_c e)) (sint (en_z_h e)) (sint (en_z_w e)) (ec_channel_repeat (en_entropy e)) (ec_spatial_repeat (en_entropy e))
         (ec_scale_max_index (en_entropy e)) = (Ok, Some s0, Some s1)"
    using scales_fixed [OF g z] by blast
  have idx: "\<forall>i \<in> set (en_z_idx e). 0 \<le> i"
    using build_z_idx_range [OF q(1), of "u + 1"] q(2) by auto
  have po: "payload_ok (en_g e) (en_b e) s1 (en_y1_r e) s0 (en_y0_r e) (en_z_idx e) (en_z_r e)"
    by (rule payload_ok_coders) (use w e(2,3) s idx in \<open>auto simp: enc_fit_def sizes_ok_def latents_bounded_def index_ok_def\<close>)
  from payload_decodes [OF po refl refl refl] obtain bits where
    b: "encode_payload (en_g e) (en_b e) s1 (en_y1_r e) s0 (en_y0_r e) (en_z_idx e) (en_z_r e) = Some (Inr bits)" "4 \<le> length bits"
    by blast
  have l: "length (en_s0 e) = cells (en_y_c e) (en_y_h e) (en_y_w e)" "length (en_s1 e) = cells (en_y_c e) (en_y_h e) (en_y_w e)"
    using w by blast+
  have "enc_payload neon e = Some (Inr bits, e\<lparr>en_s0 := s0, en_s1 := s1\<rparr>)"
    unfolding enc_payload_def x [rule_format, OF l] by (simp add: b)
  moreover have "enc_wf (e\<lparr>en_s0 := s0, en_s1 := s1\<rparr>)" using e(1) s by (simp add: enc_wf_def)
  ultimately show ?thesis using b po x by blast
qed

section \<open>What every picture keeps\<close>

text \<open>A context without the inputs it holds, and the part of a node that no picture changes.\<close>

definition net :: "npu \<Rightarrow> npu" where
  "net n = n\<lparr>np_in := Map.empty\<rparr>"

lemma net_net [simp]: "net (net n) = net n"
  by (simp add: net_def)

lemma npu_sets_net: "npu_sets ivs n = (st, n') \<Longrightarrow> net n' = net n"
proof (induction ivs arbitrary: n)
  case (Cons iv ivs)
  obtain i v where iv: "iv = (i, v)" by force
  have "net (snd (npu_set i v n)) = net n" by (simp add: npu_set_def net_def Let_def)
  then show ?case using Cons by (auto simp: iv split: prod.splits if_splits)
qed simp

lemma set_active_nets:
  assumes "rs_active rs < length (rs_models rs)" "net n = net (rs_models rs ! rs_active rs)"
  shows "map net (rs_models (set_active n rs)) = map net (rs_models rs)"
proof -
  have "map net (rs_models (set_active n rs)) = (map net (rs_models rs))[rs_active rs := net (rs_models rs ! rs_active rs)]"
    by (simp add: set_active_def map_update assms(2))
  also have "\<dots> = (map net (rs_models rs))[rs_active rs := map net (rs_models rs) ! rs_active rs]"
    using assms(1) by simp
  also have "\<dots> = map net (rs_models rs)" by (rule list_update_id)
  finally show ?thesis .
qed

definition enc_static :: "'r encoder \<Rightarrow> 'r encoder" where
  "enc_static e = e\<lparr>en_rs := (en_rs e)\<lparr>rs_models := map net (rs_models (en_rs e)), rs_active := 0\<rparr>, en_x_nhwc := [], en_ref_prev := [],
     en_ref_ltr := [], en_ref_feed := [], en_have_ltr := False, en_z_r := [], en_y0_r := [], en_y1_r := [], en_s0 := [], en_s1 := [],
     en_z_idx := [], en_z_idx_qp := 0, en_iframe_period := 0, en_cur_frame_idx := 0, en_frame_count := 0, en_rc := None,
     en_rc_bitrate := 0\<rparr>"

lemma enc_static_core: "enc_core e' = enc_core e \<Longrightarrow> enc_static e' = enc_static e"
proof -
  have "enc_static e = enc_static (enc_core e)" for e :: "'a encoder" by (simp add: enc_static_def enc_core_def)
  then show "enc_core e' = enc_core e \<Longrightarrow> enc_static e' = enc_static e" by metis
qed

lemma enc_static_fields:
  assumes "enc_static e' = enc_static e"
  shows "en_g e' = en_g e" "en_b e' = en_b e" "en_entropy e' = en_entropy e" "en_qp e' = en_qp e" "en_qrows e' = en_qrows e"
    "en_z_c e' = en_z_c e" "en_z_h e' = en_z_h e" "en_z_w e' = en_z_w e" "en_y_c e' = en_y_c e" "en_y_h e' = en_y_h e" "en_y_w e' = en_y_w e"
    "en_ref_c e' = en_ref_c e" "en_ref_h e' = en_ref_h e" "en_ref_w e' = en_ref_w e" "en_img_w e' = en_img_w e" "en_img_h e' = en_img_h e"
    "en_x_in e' = en_x_in e" "en_ref_in e' = en_ref_in e" "en_feat_out e' = en_feat_out e" "en_z_out e' = en_z_out e"
    "en_y0_out e' = en_y0_out e" "en_y1_out e' = en_y1_out e" "rs_rung_qp (en_rs e') = rs_rung_qp (en_rs e)"
    "map net (rs_models (en_rs e')) = map net (rs_models (en_rs e))"
proof -
  have f: "f e' = f e" if "\<And>e. f e = f (enc_static e)" for f :: "'a encoder \<Rightarrow> 'b"
    using that [of e] that [of e'] assms by metis
  show "en_g e' = en_g e" "en_b e' = en_b e" "en_entropy e' = en_entropy e" "en_qp e' = en_qp e" "en_qrows e' = en_qrows e"
    "en_z_c e' = en_z_c e" "en_z_h e' = en_z_h e" "en_z_w e' = en_z_w e" "en_y_c e' = en_y_c e" "en_y_h e' = en_y_h e" "en_y_w e' = en_y_w e"
    "en_ref_c e' = en_ref_c e" "en_ref_h e' = en_ref_h e" "en_ref_w e' = en_ref_w e" "en_img_w e' = en_img_w e" "en_img_h e' = en_img_h e"
    "en_x_in e' = en_x_in e" "en_ref_in e' = en_ref_in e" "en_feat_out e' = en_feat_out e" "en_z_out e' = en_z_out e"
    "en_y0_out e' = en_y0_out e" "en_y1_out e' = en_y1_out e" "rs_rung_qp (en_rs e') = rs_rung_qp (en_rs e)"
    "map net (rs_models (en_rs e')) = map net (rs_models (en_rs e))"
    by (rule f, simp add: enc_static_def comp_def net_net)+
qed

lemma enc_run_static:
  assumes "enc_run base sp rec u e = (r, e')" "enc_wf e"
  shows "enc_wf e'" "enc_static e' = enc_static e" "en_ref_prev e' = en_ref_prev e" "en_ref_ltr e' = en_ref_ltr e" "en_have_ltr e' = en_have_ltr e"
    "en_z_idx e' = en_z_idx e" "en_z_idx_qp e' = en_z_idx_qp e"
proof -
  obtain x n st where n: "npu_sets ([(nat (en_x_in e), x), (nat (en_ref_in e), enc_feed rec e)] @ row_inputs (en_qrows e) u)
      (rs_models (en_rs e) ! rs_active (en_rs e)) = (st, n)"
    and e': "e' = e\<lparr>en_x_nhwc := x, en_ref_feed := enc_feed rec e, en_rs := set_active n (en_rs e)\<rparr>"
    using enc_run_detail [OF assms(1)] by blast
  have a: "rs_active (en_rs e) < length (rs_models (en_rs e))" using assms(2) by (simp add: enc_wf_def rungs_wf_def)
  have m: "map net (rs_models (set_active n (en_rs e))) = map net (rs_models (en_rs e))"
    by (rule set_active_nets [OF a npu_sets_net [OF n]])
  show "enc_wf e'" using assms(2) by (simp add: e' enc_wf_def enc_feed_def)
  show "enc_static e' = enc_static e" using m by (simp add: e' enc_static_def set_active_def)
  show "en_ref_prev e' = en_ref_prev e" "en_ref_ltr e' = en_ref_ltr e" "en_have_ltr e' = en_have_ltr e"
    "en_z_idx e' = en_z_idx e" "en_z_idx_qp e' = en_z_idx_qp e" by (simp_all add: e')
qed

lemma enc_select_static: "enc_select q e = (u, e') \<Longrightarrow> enc_static e' = enc_static e"
  by (auto simp: enc_select_def enc_static_def Let_def split: if_splits)

lemma enc_clear_static: "enc_static (enc_clear_refs idr e) = enc_static e"
  by (simp add: enc_clear_refs_def enc_static_def)

lemma enc_latents_static: "enc_latents out mark e = (r, e') \<Longrightarrow> enc_static e' = enc_static e"
  unfolding enc_latents_def Let_def by (auto simp: enc_static_def split: if_splits)

lemma record_frame_ok:
  "\<exists>f. record_frame bs input = Inr f \<and> f_data f = Some bs \<and> f_size f = length bs \<and> s_fmt (f_spec f) = Bitstream"
  by (simp add: record_frame_def borrow_host_def default_spec_def min_size_def make_frame_def)

text \<open>What is the same in a node before and after a picture is emitted.\<close>

definition enc_refs :: "'r encoder \<Rightarrow> u16 list \<times> u16 list \<times> bool" where
  "enc_refs e = (en_ref_prev e, en_ref_ltr e, en_have_ltr e)"

definition enc_lat :: "'r encoder \<Rightarrow> int list \<times> int list \<times> int list" where
  "enc_lat e = (en_z_r e, en_y0_r e, en_y1_r e)"

lemma enc_emit_ok:
  assumes "enc_emit rt em input bits u k e = (r, outs, e')" "enc_wf e"
  shows "\<exists>f. outs = [f] \<and> f_data f = Some (enc_packet bits u (rec_flags k) e) \<and> f_size f = length (enc_packet bits u (rec_flags k) e) \<and>
      s_fmt (f_spec f) = Bitstream"
    "(r = Inr ()) = (em = Ok)" "enc_wf e'" "enc_static e' = enc_static e" "enc_refs e' = enc_refs e" "en_frame_count e' = en_frame_count e + 1"
    "enc_lat e' = enc_lat e"
proof -
  let ?p = "enc_packet bits u (rec_flags k) e"
  obtain f where f: "record_frame ?p input = Inr f" "f_data f = Some ?p" "f_size f = length ?p" "s_fmt (f_spec f) = Bitstream"
    using record_frame_ok by blast
  define rc where "rc = map_option (rt_update rt (int (length ?p - length bits) * 8) (int (length bits) * 8)) (en_rc e)"
  have e: "(r, outs, e') = (if em = Ok then Inr () else reject em '''', [if pk_idr k then f\<lparr>f_flags := kFlagKeyframe\<rparr> else f],
      e\<lparr>en_rc := rc, en_frame_count := en_frame_count e + 1, en_cur_frame_idx := (if pk_idr k then 1 else en_cur_frame_idx e + 1)\<rparr>)"
    using assms(1) f(1) by (auto simp: enc_emit_def Let_def rc_def)
  show "\<exists>f. outs = [f] \<and> f_data f = Some ?p \<and> f_size f = length ?p \<and> s_fmt (f_spec f) = Bitstream" using e f by simp
  show "(r = Inr ()) = (em = Ok)" "enc_wf e'" "enc_static e' = enc_static e" "enc_refs e' = enc_refs e" "en_frame_count e' = en_frame_count e + 1"
    "enc_lat e' = enc_lat e"
    using e assms(2) by (auto simp: enc_wf_def enc_static_def enc_refs_def enc_lat_def)
qed

lemma enc_drop_ok:
  assumes "enc_drop em input e = (r, outs, e')" "enc_wf e"
  shows "\<exists>f. outs = [f] \<and> f_data f = Some (write_record 0 kQindexDropped 0) \<and> f_size f = kRecSize \<and> s_fmt (f_spec f) = Bitstream"
    "(r = Inr ()) = (em = Ok)" "enc_wf e'" "enc_static e' = enc_static e" "enc_refs e' = enc_refs e" "en_frame_count e' = en_frame_count e + 1"
    "enc_lat e' = enc_lat e"
proof -
  let ?p = "write_record 0 kQindexDropped 0"
  obtain f where f: "record_frame ?p input = Inr f" "f_data f = Some ?p" "f_size f = length ?p" "s_fmt (f_spec f) = Bitstream"
    using record_frame_ok by blast
  have e: "(r, outs, e') = (if em = Ok then Inr () else reject em '''', [f],
      e\<lparr>en_frame_count := en_frame_count e + 1, en_cur_frame_idx := en_cur_frame_idx e + 1\<rparr>)"
    using assms(1) f(1) by (auto simp: enc_drop_def)
  show "\<exists>f. outs = [f] \<and> f_data f = Some ?p \<and> f_size f = kRecSize \<and> s_fmt (f_spec f) = Bitstream" using e f by simp
  show "(r = Inr ()) = (em = Ok)" "enc_wf e'" "enc_static e' = enc_static e" "enc_refs e' = enc_refs e" "en_frame_count e' = en_frame_count e + 1"
    "enc_lat e' = enc_lat e"
    using e assms(2) by (auto simp: enc_wf_def enc_static_def enc_refs_def enc_lat_def)
qed

text \<open>
  A coded picture: the network ran on the reference \<open>feed\<close> of the encoder \<open>e0\<close> with cleared references,
  its outputs became the latents and the references of \<open>e1\<close>, and \<open>bits\<close> is their payload.
\<close>

definition coded :: "'r encoder \<Rightarrow> picture_kind \<Rightarrow> int \<Rightarrow> 'r encoder \<Rightarrow> (nat \<Rightarrow> u16 list) \<Rightarrow> 'r encoder \<Rightarrow> bytes \<Rightarrow> bool" where
  "coded e0 k u e1 out e2 bits \<longleftrightarrow>
     enc_wf e0 \<and> enc_wf e2 \<and> 0 \<le> u \<and> u < 2 ^ 31 \<and> 4 \<le> length bits \<and>
     en_z_idx e0 = build_z_idx u (unat (en_z_c e0)) (unat (en_z_h e0)) (unat (en_z_w e0)) \<and>
     (\<exists>x n. npu_sets ([(nat (en_x_in e0), x), (nat (en_ref_in e0), enc_feed (pk_recovery k) e0)] @ row_inputs (en_qrows e0) u)
        (rs_models (en_rs e0) ! rs_active (en_rs e0)) = (Ok, n) \<and> npu_run n = (Ok, out)) \<and>
     enc_latents out (pk_mark_ltr k) e1 = (Inr (), e2) \<and> enc_static e1 = enc_static e0 \<and> enc_refs e1 = enc_refs e0 \<and>
     en_z_idx e1 = en_z_idx e0 \<and>
     (\<exists>s0 s1. payload_ok (en_g e2) (en_b e2) s1 (en_y1_r e2) s0 (en_y0_r e2) (en_z_idx e2) (en_z_r e2) \<and>
        encode_payload (en_g e2) (en_b e2) s1 (en_y1_r e2) s0 (en_y0_r e2) (en_z_idx e2) (en_z_r e2) = Some (Inr bits) \<and>
        (\<forall>neon p0 p1. length p0 = cells (en_y_c e2) (en_y_h e2) (en_y_w e2) \<longrightarrow> length p1 = cells (en_y_c e2) (en_y_h e2) (en_y_w e2) \<longrightarrow>
           extract_scales neon (Some (en_z_r e2)) (Some p0) (Some p1) (sint (en_y_c e2)) (sint (en_y_h e2)) (sint (en_y_w e2))
             (sint (en_z_c e2)) (sint (en_z_h e2)) (sint (en_z_w e2)) (ec_channel_repeat (en_entropy e2))
             (ec_spatial_repeat (en_entropy e2)) (ec_scale_max_index (en_entropy e2)) = (Ok, Some s0, Some s1)))"

lemma enc_count: "enc_latents out mark e = (r, e') \<Longrightarrow> en_frame_count e' = en_frame_count e"
  unfolding enc_latents_def Let_def by (auto split: if_splits)

lemma enc_code_ok:
  assumes e: "enc_wf e" "enc_fit e" and q: "0 \<le> q" "q < 2 ^ 31"
  shows "\<exists>r outs e'. enc_code rt neon em input k q e = Some (r, outs, e') \<and> enc_wf e' \<and> enc_static e' = enc_static e \<and>
    (r = Inr () \<longrightarrow> em = Ok \<and> (\<exists>u es e1 out e2 bits f. enc_select q e = (u, es) \<and>
       coded (enc_clear_refs (pk_idr k) es) k u e1 out e2 bits \<and> outs = [f] \<and> s_fmt (f_spec f) = Bitstream \<and>
       f_data f = Some (enc_packet bits u (rec_flags k) e2) \<and> f_size f = length (enc_packet bits u (rec_flags k) e2) \<and>
       en_frame_count e2 = en_frame_count e \<and> enc_static e2 = enc_static e \<and>
       enc_refs e' = enc_refs e2 \<and> enc_lat e' = enc_lat e2 \<and> en_frame_count e' = en_frame_count e + 1))"
proof -
  obtain u es where s: "enc_select q e = (u, es)" by force
  note so = enc_select_ok [OF e(1) q s]
  define e0 where "e0 = enc_clear_refs (pk_idr k) es"
  have e0: "enc_wf e0" "enc_static e0 = enc_static e" "en_z_idx e0 = en_z_idx es"
  proof -
    show "enc_wf e0" unfolding e0_def by (rule enc_clear_wf [OF so(1)])
    show "enc_static e0 = enc_static e" unfolding e0_def using enc_clear_static enc_select_static [OF s] by metis
    show "en_z_idx e0 = en_z_idx es" by (simp add: e0_def enc_clear_refs_def)
  qed
  obtain r1 e1 where run: "enc_run (the (f_data input)) (f_spec input) (pk_recovery k) u e0 = (r1, e1)" by force
  note ro = enc_run_static [OF run e0(1)]
  show ?thesis
  proof (cases r1)
    case (Inl er)
    then have "enc_code rt neon em input k q e = Some (Inl er, [], e1)"
      using run by (simp add: enc_code_def s e0_def [symmetric])
    then show ?thesis using ro(1,2) e0(2) by simp
  next
    case (Inr out)
    obtain r2 e2 where lat: "enc_latents out (pk_mark_ltr k) e1 = (r2, e2)" by force
    note lo = enc_latents_ok [OF lat ro(1)]
    have st2: "enc_static e2 = enc_static e" using enc_latents_static [OF lat] ro(2) e0(2) by simp
    show ?thesis
    proof (cases r2)
      case (Inl er)
      then have "enc_code rt neon em input k q e = Some (Inl er, [], e2)"
        using run lat \<open>r1 = Inr out\<close> by (simp add: enc_code_def s e0_def [symmetric])
      then show ?thesis using lo(1) st2 by simp
    next
      case (Inr un)
      note st = enc_static_fields [OF st2]
      have fit: "enc_fit e2" using e(2) st by (simp add: enc_fit_def)
      have zi: "en_z_idx e2 = build_z_idx u (unat (en_z_c e2)) (unat (en_z_h e2)) (unat (en_z_w e2))"
        using lo(3) ro(6) e0(3) so(4) st by simp
      obtain bits s0 s1 where p: "enc_payload neon e2 = Some (Inr bits, e2\<lparr>en_s0 := s0, en_s1 := s1\<rparr>)" "4 \<le> length bits"
        "enc_wf (e2\<lparr>en_s0 := s0, en_s1 := s1\<rparr>)"
        and po: "payload_ok (en_g e2) (en_b e2) s1 (en_y1_r e2) s0 (en_y0_r e2) (en_z_idx e2) (en_z_r e2)"
        "encode_payload (en_g e2) (en_b e2) s1 (en_y1_r e2) s0 (en_y0_r e2) (en_z_idx e2) (en_z_r e2) = Some (Inr bits)"
        and sc: "\<forall>neon p0 p1. length p0 = cells (en_y_c e2) (en_y_h e2) (en_y_w e2) \<longrightarrow> length p1 = cells (en_y_c e2) (en_y_h e2) (en_y_w e2) \<longrightarrow>
           extract_scales neon (Some (en_z_r e2)) (Some p0) (Some p1) (sint (en_y_c e2)) (sint (en_y_h e2)) (sint (en_y_w e2))
             (sint (en_z_c e2)) (sint (en_z_h e2)) (sint (en_z_w e2)) (ec_channel_repeat (en_entropy e2))
             (ec_spatial_repeat (en_entropy e2)) (ec_scale_max_index (en_entropy e2)) = (Ok, Some s0, Some s1)"
        using enc_payload_ok [OF lo(1) fit lo(2) so(2) zi, OF Inr, of neon] by blast
      let ?e3 = "e2\<lparr>en_s0 := s0, en_s1 := s1\<rparr>"
      obtain r outs e' where em: "enc_emit rt em input bits u k ?e3 = (r, outs, e')" by (metis prod_cases3)
      note eo = enc_emit_ok [OF em p(3)]
      have run_all: "enc_code rt neon em input k q e = Some (r, outs, e')"
        using run lat \<open>r1 = Inr out\<close> Inr p(1) em by (simp add: enc_code_def s e0_def [symmetric])
      have st3: "enc_static ?e3 = enc_static e2" "enc_refs ?e3 = enc_refs e2" "enc_lat ?e3 = enc_lat e2" "enc_packet bits u fl ?e3 = enc_packet bits u fl e2" for fl
        by (simp_all add: enc_static_def enc_refs_def enc_lat_def enc_packet_def enc_header_def)
      have cnt: "en_frame_count e2 = en_frame_count e"
        using enc_count [OF lat] enc_run_detail [OF run] so(5) by (auto simp: e0_def enc_clear_refs_def)
      have "coded e0 k u e1 out e2 bits"
        unfolding coded_def
      proof (intro conjI)
        show "\<exists>x n. npu_sets ([(nat (en_x_in e0), x), (nat (en_ref_in e0), enc_feed (pk_recovery k) e0)] @ row_inputs (en_qrows e0) u)
          (rs_models (en_rs e0) ! rs_active (en_rs e0)) = (Ok, n) \<and> npu_run n = (Ok, out)"
          using enc_run_detail [OF run] \<open>r1 = Inr out\<close> by blast
        show "en_z_idx e0 = build_z_idx u (unat (en_z_c e0)) (unat (en_z_h e0)) (unat (en_z_w e0))"
          using so(4) e0(3) enc_static_fields [OF e0(2)] by simp
        show "enc_static e1 = enc_static e0" "enc_refs e1 = enc_refs e0" "en_z_idx e1 = en_z_idx e0"
          using ro by (simp_all add: enc_refs_def)
        show "enc_latents out (pk_mark_ltr k) e1 = (Inr (), e2)" using lat Inr by simp
        show "\<exists>s0 s1. payload_ok (en_g e2) (en_b e2) s1 (en_y1_r e2) s0 (en_y0_r e2) (en_z_idx e2) (en_z_r e2) \<and>
          encode_payload (en_g e2) (en_b e2) s1 (en_y1_r e2) s0 (en_y0_r e2) (en_z_idx e2) (en_z_r e2) = Some (Inr bits) \<and>
          (\<forall>neon p0 p1. length p0 = cells (en_y_c e2) (en_y_h e2) (en_y_w e2) \<longrightarrow> length p1 = cells (en_y_c e2) (en_y_h e2) (en_y_w e2) \<longrightarrow>
             extract_scales neon (Some (en_z_r e2)) (Some p0) (Some p1) (sint (en_y_c e2)) (sint (en_y_h e2)) (sint (en_y_w e2))
               (sint (en_z_c e2)) (sint (en_z_h e2)) (sint (en_z_w e2)) (ec_channel_repeat (en_entropy e2))
               (ec_spatial_repeat (en_entropy e2)) (ec_scale_max_index (en_entropy e2)) = (Ok, Some s0, Some s1))"
          by (rule exI [of _ s0], rule exI [of _ s1]) (intro conjI po sc)
      qed (use e0(1) lo(1) so(2,3) p(2) in blast)+
      moreover obtain f where "outs = [f]" "f_data f = Some (enc_packet bits u (rec_flags k) ?e3)"
        "f_size f = length (enc_packet bits u (rec_flags k) ?e3)" "s_fmt (f_spec f) = Bitstream"
        using eo(1) by blast
      ultimately have "\<exists>u es e1 out e2 bits f. enc_select q e = (u, es) \<and>
         coded (enc_clear_refs (pk_idr k) es) k u e1 out e2 bits \<and> outs = [f] \<and> s_fmt (f_spec f) = Bitstream \<and>
         f_data f = Some (enc_packet bits u (rec_flags k) e2) \<and> f_size f = length (enc_packet bits u (rec_flags k) e2) \<and>
         en_frame_count e2 = en_frame_count e \<and> enc_static e2 = enc_static e \<and>
         enc_refs e' = enc_refs e2 \<and> enc_lat e' = enc_lat e2 \<and> en_frame_count e' = en_frame_count e + 1"
        using s e0_def eo(5-7) cnt st2 st3
        by - (rule exI [of _ u], rule exI [of _ es], rule exI [of _ e1], rule exI [of _ out], rule exI [of _ e2],
          rule exI [of _ bits], rule exI [of _ f], simp)
      then show ?thesis using run_all eo(2-4) st2 st3(1) by auto
    qed
  qed
qed

lemma enc_process_ok:
  assumes e: "enc_wf e" "enc_fit e" "0 \<le> en_qp e" "en_qp e \<le> 63" and rt: "rate_ok rt"
  shows "\<exists>r outs e'. enc_process rt neon em input e = Some (r, outs, e') \<and> enc_wf e' \<and> enc_static e' = enc_static e"
proof (cases input)
  case None
  then show ?thesis using e(1) by (simp add: enc_process_def)
next
  case (Some f)
  obtain r1 e1 where t: "enc_retune rt (f_encode f) e = (r1, e1)" by force
  define k where "k = picture_kind_of (ec_force_idr (f_encode f)) e1"
  obtain q e2 where s: "enc_solve rt k e1 = (q, e2)" by force
  have core: "enc_core e1 = enc_core e" "enc_core e2 = enc_core e"
    using enc_retune_core [OF t] enc_solve_core [OF s] by simp_all
  have wf: "enc_wf e1" "enc_wf e2" using core e(1) enc_wf_core by metis+
  have st: "enc_static e1 = enc_static e" "enc_static e2 = enc_static e" using core enc_static_core by blast+
  have fit: "enc_fit e2" using e(2) enc_static_fields [OF st(2)] by (simp add: enc_fit_def)
  have qp: "0 \<le> en_qp e1" "en_qp e1 \<le> 63" using e(3,4) enc_static_fields [OF st(1)] by simp_all
  have "\<exists>r outs e'. (case q of None \<Rightarrow> Some (enc_drop em f e2) | Some q \<Rightarrow> enc_code rt neon em f k q e2) = Some (r, outs, e') \<and>
      enc_wf e' \<and> enc_static e' = enc_static e"
  proof (cases q)
    case None
    obtain r outs e' where "enc_drop em f e2 = (r, outs, e')" by (metis prod_cases3)
    then show ?thesis using enc_drop_ok(3,4) [OF _ wf(2)] None st(2) by fastforce
  next
    case (Some v)
    have "0 \<le> v" "v < 2 ^ 31" using enc_solve_range [OF s [unfolded Some] rt qp] by simp_all
    from enc_code_ok [OF wf(2) fit this, of rt neon em f k] show ?thesis using Some st(2) by auto
  qed
  moreover have "enc_process rt neon em (Some f) e = Some (reject Format ''NV12 host input only'', [], e) \<or>
      enc_process rt neon em (Some f) e = Some (reject Format ''geometry mismatch'', [], e) \<or>
      (\<exists>er. enc_process rt neon em (Some f) e = Some (Inl er, [], e1)) \<or>
      enc_process rt neon em (Some f) e = (case q of None \<Rightarrow> Some (enc_drop em f e2) | Some q \<Rightarrow> enc_code rt neon em f k q e2)"
    using t s by (auto simp: enc_process_def Let_def k_def split: sum.splits option.splits)
  ultimately show ?thesis using Some e(1) wf(1) st(1) by metis
qed

end
