(* ===== verification/Mlvc_Claims.thy ===== *)
theory Mlvc_Claims imports Mlvc_Sync begin

text \<open>
  The neural encoder node as its client sees it: the calls that can follow a successful \<open>bind_model\<close>, and the theorem that
  none of them ever leaves the tables, tensors and buffers the node has. The small network at the end is the concrete
  model on which the theorem is applied.
\<close>

section \<open>The life of an encoder\<close>

text \<open>The calls on a node after its model has been bound.\<close>

inductive enc_reach :: "'r rate_ops \<Rightarrow> 'r encoder \<Rightarrow> 'r encoder \<Rightarrow> bool" for rt e0 where
  reach_bound: "enc_reach rt e0 e0"
| reach_open: "enc_reach rt e0 e \<Longrightarrow> enc_open emit e = (r, e') \<Longrightarrow> enc_reach rt e0 e'"
| reach_process: "enc_reach rt e0 e \<Longrightarrow> enc_process rt neon em input e = Some (r, outs, e') \<Longrightarrow> enc_reach rt e0 e'"
| reach_flush: "enc_reach rt e0 e \<Longrightarrow> enc_flush e = (r, e') \<Longrightarrow> enc_reach rt e0 e'"

definition enc_ready :: "'r encoder \<Rightarrow> bool" where
  "enc_ready e \<longleftrightarrow> enc_wf e \<and> enc_fit e \<and> 0 \<le> en_qp e \<and> en_qp e \<le> 63"

lemma enc_entropy_qp: "enc_entropy e = (r, e') \<Longrightarrow> en_qp e' = en_qp e"
  by (auto simp: enc_entropy_def enc_buffers_def Let_def split: prod.splits sum.splits)

lemma enc_tensors_qp: "enc_tensors e = (r, e') \<Longrightarrow> en_qp e' = en_qp e"
  unfolding enc_tensors_def enc_geometry_def Let_def
  by (auto simp: enc_find_def enc_dims_def split: if_splits dest!: enc_entropy_qp)

lemma enc_bind_qp:
  assumes "enc_bind_model m e = (Inr u, e')"
  shows "0 \<le> en_qp e' \<and> en_qp e' \<le> 63"
proof -
  define q where "q = (if ql_qp (en_quality e) \<ge> 0 then ql_qp (en_quality e) else kDefaultQp)"
  have q: "0 \<le> q" by (simp add: q_def kDefaultQp_def)
  have ok: "q \<le> 63" "md_role m = ''encoder''" using assms by (auto simp: enc_bind_model_def Let_def q_def split: if_splits)
  obtain g c cfg where c: "init_rans_coders m (en_entropy e) = Inr (g, c, cfg)"
    using assms ok by (cases "init_rans_coders m (en_entropy e)") (auto simp: enc_bind_model_def Let_def q_def split: if_splits)
  let ?e = "e\<lparr>en_qp := q, en_g := g, en_b := c, en_entropy := cfg, en_rans_ready := True\<rparr>"
  have b: "enc_bind_rungs m ?e = (Inr u, e')"
    using assms ok by (simp add: enc_bind_model_def Let_def q_def c split: if_splits)
  obtain rungs rs where r: "collect_rungs m (en_qp ?e) = Inr rungs" "init_rungs m rungs (en_make ?e) = (Inr (), rs)"
    using b by (auto simp: enc_bind_rungs_def split: prod.splits sum.splits)
  obtain tab qr where "setup_qrows m (rs_models rs ! rs_active rs) (en_qptab ?e) = (Inr (), tab, qr)"
    using b r by (auto simp: enc_bind_rungs_def Let_def split: prod.splits sum.splits)
  then have "enc_tensors (?e\<lparr>en_rs := rs, en_qptab := tab, en_qrows := qr\<rparr>) = (Inr u, e')"
    using b r by (auto simp: enc_bind_rungs_def Let_def split: if_splits)
  from enc_tensors_qp [OF this] q ok show ?thesis by simp
qed

lemma enc_ready_static: "enc_static e' = enc_static e \<Longrightarrow> enc_wf e' \<Longrightarrow> enc_ready e \<Longrightarrow> enc_ready e'"
  using enc_static_fields [of e' e] by (simp add: enc_ready_def enc_fit_def)

lemma enc_process_ready:
  assumes "enc_ready e" "rate_ok rt"
  obtains r outs e' where "enc_process rt neon em input e = Some (r, outs, e')" "enc_ready e'"
  using enc_process_ok [of e rt neon em input] assms enc_ready_static unfolding enc_ready_def by metis

lemma enc_open_ready: "enc_open emit e = (r, e') \<Longrightarrow> enc_ready e \<Longrightarrow> enc_ready e'"
  by (auto simp: enc_open_def enc_ready_def enc_wf_def enc_fit_def split: if_splits)

lemma enc_reach_ready:
  assumes "enc_reach rt e0 e" "enc_ready e0" "rate_ok rt"
  shows "enc_ready e"
  using assms
proof (induction rule: enc_reach.induct)
  case (reach_open e emit r e')
  then show ?case using enc_open_ready by blast
next
  case (reach_process e neon em input r outs e')
  then show ?case using enc_process_ready [of e rt neon em input] by fastforce
next
  case (reach_flush e r e')
  then show ?case by (simp add: enc_flush_def)
qed

text \<open>
  A small network, whose feature is always 1 and whose latents are 0, and a model that binds it.
\<close>

definition sample_enc_npu :: npu where
  "sample_enc_npu =
     \<lparr>np_inputs = [\<lparr>ti_name = ''x'', ti_dims = [1, 2, 2, 3]\<rparr>, \<lparr>ti_name = ''ref_feature'', ti_dims = [1, 1, 1, 1]\<rparr>],
      np_outputs = [\<lparr>ti_name = ''feature'', ti_dims = [1, 1, 1, 1]\<rparr>, \<lparr>ti_name = ''z_raw'', ti_dims = [1, 2, 1, 1]\<rparr>,
        \<lparr>ti_name = ''y_raw_0'', ti_dims = [1, 1, 1, 2]\<rparr>, \<lparr>ti_name = ''y_raw_1'', ti_dims = [1, 1, 1, 2]\<rparr>],
      np_set = (\<lambda>i v. Ok), np_run = (\<lambda>ins. (Ok, \<lambda>i. if i = 0 then [0x3C00] else [0, 0])), np_in = Map.empty\<rparr>"

definition sample_maker :: "npu \<Rightarrow> npu_maker" where
  "sample_maker n = (\<lambda>i. Some (\<lambda>base patch qp. Inr n))"

definition sample_quality :: quality where
  "sample_quality = \<lparr>ql_bitrate_bps = 0, ql_qp = 0, ql_gop_size = 0, ql_fps = 30, ql_ltr_period = 0, ql_ltr_start_idx = 0\<rparr>"

lemma sample_role: "md_role (sample_model role ps) = role"
  by (simp add: sample_model_def)

lemma sample_rungs:
  "collect_rungs (sample_model role []) 0 = Inr [0]"
  "init_rungs (sample_model role []) [0] (sample_maker n) = (Inr (), \<lparr>rs_models = [n], rs_rung_qp = [0], rs_active = 0\<rparr>)"
  by (simp_all add: collect_rungs_def init_rungs_def sample_model_def model_find_def kKindRknn_def kKindQppatch_def
      kKindPmfGaussian_def kKindPmfBitest_def sample_maker_def Let_def)

lemma sample_enc_found:
  "setup_qrows m sample_enc_npu tab = (Inr (), tab, no_rows)"
  "find_input (np_inputs sample_enc_npu) ''x'' = 0" "find_input (np_inputs sample_enc_npu) ''ref_feature'' = 1"
  "find_input (np_outputs sample_enc_npu) ''feature'' = 0" "find_input (np_outputs sample_enc_npu) ''z_raw'' = 1"
  "find_input (np_outputs sample_enc_npu) ''y_raw_0'' = 2" "find_input (np_outputs sample_enc_npu) ''y_raw_1'' = 3"
  by (simp_all add: setup_qrows_def is_qrow_def sample_enc_npu_def find_input_def)

definition sample_found :: "'r encoder \<Rightarrow> 'r encoder" where
  "sample_found e = e\<lparr>en_x_in := 0, en_ref_in := 1, en_feat_out := 0, en_z_out := 1, en_y0_out := 2, en_y1_out := 3\<rparr>"

definition sample_sized :: "'r encoder \<Rightarrow> 'r encoder" where
  "sample_sized e = enc_dims [1, 2, 2, 3] [1, 1, 1, 1] [1, 2, 1, 1] [1, 1, 1, 2] (sample_found e)"

lemma sample_find: "enc_find (np_inputs sample_enc_npu) (np_outputs sample_enc_npu) e = sample_found e"
  by (simp add: enc_find_def sample_enc_found sample_found_def)

lemma sample_found_sel [simp]:
  "en_x_in (sample_found e) = 0" "en_ref_in (sample_found e) = 1" "en_feat_out (sample_found e) = 0" "en_z_out (sample_found e) = 1"
  "en_y0_out (sample_found e) = 2" "en_y1_out (sample_found e) = 3"
  by (simp_all add: sample_found_def)

lemma sample_sized_sel [simp]:
  "en_img_w (sample_sized e) = 2" "en_img_h (sample_sized e) = 2" "en_z_c (sample_sized e) = 2" "en_z_h (sample_sized e) = 1"
  "en_z_w (sample_sized e) = 1" "en_y_c (sample_sized e) = 1" "en_y_h (sample_sized e) = 1" "en_y_w (sample_sized e) = 2"
  "en_entropy (sample_sized e) = en_entropy e" "en_qp (sample_sized e) = en_qp e" "en_g (sample_sized e) = en_g e"
  "en_b (sample_sized e) = en_b e" "en_rans_ready (sample_sized e) = en_rans_ready e"
  by (simp_all add: sample_sized_def sample_found_def enc_dims_def)

lemma sample_dims:
  "ti_dims (np_inputs sample_enc_npu ! 0) = [1, 2, 2, 3]" "ti_dims (np_inputs sample_enc_npu ! Suc 0) = [1, 1, 1, 1]"
  "ti_dims (np_outputs sample_enc_npu ! 0) = [1, 1, 1, 1]" "ti_dims (np_outputs sample_enc_npu ! Suc 0) = [1, 2, 1, 1]"
  "ti_dims (np_outputs sample_enc_npu ! 2) = [1, 1, 1, 2]"
  by (simp_all add: sample_enc_npu_def)

lemma sample_tensors:
  assumes "rs_models (en_rs e) ! rs_active (en_rs e) = sample_enc_npu"
  shows "enc_tensors e = enc_entropy (sample_sized e)"
  unfolding enc_tensors_def Let_def assms sample_find
  by (simp add: enc_geometry_def Let_def sample_dims elems_def dim_def flip: sample_sized_def)

lemma sample_entropy:
  assumes "en_entropy e = no_entropy\<lparr>ec_scale_max_index := 1, ec_qp_num := 1, ec_z_channels := 2\<rparr>" "en_qp e = 0"
    "small_offsets (en_g e)" "small_offsets (en_b e)" "en_rans_ready e"
  shows "\<exists>e'. enc_entropy (sample_sized e) = (Inr (), e') \<and> enc_fit e' \<and> en_rans_ready e'"
proof -
  have "resolve_entropy_geometry (en_entropy e) 0 2 1 1 1 1 2 =
      (Inr (), (en_entropy e)\<lparr>ec_channel_repeat := 2, ec_spatial_repeat := 8\<rparr>)"
    by (simp add: assms(1) resolve_entropy_geometry_def ceil_div_def no_entropy_def Let_def)
  then have "enc_entropy (sample_sized e) =
      (Inr (), enc_buffers ((sample_sized e)\<lparr>en_entropy := (en_entropy e)\<lparr>ec_channel_repeat := 2, ec_spatial_repeat := 8\<rparr>\<rparr>))"
    by (simp add: enc_entropy_def assms(2))
  moreover have "enc_fit (enc_buffers ((sample_sized e)\<lparr>en_entropy := x\<rparr>)) \<and>
      en_rans_ready (enc_buffers ((sample_sized e)\<lparr>en_entropy := x\<rparr>))" for x
    using assms(3-5) by (simp add: enc_fit_def enc_buffers_def sizes_ok_def cells_def Let_def)
  ultimately show ?thesis by blast
qed

lemma sample_bind_rungs:
  assumes "en_qp e = 0" "en_make e = sample_maker sample_enc_npu"
  shows "enc_bind_rungs (sample_model ''encoder'' []) e =
    enc_tensors (e\<lparr>en_rs := \<lparr>rs_models = [sample_enc_npu], rs_rung_qp = [0], rs_active = 0\<rparr>, en_qptab := en_qptab e, en_qrows := no_rows\<rparr>)"
proof -
  have "qr_present no_rows = False" by (simp add: no_rows_def)
  then show ?thesis unfolding enc_bind_rungs_def assms sample_rungs Let_def by (simp add: sample_enc_found assms sample_rungs)
qed

lemma sample_bound:
  "\<exists>e. enc_bind_model (sample_model ''encoder'' []) (new_mlvc_encoder sample_quality (sample_maker sample_enc_npu) :: unit encoder) = (Inr (), e) \<and>
     enc_fit e \<and> en_rans_ready e"
proof -
  let ?e0 = "new_mlvc_encoder sample_quality (sample_maker sample_enc_npu) :: unit encoder"
  let ?cfg = "no_entropy\<lparr>ec_scale_max_index := 1, ec_qp_num := 1, ec_z_channels := 2\<rparr>"
  have n: "en_quality ?e0 = sample_quality" "en_entropy ?e0 = no_entropy" "en_make ?e0 = sample_maker sample_enc_npu"
    "ql_qp sample_quality = 0" by (simp_all add: new_mlvc_encoder_def sample_quality_def)
  obtain g b where c: "init_rans_coders (sample_model ''encoder'' []) no_entropy = Inr (g, b, ?cfg)" "small_offsets g" "small_offsets b"
    using sample_offsets by blast
  define e1 where "e1 = ?e0\<lparr>en_qp := 0, en_g := g, en_b := b, en_entropy := ?cfg, en_rans_ready := True\<rparr>"
  have m: "enc_bind_model (sample_model ''encoder'' []) ?e0 = enc_bind_rungs (sample_model ''encoder'' []) e1"
    unfolding enc_bind_model_def sample_role Let_def e1_def using c(1) by (simp add: n)
  have s: "en_qp e1 = 0" "en_make e1 = sample_maker sample_enc_npu" "en_entropy e1 = ?cfg" "en_g e1 = g" "en_b e1 = b" "en_rans_ready e1"
    by (simp_all add: e1_def n)
  define e2 where "e2 = e1\<lparr>en_rs := \<lparr>rs_models = [sample_enc_npu], rs_rung_qp = [0], rs_active = 0\<rparr>, en_qptab := en_qptab e1, en_qrows := no_rows\<rparr>"
  have s2: "en_qp e2 = 0" "en_entropy e2 = ?cfg" "en_g e2 = g" "en_b e2 = b" "en_rans_ready e2" "rs_models (en_rs e2) ! rs_active (en_rs e2) = sample_enc_npu"
    by (simp_all add: e2_def s)
  show ?thesis unfolding m sample_bind_rungs [OF s(1,2)] e2_def [symmetric] sample_tensors [OF s2(6)]
    by (rule sample_entropy [OF s2(2,1)]) (simp_all add: s2 c)
qed

definition sample_rate :: "unit rate_ops" where
  "sample_rate = \<lparr>rt_create = (\<lambda>w h b f. Inr ()), rt_configure = (\<lambda>b r. r), rt_solve = (\<lambda>n f t b r. (10, r)), rt_update = (\<lambda>h p r. r)\<rparr>"

lemma sample_rate_ok: "rate_ok sample_rate"
  by (simp add: rate_ok_def sample_rate_def)



end
