(* ===== verification/Spec2Isabelle.thy ===== *)
theory Spec2Isabelle
  imports Rans_Claims Download_Copy Session_Model Ps_Claims Sha256 Mlvc_Claims
begin

text \<open>
  A model of rockchip-video-codec, the \<open>rkvc\<close> pipeline library and its codec plugins (C++), with the
  theorems that make its parts correct.

  \<^bold>\<open>The program.\<close> A client describes a job with a \<open>Request\<close> (operation, codec, end points, media
  specifications). A \<open>Context\<close> holds the registry of node factories, the models and the capabilities
  of the device, and plans the job: a chain of stages, each with its ranked candidates. \<open>Session::create\<close>
  turns the plan into a \<open>Graph\<close>: the nodes are made, download bridges are spliced in where a device
  buffer meets a host consumer, the edge formats are negotiated with \<open>unify\<close>, the nodes are
  configured, and models are bound; a failure advances the plan to the next candidate. The \<open>Executor\<close>
  runs one worker per node over bounded queues of frames. The codec plugins are nodes; the neural codec
  \<open>mlvc\<close> adds an entropy coder (rANS), a stream container, table files and tensor conversions, and the
  program stream packer \<open>pspack\<close> multiplexes its access units.

  \<^bold>\<open>Where the parts are.\<close> Paths are below \<open>src/\<close>.
  \<^item> \<open>Prelude\<close>: words, buffers and little-endian codecs that all theories share; \<open>Status\<close>:
    \<open>core/include/rkvc/status.hpp\<close>, \<open>result.hpp\<close>, \<open>diag.hpp\<close>. \<open>Result<T>\<close> is the sum \<open>'a result\<close>.
  \<^item> \<open>Rans\<close> (the definitions of \<open>codecs/mlvc/src/rans.cpp\<close>), \<open>Ans_Core\<close> (the abstract coder, a locale
    interpreted on both renormalisation variants), \<open>Rans_Tables\<close>, \<open>Rans_Encoder\<close>, \<open>Rans_Decoder\<close>,
    \<open>Rans_Bypass\<close>, \<open>Rans_Create\<close>, \<open>Rans_Roundtrip\<close>, \<open>Rans_Claims\<close>: the multiply-and-shift symbol step
    is the arithmetic one, escapes are prefix codes, tables built by \<open>RansCoder::create\<close> satisfy the
    invariant the coder needs, and decoding inverts encoding.
  \<^item> \<open>Container\<close>: \<open>codecs/mlvc/src/container.cpp\<close>, headers, records and the streaming demuxer.
  \<^item> \<open>Table_Files\<close>: \<open>pmf.cpp\<close> and \<open>qptab.cpp\<close>; \<open>Qp_Patch\<close>: \<open>qppatch.cpp\<close>; \<open>Half_Float\<close>: the
    conversions of \<open>pixel.hpp\<close>, which round to nearest; \<open>Tensor_Layout\<close>, \<open>Tensor_Half\<close>, \<open>Tensor_Planes\<close>:
    the layouts, the scale expansion and the picture planes of \<open>pixel.cpp\<close>, scalar and NEON paths side by
    side. Single-precision numbers are their bit patterns.
  \<^item> \<open>Mlvc_Bind\<close>: \<open>codec.cpp\<close>, what is taken from a model (coders, rungs, quantiser rows, geometry);
    \<open>Mlvc_Payload\<close>: the entropy-coded payload of a picture and its round trip; \<open>Mlvc_Encoder\<close> and
    \<open>Mlvc_Decoder\<close>: the state and the steps of \<open>encoder.cpp\<close> and \<open>decoder.cpp\<close>; \<open>Mlvc_Sync\<close>: the invariants that
    binding establishes and every call keeps; \<open>Mlvc_Claims\<close>: the encoder's life as its client drives it. The network is a
    value of the type \<open>npu\<close>, the rate controller a record of its four functions.
  \<^item> \<open>Media_Spec\<close> and \<open>Media_Frame\<close>: \<open>core/src/spec.cpp\<close>, \<open>frame.cpp\<close>; \<open>unify\<close>, between known formats, is
    the least upper bound of the information order; sizes and planes.
  \<^item> \<open>Registry_Model\<close> and \<open>Planner\<close>: \<open>registry.cpp\<close>, \<open>request.cpp\<close>, \<open>context.cpp\<close>; ranking of the
    candidates, plans, advancing a plan.
  \<^item> \<open>Graph_Build\<close>, \<open>Graph_Claims\<close>, \<open>Download_Copy\<close>: \<open>core/src/graph.cpp\<close> and \<open>node.cpp\<close>; the classes
    of the plugin nodes are the parameter \<open>vt\<close>, a function from the node's name to its operations.
  \<^item> \<open>Bounded_Queue\<close>: \<open>core/include/rkvc/queue.hpp\<close> as a step relation over its critical sections, with
    the first-in-first-out channel as a locale interpreted on it; \<open>Pipeline_Executor\<close>: \<open>executor.cpp\<close>,
    one event per critical section: recording an error, each cancellation of \<open>fail\<close> and of \<open>shutdown\<close>, the end
    of a queue and the exit of a worker are events of their own, and an invariant says which cancellations are still under way;
    \<open>Executor_Claims\<close>: what holds in every interleaving; \<open>Session_Model\<close>: \<open>session.cpp\<close>.
  \<^item> \<open>Ps_Model\<close>, \<open>Ps_Bits\<close>, \<open>Ps_Claims\<close>: \<open>codecs/pspack/src/ps.cpp\<close>.
  \<^item> \<open>Sha256\<close>: \<open>core/src/sha256.cpp\<close> against FIPS 180-4.

  \<^bold>\<open>Conventions.\<close> Unsigned fields of 8 to 64 bits are words and wrap; \<open>int32_t\<close> values are integers where
  the code cannot overflow them; \<open>size_t\<close> is a natural number, or a 64-bit word where the wrap-around
  matters. Buffers are lists, null pointers are \<open>None\<close>. A store through a pointer is a list update, and the
  statements show its index to be inside the buffer. Errors are values. Loops are structural recursions,
  \<open>function\<close> with a measure, or folds; no definition needs fuel except where its argument counts the turns
  of the code's own loop, so every operation is total. The text of a diagnostic is kept as the reason string.

  \<^bold>\<open>Bounds.\<close> The entropy coder is proved for every table of the 64-bit variant and for scales up to 23 bits
  of the byte variant (callers pass 16; lemmas of \<open>Rans_Claims\<close> show what happens at 30 and 31 bits); \<open>Session::create\<close> tries at most eight fallbacks, as
  the code does.

  \<^bold>\<open>Not modelled.\<close> The hardware codecs (Rockchip MPP, SVT-AV1) and the RKNN runtime are libraries outside the
  repository, and the nodes around them are glue whose effect is that library's; graphs take them as
  the parameter \<open>vt\<close>. Allocation failures are modelled where the code recovers from them and not in the
  node factories. Dynamic loading of plugins, the model directory, device files and clocks belong to the operating system. The
  super-resolution kernels and the rate controller work on floating-point numbers throughout; the encoder is
  proved for every rate controller that answers a quantiser from 0 to 63 or a drop. The C interface and the command line marshal
  arguments. Tools, tests and examples are not part of the library.
\<close>

end
